(* ===== verification/Prelude.thy ===== *)
theory Prelude
  imports Main "HOL-Library.Word" "HOL-Library.Multiset"
begin

text \<open>
  Shared vocabulary of the development: the C integer types of the LP64 target
  (\<open>unsigned char\<close>, \<open>uint32\<close>, \<open>unsigned long\<close>, ...) as words, the status codes
  the modelled files return, NUL-terminated strings as character lists read with
  \<open>peek\<close>, positional (Horner) values of digit lists and of little-endian limb lists,
  and the generic lemmas on lists and words that the component theories share.
\<close>

unbundle bit_operations_syntax

named_theorems c_defs \<open>definitions of small C library helpers that proofs unfold\<close>
named_theorems radix_simps \<open>rewriting of positional values\<close>

subsection \<open>C types and status codes\<close>

type_synonym uint8 = "8 word"
type_synonym uint16 = "16 word"
type_synonym uint32 = "32 word"
type_synonym uint64 = "64 word"

text \<open>
  The error values are those of \<^verbatim>\<open>headers/os/support/Errors.h\<close>. POSIX names are aliases
  there: \<^verbatim>\<open>EINVAL\<close> is \<^verbatim>\<open>B_BAD_VALUE\<close>, \<^verbatim>\<open>ENOENT\<close> is \<^verbatim>\<open>B_ENTRY_NOT_FOUND\<close>.
\<close>

datatype status =
    B_OK | B_ERROR | B_NO_MEMORY | B_IO_ERROR | B_BAD_VALUE | B_ENTRY_NOT_FOUND | B_NO_INIT
  | B_BAD_ADDRESS | B_BAD_TEAM_ID | B_NAME_NOT_FOUND | B_TIMEOUT | B_DEVICE_FULL | ERANGE | EAFNOSUPPORT | ENOBUFS

abbreviation EINVAL :: status where "EINVAL \<equiv> B_BAD_VALUE"
abbreviation ENOENT :: status where "ENOENT \<equiv> B_ENTRY_NOT_FOUND"
abbreviation ENOSPC :: status where "ENOSPC \<equiv> B_DEVICE_FULL"

subsection \<open>NUL-terminated strings\<close>

text \<open>
  A C string is the list of its characters before the terminator. A pointer into it is the
  suffix it points at, so that \<open>p[i]\<close> is \<open>peek p i\<close>, which is NUL at the terminator, and
  \<open>p++\<close> takes the tail.
\<close>

definition NUL :: char where "NUL = char_of (0 :: nat)"

definition peek :: "string \<Rightarrow> nat \<Rightarrow> char" where
  "peek s i = (if i < length s then s ! i else NUL)"

abbreviation code :: "char \<Rightarrow> nat" where "code c \<equiv> of_char c"

definition c_isspace :: "char \<Rightarrow> bool" where
  [c_defs]: "c_isspace c \<longleftrightarrow> code c = 32 \<or> (9 \<le> code c \<and> code c \<le> 13)"

definition c_isdigit :: "char \<Rightarrow> bool" where
  [c_defs]: "c_isdigit c \<longleftrightarrow> 48 \<le> code c \<and> code c \<le> 57"

definition c_islower :: "char \<Rightarrow> bool" where
  [c_defs]: "c_islower c \<longleftrightarrow> 97 \<le> code c \<and> code c \<le> 122"

definition c_isxdigit :: "char \<Rightarrow> bool" where
  [c_defs]: "c_isxdigit c \<longleftrightarrow> c_isdigit c \<or> (65 \<le> code c \<and> code c \<le> 70)
     \<or> (97 \<le> code c \<and> code c \<le> 102)"

definition c_isascii :: "char \<Rightarrow> bool" where
  [c_defs]: "c_isascii c \<longleftrightarrow> code c < 128"

lemma peek_Nil [simp]: "peek [] i = NUL"
  by (simp add: peek_def)

lemma peek_Cons_0 [simp]: "peek (c # s) 0 = c"
  by (simp add: peek_def)

lemma peek_Cons_Suc [simp]: "peek (c # s) (Suc i) = peek s i"
  by (simp add: peek_def)

lemma code_NUL [simp]: "code NUL = (0::nat)"
  by (simp add: NUL_def)

lemma NUL_eq_iff: "NUL = c \<longleftrightarrow> (code c :: nat) = 0" "c = NUL \<longleftrightarrow> (code c :: nat) = 0"
  by (metis code_NUL of_char_eq_iff)+

lemma code_less_256: "(code c :: nat) < 256"
  by (metis of_char_mod_256 mod_less_divisor zero_less_numeral)

lemma code_eq_iff: "(c :: char) = d \<longleftrightarrow> (code c :: nat) = code d"
  by simp

subsection \<open>Positional values\<close>

text \<open>
  \<open>horner b a ds\<close> is the value a left-to-right scan of the digits \<open>ds\<close> accumulates
  in base \<open>b\<close> from the start value \<open>a\<close>.
\<close>

fun horner :: "nat \<Rightarrow> nat \<Rightarrow> nat list \<Rightarrow> nat" where
  "horner b a [] = a"
| "horner b a (d # ds) = horner b (a * b + d) ds"

lemma horner_append [radix_simps]: "horner b a (ds @ es) = horner b (horner b a ds) es"
  by (induction ds arbitrary: a) auto

lemma horner_mono: "0 < b \<Longrightarrow> a \<le> horner b a ds"
proof (induction ds arbitrary: a)
  case (Cons d ds)
  have "a \<le> a * b + d" using \<open>0 < b\<close> by (cases b) auto
  also have "\<dots> \<le> horner b (a * b + d) ds" using Cons by simp
  finally show ?case by simp
qed simp

text \<open>The digits of a number, most significant first; \<open>0\<close> has the single digit \<open>0\<close>.\<close>

fun radix_of :: "nat \<Rightarrow> nat \<Rightarrow> nat list" where
  "radix_of b n = (if b < 2 \<or> n < b then [n] else radix_of b (n div b) @ [n mod b])"

declare radix_of.simps [simp del]

lemma radix_of_less: "2 \<le> b \<Longrightarrow> d \<in> set (radix_of b n) \<Longrightarrow> d < b"
proof (induction b n rule: radix_of.induct)
  case (1 b n)
  then show ?case by (cases "n < b") (auto simp: radix_of.simps [of b n] split: if_splits)
qed

lemma horner_radix_of [radix_simps]: "2 \<le> b \<Longrightarrow> horner b 0 (radix_of b n) = n"
proof (induction b n rule: radix_of.induct)
  case (1 b n)
  then show ?case
    by (cases "n < b") (auto simp: radix_of.simps [of b n] horner_append)
qed

lemma radix_of_nonempty [simp]: "radix_of b n \<noteq> []"
  by (subst radix_of.simps) simp

lemma hd_radix_of_0: "2 \<le> b \<Longrightarrow> hd (radix_of b n) = 0 \<Longrightarrow> n = 0"
proof (induction b n rule: radix_of.induct)
  case (1 b n)
  show ?case
  proof (cases "n < b")
    case True
    with "1.prems" show ?thesis by (simp add: radix_of.simps [of b n])
  next
    case False
    with "1.prems" have "hd (radix_of b (n div b)) = 0"
      by (simp add: radix_of.simps [of b n])
    with "1.IH" "1.prems" False have "n div b = 0" by simp
    with False "1.prems" show ?thesis by (auto simp: div_eq_0_iff)
  qed
qed

lemma radix_of_0 [simp]: "0 < b \<Longrightarrow> radix_of b 0 = [0]"
  by (subst radix_of.simps) simp

text \<open>Digits and numbers as \<open>printf\<close> prints them, with the lower-case letters.\<close>

definition digit_char :: "nat \<Rightarrow> char" where
  "digit_char d = char_of (if d < 10 then 48 + d else 87 + d)"

definition print_radix :: "nat \<Rightarrow> nat \<Rightarrow> string" where
  "print_radix b n = map digit_char (radix_of b n)"

lemma code_digit_char: "d < 36 \<Longrightarrow> code (digit_char d) = (if d < 10 then 48 + d else 87 + d)"
  by (simp add: digit_char_def)

subsection \<open>Arithmetic of cutoff tests\<close>

lemma div_mod_limit:
  fixes a b d l :: nat
  assumes "0 < b" "d < b"
  shows "(l div b < a \<or> (a = l div b \<and> l mod b < d)) \<longleftrightarrow> l < a * b + d"
proof -
  have l: "l = l div b * b + l mod b" by simp
  have m: "l mod b < b" using assms by simp
  show ?thesis
  proof (cases "l div b" a rule: linorder_cases)
    case less
    then have "l div b * b + b \<le> a * b"
      by (metis Suc_leI mult_Suc mult_le_mono1 add.commute)
    with l m have "l < a * b" by linarith
    with less show ?thesis by simp
  next
    case equal
    with l show ?thesis by (metis add_less_cancel_left less_irrefl)
  next
    case greater
    then have "a * b + b \<le> l div b * b"
      by (metis Suc_leI mult_Suc mult_le_mono1 add.commute)
    with l assms have "a * b + d < l" by linarith
    with greater show ?thesis by simp
  qed
qed

lemma unat_of_int_small: "0 \<le> b \<Longrightarrow> b < 2 ^ 64 \<Longrightarrow> unat (of_int b :: uint64) = nat b"
  by (simp add: unat_eq_nat_uint uint_word_of_int_eq take_bit_int_eq_self)

lemma word_of_unat_eq: "unat (w :: uint64) = n \<Longrightarrow> w = of_nat n"
  by auto

subsection \<open>Bit operations as arithmetic\<close>

lemma unat_take_bit: "unat (take_bit n x :: 'a::len word) = unat x mod 2 ^ n"
  by (subst unsigned_take_bit_eq) (simp only: take_bit_eq_mod)

lemma unat_drop_bit: "unat (drop_bit n x :: 'a::len word) = unat x div 2 ^ n"
  by (subst unsigned_drop_bit_eq) (simp add: drop_bit_eq_div take_bit_nat_eq_self)

lemma unat_push_bit: "unat (push_bit n x :: 'a::len word) = (unat x * 2 ^ n) mod 2 ^ LENGTH('a)"
  by (subst unsigned_push_bit_eq) (simp only: take_bit_eq_mod push_bit_eq_mult)

lemma unat_or_disjoint: "x AND y = 0 \<Longrightarrow> unat (x OR y :: 'a::len word) = unat x + unat y"
  by (metis disjunctive_add_eq_or unsigned_and_eq unsigned_or_eq unsigned_0)

lemma and_ffff: "x AND 0xffff = take_bit 16 (x :: 'a::len word)"
  by (simp add: take_bit_eq_mask mask_eq_exp_minus_1)

lemma unat_and_ffff: "unat (x AND 0xffff :: 'a::len word) = unat x mod 2 ^ 16"
  by (simp only: and_ffff unat_take_bit)

lemma unat_add_small:
  "unat x + unat y < 2 ^ LENGTH('a) \<Longrightarrow> unat (x + y :: 'a::len word) = unat x + unat y"
  by (simp add: unat_word_ariths)

lemma unat_mult_small:
  "unat x * unat y < 2 ^ LENGTH('a) \<Longrightarrow> unat (x * y :: 'a::len word) = unat x * unat y"
  by (simp add: unat_word_ariths)

subsection \<open>Little-endian limb lists\<close>

fun limbs_val :: "uint32 list \<Rightarrow> nat" where
  "limbs_val [] = 0"
| "limbs_val (x # xs) = unat x + 2 ^ 32 * limbs_val xs"

lemma limbs_val_append [radix_simps]:
  "limbs_val (xs @ ys) = limbs_val xs + 2 ^ (32 * length xs) * limbs_val ys"
  by (induction xs) (simp_all add: power_add algebra_simps)

lemma limbs_val_replicate_0 [simp]: "limbs_val (replicate n 0) = 0"
  by (induction n) auto

lemma limbs_val_less: "limbs_val xs < 2 ^ (32 * length xs)"
proof (induction xs)
  case (Cons x xs)
  have "unat x < 2 ^ 32" using unsigned_less [of x] by simp
  moreover have "Suc (limbs_val xs) \<le> 2 ^ (32 * length xs)" using Cons by simp
  then have "2 ^ 32 * Suc (limbs_val xs) \<le> 2 ^ 32 * 2 ^ (32 * length xs)"
    by (rule mult_le_mono2)
  ultimately show ?case by (simp add: power_add)
qed simp

end
