(* ===== verification/Kernel_AvlTree.thy ===== *)
theory Kernel_AvlTree
  imports Prelude
begin

text \<open>
  The intrusive AVL tree of the kernel (\<open>src/src/system/kernel/util/AVLTreeBase.cpp\<close>,
  \<open>src/headers/private/kernel/util/AVLTreeBase.h\<close>) as the code has it: nodes with parent links and balance factors in a
  store, rotations through pointers to the slot a node is in, the explicit stacks of 32 entries of insertion and
  removal, the walks along parent links, and iterators. The comparator is a parameter. A function whose loop ends only
  on well-formed trees is partial: \<open>None\<close> is a loop that does not end. Where a stack of 32 entries would be written past
  its end, the result is \<open>Some None\<close>.
\<close>

subsection \<open>Nodes, slots and trees\<close>

type_synonym node_ptr = nat

record avl_node =
  n_parent :: "node_ptr option"
  n_left :: "node_ptr option"
  n_right :: "node_ptr option"
  n_balance :: int

text \<open>A tree with the store of its nodes.\<close>

record avl_tree =
  t_root :: "node_ptr option"
  t_count :: int
  t_node :: "node_ptr \<Rightarrow> avl_node"

text \<open>What an \<open>AVLTreeNode**\<close> points to.\<close>

datatype slot = RootSlot | LeftOf node_ptr | RightOf node_ptr

definition upd_node :: "node_ptr \<Rightarrow> (avl_node \<Rightarrow> avl_node) \<Rightarrow> avl_tree \<Rightarrow> avl_tree" where
  "upd_node p f T = T\<lparr>t_node := (t_node T)(p := f (t_node T p))\<rparr>"

definition set_parent :: "node_ptr \<Rightarrow> node_ptr option \<Rightarrow> avl_tree \<Rightarrow> avl_tree" where
  "set_parent p v = upd_node p (\<lambda>n. n\<lparr>n_parent := v\<rparr>)"

definition set_left :: "node_ptr \<Rightarrow> node_ptr option \<Rightarrow> avl_tree \<Rightarrow> avl_tree" where
  "set_left p v = upd_node p (\<lambda>n. n\<lparr>n_left := v\<rparr>)"

definition set_right :: "node_ptr \<Rightarrow> node_ptr option \<Rightarrow> avl_tree \<Rightarrow> avl_tree" where
  "set_right p v = upd_node p (\<lambda>n. n\<lparr>n_right := v\<rparr>)"

definition set_balance :: "node_ptr \<Rightarrow> int \<Rightarrow> avl_tree \<Rightarrow> avl_tree" where
  "set_balance p v = upd_node p (\<lambda>n. n\<lparr>n_balance := v\<rparr>)"

definition add_balance :: "node_ptr \<Rightarrow> int \<Rightarrow> avl_tree \<Rightarrow> avl_tree" where
  "add_balance p d = upd_node p (\<lambda>n. n\<lparr>n_balance := n_balance n + d\<rparr>)"

fun slot_get :: "slot \<Rightarrow> avl_tree \<Rightarrow> node_ptr option" where
  "slot_get RootSlot T = t_root T"
| "slot_get (LeftOf p) T = n_left (t_node T p)"
| "slot_get (RightOf p) T = n_right (t_node T p)"

fun slot_set :: "slot \<Rightarrow> node_ptr option \<Rightarrow> avl_tree \<Rightarrow> avl_tree" where
  "slot_set RootSlot v T = T\<lparr>t_root := v\<rparr>"
| "slot_set (LeftOf p) v T = set_left p v T"
| "slot_set (RightOf p) v T = set_right p v T"

datatype avl_result = NOT_FOUND | DUPLICATE | NO_MEMORY | OK | HEIGHT_CHANGED

definition LEFT :: int where "LEFT = -1"
definition BALANCED :: int where "BALANCED = 0"
definition RIGHT :: int where "RIGHT = 1"
definition kMaxAVLTreeHeight :: nat where "kMaxAVLTreeHeight = 32"

definition AVLTreeBase :: "(node_ptr \<Rightarrow> avl_node) \<Rightarrow> avl_tree" where
  "AVLTreeBase nodes = \<lparr>t_root = None, t_count = 0, t_node = nodes\<rparr>"

definition MakeEmpty :: "avl_tree \<Rightarrow> avl_tree" where
  "MakeEmpty T = T\<lparr>t_root := None, t_count := 0\<rparr>"

subsection \<open>Walking\<close>

partial_function (option) left_most :: "avl_tree \<Rightarrow> node_ptr \<Rightarrow> node_ptr option" where
  "left_most T p = (case n_left (t_node T p) of None \<Rightarrow> Some p | Some q \<Rightarrow> left_most T q)"

partial_function (option) right_most :: "avl_tree \<Rightarrow> node_ptr \<Rightarrow> node_ptr option" where
  "right_most T p = (case n_right (t_node T p) of None \<Rightarrow> Some p | Some q \<Rightarrow> right_most T q)"

text \<open>Results of the functions below: \<open>None\<close> where a loop does not end; otherwise the pointer, \<open>Some None\<close> for \<open>NULL\<close>.\<close>

definition LeftMost :: "avl_tree \<Rightarrow> node_ptr option \<Rightarrow> node_ptr option option" where
  "LeftMost T p = (case p of None \<Rightarrow> Some None | Some p \<Rightarrow> map_option Some (left_most T p))"

definition RightMost :: "avl_tree \<Rightarrow> node_ptr option \<Rightarrow> node_ptr option option" where
  "RightMost T p = (case p of None \<Rightarrow> Some None | Some p \<Rightarrow> map_option Some (right_most T p))"

text \<open>The loops that go up while the node was reached from the given side.\<close>

partial_function (option) up_from_left :: "avl_tree \<Rightarrow> node_ptr \<Rightarrow> node_ptr option option" where
  "up_from_left T p =
     (case n_parent (t_node T p) of None \<Rightarrow> Some None
      | Some q \<Rightarrow> if n_left (t_node T q) = Some p then up_from_left T q else Some (Some q))"

partial_function (option) up_from_right :: "avl_tree \<Rightarrow> node_ptr \<Rightarrow> node_ptr option option" where
  "up_from_right T p =
     (case n_parent (t_node T p) of None \<Rightarrow> Some None
      | Some q \<Rightarrow> if n_right (t_node T q) = Some p then up_from_right T q else Some (Some q))"

definition Previous :: "avl_tree \<Rightarrow> node_ptr option \<Rightarrow> node_ptr option option" where
  "Previous T p =
     (case p of None \<Rightarrow> Some None
      | Some p \<Rightarrow> case n_left (t_node T p) of Some l \<Rightarrow> map_option Some (right_most T l) | None \<Rightarrow> up_from_left T p)"

definition Next :: "avl_tree \<Rightarrow> node_ptr option \<Rightarrow> node_ptr option option" where
  "Next T p =
     (case p of None \<Rightarrow> Some None
      | Some p \<Rightarrow> case n_right (t_node T p) of Some r \<Rightarrow> map_option Some (left_most T r) | None \<Rightarrow> up_from_right T p)"

text \<open>The descent of \<open>Find\<close>, \<open>FindClosest\<close> and \<open>Remove\<close>: the node found, and the last node passed before.\<close>

partial_function (option) key_loop :: "('k \<Rightarrow> node_ptr \<Rightarrow> int) \<Rightarrow> 'k \<Rightarrow> avl_tree \<Rightarrow> node_ptr option \<Rightarrow> node_ptr option \<Rightarrow>
    (node_ptr option \<times> node_ptr option) option" where
  "key_loop cmpKey k T parent p =
     (case p of None \<Rightarrow> Some (None, parent)
      | Some n \<Rightarrow>
          if cmpKey k n = 0 then Some (Some n, parent)
          else key_loop cmpKey k T (Some n) (if cmpKey k n < 0 then n_left (t_node T n) else n_right (t_node T n)))"

definition Find :: "('k \<Rightarrow> node_ptr \<Rightarrow> int) \<Rightarrow> 'k \<Rightarrow> avl_tree \<Rightarrow> node_ptr option option" where
  "Find cmpKey k T = map_option fst (key_loop cmpKey k T None (t_root T))"

definition FindClosest :: "('k \<Rightarrow> node_ptr \<Rightarrow> int) \<Rightarrow> 'k \<Rightarrow> bool \<Rightarrow> avl_tree \<Rightarrow> node_ptr option option" where
  "FindClosest cmpKey k lower T =
     Option.bind (key_loop cmpKey k T None (t_root T)) (\<lambda>(node, parent).
       case node of Some n \<Rightarrow> Some (Some n)
       | None \<Rightarrow>
           case parent of None \<Rightarrow> Some None
           | Some n \<Rightarrow>
               let expectedCmp = (if lower then 1 else -1);
                   cmp = cmpKey k n
               in if cmp \<noteq> expectedCmp then if lower then Previous T (Some n) else Next T (Some n)
                  else Some (Some n))"

subsection \<open>Rotations\<close>

definition RotateRight :: "slot \<Rightarrow> avl_tree \<Rightarrow> avl_tree" where
  "RotateRight nodeP T =
     (let node = the (slot_get nodeP T);
          left = the (n_left (t_node T node));
          T = slot_set nodeP (Some left) T;
          T = set_parent left (n_parent (t_node T node)) T;
          T = set_left node (n_right (t_node T left)) T;
          T = (case n_right (t_node T left) of None \<Rightarrow> T | Some m \<Rightarrow> set_parent m (Some node) T);
          T = set_right left (Some node) T;
          T = set_parent node (Some left) T;
          T = add_balance node (if 0 \<le> n_balance (t_node T left) then 1 else 1 - n_balance (t_node T left)) T
      in add_balance left (if n_balance (t_node T node) \<le> 0 then 1 else n_balance (t_node T node) + 1) T)"

definition RotateLeft :: "slot \<Rightarrow> avl_tree \<Rightarrow> avl_tree" where
  "RotateLeft nodeP T =
     (let node = the (slot_get nodeP T);
          right = the (n_right (t_node T node));
          T = slot_set nodeP (Some right) T;
          T = set_parent right (n_parent (t_node T node)) T;
          T = set_right node (n_left (t_node T right)) T;
          T = (case n_left (t_node T right) of None \<Rightarrow> T | Some m \<Rightarrow> set_parent m (Some node) T);
          T = set_left right (Some node) T;
          T = set_parent node (Some right) T;
          T = add_balance node (if n_balance (t_node T right) \<le> 0 then -1 else - (n_balance (t_node T right) + 1)) T
      in add_balance right (if 0 \<le> n_balance (t_node T node) then -1 else n_balance (t_node T node) - 1) T)"

subsection \<open>Insertion\<close>

definition BalanceInsertLeft :: "slot \<Rightarrow> avl_tree \<Rightarrow> avl_result \<times> avl_tree" where
  "BalanceInsertLeft s T =
     (let node = the (slot_get s T)
      in if n_balance (t_node T node) < LEFT
         then
           let left = LeftOf node
           in if n_balance (t_node T (the (slot_get left T))) = LEFT then (OK, RotateRight s T)
              else (OK, RotateRight s (RotateLeft left T))
         else if n_balance (t_node T node) = BALANCED then (OK, T)
         else (HEIGHT_CHANGED, T))"

definition BalanceInsertRight :: "slot \<Rightarrow> avl_tree \<Rightarrow> avl_result \<times> avl_tree" where
  "BalanceInsertRight s T =
     (let node = the (slot_get s T)
      in if RIGHT < n_balance (t_node T node)
         then
           let right = RightOf node
           in if n_balance (t_node T (the (slot_get right T))) = RIGHT then (OK, RotateLeft s T)
              else (OK, RotateLeft s (RotateRight right T))
         else if n_balance (t_node T node) = BALANCED then (OK, T)
         else (HEIGHT_CHANGED, T))"

text \<open>The descent of \<open>_Insert\<close>: a duplicate, more entries than the stack has, or the free slot with the stack, its top
  first.\<close>

datatype descent = Duplicate | Overflow | Free slot "(slot \<times> bool) list"

partial_function (option) insert_descend :: "(node_ptr \<Rightarrow> node_ptr \<Rightarrow> int) \<Rightarrow> node_ptr \<Rightarrow> avl_tree \<Rightarrow> slot \<Rightarrow> (slot \<times> bool) list \<Rightarrow> descent option" where
  "insert_descend cmp x T s stack =
     (case slot_get s T of None \<Rightarrow> Some (Free s stack)
      | Some n \<Rightarrow>
          if cmp x n = 0 then Some Duplicate
          else if length stack = kMaxAVLTreeHeight then Some Overflow
          else if cmp x n < 0 then insert_descend cmp x T (LeftOf n) ((s, True) # stack)
          else insert_descend cmp x T (RightOf n) ((s, False) # stack))"

fun insert_balance :: "(slot \<times> bool) list \<Rightarrow> avl_tree \<Rightarrow> avl_result \<times> avl_tree" where
  "insert_balance [] T = (HEIGHT_CHANGED, T)"
| "insert_balance ((s, left) # stack) T =
     (let node = the (slot_get s T);
          (result, T) = (if left then BalanceInsertLeft s (add_balance node (-1) T)
                         else BalanceInsertRight s (add_balance node 1 T))
      in if result = HEIGHT_CHANGED then insert_balance stack T else (result, T))"

text \<open>\<open>_Insert\<close>: \<open>None\<close> where the descent does not end, \<open>Some None\<close> where the stack is written past its end.\<close>

definition avl_Insert :: "(node_ptr \<Rightarrow> node_ptr \<Rightarrow> int) \<Rightarrow> node_ptr \<Rightarrow> avl_tree \<Rightarrow> (avl_result \<times> avl_tree) option option" where
  "avl_Insert cmp x T =
     (case insert_descend cmp x T RootSlot [] of
        None \<Rightarrow> None
      | Some Duplicate \<Rightarrow> Some (Some (DUPLICATE, T))
      | Some Overflow \<Rightarrow> Some None
      | Some (Free s stack) \<Rightarrow>
          let T = slot_set s (Some x) T;
              T = set_left x None T;
              T = set_right x None T;
              T = set_balance x BALANCED T;
              T = T\<lparr>t_count := t_count T + 1\<rparr>;
              T = set_parent x (if stack = [] then None else slot_get (fst (hd stack)) T) T
          in Some (Some (insert_balance stack T)))"

subsection \<open>Removal\<close>

definition BalanceRemoveLeft :: "slot \<Rightarrow> avl_tree \<Rightarrow> avl_result \<times> avl_tree" where
  "BalanceRemoveLeft s T =
     (let node = the (slot_get s T)
      in if RIGHT < n_balance (t_node T node)
         then
           let right = RightOf node;
               b = n_balance (t_node T (the (slot_get right T)))
           in if b = RIGHT then (HEIGHT_CHANGED, RotateLeft s T)
              else if b = BALANCED then (OK, RotateLeft s T)
              else (HEIGHT_CHANGED, RotateLeft s (RotateRight right T))
         else if n_balance (t_node T node) = RIGHT then (OK, T)
         else (HEIGHT_CHANGED, T))"

definition BalanceRemoveRight :: "slot \<Rightarrow> avl_tree \<Rightarrow> avl_result \<times> avl_tree" where
  "BalanceRemoveRight s T =
     (let node = the (slot_get s T)
      in if n_balance (t_node T node) < LEFT
         then
           let left = LeftOf node;
               b = n_balance (t_node T (the (slot_get left T)))
           in if b = LEFT then (HEIGHT_CHANGED, RotateRight s T)
              else if b = BALANCED then (OK, RotateRight s T)
              else (HEIGHT_CHANGED, RotateRight s (RotateLeft left T))
         else if n_balance (t_node T node) = LEFT then (OK, T)
         else (HEIGHT_CHANGED, T))"

text \<open>The descent of \<open>_RemoveRightMostChild\<close>: \<open>Some None\<close> where the stack is written past its end.\<close>

partial_function (option) rightmost_descend :: "avl_tree \<Rightarrow> slot \<Rightarrow> slot list \<Rightarrow> (slot \<times> slot list) option option" where
  "rightmost_descend T s stack =
     (let n = the (slot_get s T)
      in if n_right (t_node T n) = None then Some (Some (s, stack))
         else if length stack = kMaxAVLTreeHeight then Some None
         else rightmost_descend T (RightOf n) (s # stack))"

fun rightmost_balance :: "slot list \<Rightarrow> avl_tree \<Rightarrow> avl_result \<times> avl_tree" where
  "rightmost_balance [] T = (HEIGHT_CHANGED, T)"
| "rightmost_balance (s # stack) T =
     (let node = the (slot_get s T);
          (result, T) = BalanceRemoveRight s (add_balance node (-1) T)
      in if result = HEIGHT_CHANGED then rightmost_balance stack T else (result, T))"

text \<open>The result, the node found, and the tree.\<close>

definition RemoveRightMostChild :: "slot \<Rightarrow> avl_tree \<Rightarrow> (avl_result \<times> node_ptr \<times> avl_tree) option option" where
  "RemoveRightMostChild s T =
     (case rightmost_descend T s [] of
        None \<Rightarrow> None
      | Some None \<Rightarrow> Some None
      | Some (Some (s, stack)) \<Rightarrow>
          let found = the (slot_get s T);
              left = n_left (t_node T found);
              T = (case left of None \<Rightarrow> T | Some l \<Rightarrow> set_parent l (n_parent (t_node T found)) T);
              T = slot_set s left T;
              T = set_left found None T;
              T = set_parent found None T;
              (result, T) = rightmost_balance stack T
          in Some (Some (result, found, T)))"

definition slot_of_node :: "node_ptr \<Rightarrow> avl_tree \<Rightarrow> bool \<times> slot" where
  "slot_of_node node T =
     (case n_parent (t_node T node) of
        None \<Rightarrow> (False, RootSlot)
      | Some p \<Rightarrow> if n_left (t_node T p) = Some node then (True, LeftOf p) else (False, RightOf p))"

partial_function (option) remove_balance :: "node_ptr option \<Rightarrow> bool \<Rightarrow> avl_tree \<Rightarrow> (avl_result \<times> avl_tree) option" where
  "remove_balance parent isLeft T =
     (case parent of None \<Rightarrow> Some (HEIGHT_CHANGED, T)
      | Some node \<Rightarrow>
          let parent = n_parent (t_node T node);
              (isLeft', nodeP) = slot_of_node node T;
              (result, T) = (if isLeft then BalanceRemoveLeft nodeP (add_balance node 1 T)
                             else BalanceRemoveRight nodeP (add_balance node (-1) T))
          in if result = HEIGHT_CHANGED then remove_balance parent isLeft' T else Some (result, T))"

text \<open>The part of \<open>_Remove\<close> that unlinks the node.\<close>

definition unlink_node :: "node_ptr \<Rightarrow> slot \<Rightarrow> node_ptr option \<Rightarrow> avl_tree \<Rightarrow> (avl_result \<times> avl_tree) option option" where
  "unlink_node node nodeP parent T =
     (case (n_left (t_node T node), n_right (t_node T node)) of
        (Some _, Some _) \<Rightarrow>
          (case RemoveRightMostChild (LeftOf node) T of
             None \<Rightarrow> None
           | Some None \<Rightarrow> Some None
           | Some (Some (result, replace, T)) \<Rightarrow>
               let T = set_parent replace parent T;
                   T = set_left replace (n_left (t_node T node)) T;
                   T = set_right replace (n_right (t_node T node)) T;
                   T = (case n_left (t_node T node) of None \<Rightarrow> T | Some l \<Rightarrow> set_parent l (Some replace) T);
                   T = set_parent (the (n_right (t_node T node))) (Some replace) T;
                   T = set_balance replace (n_balance (t_node T node)) T;
                   T = slot_set nodeP (Some replace) T
               in Some (Some (if result = HEIGHT_CHANGED then BalanceRemoveLeft nodeP (add_balance replace 1 T) else (result, T))))
      | (Some l, None) \<Rightarrow>
          let T = set_parent l parent T;
              T = set_balance l (n_balance (t_node T node) + 1) T
          in Some (Some (HEIGHT_CHANGED, slot_set nodeP (Some l) T))
      | (None, Some r) \<Rightarrow>
          let T = set_parent r (n_parent (t_node T node)) T;
              T = set_balance r (n_balance (t_node T node) - 1) T
          in Some (Some (HEIGHT_CHANGED, slot_set nodeP (Some r) T))
      | (None, None) \<Rightarrow> Some (Some (HEIGHT_CHANGED, slot_set nodeP None T)))"

definition avl_Remove :: "node_ptr option \<Rightarrow> avl_tree \<Rightarrow> (avl_result \<times> avl_tree) option option" where
  "avl_Remove p T =
     (case p of None \<Rightarrow> Some (Some (NOT_FOUND, T))
      | Some node \<Rightarrow>
          let parent = n_parent (t_node T node);
              (isLeft, nodeP) = slot_of_node node T
          in case unlink_node node nodeP parent T of
               None \<Rightarrow> None
             | Some None \<Rightarrow> Some None
             | Some (Some (result, T)) \<Rightarrow>
                 let T = upd_node node (\<lambda>n. n\<lparr>n_parent := None, n_left := None, n_right := None\<rparr>) T;
                     T = T\<lparr>t_count := t_count T - 1\<rparr>
                 in if result = HEIGHT_CHANGED then map_option Some (remove_balance parent isLeft T)
                    else Some (Some (result, T)))"

definition Remove_key :: "('k \<Rightarrow> node_ptr \<Rightarrow> int) \<Rightarrow> 'k \<Rightarrow> avl_tree \<Rightarrow> (node_ptr option \<times> avl_tree) option option" where
  "Remove_key cmpKey k T =
     (case key_loop cmpKey k T None (t_root T) of
        None \<Rightarrow> None
      | Some (None, _) \<Rightarrow> Some (Some (None, T))
      | Some (Some n, _) \<Rightarrow> map_option (map_option (\<lambda>(_, T). (Some n, T))) (avl_Remove (Some n) T))"

text \<open>\<open>_CheckTree\<close>: whether no check fails, the depth and the number of nodes.\<close>

partial_function (option) CheckTree_rec :: "avl_tree \<Rightarrow> node_ptr option \<Rightarrow> node_ptr option \<Rightarrow> (bool \<times> int \<times> int) option" where
  "CheckTree_rec T parent p =
     (case p of None \<Rightarrow> Some (True, 0, 0)
      | Some n \<Rightarrow>
          Option.bind (CheckTree_rec T (Some n) (n_left (t_node T n))) (\<lambda>(ok1, leftDepth, leftCount).
          Option.bind (CheckTree_rec T (Some n) (n_right (t_node T n))) (\<lambda>(ok2, rightDepth, rightCount).
            let balance = rightDepth - leftDepth
            in Some (parent = n_parent (t_node T n) \<and> ok1 \<and> ok2 \<and> LEFT \<le> balance \<and> balance \<le> RIGHT
                       \<and> balance = n_balance (t_node T n),
                     max leftDepth rightDepth + 1, leftCount + rightCount + 1))))"

definition CheckTree :: "avl_tree \<Rightarrow> bool option" where
  "CheckTree T = map_option (\<lambda>(ok, _, n). ok \<and> n = t_count T) (CheckTree_rec T None (t_root T))"

text \<open>The public operations: \<open>Some None\<close> where the descent stack overflows.\<close>

definition insert_status :: "avl_result \<Rightarrow> status" where
  "insert_status r = (case r of OK \<Rightarrow> B_OK | HEIGHT_CHANGED \<Rightarrow> B_OK | NO_MEMORY \<Rightarrow> B_NO_MEMORY | _ \<Rightarrow> B_BAD_VALUE)"

definition Insert_node :: "(node_ptr \<Rightarrow> node_ptr \<Rightarrow> int) \<Rightarrow> node_ptr \<Rightarrow> avl_tree \<Rightarrow> (status \<times> avl_tree) option option" where
  "Insert_node cmp x T = map_option (map_option (\<lambda>(r, T). (insert_status r, T))) (avl_Insert cmp x T)"

definition Remove_node :: "node_ptr option \<Rightarrow> avl_tree \<Rightarrow> (bool \<times> avl_tree) option option" where
  "Remove_node p T = map_option (map_option (\<lambda>(r, T). (r \<in> {OK, HEIGHT_CHANGED}, T))) (avl_Remove p T)"

subsection \<open>Iterators\<close>

record avl_iterator =
  it_current :: "node_ptr option"
  it_next :: "node_ptr option"

definition GetIterator :: "avl_tree \<Rightarrow> avl_iterator option" where
  "GetIterator T = map_option (\<lambda>n. \<lparr>it_current = None, it_next = n\<rparr>) (LeftMost T (t_root T))"

definition GetIterator_node :: "avl_tree \<Rightarrow> node_ptr option \<Rightarrow> avl_iterator option" where
  "GetIterator_node T p = map_option (\<lambda>n. \<lparr>it_current = p, it_next = n\<rparr>) (Next T p)"

definition iter_Next :: "avl_tree \<Rightarrow> avl_iterator \<Rightarrow> (node_ptr option \<times> avl_iterator) option" where
  "iter_Next T it =
     (case it_next it of
        None \<Rightarrow> Some (None, it\<lparr>it_current := None\<rparr>)
      | Some n \<Rightarrow> map_option (\<lambda>m. (Some n, \<lparr>it_current = Some n, it_next = m\<rparr>)) (Next T (Some n)))"

definition iter_Previous :: "avl_tree \<Rightarrow> avl_iterator \<Rightarrow> (node_ptr option \<times> avl_iterator) option" where
  "iter_Previous T it =
     (case it_current it of
        Some c \<Rightarrow> map_option (\<lambda>p. (p, \<lparr>it_current = p, it_next = Some c\<rparr>)) (Previous T (Some c))
      | None \<Rightarrow>
          case it_next it of
            None \<Rightarrow> Some (None, it)
          | Some n \<Rightarrow> map_option (\<lambda>p. (p, it\<lparr>it_current := p\<rparr>)) (Previous T (Some n)))"

definition iter_Remove :: "avl_iterator \<Rightarrow> avl_tree \<Rightarrow> (node_ptr option \<times> avl_iterator \<times> avl_tree) option option" where
  "iter_Remove it T =
     (case it_current it of
        None \<Rightarrow> Some (Some (None, it, T))
      | Some node \<Rightarrow>
          map_option (map_option (\<lambda>(ok, T). (if ok then Some node else None, it\<lparr>it_current := None\<rparr>, T))) (Remove_node (Some node) T))"

end
