(* ===== verification/Kernel_AvlStore.thy ===== *)
theory Kernel_AvlStore
  imports Kernel_AvlTree
begin

text \<open>
  Trees in the store of \<open>Kernel_AvlTree\<close>: which functional tree a pointer leads to, contexts (the way from a slot down to a
  subtree) and what a change below a context leaves alone; the rotations and balancing functions of the source as
  operations on functional trees, and what they do to heights and balance factors.
\<close>

subsection \<open>Trees in the store\<close>

datatype atree = Lf | Nd atree node_ptr int atree

fun inord :: "atree \<Rightarrow> node_ptr list" where
  "inord Lf = []"
| "inord (Nd l x b r) = inord l @ x # inord r"

text \<open>The pointer \<open>p\<close> with the parent \<open>par\<close> leads to the tree \<open>t\<close>.\<close>

fun tree_at :: "avl_tree \<Rightarrow> node_ptr option \<Rightarrow> node_ptr option \<Rightarrow> atree \<Rightarrow> bool" where
  "tree_at T par p Lf \<longleftrightarrow> p = None"
| "tree_at T par p (Nd l x b r) \<longleftrightarrow> p = Some x \<and> n_parent (t_node T x) = par \<and> n_balance (t_node T x) = b
     \<and> tree_at T (Some x) (n_left (t_node T x)) l \<and> tree_at T (Some x) (n_right (t_node T x)) r"

lemma tree_at_cong:
  "(\<And>x. x \<in> set (inord t) \<Longrightarrow> t_node T' x = t_node T x) \<Longrightarrow> tree_at T' par p t = tree_at T par p t"
  by (induction t arbitrary: par p) auto

lemma tree_at_None [simp]: "tree_at T par None t \<longleftrightarrow> t = Lf"
  by (cases t) auto

lemma tree_at_Some: "tree_at T par (Some x) t \<Longrightarrow> \<exists>l b r. t = Nd l x b r"
  by (cases t) auto

lemma tree_at_fun: "tree_at T par p t \<Longrightarrow> tree_at T par p t' \<Longrightarrow> t = t'"
proof (induction t arbitrary: par p t')
  case (Nd l x b r)
  then show ?case by (cases t') auto
qed auto

lemma tree_at_root: "tree_at T par p t \<Longrightarrow> p = Some x \<Longrightarrow> x \<in> set (inord t)"
  by (cases t) auto

text \<open>Another parent for a subtree.\<close>

lemma tree_at_reparent:
  assumes "tree_at T par p t" "distinct (inord t)"
    and "\<And>z. z \<in> set (inord t) \<Longrightarrow> t_node T' z = (if p = Some z then (t_node T z)\<lparr>n_parent := par'\<rparr> else t_node T z)"
  shows "tree_at T' par' p t"
proof (cases t)
  case (Nd l x b r)
  have p: "p = Some x" using assms(1) Nd by simp
  have "t_node T' z = t_node T z" if "z \<in> set (inord l) \<union> set (inord r)" for z
  proof -
    have "z \<noteq> x" using that assms(2) Nd by auto
    then show ?thesis using assms(3) [of z] that p Nd by auto
  qed
  then have "tree_at T' (Some x) (n_left (t_node T x)) l" "tree_at T' (Some x) (n_right (t_node T x)) r"
    using assms(1) Nd tree_at_cong [of l T' T] tree_at_cong [of r T' T] by simp_all
  then show ?thesis using assms(1) assms(3) [of x] p Nd by simp
qed (use assms(1) in simp)

subsection \<open>Contexts\<close>

text \<open>The way from a slot down to a subtree, innermost frame first: whether the subtree is the left one, the node, its
  balance, and the other subtree.\<close>

type_synonym frame = "bool \<times> node_ptr \<times> int \<times> atree"

fun plug :: "frame list \<Rightarrow> atree \<Rightarrow> atree" where
  "plug [] t = t"
| "plug ((d, x, b, u) # c) t = plug c (if d then Nd t x b u else Nd u x b t)"

fun slot_of :: "slot \<Rightarrow> frame list \<Rightarrow> slot" where
  "slot_of s [] = s"
| "slot_of s ((d, x, b, u) # c) = (if d then LeftOf x else RightOf x)"

fun par_of :: "node_ptr option \<Rightarrow> frame list \<Rightarrow> node_ptr option" where
  "par_of p [] = p"
| "par_of p ((d, x, b, u) # c) = Some x"

fun lefts :: "frame list \<Rightarrow> node_ptr list" where
  "lefts [] = []"
| "lefts ((d, x, b, u) # c) = lefts c @ (if d then [] else inord u @ [x])"

fun rights :: "frame list \<Rightarrow> node_ptr list" where
  "rights [] = []"
| "rights ((d, x, b, u) # c) = (if d then x # inord u else []) @ rights c"

lemma inord_plug: "inord (plug c t) = lefts c @ inord t @ rights c"
  by (induction c t rule: plug.induct) auto

fun ctx_at :: "avl_tree \<Rightarrow> slot \<Rightarrow> node_ptr option \<Rightarrow> frame list \<Rightarrow> bool" where
  "ctx_at T s par [] \<longleftrightarrow> True"
| "ctx_at T s par ((d, x, b, u) # c) \<longleftrightarrow>
     slot_get (slot_of s c) T = Some x \<and> n_parent (t_node T x) = par_of par c \<and> n_balance (t_node T x) = b
     \<and> tree_at T (Some x) (if d then n_right (t_node T x) else n_left (t_node T x)) u \<and> ctx_at T s par c"

lemma plug_at:
  "tree_at T par (slot_get s T) (plug c t) \<longleftrightarrow>
     ctx_at T s par c \<and> tree_at T (par_of par c) (slot_get (slot_of s c) T) t"
proof (induction c arbitrary: t)
  case (Cons f c)
  obtain d x b u where f: "f = (d, x, b, u)" by (cases f)
  show ?case using Cons.IH [of "if d then Nd t x b u else Nd u x b t"] by (auto simp: f)
qed simp

fun owner_of :: "slot \<Rightarrow> node_ptr set" where
  "owner_of RootSlot = {}"
| "owner_of (LeftOf p) = {p}"
| "owner_of (RightOf p) = {p}"

text \<open>\<open>T'\<close> is \<open>T\<close> but for the nodes in \<open>A\<close> and the content of the slot.\<close>

definition frame_eq :: "slot \<Rightarrow> node_ptr set \<Rightarrow> avl_tree \<Rightarrow> avl_tree \<Rightarrow> bool" where
  "frame_eq s A T T' \<longleftrightarrow> t_count T' = t_count T \<and> (s \<noteq> RootSlot \<longrightarrow> t_root T' = t_root T)
     \<and> (\<forall>x. x \<notin> A \<longrightarrow> n_parent (t_node T' x) = n_parent (t_node T x) \<and> n_balance (t_node T' x) = n_balance (t_node T x)
          \<and> (s \<noteq> LeftOf x \<longrightarrow> n_left (t_node T' x) = n_left (t_node T x))
          \<and> (s \<noteq> RightOf x \<longrightarrow> n_right (t_node T' x) = n_right (t_node T x)))"

lemma frame_eq_refl: "frame_eq s A T T"
  by (simp add: frame_eq_def)

lemma frame_eq_trans: "frame_eq s A T T' \<Longrightarrow> frame_eq s A T' T'' \<Longrightarrow> frame_eq s A T T''"
  unfolding frame_eq_def by auto

lemma frame_eq_mono: "frame_eq s A T T' \<Longrightarrow> A \<subseteq> B \<Longrightarrow> frame_eq s B T T'"
  unfolding frame_eq_def by auto

text \<open>A change below a context, seen from the outer slot.\<close>

lemma frame_eq_outer: "frame_eq (slot_of s c) A T T' \<Longrightarrow> frame_eq s (A \<union> set (lefts c) \<union> set (rights c)) T T'"
proof (cases c)
  case (Cons f c')
  obtain d x b u where f: "f = (d, x, b, u)" by (cases f)
  assume "frame_eq (slot_of s c) A T T'"
  then show ?thesis using Cons f unfolding frame_eq_def by (auto split: if_splits)
qed simp

lemma frame_eq_node:
  assumes "frame_eq s A T T'" "x \<notin> A" "x \<notin> owner_of s"
  shows "t_node T' x = t_node T x"
proof -
  have "n_parent (t_node T' x) = n_parent (t_node T x)" "n_balance (t_node T' x) = n_balance (t_node T x)"
    "n_left (t_node T' x) = n_left (t_node T x)" "n_right (t_node T' x) = n_right (t_node T x)"
    using assms unfolding frame_eq_def by (cases s; auto)+
  then show ?thesis by simp
qed

lemma owner_slot_of: "owner_of (slot_of s ((d, x, b, u) # c)) = {x}"
  by simp

lemma frame_eq_slot:
  assumes "frame_eq s' A T T'" "owner_of s \<inter> A = {}" "s \<noteq> s'"
  shows "slot_get s T' = slot_get s T"
  using assms unfolding frame_eq_def by (cases s) auto

lemma ctx_frame:
  assumes "frame_eq (slot_of s c) A T T'" "A \<inter> (set (lefts c) \<union> set (rights c)) = {}" "distinct (lefts c @ rights c)"
    "owner_of s \<inter> (A \<union> set (lefts c) \<union> set (rights c)) = {}" "ctx_at T s par c"
  shows "ctx_at T' s par c"
proof (cases c)
  case (Cons f c')
  obtain d x b u where f: "f = (d, x, b, u)" by (cases f)
  have node: "t_node T' z = t_node T z" if "z \<in> set (lefts c') \<union> set (rights c') \<union> set (inord u)" for z
  proof (rule frame_eq_node [OF assms(1)])
    show "z \<notin> A" using that assms(2) unfolding Cons f by (auto split: if_splits)
    show "z \<notin> owner_of (slot_of s c)" using that assms(3) unfolding Cons f by (auto split: if_splits)
  qed
  have xA: "x \<notin> A" using assms(2) unfolding Cons f by (auto split: if_splits)
  have u: "tree_at T' p q u = tree_at T p q u" for p q using node by (intro tree_at_cong) auto
  have inner: "ctx_at T s par c' \<Longrightarrow> (\<And>z. z \<in> set (lefts c') \<union> set (rights c') \<Longrightarrow> t_node T' z = t_node T z) \<Longrightarrow>
      (s = RootSlot \<longrightarrow> t_root T' = t_root T) \<Longrightarrow> (\<And>z. z \<in> owner_of s \<Longrightarrow> t_node T' z = t_node T z) \<Longrightarrow> ctx_at T' s par c'
        \<and> slot_get (slot_of s c') T' = slot_get (slot_of s c') T" for c'
  proof (induction c')
    case Nil
    then show ?case by (cases s) auto
  next
    case (Cons g c')
    obtain e y v w where g: "g = (e, y, v, w)" by (cases g)
    have "ctx_at T' s par c' \<and> slot_get (slot_of s c') T' = slot_get (slot_of s c') T"
      using Cons by (auto simp: g)
    moreover have "t_node T' y = t_node T y" using Cons.prems(2) by (auto simp: g split: if_splits)
    moreover have "tree_at T' p q w = tree_at T p q w" for p q using Cons.prems(2) by (intro tree_at_cong) (auto simp: g split: if_splits)
    ultimately show ?case using Cons.prems(1) by (auto simp: g)
  qed
  have r: "s = RootSlot \<longrightarrow> t_root T' = t_root T" using assms(1) unfolding Cons f frame_eq_def by (auto split: if_splits)
  have o: "t_node T' z = t_node T z" if "z \<in> owner_of s" for z
    using that assms(4) by (intro frame_eq_node [OF assms(1)]) (cases d; auto simp: Cons f)+
  have "ctx_at T' s par c' \<and> slot_get (slot_of s c') T' = slot_get (slot_of s c') T"
    using inner [of c'] assms(5) node r o unfolding Cons f by auto
  then show ?thesis using assms(1,5) xA u unfolding Cons f frame_eq_def by (auto split: if_splits)
qed simp

text \<open>Replacing the subtree below a context.\<close>

lemma plug_replace:
  assumes "tree_at T par (slot_get s T) (plug c t)" "distinct (inord (plug c t))" "owner_of s \<inter> set (inord (plug c t)) = {}"
    and "frame_eq (slot_of s c) (set (inord t)) T T'" "tree_at T' (par_of par c) (slot_get (slot_of s c) T') t'"
  shows "tree_at T' par (slot_get s T') (plug c t')"
  unfolding plug_at
proof
  show "ctx_at T' s par c"
    using assms(1-4) by (intro ctx_frame [OF assms(4)]) (auto simp: plug_at inord_plug)
qed (rule assms(5))

subsection \<open>Rotations\<close>

lemma set_simps [simp]:
  "t_node (upd_node p f T) q = (if q = p then f (t_node T p) else t_node T q)" "t_root (upd_node p f T) = t_root T"
  "t_count (upd_node p f T) = t_count T"
  by (simp_all add: upd_node_def)

lemmas avl_sets = set_parent_def set_left_def set_right_def set_balance_def add_balance_def

lemma slot_set_simps [simp]:
  "t_count (slot_set s v T) = t_count T" "slot_get s (slot_set s v T) = v"
  "t_root (slot_set s v T) = (if s = RootSlot then v else t_root T)"
  "t_node (slot_set s v T) q = (if s = LeftOf q then (t_node T q)\<lparr>n_left := v\<rparr>
     else if s = RightOf q then (t_node T q)\<lparr>n_right := v\<rparr> else t_node T q)"
  by (cases s; simp add: avl_sets)+

text \<open>The balances after a rotation to the right of \<open>x\<close> with the left child \<open>y\<close>, and to the left of \<open>x\<close> with the right
  child \<open>y\<close>.\<close>

definition rotr_x :: "int \<Rightarrow> int \<Rightarrow> int" where "rotr_x bx by = bx + (if 0 \<le> by then 1 else 1 - by)"
definition rotr_y :: "int \<Rightarrow> int \<Rightarrow> int" where "rotr_y bx by = by + (if rotr_x bx by \<le> 0 then 1 else rotr_x bx by + 1)"
definition rotl_x :: "int \<Rightarrow> int \<Rightarrow> int" where "rotl_x bx by = bx - (if by \<le> 0 then 1 else by + 1)"
definition rotl_y :: "int \<Rightarrow> int \<Rightarrow> int" where "rotl_y bx by = by + (if 0 \<le> rotl_x bx by then - 1 else rotl_x bx by - 1)"

fun rot_right :: "atree \<Rightarrow> atree" where
  "rot_right (Nd (Nd a y by b) x bx c) = Nd a y (rotr_y bx by) (Nd b x (rotr_x bx by) c)"
| "rot_right t = t"

fun rot_left :: "atree \<Rightarrow> atree" where
  "rot_left (Nd a x bx (Nd b y by c)) = Nd (Nd a x (rotl_x bx by) b) y (rotl_y bx by) c"
| "rot_left t = t"

lemma inord_rot [simp]: "inord (rot_right t) = inord t" "inord (rot_left t) = inord t"
  by (induction t rule: rot_right.induct; simp) (induction t rule: rot_left.induct; simp)

text \<open>\<open>T'\<close> has the tree \<open>t'\<close> in the slot where \<open>T\<close> has a tree of the nodes in \<open>A\<close>, and is otherwise the same.\<close>

definition changed_at :: "slot \<Rightarrow> node_ptr option \<Rightarrow> node_ptr set \<Rightarrow> avl_tree \<Rightarrow> avl_tree \<Rightarrow> atree \<Rightarrow> bool" where
  "changed_at s par A T T' t' \<longleftrightarrow> frame_eq s A T T' \<and> tree_at T' par (slot_get s T') t'"

lemma rotate_right_at:
  assumes t: "t = Nd (Nd a y by b) x bx c" and at: "tree_at T par (slot_get s T) t" and d: "distinct (inord t)"
    and own: "owner_of s \<inter> set (inord t) = {}"
  shows "changed_at s par (set (inord t)) T (RotateRight s T) (rot_right t)"
proof -
  define m where "m = n_right (t_node T y)"
  have f: "slot_get s T = Some x" "n_left (t_node T x) = Some y" "n_parent (t_node T x) = par" "n_balance (t_node T x) = bx"
    "n_balance (t_node T y) = by" "tree_at T (Some y) (n_left (t_node T y)) a" "tree_at T (Some y) m b"
    "tree_at T (Some x) (n_right (t_node T x)) c" using at by (simp_all add: t m_def)
  have ne: "x \<noteq> y" "m \<noteq> Some x" "m \<noteq> Some y" using d tree_at_root [OF f(7)] by (auto simp: t)
  have mb: "z \<in> set (inord b)" if "m = Some z" for z using tree_at_root [OF f(7) that] .
  have so: "s \<noteq> LeftOf z" "s \<noteq> RightOf z" if "z \<in> set (inord t)" for z using own that by auto
  have xy: "s \<noteq> LeftOf x" "s \<noteq> RightOf x" "s \<noteq> LeftOf y" "s \<noteq> RightOf y" using so [of x] so [of y] by (simp_all add: t)
  have sm: "s \<noteq> LeftOf z" "s \<noteq> RightOf z" if "m = Some z" for z using so [of z] mb [OF that] by (simp_all add: t)
  have nodes: "t_node (RotateRight s T) z = (if z = y then \<lparr>n_parent = par, n_left = n_left (t_node T y), n_right = Some x, n_balance = rotr_y bx by\<rparr>
      else if z = x then \<lparr>n_parent = Some y, n_left = m, n_right = n_right (t_node T x), n_balance = rotr_x bx by\<rparr>
      else if m = Some z then (t_node T z)\<lparr>n_parent := Some x\<rparr> else if s = LeftOf z then (t_node T z)\<lparr>n_left := Some y\<rparr>
      else if s = RightOf z then (t_node T z)\<lparr>n_right := Some y\<rparr> else t_node T z)" for z
  proof (cases m)
    case None
    then have n: "n_right (t_node T y) = None" by (simp add: m_def)
    show ?thesis using ne(1) xy by (simp add: None RotateRight_def Let_def avl_sets rotr_x_def rotr_y_def f(1-5) n)
  next
    case (Some w)
    then have n: "n_right (t_node T y) = Some w" and w: "w \<noteq> x" "w \<noteq> y" "s \<noteq> LeftOf w" "s \<noteq> RightOf w"
      using ne sm by (auto simp: m_def)
    note defs = Some RotateRight_def Let_def avl_sets rotr_x_def rotr_y_def f(1-5) n
    consider "z = y" | "z = x" | "z = w" | "z \<noteq> y" "z \<noteq> x" "z \<noteq> w" by blast
    then show ?thesis
    proof cases
      case 1
      then show ?thesis using ne(1) xy w by (simp add: defs)
    next
      case 2
      then show ?thesis using ne(1) xy w by (simp add: defs)
    next
      case 3
      then show ?thesis using ne(1) xy w by (simp add: defs)
    next
      case 4
      then show ?thesis using ne(1) xy w by (simp add: defs)
    qed
  qed
  have root: "t_root (RotateRight s T) = (if s = RootSlot then Some y else t_root T)" "t_count (RotateRight s T) = t_count T"
    using f by (auto simp: RotateRight_def Let_def avl_sets split: option.splits)
  have get: "slot_get s (RotateRight s T) = Some y"
    using nodes root so ne xy by (cases s) (auto simp: sm)
  have same: "t_node (RotateRight s T) z = t_node T z" if "z \<in> set (inord a) \<union> set (inord c)" for z
    using that d mb [of z] so [of z] unfolding nodes by (auto simp: t)
  have ta: "tree_at (RotateRight s T) (Some y) (n_left (t_node T y)) a" "tree_at (RotateRight s T) (Some x) (n_right (t_node T x)) c"
    using f(6,8) same tree_at_cong [of a "RotateRight s T" T] tree_at_cong [of c "RotateRight s T" T] by simp_all
  have tb: "tree_at (RotateRight s T) (Some x) m b"
  proof (rule tree_at_reparent [OF f(7)])
    show "distinct (inord b)" using d by (simp add: t)
    fix z assume z: "z \<in> set (inord b)"
    then have "z \<noteq> x" "z \<noteq> y" "z \<in> set (inord t)" using d by (auto simp: t)
    then show "t_node (RotateRight s T) z = (if m = Some z then (t_node T z)\<lparr>n_parent := Some x\<rparr> else t_node T z)"
      using so [of z] unfolding nodes by simp
  qed
  have "tree_at (RotateRight s T) par (slot_get s (RotateRight s T)) (rot_right t)"
    unfolding get t using ta tb ne nodes by simp
  moreover have "frame_eq s (set (inord t)) T (RotateRight s T)"
    unfolding frame_eq_def nodes root using mb by (auto simp: t)
  ultimately show ?thesis by (simp add: changed_at_def)
qed

lemma rotate_left_at:
  assumes t: "t = Nd a x bx (Nd b y by c)" and at: "tree_at T par (slot_get s T) t" and d: "distinct (inord t)"
    and own: "owner_of s \<inter> set (inord t) = {}"
  shows "changed_at s par (set (inord t)) T (RotateLeft s T) (rot_left t)"
proof -
  define m where "m = n_left (t_node T y)"
  have f: "slot_get s T = Some x" "n_right (t_node T x) = Some y" "n_parent (t_node T x) = par" "n_balance (t_node T x) = bx"
    "n_balance (t_node T y) = by" "tree_at T (Some x) (n_left (t_node T x)) a" "tree_at T (Some y) m b"
    "tree_at T (Some y) (n_right (t_node T y)) c" using at by (simp_all add: t m_def)
  have ne: "x \<noteq> y" "m \<noteq> Some x" "m \<noteq> Some y" using d tree_at_root [OF f(7)] by (auto simp: t)
  have mb: "z \<in> set (inord b)" if "m = Some z" for z using tree_at_root [OF f(7) that] .
  have so: "s \<noteq> LeftOf z" "s \<noteq> RightOf z" if "z \<in> set (inord t)" for z using own that by auto
  have xy: "s \<noteq> LeftOf x" "s \<noteq> RightOf x" "s \<noteq> LeftOf y" "s \<noteq> RightOf y" using so [of x] so [of y] by (simp_all add: t)
  have sm: "s \<noteq> LeftOf z" "s \<noteq> RightOf z" if "m = Some z" for z using so [of z] mb [OF that] by (simp_all add: t)
  have nodes: "t_node (RotateLeft s T) z = (if z = y then \<lparr>n_parent = par, n_left = Some x, n_right = n_right (t_node T y), n_balance = rotl_y bx by\<rparr>
      else if z = x then \<lparr>n_parent = Some y, n_left = n_left (t_node T x), n_right = m, n_balance = rotl_x bx by\<rparr>
      else if m = Some z then (t_node T z)\<lparr>n_parent := Some x\<rparr> else if s = LeftOf z then (t_node T z)\<lparr>n_left := Some y\<rparr>
      else if s = RightOf z then (t_node T z)\<lparr>n_right := Some y\<rparr> else t_node T z)" for z
  proof (cases m)
    case None
    then have n: "n_left (t_node T y) = None" by (simp add: m_def)
    show ?thesis using ne(1) xy by (simp add: None RotateLeft_def Let_def avl_sets rotl_x_def rotl_y_def f(1-5) n)
  next
    case (Some w)
    then have n: "n_left (t_node T y) = Some w" and w: "w \<noteq> x" "w \<noteq> y" "s \<noteq> LeftOf w" "s \<noteq> RightOf w"
      using ne sm by (auto simp: m_def)
    note defs = Some RotateLeft_def Let_def avl_sets rotl_x_def rotl_y_def f(1-5) n
    consider "z = y" | "z = x" | "z = w" | "z \<noteq> y" "z \<noteq> x" "z \<noteq> w" by blast
    then show ?thesis
    proof cases
      case 1
      then show ?thesis using ne(1) xy w by (simp add: defs)
    next
      case 2
      then show ?thesis using ne(1) xy w by (simp add: defs)
    next
      case 3
      then show ?thesis using ne(1) xy w by (simp add: defs)
    next
      case 4
      then show ?thesis using ne(1) xy w by (simp add: defs)
    qed
  qed
  have root: "t_root (RotateLeft s T) = (if s = RootSlot then Some y else t_root T)" "t_count (RotateLeft s T) = t_count T"
    using f by (auto simp: RotateLeft_def Let_def avl_sets split: option.splits)
  have get: "slot_get s (RotateLeft s T) = Some y"
    using nodes root so ne xy by (cases s) (auto simp: sm)
  have same: "t_node (RotateLeft s T) z = t_node T z" if "z \<in> set (inord a) \<union> set (inord c)" for z
    using that d mb [of z] so [of z] unfolding nodes by (auto simp: t)
  have ta: "tree_at (RotateLeft s T) (Some x) (n_left (t_node T x)) a" "tree_at (RotateLeft s T) (Some y) (n_right (t_node T y)) c"
    using f(6,8) same tree_at_cong [of a "RotateLeft s T" T] tree_at_cong [of c "RotateLeft s T" T] by simp_all
  have tb: "tree_at (RotateLeft s T) (Some x) m b"
  proof (rule tree_at_reparent [OF f(7)])
    show "distinct (inord b)" using d by (simp add: t)
    fix z assume z: "z \<in> set (inord b)"
    then have "z \<noteq> x" "z \<noteq> y" "z \<in> set (inord t)" using d by (auto simp: t)
    then show "t_node (RotateLeft s T) z = (if m = Some z then (t_node T z)\<lparr>n_parent := Some x\<rparr> else t_node T z)"
      using so [of z] unfolding nodes by simp
  qed
  have "tree_at (RotateLeft s T) par (slot_get s (RotateLeft s T)) (rot_left t)"
    unfolding get t using ta tb ne nodes by simp
  moreover have "frame_eq s (set (inord t)) T (RotateLeft s T)"
    unfolding frame_eq_def nodes root using mb by (auto simp: t)
  ultimately show ?thesis by (simp add: changed_at_def)
qed

subsection \<open>Balancing steps on trees\<close>

fun bal :: "atree \<Rightarrow> int" where
  "bal Lf = 0"
| "bal (Nd l x b r) = b"

fun ht :: "atree \<Rightarrow> int" where
  "ht Lf = 0"
| "ht (Nd l x b r) = max (ht l) (ht r) + 1"

lemma ht_nonneg [simp]: "0 \<le> ht t"
  by (induction t) auto

lemma ht_0 [simp]: "ht t = 0 \<longleftrightarrow> t = Lf" "ht t \<le> 0 \<longleftrightarrow> t = Lf"
  by (cases t; use ht_nonneg in \<open>simp add: add_nonneg_eq_0_iff max_def\<close>; smt (verit) ht_nonneg)+

text \<open>The invariant of AVL trees; the balance fields are the differences of the heights.\<close>

fun avl :: "atree \<Rightarrow> bool" where
  "avl Lf \<longleftrightarrow> True"
| "avl (Nd l x b r) \<longleftrightarrow> b = ht r - ht l \<and> -1 \<le> b \<and> b \<le> 1 \<and> avl l \<and> avl r"

text \<open>The left and right balancing after an insertion (\<open>ins\<close>) or a removal, on trees: whether the height may have
  changed, and the tree.\<close>

fun fix_left :: "bool \<Rightarrow> atree \<Rightarrow> bool \<times> atree" where
  "fix_left ins (Nd l x b r) =
     (if b < -1
      then if bal l = -1 then (\<not> ins, rot_right (Nd l x b r))
           else if bal l = 0 \<and> \<not> ins then (False, rot_right (Nd l x b r))
           else (\<not> ins, rot_right (Nd (rot_left l) x b r))
      else (if ins then b \<noteq> 0 else b \<noteq> -1, Nd l x b r))"
| "fix_left ins Lf = (False, Lf)"

fun fix_right :: "bool \<Rightarrow> atree \<Rightarrow> bool \<times> atree" where
  "fix_right ins (Nd l x b r) =
     (if 1 < b
      then if bal r = 1 then (\<not> ins, rot_left (Nd l x b r))
           else if bal r = 0 \<and> \<not> ins then (False, rot_left (Nd l x b r))
           else (\<not> ins, rot_left (Nd l x b (rot_right r)))
      else (if ins then b \<noteq> 0 else b \<noteq> 1, Nd l x b r))"
| "fix_right ins Lf = (False, Lf)"

lemma inord_fix [simp]: "inord (snd (fix_left ins t)) = inord t" "inord (snd (fix_right ins t)) = inord t"
  by (cases t; simp)+

text \<open>Where a rotation is needed the tree must have the nodes for it.\<close>

definition can_left :: "bool \<Rightarrow> atree \<Rightarrow> int \<Rightarrow> bool" where
  "can_left ins l b \<longleftrightarrow> (b < -1 \<longrightarrow> (\<exists>a y v d. l = Nd a y v d \<and> (v = -1 \<or> \<not> ins \<and> v = 0 \<or> d \<noteq> Lf)))"

definition can_right :: "bool \<Rightarrow> atree \<Rightarrow> int \<Rightarrow> bool" where
  "can_right ins r b \<longleftrightarrow> (1 < b \<longrightarrow> (\<exists>d y v a. r = Nd d y v a \<and> (v = 1 \<or> \<not> ins \<and> v = 0 \<or> d \<noteq> Lf)))"

definition res_of :: "bool \<Rightarrow> avl_result" where "res_of h = (if h then HEIGHT_CHANGED else OK)"

lemma changed_at_refl: "tree_at T par (slot_get s T) t \<Longrightarrow> changed_at s par A T T t"
  by (simp add: changed_at_def frame_eq_refl)

lemma changed_at_trans:
  "changed_at s par A T T' t' \<Longrightarrow> changed_at s par A T' T'' t'' \<Longrightarrow> changed_at s par A T T'' t''"
  unfolding changed_at_def using frame_eq_trans by blast

text \<open>A change in the left or right subtree, seen from the slot of the whole.\<close>

lemma changed_below:
  assumes at: "tree_at T par (slot_get s T) (plug c t)" and d: "distinct (inord (plug c t))" and own: "owner_of s \<inter> set (inord (plug c t)) = {}"
    and ch: "changed_at (slot_of s c) (par_of par c) (set (inord t)) T T' t'"
  shows "changed_at s par (set (inord (plug c t))) T T' (plug c t')"
proof -
  have "tree_at T' par (slot_get s T') (plug c t')" using plug_replace [OF at d own] ch by (simp add: changed_at_def)
  moreover have "frame_eq s (set (inord (plug c t))) T T'"
  proof (rule frame_eq_mono)
    show "frame_eq s (set (inord t) \<union> set (lefts c) \<union> set (rights c)) T T'" using frame_eq_outer ch by (simp add: changed_at_def)
  qed (auto simp: inord_plug)
  ultimately show ?thesis by (simp add: changed_at_def)
qed

lemma double_right_at:
  assumes at: "tree_at T par (slot_get s T) t" and t: "t = Nd (Nd a y v d) x b r" "d \<noteq> Lf"
    and dd: "distinct (inord t)" and own: "owner_of s \<inter> set (inord t) = {}"
  shows "changed_at s par (set (inord t)) T (RotateRight s (RotateLeft (LeftOf x) T)) (rot_right (Nd (rot_left (Nd a y v d)) x b r))"
proof -
  let ?l = "Nd a y v d"
  obtain d1 z w d2 where d: "d = Nd d1 z w d2" using t(2) by (cases d) auto
  have p: "t = plug [(True, x, b, r)] ?l" by (simp add: t)
  have al: "tree_at T (Some x) (slot_get (LeftOf x) T) ?l" using at by (simp add: t)
  have "changed_at (LeftOf x) (Some x) (set (inord ?l)) T (RotateLeft (LeftOf x) T) (rot_left ?l)"
  proof (rule rotate_left_at [OF _ al])
    show "Nd a y v d = Nd a y v (Nd d1 z w d2)" by (simp add: d)
    show "distinct (inord ?l)" "owner_of (LeftOf x) \<inter> set (inord ?l) = {}" using dd by (auto simp: t)
  qed
  then have 1: "changed_at s par (set (inord t)) T (RotateLeft (LeftOf x) T) (Nd (rot_left ?l) x b r)"
    using changed_below [of T par s "[(True, x, b, r)]" ?l] at dd own by (simp add: t)
  have shape: "rot_left ?l = Nd (Nd a y (rotl_x v w) d1) z (rotl_y v w) d2" by (simp add: d)
  have "set (inord (Nd (rot_left ?l) x b r)) = set (inord t)" "distinct (inord (Nd (rot_left ?l) x b r))" using dd by (simp_all add: t d)
  then have "changed_at s par (set (inord t)) (RotateLeft (LeftOf x) T) (RotateRight s (RotateLeft (LeftOf x) T)) (rot_right (Nd (rot_left ?l) x b r))"
    using rotate_right_at [of "Nd (rot_left ?l) x b r" "Nd a y (rotl_x v w) d1" z "rotl_y v w" d2 x b r "RotateLeft (LeftOf x) T" par s] 1 own shape
    by (simp add: changed_at_def)
  then show ?thesis using changed_at_trans [OF 1] by blast
qed

lemma double_left_at:
  assumes at: "tree_at T par (slot_get s T) t" and t: "t = Nd l x b (Nd d y v a)" "d \<noteq> Lf"
    and dd: "distinct (inord t)" and own: "owner_of s \<inter> set (inord t) = {}"
  shows "changed_at s par (set (inord t)) T (RotateLeft s (RotateRight (RightOf x) T)) (rot_left (Nd l x b (rot_right (Nd d y v a))))"
proof -
  let ?r = "Nd d y v a"
  obtain d1 z w d2 where d: "d = Nd d1 z w d2" using t(2) by (cases d) auto
  have ar: "tree_at T (Some x) (slot_get (RightOf x) T) ?r" using at by (simp add: t)
  have "changed_at (RightOf x) (Some x) (set (inord ?r)) T (RotateRight (RightOf x) T) (rot_right ?r)"
  proof (rule rotate_right_at [OF _ ar])
    show "Nd d y v a = Nd (Nd d1 z w d2) y v a" by (simp add: d)
    show "distinct (inord ?r)" "owner_of (RightOf x) \<inter> set (inord ?r) = {}" using dd by (auto simp: t)
  qed
  then have 1: "changed_at s par (set (inord t)) T (RotateRight (RightOf x) T) (Nd l x b (rot_right ?r))"
    using changed_below [of T par s "[(False, x, b, l)]" ?r] at dd own by (simp add: t)
  have shape: "rot_right ?r = Nd d1 z (rotr_y v w) (Nd d2 y (rotr_x v w) a)" by (simp add: d)
  have "set (inord (Nd l x b (rot_right ?r))) = set (inord t)" "distinct (inord (Nd l x b (rot_right ?r)))" using dd by (simp_all add: t d)
  then have "changed_at s par (set (inord t)) (RotateRight (RightOf x) T) (RotateLeft s (RotateRight (RightOf x) T)) (rot_left (Nd l x b (rot_right ?r)))"
    using rotate_left_at [of "Nd l x b (rot_right ?r)" l x b d1 z "rotr_y v w" "Nd d2 y (rotr_x v w) a" "RotateRight (RightOf x) T" par s] 1 own shape
    by (simp add: changed_at_def)
  then show ?thesis using changed_at_trans [OF 1] by blast
qed

text \<open>The balancing functions of the source do the steps on the trees in the store.\<close>

lemmas avl_consts = LEFT_def RIGHT_def BALANCED_def

lemma fix_left_at:
  assumes at: "tree_at T par (slot_get s T) t" and t: "t = Nd l x b r" and dd: "distinct (inord t)"
    and own: "owner_of s \<inter> set (inord t) = {}" and can: "can_left ins l b"
  shows "\<exists>T'. (if ins then BalanceInsertLeft s T else BalanceRemoveRight s T) = (res_of (fst (fix_left ins t)), T')
    \<and> changed_at s par (set (inord t)) T T' (snd (fix_left ins t))"
proof (cases "b < -1")
  case False
  have "slot_get s T = Some x" "n_balance (t_node T x) = b" using at by (simp_all add: t)
  then show ?thesis using False changed_at_refl [OF at] t
    by (auto simp: BalanceInsertLeft_def BalanceRemoveRight_def avl_consts res_of_def)
next
  case True
  then obtain a y v d where l: "l = Nd a y v d" and sh: "v = -1 \<or> \<not> ins \<and> v = 0 \<or> d \<noteq> Lf" using can by (auto simp: can_left_def)
  have f: "slot_get s T = Some x" "n_balance (t_node T x) = b" "n_left (t_node T x) = Some y" "n_balance (t_node T y) = v"
    using at by (simp_all add: t l)
  have single: "changed_at s par (set (inord t)) T (RotateRight s T) (rot_right t)"
    using rotate_right_at [OF _ at dd own] t l by blast
  show ?thesis
  proof (cases "v = -1 \<or> \<not> ins \<and> v = 0")
    case S: True
    then show ?thesis using f True single t l
      by (auto simp: BalanceInsertLeft_def BalanceRemoveRight_def avl_consts res_of_def Let_def)
  next
    case D: False
    then have "d \<noteq> Lf" using sh by blast
    from double_right_at [OF at _ this dd own] have "changed_at s par (set (inord t)) T (RotateRight s (RotateLeft (LeftOf x) T))
        (rot_right (Nd (rot_left l) x b r))" using t l by simp
    then show ?thesis using D f True t l
      by (auto simp: BalanceInsertLeft_def BalanceRemoveRight_def avl_consts res_of_def Let_def simp del: rot_right.simps rot_left.simps)
  qed
qed

lemma fix_right_at:
  assumes at: "tree_at T par (slot_get s T) t" and t: "t = Nd l x b r" and dd: "distinct (inord t)"
    and own: "owner_of s \<inter> set (inord t) = {}" and can: "can_right ins r b"
  shows "\<exists>T'. (if ins then BalanceInsertRight s T else BalanceRemoveLeft s T) = (res_of (fst (fix_right ins t)), T')
    \<and> changed_at s par (set (inord t)) T T' (snd (fix_right ins t))"
proof (cases "1 < b")
  case False
  have "slot_get s T = Some x" "n_balance (t_node T x) = b" using at by (simp_all add: t)
  then show ?thesis using False changed_at_refl [OF at] t
    by (auto simp: BalanceInsertRight_def BalanceRemoveLeft_def avl_consts res_of_def)
next
  case True
  then obtain d y v a where r: "r = Nd d y v a" and sh: "v = 1 \<or> \<not> ins \<and> v = 0 \<or> d \<noteq> Lf" using can by (auto simp: can_right_def)
  have f: "slot_get s T = Some x" "n_balance (t_node T x) = b" "n_right (t_node T x) = Some y" "n_balance (t_node T y) = v"
    using at by (simp_all add: t r)
  have single: "changed_at s par (set (inord t)) T (RotateLeft s T) (rot_left t)"
    using rotate_left_at [OF _ at dd own] t r by blast
  show ?thesis
  proof (cases "v = 1 \<or> \<not> ins \<and> v = 0")
    case S: True
    then show ?thesis using f True single t r
      by (auto simp: BalanceInsertRight_def BalanceRemoveLeft_def avl_consts res_of_def Let_def)
  next
    case D: False
    then have "d \<noteq> Lf" using sh by blast
    from double_left_at [OF at _ this dd own] have "changed_at s par (set (inord t)) T (RotateLeft s (RotateRight (RightOf x) T))
        (rot_left (Nd l x b (rot_right r)))" using t r by simp
    then show ?thesis using D f True t r
      by (auto simp: BalanceInsertRight_def BalanceRemoveLeft_def avl_consts res_of_def Let_def simp del: rot_right.simps rot_left.simps)
  qed
qed

text \<open>Setting the balance of the root of a subtree.\<close>

lemma set_root_balance:
  assumes at: "tree_at T par (slot_get s T) (Nd l x b r)" and dd: "distinct (inord (Nd l x b r))" and own: "x \<notin> owner_of s"
  shows "changed_at s par (set (inord (Nd l x b r))) T (add_balance x k T) (Nd l x (b + k) r)"
proof -
  have s: "slot_get s (add_balance x k T) = slot_get s T" by (cases s) (auto simp: avl_sets)
  have "tree_at (add_balance x k T) p q l = tree_at T p q l" "tree_at (add_balance x k T) p q r = tree_at T p q r" for p q
    using dd by (auto intro!: tree_at_cong simp: avl_sets)
  then show ?thesis using at unfolding changed_at_def s frame_eq_def by (auto simp: avl_sets)
qed

subsection \<open>The steps and the heights\<close>

text \<open>After an insertion that made the left subtree higher by one.\<close>

lemma fix_left_ins:
  assumes "avl l" "avl r" "b = ht r - (ht l - 1)" "-1 \<le> b" "b \<le> 1" "bal l \<noteq> 0 \<or> ht l = 1" "fix_left True (Nd l x (b - 1) r) = (h, t)"
  shows "avl t \<and> (if h then ht t = max (ht l - 1) (ht r) + 2 \<and> bal t \<noteq> 0 else ht t = max (ht l - 1) (ht r) + 1) \<and> can_left True l (b - 1)"
proof (cases "b = -1")
  case False
  then have "b = 0 \<or> b = 1" using assms(4,5) by linarith
  then show ?thesis
  proof
    assume "b = 0"
    then show ?thesis using assms by (auto simp: can_left_def)
  next
    assume "b = 1"
    then show ?thesis using assms by (auto simp: can_left_def)
  qed
next
  case True
  then have h2: "2 \<le> ht l" using assms(3) ht_nonneg [of r] by linarith
  obtain a y v d where l: "l = Nd a y v d" using h2 by (cases l) auto
  have v: "v = ht d - ht a" "-1 \<le> v" "v \<le> 1" "v \<noteq> 0" "avl a" "avl d" using assms(1,6) h2 l by auto
  show ?thesis
  proof (cases "v = -1")
    case S: True
    then show ?thesis using assms True l v by (auto simp: can_left_def rotr_x_def rotr_y_def split: if_splits)
  next
    case False
    then have v1: "v = 1" using v by linarith
    then obtain d1 z w d2 where d: "d = Nd d1 z w d2" using v(1) ht_nonneg [of a] by (cases d) auto
    have w: "w = ht d2 - ht d1" "-1 \<le> w" "w \<le> 1" "avl d1" "avl d2" using v(6) d by auto
    have "w = -1 \<or> w = 0 \<or> w = 1" using w by linarith
    then show ?thesis using assms True l v v1 d w
      by (auto simp: can_left_def rotr_x_def rotr_y_def rotl_x_def rotl_y_def split: if_splits)
  qed
qed

lemma fix_right_ins:
  assumes "avl l" "avl r" "b = (ht r - 1) - ht l" "-1 \<le> b" "b \<le> 1" "bal r \<noteq> 0 \<or> ht r = 1" "fix_right True (Nd l x (b + 1) r) = (h, t)"
  shows "avl t \<and> (if h then ht t = max (ht l) (ht r - 1) + 2 \<and> bal t \<noteq> 0 else ht t = max (ht l) (ht r - 1) + 1) \<and> can_right True r (b + 1)"
proof (cases "b = 1")
  case False
  then have "b = 0 \<or> b = -1" using assms(4,5) by linarith
  then show ?thesis
  proof
    assume "b = 0"
    then show ?thesis using assms by (auto simp: can_right_def)
  next
    assume "b = -1"
    then show ?thesis using assms by (auto simp: can_right_def)
  qed
next
  case True
  then have h2: "2 \<le> ht r" using assms(3) ht_nonneg [of l] by linarith
  obtain d y v a where r: "r = Nd d y v a" using h2 by (cases r) auto
  have v: "v = ht a - ht d" "-1 \<le> v" "v \<le> 1" "v \<noteq> 0" "avl a" "avl d" using assms(2,6) h2 r by auto
  show ?thesis
  proof (cases "v = 1")
    case S: True
    then show ?thesis using assms True r v by (auto simp: can_right_def rotl_x_def rotl_y_def split: if_splits)
  next
    case False
    then have v1: "v = -1" using v by linarith
    then obtain d1 z w d2 where d: "d = Nd d1 z w d2" using v(1) ht_nonneg [of a] by (cases d) auto
    have w: "w = ht d2 - ht d1" "-1 \<le> w" "w \<le> 1" "avl d1" "avl d2" using v(6) d by auto
    have "w = -1 \<or> w = 0 \<or> w = 1" using w by linarith
    then show ?thesis using assms True r v v1 d w
      by (auto simp: can_right_def rotr_x_def rotr_y_def rotl_x_def rotl_y_def split: if_splits)
  qed
qed

text \<open>After a removal that made the right (left) subtree lower by one.\<close>

lemma fix_left_rem:
  assumes "avl l" "avl r" "b = (ht r + 1) - ht l" "-1 \<le> b" "b \<le> 1" "fix_left False (Nd l x (b - 1) r) = (h, t)"
  shows "avl t \<and> ht t = max (ht l) (ht r + 1) + 1 - of_bool h \<and> can_left False l (b - 1)"
proof (cases "b = -1")
  case False
  then show ?thesis using assms by (auto simp: can_left_def split: if_splits)
next
  case True
  then have h2: "2 \<le> ht l" using assms(3) ht_nonneg [of r] by linarith
  obtain a y v d where l: "l = Nd a y v d" using h2 by (cases l) auto
  have v: "v = ht d - ht a" "-1 \<le> v" "v \<le> 1" "avl a" "avl d" using assms(1) l by auto
  show ?thesis
  proof (cases "v \<le> 0")
    case S: True
    then have "v = -1 \<or> v = 0" using v by linarith
    then show ?thesis using assms True l v by (auto simp: can_left_def rotr_x_def rotr_y_def split: if_splits)
  next
    case False
    then have v1: "v = 1" using v by linarith
    then obtain d1 z w d2 where d: "d = Nd d1 z w d2" using v(1) ht_nonneg [of a] by (cases d) auto
    have w: "w = ht d2 - ht d1" "-1 \<le> w" "w \<le> 1" "avl d1" "avl d2" using v(5) d by auto
    have "w = -1 \<or> w = 0 \<or> w = 1" using w by linarith
    then show ?thesis using assms True l v v1 d w
      by (auto simp: can_left_def rotr_x_def rotr_y_def rotl_x_def rotl_y_def split: if_splits)
  qed
qed

lemma fix_right_rem:
  assumes "avl l" "avl r" "b = ht r - (ht l + 1)" "-1 \<le> b" "b \<le> 1" "fix_right False (Nd l x (b + 1) r) = (h, t)"
  shows "avl t \<and> ht t = max (ht l + 1) (ht r) + 1 - of_bool h \<and> can_right False r (b + 1)"
proof (cases "b = 1")
  case False
  then show ?thesis using assms by (auto simp: can_right_def split: if_splits)
next
  case True
  then have h2: "2 \<le> ht r" using assms(3) ht_nonneg [of l] by linarith
  obtain d y v a where r: "r = Nd d y v a" using h2 by (cases r) auto
  have v: "v = ht a - ht d" "-1 \<le> v" "v \<le> 1" "avl a" "avl d" using assms(2) r by auto
  show ?thesis
  proof (cases "0 \<le> v")
    case S: True
    then have "v = 1 \<or> v = 0" using v by linarith
    then show ?thesis using assms True r v by (auto simp: can_right_def rotl_x_def rotl_y_def split: if_splits)
  next
    case False
    then have v1: "v = -1" using v by linarith
    then obtain d1 z w d2 where d: "d = Nd d1 z w d2" using v(1) ht_nonneg [of a] by (cases d) auto
    have w: "w = ht d2 - ht d1" "-1 \<le> w" "w \<le> 1" "avl d1" "avl d2" using v(5) d by auto
    have "w = -1 \<or> w = 0 \<or> w = 1" using w by linarith
    then show ?thesis using assms True r v v1 d w
      by (auto simp: can_right_def rotr_x_def rotr_y_def rotl_x_def rotl_y_def split: if_splits)
  qed
qed

end
