(* ===== verification/Kernel_Avl.thy ===== *)
theory Kernel_Avl
  imports Kernel_AvlStore
begin

text \<open>
  Correctness of the AVL tree of \<open>Kernel_AvlTree\<close>. The locale \<open>rebalance\<close> is the contract of one balancing step on the way up;
  it is interpreted for insertion and removal, and the loops are proved once in it. The locale \<open>avl_compare\<close> is the
  contract of the comparators, \<open>avl_compare_unit\<close> that of those that return -1, 0 and 1 only; the definitions of areas in
  \<open>Vm_Areas\<close> interpret them. A balanced tree refines the sorted list of its nodes.
\<close>

subsection \<open>Contexts and heights\<close>

text \<open>The context expects a subtree of height \<open>h\<close>; the height of the whole.\<close>

fun cavl :: "frame list \<Rightarrow> int \<Rightarrow> bool" where
  "cavl [] h \<longleftrightarrow> True"
| "cavl ((d, x, b, u) # c) h \<longleftrightarrow> avl u \<and> b = (if d then ht u - h else h - ht u) \<and> -1 \<le> b \<and> b \<le> 1 \<and> cavl c (max h (ht u) + 1)"

fun cht :: "frame list \<Rightarrow> int \<Rightarrow> int" where
  "cht [] h = h"
| "cht ((d, x, b, u) # c) h = cht c (max h (ht u) + 1)"

lemma avl_plug: "avl (plug c t) \<longleftrightarrow> avl t \<and> cavl c (ht t)"
  by (induction c t rule: plug.induct) (auto simp: max.commute)

lemma ht_plug: "ht (plug c t) = cht c (ht t)"
  by (induction c t rule: plug.induct) (auto simp: max.commute)

lemma cht_ge: "h + int (length c) \<le> cht c h"
  by (induction c h rule: cht.induct) auto

lemma plug_append: "plug (c @ c') t = plug c' (plug c t)"
  by (induction c arbitrary: t) auto

lemma slot_of_append: "slot_of s (c @ c') = slot_of (slot_of s c') c"
  by (cases c) auto

lemma par_of_append: "par_of p (c @ c') = par_of (par_of p c') c"
  by (cases c) auto

subsection \<open>Rebalancing on the way up\<close>

fun stack_of :: "slot \<Rightarrow> frame list \<Rightarrow> (slot \<times> bool) list" where
  "stack_of s [] = []"
| "stack_of s ((d, x, b, u) # c) = (slot_of s c, d) # stack_of s c"

fun up_loop :: "(bool \<Rightarrow> slot \<Rightarrow> avl_tree \<Rightarrow> avl_result \<times> avl_tree) \<Rightarrow> (slot \<times> bool) list \<Rightarrow> avl_tree \<Rightarrow> avl_result \<times> avl_tree" where
  "up_loop step [] T = (HEIGHT_CHANGED, T)"
| "up_loop step ((s, d) # stack) T =
     (let (result, T) = step d s T in if result = HEIGHT_CHANGED then up_loop step stack T else (result, T))"

definition ins_step :: "bool \<Rightarrow> slot \<Rightarrow> avl_tree \<Rightarrow> avl_result \<times> avl_tree" where
  "ins_step d s T = (let node = the (slot_get s T) in
     if d then BalanceInsertLeft s (add_balance node (-1) T) else BalanceInsertRight s (add_balance node 1 T))"

definition rem_step :: "bool \<Rightarrow> slot \<Rightarrow> avl_tree \<Rightarrow> avl_result \<times> avl_tree" where
  "rem_step d s T = (let node = the (slot_get s T) in
     if d then BalanceRemoveLeft s (add_balance node 1 T) else BalanceRemoveRight s (add_balance node (-1) T))"

lemma insert_balance_up: "insert_balance stack T = up_loop ins_step stack T"
proof (induction stack arbitrary: T)
  case (Cons f stack)
  obtain s d where "f = (s, d)" by (cases f)
  then show ?case using Cons.IH by (auto simp: ins_step_def Let_def split: prod.splits)
qed simp

lemma rightmost_balance_up: "rightmost_balance stack T = up_loop rem_step (map (\<lambda>s. (s, False)) stack) T"
  by (induction stack arbitrary: T) (auto simp: rem_step_def Let_def split: prod.splits)

text \<open>The contract of a step: below the slot one subtree of the node is off its old height \<open>h\<close> by one, and the step
  restores the balance, or leaves a balanced tree that is off the old height of the whole.\<close>

locale rebalance =
  fixes step :: "bool \<Rightarrow> slot \<Rightarrow> avl_tree \<Rightarrow> avl_result \<times> avl_tree"
    and off :: "int \<Rightarrow> atree \<Rightarrow> bool"
  assumes step_law: "tree_at T par (slot_get s T) w \<Longrightarrow> w = (if d then Nd t x b u else Nd u x b t) \<Longrightarrow> distinct (inord w) \<Longrightarrow>
      owner_of s \<inter> set (inord w) = {} \<Longrightarrow> avl t \<Longrightarrow> off h t \<Longrightarrow> cavl [(d, x, b, u)] h \<Longrightarrow>
      \<exists>res T' t'. step d s T = (res, T') \<and> changed_at s par (set (inord w)) T T' t' \<and> inord t' = inord w \<and> avl t'
        \<and> (if res = HEIGHT_CHANGED then off (max h (ht u) + 1) t' else res = OK \<and> ht t' = max h (ht u) + 1)"
begin

lemma step_ctx:
  assumes at: "tree_at T par (slot_get s T) (plug ((d, x, b, u) # c) t)" and dd: "distinct (inord (plug ((d, x, b, u) # c) t))"
    and own: "owner_of s \<inter> set (inord (plug ((d, x, b, u) # c) t)) = {}" and t: "avl t" "off h t" "cavl ((d, x, b, u) # c) h"
  obtains res T' t' where "step d (slot_of s c) T = (res, T')"
    "changed_at s par (set (inord (plug ((d, x, b, u) # c) t))) T T' (plug c t')"
    "inord (plug c t') = inord (plug ((d, x, b, u) # c) t)" "avl t'"
    "if res = HEIGHT_CHANGED then off (max h (ht u) + 1) t' else res = OK \<and> ht t' = max h (ht u) + 1"
proof -
  define w where "w = (if d then Nd t x b u else Nd u x b t)"
  have p: "plug ((d, x, b, u) # c) t = plug c w" by (simp add: w_def)
  have at_w: "tree_at T (par_of par c) (slot_get (slot_of s c) T) w" using at unfolding p plug_at by blast
  have dw: "distinct (inord w)" using dd unfolding p inord_plug by (simp only: distinct_append)
  have ow: "owner_of (slot_of s c) \<inter> set (inord w) = {}"
  proof (cases c)
    case Nil
    then show ?thesis using own by (auto simp: w_def)
  next
    case (Cons f c')
    obtain d' y b' v where f: "f = (d', y, b', v)" by (cases f)
    have "y \<in> set (lefts c) \<union> set (rights c)" by (auto simp: Cons f)
    moreover have "set (inord w) \<inter> (set (lefts c) \<union> set (rights c)) = {}"
      using dd unfolding p inord_plug by (simp only: distinct_append set_append) blast
    moreover have "owner_of (slot_of s c) = {y}" by (simp add: Cons f)
    ultimately show ?thesis by auto
  qed
  have c1: "cavl [(d, x, b, u)] h" using t(3) by simp
  obtain res T' t' where 1: "step d (slot_of s c) T = (res, T')" "changed_at (slot_of s c) (par_of par c) (set (inord w)) T T' t'"
    "inord t' = inord w" "avl t'" "if res = HEIGHT_CHANGED then off (max h (ht u) + 1) t' else res = OK \<and> ht t' = max h (ht u) + 1"
    using step_law [OF at_w w_def dw ow t(1,2) c1] by blast
  have "changed_at s par (set (inord (plug c w))) T T' (plug c t')"
    using at dd own 1(2) unfolding p by (intro changed_below)
  then show thesis
  proof (intro that)
    show "inord (plug c t') = inord (plug ((d, x, b, u) # c) t)" unfolding p inord_plug 1(3) ..
  qed (use 1 in \<open>simp_all only: p\<close>)
qed

lemma up_loop_law:
  assumes "tree_at T par (slot_get s T) (plug c t)" "distinct (inord (plug c t))"
    "owner_of s \<inter> set (inord (plug c t)) = {}" "avl t" "off h t" "cavl c h"
  shows "\<exists>res T' t'. up_loop step (stack_of s c) T = (res, T') \<and> changed_at s par (set (inord (plug c t))) T T' t'
    \<and> inord t' = inord (plug c t) \<and> avl t' \<and> (if res = HEIGHT_CHANGED then off (cht c h) t' else res = OK \<and> ht t' = cht c h)"
  using assms
proof (induction c arbitrary: T t h)
  case Nil
  then show ?case by (auto intro: changed_at_refl)
next
  case (Cons f c)
  obtain d x b u where f: "f = (d, x, b, u)" by (cases f)
  note pr = Cons.prems [unfolded f]
  obtain res T' t' where 1: "step d (slot_of s c) T = (res, T')"
    "changed_at s par (set (inord (plug ((d, x, b, u) # c) t))) T T' (plug c t')"
    "inord (plug c t') = inord (plug ((d, x, b, u) # c) t)" "avl t'"
    "if res = HEIGHT_CHANGED then off (max h (ht u) + 1) t' else res = OK \<and> ht t' = max h (ht u) + 1"
    by (rule step_ctx [OF pr])
  have c: "cavl c (max h (ht u) + 1)" using pr(6) by simp
  show ?case
  proof (cases "res = HEIGHT_CHANGED")
    case False
    then have "avl (plug c t')" using 1 c by (simp add: avl_plug)
    moreover have "ht (plug c t') = cht (f # c) h" using False 1(5) by (simp add: ht_plug f)
    ultimately show ?thesis using False 1 unfolding f by (auto simp del: plug.simps)
  next
    case True
    have "tree_at T' par (slot_get s T') (plug c t')" using 1(2) by (simp add: changed_at_def)
    moreover have "off (max h (ht u) + 1) t'" using True 1(5) by simp
    ultimately obtain res2 T2 t2 where 2: "up_loop step (stack_of s c) T' = (res2, T2)"
      "changed_at s par (set (inord (plug c t'))) T' T2 t2" "inord t2 = inord (plug c t')" "avl t2"
      "if res2 = HEIGHT_CHANGED then off (cht c (max h (ht u) + 1)) t2 else res2 = OK \<and> ht t2 = cht c (max h (ht u) + 1)"
      using Cons.IH [of T' t' "max h (ht u) + 1"] pr(2,3) 1(3,4) c by auto
    have "changed_at s par (set (inord (plug ((d, x, b, u) # c) t))) T T2 t2"
      using changed_at_trans [OF 1(2)] 2(2) 1(3) by simp
    then show ?thesis using 2 1 True unfolding f by (auto simp del: plug.simps)
  qed
qed

end

lemma res_of_simps [simp]: "res_of h = HEIGHT_CHANGED \<longleftrightarrow> h" "res_of h = OK \<longleftrightarrow> \<not> h"
  by (simp_all add: res_of_def)

definition grown :: "int \<Rightarrow> atree \<Rightarrow> bool" where
  "grown h t \<longleftrightarrow> ht t = h + 1 \<and> (bal t \<noteq> 0 \<or> ht t = 1)"

definition shrunk :: "int \<Rightarrow> atree \<Rightarrow> bool" where
  "shrunk h t \<longleftrightarrow> ht t = h - 1"

text \<open>The adjustment of a balance field followed by the balancing of the left or right side.\<close>

lemma adjust_left_at:
  assumes at: "tree_at T par (slot_get s T) (Nd l x b r)" and dd: "distinct (inord (Nd l x b r))"
    and own: "owner_of s \<inter> set (inord (Nd l x b r)) = {}" and can: "can_left ins l (b - 1)"
    and fx: "fix_left ins (Nd l x (b - 1) r) = (h, t)"
  shows "\<exists>T'. (if ins then BalanceInsertLeft s (add_balance x (-1) T) else BalanceRemoveRight s (add_balance x (-1) T)) = (res_of h, T')
    \<and> changed_at s par (set (inord (Nd l x b r))) T T' t"
proof -
  have 1: "changed_at s par (set (inord (Nd l x b r))) T (add_balance x (-1) T) (Nd l x (b - 1) r)"
    using set_root_balance [OF at dd, of "-1"] own by simp
  then show ?thesis
    using fix_left_at [of "add_balance x (-1) T" par s "Nd l x (b - 1) r" l x "b - 1" r ins] dd own can changed_at_trans [OF 1] fx
    by (auto simp: changed_at_def)
qed

lemma adjust_right_at:
  assumes at: "tree_at T par (slot_get s T) (Nd l x b r)" and dd: "distinct (inord (Nd l x b r))"
    and own: "owner_of s \<inter> set (inord (Nd l x b r)) = {}" and can: "can_right ins r (b + 1)"
    and fx: "fix_right ins (Nd l x (b + 1) r) = (h, t)"
  shows "\<exists>T'. (if ins then BalanceInsertRight s (add_balance x 1 T) else BalanceRemoveLeft s (add_balance x 1 T)) = (res_of h, T')
    \<and> changed_at s par (set (inord (Nd l x b r))) T T' t"
proof -
  have 1: "changed_at s par (set (inord (Nd l x b r))) T (add_balance x 1 T) (Nd l x (b + 1) r)"
    using set_root_balance [OF at dd, of 1] own by simp
  then show ?thesis
    using fix_right_at [of "add_balance x 1 T" par s "Nd l x (b + 1) r" l x "b + 1" r ins] dd own can changed_at_trans [OF 1] fx
    by (auto simp: changed_at_def)
qed

lemma inord_fix_pair:
  "fix_left ins (Nd l x b r) = (h, t) \<Longrightarrow> inord t = inord (Nd l x b r)"
  "fix_right ins (Nd l x b r) = (h, t) \<Longrightarrow> inord t = inord (Nd l x b r)"
  using inord_fix [of ins "Nd l x b r"] by (metis inord.simps(2) snd_conv)+

lemma ins_step_law:
  assumes at: "tree_at T par (slot_get s T) w" and w: "w = (if d then Nd t x b u else Nd u x b t)" and dd: "distinct (inord w)"
    and own: "owner_of s \<inter> set (inord w) = {}" and t: "avl t" "grown h t" "cavl [(d, x, b, u)] h"
  shows "\<exists>res T' t'. ins_step d s T = (res, T') \<and> changed_at s par (set (inord w)) T T' t' \<and> inord t' = inord w \<and> avl t'
    \<and> (if res = HEIGHT_CHANGED then grown (max h (ht u) + 1) t' else res = OK \<and> ht t' = max h (ht u) + 1)"
proof (cases d)
  case True
  then have w: "w = Nd t x b u" and b: "b = ht u - h" "-1 \<le> b" "b \<le> 1" "avl u" using w t(3) by auto
  have h: "h = ht t - 1" "bal t \<noteq> 0 \<or> ht t = 1" using t(2) by (auto simp: grown_def)
  obtain e t' where f: "fix_left True (Nd t x (b - 1) u) = (e, t')" by (cases "fix_left True (Nd t x (b - 1) u)")
  have k: "avl t' \<and> (if e then ht t' = max (ht t - 1) (ht u) + 2 \<and> bal t' \<noteq> 0 else ht t' = max (ht t - 1) (ht u) + 1) \<and> can_left True t (b - 1)"
    by (rule fix_left_ins [OF t(1) b(4) _ b(2,3) h(2) f]) (use b h in simp)
  have "slot_get s T = Some x" using at by (simp add: w)
  then obtain T' where T': "ins_step d s T = (res_of e, T')" "changed_at s par (set (inord w)) T T' t'"
    using adjust_left_at [OF at [unfolded w] dd [unfolded w] own [unfolded w] _ f] k True by (auto simp: w ins_step_def)
  have "if e then grown (max h (ht u) + 1) t' else ht t' = max h (ht u) + 1" using k h by (auto simp: grown_def)
  then show ?thesis using T' k inord_fix_pair(1) [OF f] by (auto simp: w)
next
  case False
  then have w: "w = Nd u x b t" and b: "b = h - ht u" "-1 \<le> b" "b \<le> 1" "avl u" using w t(3) by auto
  have h: "h = ht t - 1" "bal t \<noteq> 0 \<or> ht t = 1" using t(2) by (auto simp: grown_def)
  obtain e t' where f: "fix_right True (Nd u x (b + 1) t) = (e, t')" by (cases "fix_right True (Nd u x (b + 1) t)")
  have k: "avl t' \<and> (if e then ht t' = max (ht u) (ht t - 1) + 2 \<and> bal t' \<noteq> 0 else ht t' = max (ht u) (ht t - 1) + 1) \<and> can_right True t (b + 1)"
    by (rule fix_right_ins [OF b(4) t(1) _ b(2,3) h(2) f]) (use b h in simp)
  have "slot_get s T = Some x" using at by (simp add: w)
  then obtain T' where T': "ins_step d s T = (res_of e, T')" "changed_at s par (set (inord w)) T T' t'"
    using adjust_right_at [OF at [unfolded w] dd [unfolded w] own [unfolded w] _ f] k False by (auto simp: w ins_step_def)
  have "if e then grown (max h (ht u) + 1) t' else ht t' = max h (ht u) + 1" using k h by (auto simp: grown_def max.commute)
  then show ?thesis using T' k inord_fix_pair(2) [OF f] by (auto simp: w)
qed

lemma rem_step_law:
  assumes at: "tree_at T par (slot_get s T) w" and w: "w = (if d then Nd t x b u else Nd u x b t)" and dd: "distinct (inord w)"
    and own: "owner_of s \<inter> set (inord w) = {}" and t: "avl t" "shrunk h t" "cavl [(d, x, b, u)] h"
  shows "\<exists>res T' t'. rem_step d s T = (res, T') \<and> changed_at s par (set (inord w)) T T' t' \<and> inord t' = inord w \<and> avl t'
    \<and> (if res = HEIGHT_CHANGED then shrunk (max h (ht u) + 1) t' else res = OK \<and> ht t' = max h (ht u) + 1)"
proof (cases d)
  case True
  then have w: "w = Nd t x b u" and b: "b = ht u - h" "-1 \<le> b" "b \<le> 1" "avl u" using w t(3) by auto
  have h: "h = ht t + 1" using t(2) by (auto simp: shrunk_def)
  obtain e t' where f: "fix_right False (Nd t x (b + 1) u) = (e, t')" by (cases "fix_right False (Nd t x (b + 1) u)")
  have k: "avl t' \<and> ht t' = max (ht t + 1) (ht u) + 1 - of_bool e \<and> can_right False u (b + 1)"
    by (rule fix_right_rem [OF t(1) b(4) _ b(2,3) f]) (use b h in simp)
  have "slot_get s T = Some x" using at by (simp add: w)
  then obtain T' where T': "rem_step d s T = (res_of e, T')" "changed_at s par (set (inord w)) T T' t'"
    using adjust_right_at [OF at [unfolded w] dd [unfolded w] own [unfolded w] _ f] k True by (auto simp: w rem_step_def)
  have "if e then shrunk (max h (ht u) + 1) t' else ht t' = max h (ht u) + 1" using k h by (auto simp: shrunk_def)
  then show ?thesis using T' k inord_fix_pair(2) [OF f] by (auto simp: w)
next
  case False
  then have w: "w = Nd u x b t" and b: "b = h - ht u" "-1 \<le> b" "b \<le> 1" "avl u" using w t(3) by auto
  have h: "h = ht t + 1" using t(2) by (auto simp: shrunk_def)
  obtain e t' where f: "fix_left False (Nd u x (b - 1) t) = (e, t')" by (cases "fix_left False (Nd u x (b - 1) t)")
  have k: "avl t' \<and> ht t' = max (ht u) (ht t + 1) + 1 - of_bool e \<and> can_left False u (b - 1)"
    by (rule fix_left_rem [OF b(4) t(1) _ b(2,3) f]) (use b h in simp)
  have "slot_get s T = Some x" using at by (simp add: w)
  then obtain T' where T': "rem_step d s T = (res_of e, T')" "changed_at s par (set (inord w)) T T' t'"
    using adjust_left_at [OF at [unfolded w] dd [unfolded w] own [unfolded w] _ f] k False by (auto simp: w rem_step_def)
  have "if e then shrunk (max h (ht u) + 1) t' else ht t' = max h (ht u) + 1" using k h by (auto simp: shrunk_def max.commute)
  then show ?thesis using T' k inord_fix_pair(1) [OF f] by (auto simp: w)
qed

interpretation ins: rebalance ins_step grown
  by unfold_locales (rule ins_step_law)

interpretation rem: rebalance rem_step shrunk
  by unfold_locales (rule rem_step_law)

subsection \<open>The representation and the order\<close>

definition avl_rep :: "avl_tree \<Rightarrow> atree \<Rightarrow> bool" where
  "avl_rep T t \<longleftrightarrow> tree_at T None (t_root T) t \<and> distinct (inord t) \<and> avl t \<and> t_count T = int (length (inord t))"

lemma ctx_at_append:
  "ctx_at T s par (c @ c') \<longleftrightarrow> ctx_at T s par c' \<and> ctx_at T (slot_of s c') (par_of par c') c"
  by (induction c) (auto simp: slot_of_append par_of_append)

lemma stack_of_append: "stack_of s (c @ c') = stack_of (slot_of s c') c @ stack_of s c'"
  by (induction c) (auto simp: slot_of_append)

lemma lefts_append: "lefts (c @ c') = lefts c' @ lefts c"
  by (induction c) auto

lemma rights_append: "rights (c @ c') = rights c @ rights c'"
  by (induction c) auto

lemma length_stack_of [simp]: "length (stack_of s c) = length c"
  by (induction c) auto

text \<open>The contract of the comparator: a key for each node, and the order of the keys.\<close>

locale avl_compare =
  fixes cmpKey :: "'k::linorder \<Rightarrow> node_ptr \<Rightarrow> int"
    and cmpNodes :: "node_ptr \<Rightarrow> node_ptr \<Rightarrow> int"
    and key_of :: "node_ptr \<Rightarrow> 'k"
  assumes cmp_less: "cmpKey k n < 0 \<longleftrightarrow> k < key_of n"
    and cmp_zero: "cmpKey k n = 0 \<longleftrightarrow> k = key_of n"
    and cmp_nodes: "cmpNodes m n = cmpKey (key_of m) n"
begin

text \<open>The place of a key in a search tree.\<close>

lemma split_at:
  "sorted_wrt (<) (map key_of (inord t)) \<Longrightarrow>
   \<exists>c t'. t = plug c t' \<and> (\<forall>y \<in> set (lefts c). key_of y < k) \<and> (\<forall>y \<in> set (rights c). k < key_of y)
     \<and> (t' = Lf \<or> (\<exists>l x b r. t' = Nd l x b r \<and> key_of x = k))"
proof (induction t)
  case Lf
  then show ?case by (intro exI [of _ "[]"]) simp
next
  case (Nd l x b r)
  have o: "\<And>y. y \<in> set (inord l) \<Longrightarrow> key_of y < key_of x" "\<And>y. y \<in> set (inord r) \<Longrightarrow> key_of x < key_of y"
    using Nd.prems by (auto simp: sorted_wrt_append)
  consider "k = key_of x" | "k < key_of x" | "key_of x < k" by fastforce
  then show ?case
  proof cases
    case 1
    then show ?thesis by (intro exI [of _ "[]"]) auto
  next
    case 2
    obtain c t' where c: "l = plug c t'" "\<forall>y \<in> set (lefts c). key_of y < k" "\<forall>y \<in> set (rights c). k < key_of y"
      "t' = Lf \<or> (\<exists>l x b r. t' = Nd l x b r \<and> key_of x = k)" using Nd.IH(1) Nd.prems by (auto simp: sorted_wrt_append)
    have "\<forall>y \<in> set (inord r). k < key_of y" using o(2) 2 by fastforce
    then show ?thesis using c 2 by (intro exI [of _ "c @ [(True, x, b, r)]"] exI [of _ t'])
        (auto simp: plug_append lefts_append rights_append)
  next
    case 3
    obtain c t' where c: "r = plug c t'" "\<forall>y \<in> set (lefts c). key_of y < k" "\<forall>y \<in> set (rights c). k < key_of y"
      "t' = Lf \<or> (\<exists>l x b r. t' = Nd l x b r \<and> key_of x = k)" using Nd.IH(2) Nd.prems by (auto simp: sorted_wrt_append)
    have "\<forall>y \<in> set (inord l). key_of y < k" using o(1) 3 by fastforce
    then show ?thesis using c 3 by (intro exI [of _ "c @ [(False, x, b, l)]"] exI [of _ t'])
        (auto simp: plug_append lefts_append rights_append)
  qed
qed

lemma find_walk:
  assumes "ctx_at T s par c" "\<forall>y \<in> set (lefts c). key_of y < k" "\<forall>y \<in> set (rights c). k < key_of y"
  shows "key_loop cmpKey k T q (slot_get s T) = key_loop cmpKey k T (par_of q c) (slot_get (slot_of s c) T)"
  using assms
proof (induction c arbitrary: s par q rule: rev_induct)
  case (snoc f c)
  obtain d x b u where f: "f = (d, x, b, u)" by (cases f)
  have x: "slot_get s T = Some x" "ctx_at T (slot_of s [f]) (Some x) c" using snoc.prems(1) by (auto simp: ctx_at_append f)
  have o: "if d then k < key_of x else key_of x < k" using snoc.prems(2,3) by (auto simp: lefts_append rights_append f)
  have neg: "cmpKey k x \<noteq> 0" "cmpKey k x < 0 \<longleftrightarrow> d" using o cmp_less [of k x] cmp_zero [of k x] by (auto split: if_splits)
  have "key_loop cmpKey k T q (slot_get s T) = key_loop cmpKey k T (Some x) (slot_get (slot_of s [f]) T)"
    unfolding x(1) by (subst key_loop.simps) (simp add: neg f)
  also have "\<dots> = key_loop cmpKey k T (par_of (Some x) c) (slot_get (slot_of (slot_of s [f]) c) T)"
    by (rule snoc.IH [OF x(2)]) (use snoc.prems(2,3) in \<open>auto simp: lefts_append rights_append\<close>)
  finally show ?case by (simp add: slot_of_append par_of_append f)
qed simp

lemma insert_walk:
  assumes "ctx_at T s par c" "\<forall>y \<in> set (lefts c). key_of y < key_of z" "\<forall>y \<in> set (rights c). key_of z < key_of y"
    "length stack + length c \<le> kMaxAVLTreeHeight"
  shows "insert_descend cmpNodes z T s stack = insert_descend cmpNodes z T (slot_of s c) (stack_of s c @ stack)"
  using assms
proof (induction c arbitrary: s par stack rule: rev_induct)
  case (snoc f c)
  obtain d x b u where f: "f = (d, x, b, u)" by (cases f)
  have x: "slot_get s T = Some x" "ctx_at T (slot_of s [f]) (Some x) c" using snoc.prems(1) by (auto simp: ctx_at_append f)
  have o: "if d then key_of z < key_of x else key_of x < key_of z" using snoc.prems(2,3) by (auto simp: lefts_append rights_append f)
  have neg: "cmpNodes z x \<noteq> 0" "cmpNodes z x < 0 \<longleftrightarrow> d"
    using o cmp_less [of "key_of z" x] cmp_zero [of "key_of z" x] by (auto simp: cmp_nodes split: if_splits)
  have "insert_descend cmpNodes z T s stack = insert_descend cmpNodes z T (slot_of s [f]) ((s, d) # stack)"
    by (subst insert_descend.simps) (use snoc.prems(4) in \<open>simp add: neg x(1) f\<close>)
  also have "\<dots> = insert_descend cmpNodes z T (slot_of (slot_of s [f]) c) (stack_of (slot_of s [f]) c @ (s, d) # stack)"
    by (rule snoc.IH [OF x(2)]) (use snoc.prems(2,3,4) in \<open>auto simp: lefts_append rights_append\<close>)
  finally show ?case by (simp add: slot_of_append stack_of_append f)
qed simp

end

subsection \<open>Insertion\<close>

lemma tree_at_count [simp]: "tree_at (T\<lparr>t_count := n\<rparr>) par p t = tree_at T par p t"
  by (rule tree_at_cong) simp

lemma slot_get_count [simp]: "slot_get s (T\<lparr>t_count := n\<rparr>) = slot_get s T"
  by (cases s) simp_all

lemma ctx_at_count [simp]: "ctx_at (T\<lparr>t_count := n\<rparr>) s par c = ctx_at T s par c"
  by (induction c) auto

lemma count_set:
  "set_balance p b (set_right q v (set_left r w (slot_set s z T)))\<lparr>t_count := t_count (set_balance p b (set_right q v (set_left r w (slot_set s z T)))) + 1\<rparr>
    = set_balance p b (set_right q v (set_left r w (slot_set s z (T\<lparr>t_count := t_count T + 1\<rparr>))))"
  by (cases s) (simp_all add: upd_node_def avl_sets)

text \<open>Where the slot of a context is, seen from the tree.\<close>

lemma slot_fresh:
  assumes "x \<notin> set (lefts c) \<union> set (rights c)"
  shows "slot_of RootSlot c \<noteq> LeftOf x" "slot_of RootSlot c \<noteq> RightOf x"
  using assms by (cases c; auto split: if_splits)+

text \<open>Hanging a new leaf into the slot of a context.\<close>

definition link_leaf :: "slot \<Rightarrow> node_ptr \<Rightarrow> node_ptr option \<Rightarrow> avl_tree \<Rightarrow> avl_tree" where
  "link_leaf s x par T = set_parent x par (set_balance x BALANCED (set_right x None (set_left x None (slot_set s (Some x) T))))"

lemma link_leaf_at:
  assumes ctx: "ctx_at T RootSlot None c" and d: "distinct (lefts c @ rights c)" and x: "x \<notin> set (lefts c) \<union> set (rights c)"
  defines "T' \<equiv> link_leaf (slot_of RootSlot c) x (par_of None c) T"
  shows "tree_at T' None (t_root T') (plug c (Nd Lf x 0 Lf))" "t_count T' = t_count T"
proof -
  note ne = slot_fresh [OF x]
  have node: "t_node T' x = \<lparr>n_parent = par_of None c, n_left = None, n_right = None, n_balance = 0\<rparr>"
    using ne by (simp add: T'_def link_leaf_def avl_sets BALANCED_def)
  have root: "slot_get (slot_of RootSlot c) T' = Some x"
    using ne by (cases "slot_of RootSlot c") (auto simp: T'_def link_leaf_def avl_sets)
  have "frame_eq (slot_of RootSlot c) {x} T T'"
    by (simp add: frame_eq_def T'_def link_leaf_def avl_sets)
  then have "ctx_at T' RootSlot None c" using ctx_frame [OF _ _ d _ ctx] x by auto
  then have "tree_at T' None (slot_get RootSlot T') (plug c (Nd Lf x 0 Lf))" unfolding plug_at root by (simp add: node)
  then show "tree_at T' None (t_root T') (plug c (Nd Lf x 0 Lf))" by simp
  show "t_count T' = t_count T" by (simp add: T'_def link_leaf_def avl_sets)
qed

text \<open>The parent that \<open>_Insert\<close> reads from the top of its stack.\<close>

lemma stack_parent:
  assumes "ctx_at T RootSlot None c" "distinct (lefts c @ rights c)" "x \<notin> set (lefts c) \<union> set (rights c)"
  shows "(if stack_of RootSlot c = [] then None
    else slot_get (fst (hd (stack_of RootSlot c))) (set_balance x BALANCED (set_right x None (set_left x None (slot_set (slot_of RootSlot c) (Some x) T)))))
    = par_of None c"
proof (cases c)
  case (Cons f c')
  obtain d y b u where f: "f = (d, y, b, u)" by (cases f)
  show ?thesis
  proof (cases c')
    case Nil
    then show ?thesis using assms by (simp add: Cons f avl_sets)
  next
    case (Cons g c'')
    obtain e z b' v where g: "g = (e, z, b', v)" by (cases g)
    have "z \<noteq> y" "z \<noteq> x" using assms(2,3) unfolding \<open>c = f # c'\<close> Cons f g by (auto split: if_splits)
    then show ?thesis using assms(1) by (cases e) (simp_all add: \<open>c = f # c'\<close> Cons f g avl_sets)
  qed
qed simp

lemma avl_rep_context:
  assumes "avl_rep T t" "t = plug c t'"
  shows "ctx_at T RootSlot None c" "tree_at T (par_of None c) (slot_get (slot_of RootSlot c) T) t'" "distinct (lefts c @ inord t' @ rights c)"
    "avl t'" "cavl c (ht t')" "inord t = lefts c @ inord t' @ rights c" "ht t' + int (length c) \<le> ht t"
  using assms plug_at [of T None RootSlot c t'] cht_ge [of "ht t'" c] by (auto simp: avl_rep_def inord_plug avl_plug ht_plug)

lemma insort_middle:
  assumes "\<forall>y \<in> set a. f y < f x" "\<forall>y \<in> set b. f x < f y"
  shows "insort_key f x (a @ b) = a @ x # b"
  using assms
proof (induction a)
  case Nil
  then show ?case by (cases b) (auto simp: less_imp_le)
next
  case (Cons y a)
  then show ?case by (auto simp: not_le [symmetric])
qed

context avl_compare
begin

lemma insert_duplicate:
  assumes "avl_rep T t" "sorted_wrt (<) (map key_of (inord t))" "ht t \<le> int kMaxAVLTreeHeight" "key_of x \<in> key_of ` set (inord t)"
  shows "avl_Insert cmpNodes x T = Some (Some (DUPLICATE, T))"
proof -
  obtain c t' where c: "t = plug c t'" "\<forall>y \<in> set (lefts c). key_of y < key_of x" "\<forall>y \<in> set (rights c). key_of x < key_of y"
    "t' = Lf \<or> (\<exists>l z b r. t' = Nd l z b r \<and> key_of z = key_of x)" using split_at [OF assms(2)] by blast
  note r = avl_rep_context [OF assms(1) c(1)]
  obtain l z b u where z: "t' = Nd l z b u" "key_of z = key_of x" using c(2-4) assms(4) r(6) by fastforce
  have "insert_descend cmpNodes x T RootSlot [] = insert_descend cmpNodes x T (slot_of RootSlot c) (stack_of RootSlot c @ [])"
    using r(7) assms(3) ht_nonneg [of t'] by (intro insert_walk [OF r(1) c(2,3)]) (simp del: ht_nonneg)
  also have "\<dots> = Some Duplicate"
    using r(2) z cmp_zero [of "key_of x" z] by (subst insert_descend.simps) (simp add: cmp_nodes)
  finally show ?thesis by (simp add: avl_Insert_def)
qed

lemma insert_new:
  assumes rep: "avl_rep T t" and sorted: "sorted_wrt (<) (map key_of (inord t))" and h: "ht t \<le> int kMaxAVLTreeHeight"
    and fresh: "x \<notin> set (inord t)" "key_of x \<notin> key_of ` set (inord t)"
  shows "\<exists>res T' t'. avl_Insert cmpNodes x T = Some (Some (res, T')) \<and> res \<in> {OK, HEIGHT_CHANGED} \<and> avl_rep T' t'
    \<and> inord t' = insort_key key_of x (inord t) \<and> (\<forall>z. z \<notin> set (inord t') \<longrightarrow> t_node T' z = t_node T z)"
proof -
  obtain c t' where c: "t = plug c t'" "\<forall>y \<in> set (lefts c). key_of y < key_of x" "\<forall>y \<in> set (rights c). key_of x < key_of y"
    "t' = Lf \<or> (\<exists>l z b r. t' = Nd l z b r \<and> key_of z = key_of x)" using split_at [OF sorted] by blast
  note r = avl_rep_context [OF rep c(1)]
  have lf: "t' = Lf"
  proof (rule ccontr)
    assume "t' \<noteq> Lf"
    then obtain l z b u where "t' = Nd l z b u" "key_of z = key_of x" using c(4) by blast
    then have "z \<in> set (inord t')" "key_of z = key_of x" by simp_all
    moreover from this have "z \<in> set (inord t)" using r(6) by simp
    ultimately show False using fresh(2) by (metis imageI)
  qed
  let ?T = "T\<lparr>t_count := t_count T + 1\<rparr>"
  define T1 where "T1 = link_leaf (slot_of RootSlot c) x (par_of None c) ?T"
  have x: "x \<notin> set (lefts c) \<union> set (rights c)" and d: "distinct (lefts c @ rights c)" using fresh(1) r(3,6) by (auto simp: lf)
  have T1: "tree_at T1 None (t_root T1) (plug c (Nd Lf x 0 Lf))" "t_count T1 = t_count T + 1"
    using link_leaf_at [of ?T c x] r(1) d x by (simp_all add: T1_def)
  have st: "insert_descend cmpNodes x T RootSlot [] = Some (Free (slot_of RootSlot c) (stack_of RootSlot c))"
  proof -
    have "insert_descend cmpNodes x T RootSlot [] = insert_descend cmpNodes x T (slot_of RootSlot c) (stack_of RootSlot c @ [])"
      using r(7) h by (intro insert_walk [OF r(1) c(2,3)]) (simp add: lf)
    also have "\<dots> = Some (Free (slot_of RootSlot c) (stack_of RootSlot c))"
      using r(2) by (subst insert_descend.simps) (simp add: lf)
    finally show ?thesis .
  qed
  have ctx: "ctx_at ?T RootSlot None c" using r(1) by simp
  have ins: "avl_Insert cmpNodes x T = Some (Some (up_loop ins_step (stack_of RootSlot c) T1))"
    unfolding avl_Insert_def st T1_def link_leaf_def Let_def insert_balance_up option.case descent.case count_set
    by (simp only: stack_parent [OF ctx d x])
  have dd: "distinct (inord (plug c (Nd Lf x 0 Lf)))" using d x by (auto simp: inord_plug)
  have "cavl c 0" using r(5) by (simp add: lf)
  then obtain res T' t2 where 2: "up_loop ins_step (stack_of RootSlot c) T1 = (res, T')"
    "changed_at RootSlot None (set (inord (plug c (Nd Lf x 0 Lf)))) T1 T' t2" "inord t2 = inord (plug c (Nd Lf x 0 Lf))" "avl t2"
    "if res = HEIGHT_CHANGED then grown (cht c 0) t2 else res = OK \<and> ht t2 = cht c 0"
    using ins.up_loop_law [of T1 None RootSlot c "Nd Lf x 0 Lf" 0] T1 dd by (auto simp: grown_def)
  have fr: "frame_eq RootSlot (set (inord t2)) T1 T'" "tree_at T' None (t_root T') t2" using 2(2,3) by (auto simp: changed_at_def)
  have i: "inord t2 = lefts c @ x # rights c" using 2(3) by (simp add: inord_plug)
  have "avl_rep T' t2" using fr 2(3,4) dd T1(2) rep r(6)
    by (auto simp: avl_rep_def frame_eq_def inord_plug lf)
  moreover have "inord t2 = insort_key key_of x (inord t)" using c(2,3) insort_middle [of "lefts c" key_of x "rights c"] r(6) by (simp add: i lf)
  moreover have "t_node T' z = t_node T z" if "z \<notin> set (inord t2)" for z
  proof -
    have "z \<noteq> x" "z \<notin> set (lefts c) \<union> set (rights c)" using that by (auto simp: i)
    then have "t_node T1 z = t_node T z" using slot_fresh [of z c] by (simp add: T1_def link_leaf_def avl_sets)
    then show ?thesis using frame_eq_node [OF fr(1) that] by simp
  qed
  ultimately show ?thesis using ins 2(1,5) by (auto split: if_splits)
qed

end

subsection \<open>Removal\<close>

lemma changed_at_mono: "changed_at s par A T T' t \<Longrightarrow> A \<subseteq> B \<Longrightarrow> changed_at s par B T T' t"
  unfolding changed_at_def using frame_eq_mono by blast

lemma rightmost_split: "t \<noteq> Lf \<Longrightarrow> \<exists>c l y b. t = plug c (Nd l y b Lf) \<and> rights c = []"
proof (induction t)
  case (Nd l x b r)
  show ?case
  proof (cases r)
    case Lf
    then show ?thesis by (intro exI [of _ "[]"]) auto
  next
    case (Nd _ _ _ _)
    then obtain c l' y b' where "r = plug c (Nd l' y b' Lf)" "rights c = []" using Nd.IH(2) by auto
    then show ?thesis by (intro exI [of _ "c @ [(False, x, b, l)]"]) (auto simp: plug_append rights_append)
  qed
qed simp

lemma stack_of_rights: "rights c = [] \<Longrightarrow> map (\<lambda>s. (s, False)) (map fst (stack_of s c)) = stack_of s c"
  by (induction c) (auto split: if_splits)

lemma rightmost_walk:
  assumes "ctx_at T s par c" "rights c = []" "slot_get (slot_of s c) T = Some y" "n_right (t_node T y) = None"
    "length stack + length c \<le> kMaxAVLTreeHeight"
  shows "rightmost_descend T s stack = Some (Some (slot_of s c, map fst (stack_of s c) @ stack))"
  using assms
proof (induction c arbitrary: s par stack rule: rev_induct)
  case Nil
  then show ?case by (subst rightmost_descend.simps) simp
next
  case (snoc f c)
  obtain d x b u where f: "f = (d, x, b, u)" by (cases f)
  have d: "\<not> d" "rights c = []" using snoc.prems(2) by (auto simp: rights_append f split: if_splits)
  have x: "slot_get s T = Some x" "ctx_at T (RightOf x) (Some x) c" using snoc.prems(1) d(1) by (auto simp: ctx_at_append f)
  have "slot_get (RightOf x) T \<noteq> None"
  proof (cases c rule: rev_cases)
    case Nil
    then show ?thesis using snoc.prems(3) d(1) by (simp add: f)
  next
    case (snoc c' g)
    then show ?thesis using x(2) by (cases g) (auto simp: ctx_at_append)
  qed
  then have "n_right (t_node T x) \<noteq> None" by simp
  then have "rightmost_descend T s stack = rightmost_descend T (RightOf x) (s # stack)"
    by (subst rightmost_descend.simps) (use snoc.prems(5) x(1) in \<open>simp add: Let_def del: not_None_eq\<close>)
  also have "\<dots> = Some (Some (slot_of (RightOf x) c, map fst (stack_of (RightOf x) c) @ s # stack))"
    by (rule snoc.IH [OF x(2) d(2)]) (use snoc.prems(3-5) d(1) in \<open>simp_all add: slot_of_append f\<close>)
  finally show ?case using d(1) by (simp add: slot_of_append stack_of_append f)
qed

text \<open>A node without right child gives its place to its left child.\<close>

lemma splice_left_at:
  assumes at: "tree_at T par (slot_get s T) (Nd l y b Lf)" and dd: "distinct (inord (Nd l y b Lf))"
    and own: "owner_of s \<inter> set (inord (Nd l y b Lf)) = {}"
  defines "T' \<equiv> set_parent y None (set_left y None (slot_set s (n_left (t_node T y))
    (case n_left (t_node T y) of None \<Rightarrow> T | Some m \<Rightarrow> set_parent m (n_parent (t_node T y)) T)))"
  shows "changed_at s par (set (inord (Nd l y b Lf))) T T' l"
proof -
  define m where "m = n_left (t_node T y)"
  have f: "slot_get s T = Some y" "n_parent (t_node T y) = par" "tree_at T (Some y) m l" using at by (simp_all add: m_def)
  have so: "s \<noteq> LeftOf z" "s \<noteq> RightOf z" if "z \<in> set (inord (Nd l y b Lf))" for z using own that by auto
  have ml: "z \<in> set (inord l)" if "m = Some z" for z using tree_at_root [OF f(3) that] .
  have node: "t_node T' z = (if m = Some z then (t_node T z)\<lparr>n_parent := par\<rparr> else t_node T z)" if "z \<in> set (inord l)" for z
  proof -
    have "z \<noteq> y" using dd that by auto
    then show ?thesis using so [of z] that f(2) by (cases m) (auto simp: T'_def avl_sets m_def)
  qed
  have "tree_at T' par m l" using tree_at_reparent [OF f(3)] node dd by simp
  moreover have "slot_get s T' = m" using own by (cases s) (auto simp: T'_def avl_sets m_def)
  moreover have "frame_eq s (set (inord (Nd l y b Lf))) T T'"
    using ml by (cases m) (auto simp: T'_def avl_sets m_def frame_eq_def)
  ultimately show ?thesis by (simp add: changed_at_def)
qed

lemma owner_below:
  assumes "distinct (inord (plug c t))" "owner_of s \<inter> set (inord (plug c t)) = {}"
  shows "owner_of (slot_of s c) \<inter> set (inord t) = {}"
proof (cases c)
  case Nil
  then show ?thesis using assms by simp
next
  case (Cons f c')
  obtain d x b u where f: "f = (d, x, b, u)" by (cases f)
  have "x \<in> set (lefts c) \<union> set (rights c)" "owner_of (slot_of s c) = {x}" by (auto simp: Cons f)
  moreover have "set (inord t) \<inter> (set (lefts c) \<union> set (rights c)) = {}" using assms(1) unfolding inord_plug by auto
  ultimately show ?thesis by auto
qed

lemma remove_rightmost_at:
  assumes at: "tree_at T par (slot_get s T) t" and t: "t \<noteq> Lf" "avl t" "ht t \<le> int kMaxAVLTreeHeight + 1"
    and dd: "distinct (inord t)" and own: "owner_of s \<inter> set (inord t) = {}"
  shows "\<exists>res y T' t'. RemoveRightMostChild s T = Some (Some (res, y, T')) \<and> inord t = inord t' @ [y]
    \<and> changed_at s par (set (inord t)) T T' t' \<and> avl t'
    \<and> (if res = HEIGHT_CHANGED then shrunk (ht t) t' else res = OK \<and> ht t' = ht t)"
proof -
  obtain c l y b where c: "t = plug c (Nd l y b Lf)" "rights c = []" using rightmost_split [OF t(1)] by blast
  let ?w = "Nd l y b Lf"
  have k: "ctx_at T s par c" "tree_at T (par_of par c) (slot_get (slot_of s c) T) ?w" using at unfolding c(1) plug_at by auto
  have av: "avl ?w" "cavl c (ht ?w)" "ht t = cht c (ht ?w)" using t(2) unfolding c(1) avl_plug ht_plug by auto
  have "int (length c) \<le> int kMaxAVLTreeHeight" using cht_ge [of "ht ?w" c] av(3) t(3) ht_nonneg [of l]
    by (simp del: ht_nonneg)
  then have desc: "rightmost_descend T s [] = Some (Some (slot_of s c, map fst (stack_of s c)))"
    using rightmost_walk [OF k(1) c(2), of y "[]"] k(2) by simp
  have dw: "distinct (inord ?w)" using dd unfolding c(1) inord_plug by auto
  define T1 where "T1 = set_parent y None (set_left y None (slot_set (slot_of s c) (n_left (t_node T y))
    (case n_left (t_node T y) of None \<Rightarrow> T | Some m \<Rightarrow> set_parent m (n_parent (t_node T y)) T)))"
  have "changed_at (slot_of s c) (par_of par c) (set (inord ?w)) T T1 l"
    unfolding T1_def using owner_below dd own unfolding c(1) by (intro splice_left_at [OF k(2) dw]) blast
  then have 1: "changed_at s par (set (inord t)) T T1 (plug c l)"
    using changed_below [of T par s c ?w] at dd own unfolding c(1) by blast
  have i: "inord t = inord (plug c l) @ [y]" using c by (simp add: inord_plug)
  obtain res T' t' where 2: "up_loop rem_step (stack_of s c) T1 = (res, T')" "changed_at s par (set (inord (plug c l))) T1 T' t'"
    "inord t' = inord (plug c l)" "avl t'" "if res = HEIGHT_CHANGED then shrunk (ht t) t' else res = OK \<and> ht t' = ht t"
  proof -
    have "tree_at T1 par (slot_get s T1) (plug c l)" "distinct (inord (plug c l))" "owner_of s \<inter> set (inord (plug c l)) = {}" "avl l"
      "shrunk (ht ?w) l" using 1 dd own av(1) i by (auto simp: changed_at_def shrunk_def)
    from rem.up_loop_law [OF this av(2)] show thesis using that unfolding av(3) by blast
  qed
  have "RemoveRightMostChild s T = Some (Some (res, y, T'))"
  proof -
    have sl: "slot_get (slot_of s c) T = Some y" using k(2) by simp
    show ?thesis
      unfolding RemoveRightMostChild_def desc Let_def rightmost_balance_up stack_of_rights [OF c(2)] option.case prod.case sl option.sel
        T1_def [symmetric] 2(1) ..
  qed
  moreover have "changed_at s par (set (inord t)) T T' t'"
    using changed_at_trans [OF 1 changed_at_mono [OF 2(2)]] i by auto
  ultimately show ?thesis using 2 i by metis
qed

text \<open>Another node takes the place of a node with a right child.\<close>

definition take_place :: "node_ptr \<Rightarrow> node_ptr \<Rightarrow> slot \<Rightarrow> node_ptr option \<Rightarrow> avl_tree \<Rightarrow> avl_tree" where
  "take_place node replace nodeP parent T =
     (let T = set_parent replace parent T;
          T = set_left replace (n_left (t_node T node)) T;
          T = set_right replace (n_right (t_node T node)) T;
          T = (case n_left (t_node T node) of None \<Rightarrow> T | Some l \<Rightarrow> set_parent l (Some replace) T);
          T = set_parent (the (n_right (t_node T node))) (Some replace) T;
          T = set_balance replace (n_balance (t_node T node)) T
      in slot_set nodeP (Some replace) T)"

lemma take_place_at:
  assumes at: "tree_at T par (slot_get s T) (Nd l x b r)" and r: "r \<noteq> Lf" and y: "y \<notin> set (inord (Nd l x b r))" "y \<notin> owner_of s"
    and dd: "distinct (inord (Nd l x b r))" and own: "owner_of s \<inter> set (inord (Nd l x b r)) = {}"
  shows "changed_at s par (insert y (set (inord (Nd l x b r)))) T (take_place x y s par T) (Nd l y b r)"
proof -
  let ?T = "take_place x y s par T"
  obtain m where m: "n_right (t_node T x) = Some m" using at r by (cases "n_right (t_node T x)") auto
  define lp where "lp = n_left (t_node T x)"
  have f: "n_balance (t_node T x) = b" "tree_at T (Some x) lp l" "tree_at T (Some x) (Some m) r" using at m by (simp_all add: lp_def)
  have mr: "m \<in> set (inord r)" using tree_at_root [OF f(3)] by simp
  have ll: "z \<in> set (inord l)" if "lp = Some z" for z using tree_at_root [OF f(2) that] .
  have ne: "x \<noteq> y" "m \<noteq> y" "m \<noteq> x" "lp \<noteq> Some y" "lp \<noteq> Some m" "lp \<noteq> Some x" using y(1) mr ll dd by auto
  have so: "s \<noteq> LeftOf z" "s \<noteq> RightOf z" if "z \<in> insert y (set (inord (Nd l x b r)))" for z using own y(2) that by auto
  have node: "t_node ?T z = (if z = y then \<lparr>n_parent = par, n_left = lp, n_right = Some m, n_balance = b\<rparr>
      else if z = m \<or> lp = Some z then (t_node T z)\<lparr>n_parent := Some y\<rparr> else t_node T z)"
    if z: "z \<in> insert y (set (inord (Nd l x b r)))" for z
  proof (cases lp)
    case None
    then have "n_left (t_node T x) = None" by (simp add: lp_def)
    then show ?thesis using ne so [OF z] by (simp add: take_place_def Let_def avl_sets m f(1) None)
  next
    case (Some k)
    then have k: "n_left (t_node T x) = Some k" "k \<noteq> y" "k \<noteq> m" "k \<noteq> x" using ne by (auto simp: lp_def)
    then show ?thesis using ne so [OF z] by (auto simp: take_place_def Let_def avl_sets m f(1) Some)
  qed
  have "t_node ?T z = (if lp = Some z then (t_node T z)\<lparr>n_parent := Some y\<rparr> else t_node T z)" if "z \<in> set (inord l)" for z
  proof -
    have "z \<noteq> y" "z \<noteq> m" using y(1) mr dd that by auto
    then show ?thesis using node [of z] that by simp
  qed
  then have tl: "tree_at ?T (Some y) lp l" using tree_at_reparent [OF f(2)] dd by simp
  have "t_node ?T z = (if Some m = Some z then (t_node T z)\<lparr>n_parent := Some y\<rparr> else t_node T z)" if "z \<in> set (inord r)" for z
  proof -
    have "z \<noteq> y" "lp \<noteq> Some z" using y(1) ll dd that by auto
    then show ?thesis using node [of z] that by simp
  qed
  then have tr: "tree_at ?T (Some y) (Some m) r" using tree_at_reparent [OF f(3)] dd by simp
  have "frame_eq s (insert y (set (inord (Nd l x b r)))) T ?T"
    using ll mr ne by (cases lp) (auto simp: take_place_def Let_def avl_sets m lp_def frame_eq_def)
  moreover have "slot_get s ?T = Some y" by (simp add: take_place_def Let_def)
  ultimately show ?thesis using tl tr node [of y] by (simp add: changed_at_def)
qed

text \<open>A node with one child gives its place to it.\<close>

lemma only_child_at:
  assumes at: "tree_at T par (slot_get s T) (Nd l x b r)" and u: "l = Nd Lf y v Lf \<and> r = Lf \<or> l = Lf \<and> r = Nd Lf y v Lf"
    and dd: "distinct (inord (Nd l x b r))" and own: "owner_of s \<inter> set (inord (Nd l x b r)) = {}"
  shows "changed_at s par (set (inord (Nd l x b r))) T (slot_set s (Some y) (set_balance y w (set_parent y par T))) (Nd Lf y w Lf)"
proof -
  have "s \<noteq> LeftOf y" "s \<noteq> RightOf y" using own u by auto
  then show ?thesis using at u dd by (auto simp: changed_at_def avl_sets frame_eq_def)
qed

lemma unlink_both_at:
  assumes at: "tree_at T par (slot_get s T) (Nd l x b r)" and av: "avl (Nd l x b r)" "ht (Nd l x b r) \<le> int kMaxAVLTreeHeight + 1"
    and dd: "distinct (inord (Nd l x b r))" and own: "owner_of s \<inter> set (inord (Nd l x b r)) = {}" and ne: "l \<noteq> Lf" "r \<noteq> Lf"
  shows "\<exists>res T' t'. unlink_node x s par T = Some (Some (res, T')) \<and> changed_at s par (set (inord (Nd l x b r))) T T' t'
    \<and> inord t' = inord l @ inord r \<and> avl t'
    \<and> (if res = HEIGHT_CHANGED then shrunk (ht (Nd l x b r)) t' else res = OK \<and> ht t' = ht (Nd l x b r))"
proof -
  let ?A = "set (inord (Nd l x b r))"
  have lr: "n_left (t_node T x) \<noteq> None" "n_right (t_node T x) \<noteq> None" using at ne by (cases l; cases r; auto)+
  have "tree_at T (Some x) (slot_get (LeftOf x) T) l" "avl l" "ht l \<le> int kMaxAVLTreeHeight + 1" "distinct (inord l)"
    "owner_of (LeftOf x) \<inter> set (inord l) = {}" using at av dd by auto
  then obtain res y T1 l' where 1: "RemoveRightMostChild (LeftOf x) T = Some (Some (res, y, T1))" "inord l = inord l' @ [y]"
    "changed_at (LeftOf x) (Some x) (set (inord l)) T T1 l'" "avl l'"
    "if res = HEIGHT_CHANGED then shrunk (ht l) l' else res = OK \<and> ht l' = ht l"
    using remove_rightmost_at [of T "Some x" "LeftOf x" l] ne(1) by blast
  define T2 where "T2 = take_place x y s par T1"
  have "changed_at s par ?A T T1 (Nd l' x b r)" using changed_below [of T par s "[(True, x, b, r)]" l T1 l'] at dd own 1(3) by simp
  moreover from this have "changed_at s par (insert y (set (inord (Nd l' x b r)))) T1 T2 (Nd l' y b r)"
    unfolding T2_def using dd own 1(2) ne(2) by (intro take_place_at) (auto simp: changed_at_def)
  ultimately have 2: "changed_at s par ?A T T2 (Nd l' y b r)"
    using changed_at_trans changed_at_mono [of s par "insert y (set (inord (Nd l' x b r)))" T1 T2 _ ?A] 1(2) by auto
  have u: "unlink_node x s par T = Some (Some (if res = HEIGHT_CHANGED then rem_step True s T2 else (res, T2)))"
  proof -
    have "slot_get s T2 = Some y" using 2 by (simp add: changed_at_def)
    then show ?thesis using lr 1(1) by (auto simp: unlink_node_def rem_step_def T2_def take_place_def Let_def)
  qed
  have b: "cavl [(True, y, b, r)] (ht l)" using av(1) by simp
  have d2: "distinct (inord (Nd l' y b r))" "owner_of s \<inter> set (inord (Nd l' y b r)) = {}" "set (inord (Nd l' y b r)) \<subseteq> ?A"
    using dd own 1(2) by auto
  show ?thesis
  proof (cases "res = HEIGHT_CHANGED")
    case False
    then have "avl (Nd l' y b r)" "ht (Nd l' y b r) = ht (Nd l x b r)" "res = OK" using 1(4,5) av(1) by auto
    then show ?thesis using False u 2 1(2) by (intro exI [of _ res] exI [of _ T2] exI [of _ "Nd l' y b r"]) auto
  next
    case True
    obtain res' T3 t3 where 3: "rem_step True s T2 = (res', T3)" "changed_at s par (set (inord (Nd l' y b r))) T2 T3 t3"
      "inord t3 = inord (Nd l' y b r)" "avl t3"
      "if res' = HEIGHT_CHANGED then shrunk (max (ht l) (ht r) + 1) t3 else res' = OK \<and> ht t3 = max (ht l) (ht r) + 1"
      using rem_step_law [of T2 par s "Nd l' y b r" True l' y b r "ht l"] 2 d2 b 1(4,5) True by (auto simp: changed_at_def)
    have "changed_at s par ?A T T3 t3" using changed_at_trans [OF 2 changed_at_mono [OF 3(2) d2(3)]] .
    then show ?thesis using True u 3 1(2) by (intro exI [of _ res'] exI [of _ T3] exI [of _ t3]) simp
  qed
qed

lemma unlink_node_at:
  assumes at: "tree_at T par (slot_get s T) (Nd l x b r)" and av: "avl (Nd l x b r)" "ht (Nd l x b r) \<le> int kMaxAVLTreeHeight + 1"
    and dd: "distinct (inord (Nd l x b r))" and own: "owner_of s \<inter> set (inord (Nd l x b r)) = {}"
  shows "\<exists>res T' t'. unlink_node x s par T = Some (Some (res, T')) \<and> changed_at s par (set (inord (Nd l x b r))) T T' t'
    \<and> inord t' = inord l @ inord r \<and> avl t'
    \<and> (if res = HEIGHT_CHANGED then shrunk (ht (Nd l x b r)) t' else res = OK \<and> ht t' = ht (Nd l x b r))"
proof -
  have f: "slot_get s T = Some x" "n_parent (t_node T x) = par" "n_balance (t_node T x) = b"
    "tree_at T (Some x) (n_left (t_node T x)) l" "tree_at T (Some x) (n_right (t_node T x)) r" using at by simp_all
  have leaf: "u = Nd Lf z 0 Lf" if "avl u" "ht u \<le> 1" "u = Nd u1 z v u2" for u u1 z v u2
  proof -
    have "ht u1 = 0" "ht u2 = 0" using that ht_nonneg [of u1] ht_nonneg [of u2] by (auto simp del: ht_nonneg)
    then show ?thesis using that by simp
  qed
  show ?thesis
  proof (cases l; cases r)
    assume e: "l = Lf" "r = Lf"
    have "n_left (t_node T x) = None" "n_right (t_node T x) = None" using f e by auto
    moreover have "changed_at s par (set (inord (Nd l x b r))) T (slot_set s None T) Lf"
      by (auto simp: changed_at_def frame_eq_def)
    ultimately show ?thesis using e by (auto simp: unlink_node_def shrunk_def)
  next
    fix u1 y v u2
    assume e: "l = Lf" "r = Nd u1 y v u2"
    have k: "n_left (t_node T x) = None" "n_right (t_node T x) = Some y" using f e by auto
    have "avl r" "ht r \<le> 1" using av(1) by (simp_all add: e(1))
    from leaf [OF this e(2)] have r: "r = Nd Lf y 0 Lf" .
    have "changed_at s par (set (inord (Nd l x b r))) T (slot_set s (Some y) (set_balance y (b - 1) (set_parent y par T))) (Nd Lf y (b - 1) Lf)"
      using only_child_at [OF at _ dd own] e(1) r by blast
    moreover have "b = 1" "x \<noteq> y" using av(1) dd by (auto simp: e(1) r)
    ultimately show ?thesis using k f(2,3) by (auto simp: unlink_node_def shrunk_def e(1) r avl_sets)
  next
    fix u1 y v u2
    assume e: "l = Nd u1 y v u2" "r = Lf"
    have k: "n_left (t_node T x) = Some y" "n_right (t_node T x) = None" using f e by auto
    have "avl l" "ht l \<le> 1" using av(1) by (simp_all add: e(2))
    from leaf [OF this e(1)] have l: "l = Nd Lf y 0 Lf" .
    have "changed_at s par (set (inord (Nd l x b r))) T (slot_set s (Some y) (set_balance y (b + 1) (set_parent y par T))) (Nd Lf y (b + 1) Lf)"
      using only_child_at [OF at _ dd own] e(2) l by blast
    moreover have "b = -1" "x \<noteq> y" using av(1) dd by (auto simp: e(2) l)
    ultimately show ?thesis using k f(2,3) by (auto simp: unlink_node_def shrunk_def e(2) l avl_sets)
  next
    fix u1 y1 v u2 w1 y2 v2 w2
    assume e: "l = Nd u1 y1 v u2" "r = Nd w1 y2 v2 w2"
    show ?thesis using unlink_both_at [OF assms] by (simp add: e)
  qed
qed

fun dir_of :: "frame list \<Rightarrow> bool" where
  "dir_of [] = False"
| "dir_of ((d, x, b, u) # c) = d"

text \<open>The slot that a node is in is found from its parent.\<close>

lemma slot_of_node_at:
  assumes "ctx_at T RootSlot None c" "slot_get (slot_of RootSlot c) T = Some x" "n_parent (t_node T x) = par_of None c"
    "x \<notin> set (lefts c) \<union> set (rights c)"
  shows "slot_of_node x T = (dir_of c, slot_of RootSlot c)"
proof (cases c)
  case Nil
  then show ?thesis using assms by (simp add: slot_of_node_def)
next
  case (Cons f c')
  obtain d y b u where f: "f = (d, y, b, u)" by (cases f)
  have "n_left (t_node T y) \<noteq> Some x" if "\<not> d"
  proof
    assume "n_left (t_node T y) = Some x"
    then have "x \<in> set (inord u)" using assms(1) that tree_at_root [of T "Some y" "Some x" u x] by (simp add: Cons f)
    then show False using assms(4) that by (simp add: Cons f)
  qed
  then show ?thesis using assms by (cases d) (simp_all add: slot_of_node_def Cons f)
qed

lemma remove_balance_up:
  assumes "tree_at T None (t_root T) (plug c t)" "distinct (inord (plug c t))" "avl t" "shrunk h t" "cavl c h"
  shows "remove_balance (par_of None c) (dir_of c) T = Some (up_loop rem_step (stack_of RootSlot c) T)"
  using assms
proof (induction c arbitrary: T t h)
  case Nil
  then show ?case by (subst remove_balance.simps) simp
next
  case (Cons f c)
  obtain d x b u where f: "f = (d, x, b, u)" by (cases f)
  note pr = Cons.prems [unfolded f]
  have at: "tree_at T None (slot_get RootSlot T) (plug ((d, x, b, u) # c) t)" using pr(1) by simp
  have k: "ctx_at T RootSlot None c" "slot_get (slot_of RootSlot c) T = Some x" "n_parent (t_node T x) = par_of None c"
    using at unfolding plug_at by auto
  have x: "x \<notin> set (lefts c) \<union> set (rights c)" using pr(2) unfolding inord_plug by (auto split: if_splits)
  obtain res T' t' where 1: "rem_step d (slot_of RootSlot c) T = (res, T')"
    "changed_at RootSlot None (set (inord (plug ((d, x, b, u) # c) t))) T T' (plug c t')"
    "inord (plug c t') = inord (plug ((d, x, b, u) # c) t)" "avl t'"
    "if res = HEIGHT_CHANGED then shrunk (max h (ht u) + 1) t' else res = OK \<and> ht t' = max h (ht u) + 1"
    by (rule rem.step_ctx [OF at pr(2) _ pr(3-5)]) auto
  have "remove_balance (Some x) d T = (if res = HEIGHT_CHANGED then remove_balance (par_of None c) (dir_of c) T' else Some (res, T'))"
    using 1(1) k(2,3) by (subst remove_balance.simps) (simp add: slot_of_node_at [OF k x] rem_step_def Let_def)
  also have "\<dots> = Some (up_loop rem_step (stack_of RootSlot ((d, x, b, u) # c)) T)"
  proof (cases "res = HEIGHT_CHANGED")
    case True
    have "remove_balance (par_of None c) (dir_of c) T' = Some (up_loop rem_step (stack_of RootSlot c) T')"
    proof (rule Cons.IH)
      show "tree_at T' None (t_root T') (plug c t')" using 1(2) by (simp add: changed_at_def)
      show "distinct (inord (plug c t'))" using 1(3) pr(2) by simp
      show "shrunk (max h (ht u) + 1) t'" using 1(5) True by simp
      show "cavl c (max h (ht u) + 1)" using pr(5) by simp
    qed (rule 1(4))
    then show ?thesis using True 1(1) by simp
  next
    case False
    then show ?thesis using 1(1) by simp
  qed
  finally show ?case by (simp add: f)
qed

lemma in_tree_split: "x \<in> set (inord t) \<Longrightarrow> \<exists>c l b r. t = plug c (Nd l x b r)"
proof (induction t)
  case (Nd l y b r)
  consider "x = y" | "x \<in> set (inord l)" | "x \<in> set (inord r)" using Nd.prems by auto
  then show ?case
  proof cases
    case 1
    then show ?thesis by (intro exI [of _ "[]"]) auto
  next
    case 2
    then obtain c l' b' r' where "l = plug c (Nd l' x b' r')" using Nd.IH(1) by blast
    then show ?thesis by (intro exI [of _ "c @ [(True, y, b, r)]"]) (auto simp: plug_append)
  next
    case 3
    then obtain c l' b' r' where "r = plug c (Nd l' x b' r')" using Nd.IH(2) by blast
    then show ?thesis by (intro exI [of _ "c @ [(False, y, b, l)]"]) (auto simp: plug_append)
  qed
qed simp

text \<open>The fields of the removed node are cleared and the count is decremented.\<close>

definition forget_node :: "node_ptr \<Rightarrow> avl_tree \<Rightarrow> avl_tree" where
  "forget_node x T = (upd_node x (\<lambda>n. n\<lparr>n_parent := None, n_left := None, n_right := None\<rparr>) T)
     \<lparr>t_count := t_count (upd_node x (\<lambda>n. n\<lparr>n_parent := None, n_left := None, n_right := None\<rparr>) T) - 1\<rparr>"

lemma forget_node_at:
  assumes "x \<notin> set (inord t)" "tree_at T par p t"
  shows "tree_at (forget_node x T) par p t" "t_root (forget_node x T) = t_root T" "t_count (forget_node x T) = t_count T - 1"
    "z \<noteq> x \<Longrightarrow> t_node (forget_node x T) z = t_node T z"
proof -
  show n: "t_node (forget_node x T) z = t_node T z" if "z \<noteq> x" for z using that by (simp add: forget_node_def)
  have "tree_at (forget_node x T) par p t = tree_at T par p t" using assms(1) n by (intro tree_at_cong) metis
  then show "tree_at (forget_node x T) par p t" using assms(2) by simp
qed (simp_all add: forget_node_def)

lemma remove_law:
  assumes rep: "avl_rep T t" and h: "ht t \<le> int kMaxAVLTreeHeight + 1" and x: "x \<in> set (inord t)"
  shows "\<exists>res T' t'. avl_Remove (Some x) T = Some (Some (res, T')) \<and> res \<in> {OK, HEIGHT_CHANGED} \<and> avl_rep T' t'
    \<and> inord t' = remove1 x (inord t) \<and> (\<forall>z. z \<notin> set (inord t) \<longrightarrow> t_node T' z = t_node T z)"
proof -
  obtain c l b r where c: "t = plug c (Nd l x b r)" using in_tree_split [OF x] by blast
  let ?w = "Nd l x b r" and ?s = "slot_of RootSlot c" and ?p = "par_of None c"
  note k = avl_rep_context [OF rep c]
  have own: "owner_of ?s \<inter> set (inord ?w) = {}" using owner_below [of c ?w RootSlot] rep by (simp add: avl_rep_def c)
  have dw: "distinct (inord ?w)" and dc: "distinct (lefts c @ rights c)" and disj: "set (inord ?w) \<inter> (set (lefts c) \<union> set (rights c)) = {}"
    using k(3) by auto
  have "ht ?w \<le> int kMaxAVLTreeHeight + 1" using k(7) h by linarith
  then obtain res T1 t1 where 1: "unlink_node x ?s ?p T = Some (Some (res, T1))" "changed_at ?s ?p (set (inord ?w)) T T1 t1"
    "inord t1 = inord l @ inord r" "avl t1" "if res = HEIGHT_CHANGED then shrunk (ht ?w) t1 else res = OK \<and> ht t1 = ht ?w"
    using unlink_node_at [OF k(2,4) _ dw own] by blast
  define T2 where "T2 = forget_node x T1"
  have "changed_at RootSlot None (set (inord t)) T T1 (plug c t1)"
    using changed_below [of T None RootSlot c ?w T1 t1] rep 1(2) by (simp add: avl_rep_def c)
  then have fr: "frame_eq RootSlot (set (inord t)) T T1" "tree_at T1 None (t_root T1) (plug c t1)" by (auto simp: changed_at_def)
  have i: "inord (plug c t1) = remove1 x (inord t)" using k(3,6) 1(3) by (auto simp: inord_plug remove1_append)
  have dt: "distinct (inord (plug c t1))" "x \<notin> set (inord (plug c t1))" using rep by (auto simp: i avl_rep_def)
  note fg = forget_node_at [OF dt(2) fr(2)]
  have T2: "tree_at T2 None (t_root T2) (plug c t1)" "t_count T2 = t_count T - 1" using fg(1-3) fr(1) by (simp_all add: T2_def frame_eq_def)
  have out: "t_node T2 z = t_node T z" if "z \<notin> set (inord t)" for z
    using that x fg(4) [of z] frame_eq_node [OF fr(1), of z] by (auto simp: T2_def)
  have cnt: "int (length (remove1 x (inord t))) = t_count T - 1" using rep x by (auto simp: avl_rep_def length_remove1)
    (metis One_nat_def length_pos_if_in_set less_eq_Suc_le of_nat_1 of_nat_diff)
  have run: "avl_Remove (Some x) T = (if res = HEIGHT_CHANGED then map_option Some (remove_balance ?p (dir_of c) T2) else Some (Some (res, T2)))"
  proof -
    have "slot_get ?s T = Some x" "n_parent (t_node T x) = ?p" "x \<notin> set (lefts c) \<union> set (rights c)" using k(2) disj by auto
    then show ?thesis using slot_of_node_at [OF k(1)] 1(1) by (simp add: avl_Remove_def Let_def T2_def forget_node_def)
  qed
  show ?thesis
  proof (cases "res = HEIGHT_CHANGED")
    case False
    then have "avl (plug c t1)" using 1(4,5) k(5) by (simp add: avl_plug)
    then have "avl_rep T2 (plug c t1)" using T2 dt i cnt by (simp add: avl_rep_def)
    then show ?thesis using False run 1(5) i out by auto
  next
    case True
    then have sh: "shrunk (ht ?w) t1" using 1(5) by simp
    obtain res' T3 t3 where 3: "up_loop rem_step (stack_of RootSlot c) T2 = (res', T3)"
      "changed_at RootSlot None (set (inord (plug c t1))) T2 T3 t3" "inord t3 = inord (plug c t1)" "avl t3"
      "if res' = HEIGHT_CHANGED then shrunk (cht c (ht ?w)) t3 else res' = OK \<and> ht t3 = cht c (ht ?w)"
      using rem.up_loop_law [of T2 None RootSlot c t1 "ht ?w"] T2(1) dt(1) 1(4) sh k(5) by auto
    have f3: "frame_eq RootSlot (set (inord (plug c t1))) T2 T3" "tree_at T3 None (t_root T3) t3" using 3(2) by (auto simp: changed_at_def)
    have "t_node T3 z = t_node T z" if "z \<notin> set (inord t)" for z
      using that out frame_eq_node [OF f3(1), of z] i by (auto dest: notin_set_remove1)
    moreover have "avl_rep T3 t3" using f3 3(3,4) T2(2) dt i cnt by (simp add: avl_rep_def frame_eq_def)
    ultimately show ?thesis using True run 3 i remove_balance_up [OF T2(1) dt(1) 1(4) sh k(5)] by (auto split: if_splits)
  qed
qed

subsection \<open>Walks and searches\<close>

definition first_of :: "'a list \<Rightarrow> 'a option" where
  "first_of xs = (if xs = [] then None else Some (hd xs))"

definition last_of :: "'a list \<Rightarrow> 'a option" where
  "last_of xs = (if xs = [] then None else Some (last xs))"

lemma first_of_simps [simp]: "first_of [] = None" "first_of (x # xs) = Some x"
  by (simp_all add: first_of_def)

lemma last_of_simps [simp]: "last_of [] = None" "last_of (xs @ [x]) = Some x"
  by (simp_all add: last_of_def)

lemma first_of_append: "first_of (xs @ ys) = (if xs = [] then first_of ys else first_of xs)"
  by (simp add: first_of_def)

lemma last_of_append: "last_of (xs @ ys) = (if ys = [] then last_of xs else last_of ys)"
  by (simp add: last_of_def)

lemma inord_Nil [simp]: "inord t = [] \<longleftrightarrow> t = Lf"
  by (cases t) auto

lemma left_most_at: "tree_at T par (Some x) t \<Longrightarrow> left_most T x = first_of (inord t)"
proof (induction t arbitrary: par x)
  case (Nd l y b r)
  then show ?case
    by (subst left_most.simps) (auto simp: first_of_append split: option.splits)
qed simp

lemma right_most_at: "tree_at T par (Some x) t \<Longrightarrow> right_most T x = last_of (inord t)"
proof (induction t arbitrary: par x)
  case (Nd l y b r)
  have "last_of (inord l @ y # inord r) = (if r = Lf then Some y else last_of (inord r))" by (simp add: last_of_def)
  then show ?case using Nd by (subst right_most.simps) (auto split: option.splits)
qed simp

lemma up_from_right_at:
  assumes "ctx_at T RootSlot None c" "slot_get (slot_of RootSlot c) T = Some x" "n_parent (t_node T x) = par_of None c"
    "x \<notin> set (lefts c) \<union> set (rights c)" "distinct (lefts c @ rights c)"
  shows "up_from_right T x = Some (first_of (rights c))"
  using assms
proof (induction c arbitrary: x)
  case Nil
  then show ?case by (subst up_from_right.simps) simp
next
  case (Cons f c)
  obtain d y b u where f: "f = (d, y, b, u)" by (cases f)
  show ?case
  proof (cases d)
    case True
    have "n_right (t_node T y) \<noteq> Some x"
    proof
      assume "n_right (t_node T y) = Some x"
      then have "x \<in> set (inord u)" using Cons.prems(1) True tree_at_root [of T "Some y" "Some x" u x] by (simp add: f)
      then show False using Cons.prems(4) True by (simp add: f)
    qed
    then show ?thesis using Cons.prems(3) True by (subst up_from_right.simps) (simp add: f)
  next
    case False
    have "up_from_right T y = Some (first_of (rights c))"
      using Cons.prems False by (intro Cons.IH) (auto simp: f)
    then show ?thesis using Cons.prems(2,3) False by (subst up_from_right.simps) (simp add: f)
  qed
qed

lemma up_from_left_at:
  assumes "ctx_at T RootSlot None c" "slot_get (slot_of RootSlot c) T = Some x" "n_parent (t_node T x) = par_of None c"
    "x \<notin> set (lefts c) \<union> set (rights c)" "distinct (lefts c @ rights c)"
  shows "up_from_left T x = Some (last_of (lefts c))"
  using assms
proof (induction c arbitrary: x)
  case Nil
  then show ?case by (subst up_from_left.simps) simp
next
  case (Cons f c)
  obtain d y b u where f: "f = (d, y, b, u)" by (cases f)
  show ?case
  proof (cases d)
    case False
    have "n_left (t_node T y) \<noteq> Some x"
    proof
      assume "n_left (t_node T y) = Some x"
      then have "x \<in> set (inord u)" using Cons.prems(1) False tree_at_root [of T "Some y" "Some x" u x] by (simp add: f)
      then show False using Cons.prems(4) False by (simp add: f)
    qed
    then show ?thesis using Cons.prems(3) False by (subst up_from_left.simps) (simp add: f last_of_def)
  next
    case True
    have "up_from_left T y = Some (last_of (lefts c))"
      using Cons.prems True by (intro Cons.IH) (auto simp: f)
    then show ?thesis using Cons.prems(2,3) True by (subst up_from_left.simps) (simp add: f)
  qed
qed

lemma split_unique: "distinct (xs @ x # ys) \<Longrightarrow> xs @ x # ys = xs' @ x # ys' \<Longrightarrow> xs = xs' \<and> ys = ys'"
  by (subst (asm) append_Cons_eq_iff) auto

text \<open>The neighbours of a node are its neighbours in the list of the nodes.\<close>

lemma neighbours_at:
  assumes rep: "avl_rep T t" and x: "inord t = xs @ x # ys"
  shows "Next T (Some x) = Some (first_of ys)" "Previous T (Some x) = Some (last_of xs)"
proof -
  obtain c l b r where c: "t = plug c (Nd l x b r)" using in_tree_split [of x t] x by auto
  note k = avl_rep_context [OF rep c]
  have e: "xs @ x # ys = (lefts c @ inord l) @ x # (inord r @ rights c)" using k(6) x by simp
  have d: "distinct (xs @ x # ys)" using rep unfolding avl_rep_def x by blast
  have xs: "xs = lefts c @ inord l" "ys = inord r @ rights c" using split_unique [OF d e] by auto
  have u: "slot_get (slot_of RootSlot c) T = Some x" "n_parent (t_node T x) = par_of None c" "x \<notin> set (lefts c) \<union> set (rights c)"
    "distinct (lefts c @ rights c)" "tree_at T (Some x) (n_left (t_node T x)) l" "tree_at T (Some x) (n_right (t_node T x)) r"
    using k(2,3) by auto
  show "Next T (Some x) = Some (first_of ys)"
  proof (cases "n_right (t_node T x)")
    case None
    then show ?thesis using u(6) up_from_right_at [OF k(1) u(1-4)] by (simp add: Next_def xs)
  next
    case (Some m)
    then show ?thesis using u(6) left_most_at [of T "Some x" m r] by (cases r) (auto simp: Next_def xs hd_append first_of_def)
  qed
  show "Previous T (Some x) = Some (last_of xs)"
  proof (cases "n_left (t_node T x)")
    case None
    then show ?thesis using u(5) up_from_left_at [OF k(1) u(1-4)] by (simp add: Previous_def xs)
  next
    case (Some m)
    then show ?thesis using u(5) right_most_at [of T "Some x" m l] by (cases l) (auto simp: Previous_def xs last_of_append last_of_def)
  qed
qed

lemma ends_at:
  assumes "avl_rep T t"
  shows "LeftMost T (t_root T) = Some (first_of (inord t))" "RightMost T (t_root T) = Some (last_of (inord t))"
  using assms left_most_at [of T None _ t] right_most_at [of T None _ t]
  by (cases t; auto simp: LeftMost_def RightMost_def avl_rep_def first_of_def last_of_def)+

subsection \<open>The check of a tree\<close>

lemma CheckTree_rec_at: "tree_at T par p t \<Longrightarrow> avl t \<Longrightarrow> CheckTree_rec T par p = Some (True, ht t, int (length (inord t)))"
proof (induction t arbitrary: par p)
  case Lf
  then show ?case by (subst CheckTree_rec.simps) simp
next
  case (Nd l x b r)
  then show ?case by (subst CheckTree_rec.simps) (auto simp: avl_consts)
qed

lemma CheckTree_rec_sound:
  "CheckTree_rec T par p = Some r \<Longrightarrow> fst r \<longrightarrow> (\<exists>t. tree_at T par p t \<and> avl t \<and> snd r = (ht t, int (length (inord t))))"
proof (induction rule: CheckTree_rec.raw_induct [rotated, consumes 1])
  case (1 CR T par p r)
  show ?case
  proof (cases p)
    case None
    then show ?thesis using 1(2) by auto
  next
    case (Some x)
    obtain a1 d1 n1 a2 d2 n2 where k: "CR T (Some x) (n_left (t_node T x)) = Some (a1, d1, n1)"
      "CR T (Some x) (n_right (t_node T x)) = Some (a2, d2, n2)"
      "r = (par = n_parent (t_node T x) \<and> a1 \<and> a2 \<and> LEFT \<le> d2 - d1 \<and> d2 - d1 \<le> RIGHT \<and> d2 - d1 = n_balance (t_node T x),
         max d1 d2 + 1, n1 + n2 + 1)"
      using 1(2) Some by (auto simp: bind_eq_Some_conv Let_def)
    show ?thesis
    proof
      assume f: "fst r"
      then have a: "a1" "a2" using k(3) by auto
      obtain l r' where "tree_at T (Some x) (n_left (t_node T x)) l" "avl l" "(d1, n1) = (ht l, int (length (inord l)))"
        "tree_at T (Some x) (n_right (t_node T x)) r'" "avl r'" "(d2, n2) = (ht r', int (length (inord r')))"
        using 1(1) [OF k(1)] 1(1) [OF k(2)] a by auto
      then show "\<exists>t. tree_at T par p t \<and> avl t \<and> snd r = (ht t, int (length (inord t)))"
        using f k(3) Some by (intro exI [of _ "Nd l x (ht r' - ht l) r'"]) (auto simp: avl_consts)
    qed
  qed
qed

lemma CheckTree_iff:
  "CheckTree T = Some True \<longleftrightarrow> (\<exists>t. tree_at T None (t_root T) t \<and> avl t \<and> t_count T = int (length (inord t)))"
proof
  assume "CheckTree T = Some True"
  then obtain r where "CheckTree_rec T None (t_root T) = Some r" "fst r" "snd (snd r) = t_count T"
    by (auto simp: CheckTree_def split: prod.splits)
  then show "\<exists>t. tree_at T None (t_root T) t \<and> avl t \<and> t_count T = int (length (inord t))"
    using CheckTree_rec_sound [of T None "t_root T" r] by auto
next
  assume "\<exists>t. tree_at T None (t_root T) t \<and> avl t \<and> t_count T = int (length (inord t))"
  then show "CheckTree T = Some True" using CheckTree_rec_at [of T None "t_root T"] by (auto simp: CheckTree_def)
qed

subsection \<open>Heights\<close>

text \<open>The least numbers of nodes of trees of height \<open>n\<close> and \<open>n + 1\<close>.\<close>

primrec least_nodes :: "nat \<Rightarrow> int \<times> int" where
  "least_nodes 0 = (0, 1)"
| "least_nodes (Suc n) = (case least_nodes n of (a, b) \<Rightarrow> (b, a + b + 1))"

lemma least_nodes_Suc: "fst (least_nodes (Suc n)) = snd (least_nodes n)" "snd (least_nodes (Suc n)) = fst (least_nodes n) + snd (least_nodes n) + 1"
  by (simp_all split: prod.splits)

lemma least_nodes_mono: "0 \<le> fst (least_nodes n) \<and> fst (least_nodes n) \<le> snd (least_nodes n)"
  by (induction n) (auto simp: least_nodes_Suc simp del: least_nodes.simps(2))

lemma least_nodes_avl: "avl t \<Longrightarrow> fst (least_nodes (nat (ht t))) \<le> int (length (inord t))"
proof (induction t)
  case (Nd l x b r)
  obtain m where m: "nat (ht (Nd l x b r)) = Suc m" "int m = max (ht l) (ht r)"
    using ht_nonneg [of l] by (intro that [of "nat (max (ht l) (ht r))"]) (auto simp del: ht_nonneg)
  have b: "ht r - ht l \<in> {-1, 0, 1}" using Nd.prems by auto
  show ?case
  proof (cases m)
    case 0
    then show ?thesis by (simp only: m) simp
  next
    case (Suc k)
    have "nat (ht l) = m \<and> nat (ht r) = m \<or> nat (ht l) = m \<and> nat (ht r) = k \<or> nat (ht l) = k \<and> nat (ht r) = m"
      using b m(2) Suc by auto
    moreover have "fst (least_nodes k) \<le> fst (least_nodes m)" using least_nodes_mono [of k] Suc by (simp only: least_nodes_Suc)
    moreover have "fst (least_nodes (nat (ht l))) \<le> int (length (inord l))" "fst (least_nodes (nat (ht r))) \<le> int (length (inord r))"
      using Nd by auto
    ultimately have "fst (least_nodes k) + fst (least_nodes m) + 1 \<le> int (length (inord (Nd l x b r)))" by (elim disjE) auto
    then show ?thesis by (simp only: m Suc least_nodes_Suc)
  qed
qed simp

lemma least_nodes_le: "m \<le> n \<Longrightarrow> fst (least_nodes m) \<le> fst (least_nodes n)"
proof (induction n)
  case (Suc n)
  then show ?case using least_nodes_mono [of n] by (auto simp: le_Suc_eq least_nodes_Suc simp del: least_nodes.simps(2))
qed simp

lemma least_nodes_33: "fst (least_nodes 33) = 9227464"
  by (simp add: eval_nat_numeral)

lemma avl_height_bound: "avl t \<Longrightarrow> length (inord t) < 9227464 \<Longrightarrow> ht t \<le> int kMaxAVLTreeHeight"
proof (rule ccontr)
  assume t: "avl t" "length (inord t) < 9227464" "\<not> ht t \<le> int kMaxAVLTreeHeight"
  then have "33 \<le> nat (ht t)" by (simp add: kMaxAVLTreeHeight_def)
  then show False using least_nodes_avl [OF t(1)] least_nodes_le [of 33 "nat (ht t)"] least_nodes_33 t(2) by linarith
qed

subsection \<open>Searches by key\<close>

context avl_compare
begin

text \<open>The end of the descent for a key.\<close>

lemma key_loop_at:
  assumes rep: "avl_rep T t" and sorted: "sorted_wrt (<) (map key_of (inord t))"
  shows "(\<exists>x. x \<in> set (inord t) \<and> key_of x = k \<and> (\<exists>q. key_loop cmpKey k T None (t_root T) = Some (Some x, q)))
    \<or> (\<exists>c. inord t = lefts c @ rights c \<and> (\<forall>y \<in> set (lefts c). key_of y < k) \<and> (\<forall>y \<in> set (rights c). k < key_of y)
         \<and> key_loop cmpKey k T None (t_root T) = Some (None, par_of None c))"
proof -
  obtain c t' where c: "t = plug c t'" "\<forall>y \<in> set (lefts c). key_of y < k" "\<forall>y \<in> set (rights c). k < key_of y"
    "t' = Lf \<or> (\<exists>l x b r. t' = Nd l x b r \<and> key_of x = k)" using split_at [OF sorted] by blast
  note r = avl_rep_context [OF rep c(1)]
  have walk: "key_loop cmpKey k T None (t_root T) = key_loop cmpKey k T (par_of None c) (slot_get (slot_of RootSlot c) T)"
    using find_walk [OF r(1) c(2,3), of None] by simp
  show ?thesis
  proof (cases t')
    case Lf
    then have "key_loop cmpKey k T None (t_root T) = Some (None, par_of None c)"
      unfolding walk using r(2) by (subst key_loop.simps) simp
    then show ?thesis using c(2,3) r(6) Lf by auto
  next
    case (Nd l x b u)
    then have x: "key_of x = k" "slot_get (slot_of RootSlot c) T = Some x" using c(4) r(2) by auto
    then have "cmpKey k x = 0" using cmp_zero by simp
    then have "key_loop cmpKey k T None (t_root T) = Some (Some x, par_of None c)"
      unfolding walk x(2) by (subst key_loop.simps) simp
    then show ?thesis using x(1) r(6) Nd by auto
  qed
qed

lemma key_unique:
  assumes "sorted_wrt (<) (map key_of xs)" "x \<in> set xs" "y \<in> set xs" "key_of x = key_of y"
  shows "x = y"
  using assms
proof (induction xs)
  case (Cons z xs)
  then show ?case by (metis list.simps(9) order_less_irrefl set_ConsD set_map imageI sorted_wrt.simps(2))
qed simp

lemma Find_at:
  assumes rep: "avl_rep T t" and sorted: "sorted_wrt (<) (map key_of (inord t))"
  shows "Find cmpKey k T = Some (find (\<lambda>x. key_of x = k) (inord t))"
proof -
  consider x q where "x \<in> set (inord t)" "key_of x = k" "key_loop cmpKey k T None (t_root T) = Some (Some x, q)"
    | c where "inord t = lefts c @ rights c" "\<forall>y \<in> set (lefts c). key_of y < k" "\<forall>y \<in> set (rights c). k < key_of y"
      "key_loop cmpKey k T None (t_root T) = Some (None, par_of None c)" using key_loop_at [OF assms, of k] by blast
  then show ?thesis
  proof cases
    case 1
    then obtain y where "find (\<lambda>x. key_of x = k) (inord t) = Some y" by (metis (mono_tags, lifting) find_None_iff2 not_Some_eq)
    moreover from this have "y \<in> set (inord t)" "key_of y = k" by (auto simp: find_Some_iff)
    ultimately show ?thesis using 1 key_unique [OF sorted] by (auto simp: Find_def)
  next
    case 2
    then have "find (\<lambda>x. key_of x = k) (inord t) = None" by (auto simp: find_None_iff)
    then show ?thesis using 2 by (simp add: Find_def)
  qed
qed

end

text \<open>A comparator that returns -1, 0 and 1 only.\<close>

locale avl_compare_unit = avl_compare +
  assumes cmp_unit: "cmpKey k n \<in> {-1, 0, 1}"
begin

lemma FindClosest_at:
  assumes rep: "avl_rep T t" and sorted: "sorted_wrt (<) (map key_of (inord t))"
  shows "FindClosest cmpKey k lower T =
    Some (if lower then last_of (filter (\<lambda>x. key_of x \<le> k) (inord t)) else first_of (filter (\<lambda>x. k \<le> key_of x) (inord t)))"
proof -
  consider x q where "x \<in> set (inord t)" "key_of x = k" "key_loop cmpKey k T None (t_root T) = Some (Some x, q)"
    | c where "inord t = lefts c @ rights c" "\<forall>y \<in> set (lefts c). key_of y < k" "\<forall>y \<in> set (rights c). k < key_of y"
      "key_loop cmpKey k T None (t_root T) = Some (None, par_of None c)" using key_loop_at [OF assms, of k] by blast
  then show ?thesis
  proof cases
    case 1
    then obtain xs ys where i: "inord t = xs @ x # ys" by (meson split_list)
    then have lt: "\<forall>y \<in> set xs. key_of y < k" "\<forall>y \<in> set ys. k < key_of y" using sorted 1(2) by (auto simp: sorted_wrt_append)
    then have "filter (\<lambda>x. key_of x \<le> k) ys = []" "filter (\<lambda>x. k \<le> key_of x) xs = []" by (auto simp: filter_empty_conv not_le)
    then show ?thesis using 1(2,3) by (simp add: FindClosest_def i last_of_def first_of_def)
  next
    case 2
    have f: "filter (\<lambda>x. key_of x \<le> k) (inord t) = lefts c" "filter (\<lambda>x. k \<le> key_of x) (inord t) = rights c"
    proof -
      have "filter (\<lambda>x. key_of x \<le> k) (lefts c) = lefts c" "filter (\<lambda>x. k \<le> key_of x) (rights c) = rights c"
        using 2(2,3) less_imp_le by (intro filter_True; blast)+
      moreover have "filter (\<lambda>x. key_of x \<le> k) (rights c) = []" "filter (\<lambda>x. k \<le> key_of x) (lefts c) = []"
        using 2(2,3) by (auto simp: filter_empty_conv not_le)
      ultimately show "filter (\<lambda>x. key_of x \<le> k) (inord t) = lefts c" "filter (\<lambda>x. k \<le> key_of x) (inord t) = rights c"
        by (simp_all add: 2(1))
    qed
    show ?thesis
    proof (cases c)
      case Nil
      then show ?thesis using 2(4) f by (simp add: FindClosest_def)
    next
      case (Cons g c')
      obtain d x b u where g: "g = (d, x, b, u)" by (cases g)
      have fl: "key_loop cmpKey k T None (t_root T) = Some (None, Some x)" using 2(4) by (simp add: Cons g)
      show ?thesis
      proof (cases d)
        case True
        then have r: "rights c = x # inord u @ rights c'" by (simp add: Cons g)
        then have "cmpKey k x = -1" using 2(3) cmp_less [of k x] cmp_unit [of k x] by auto
        then show ?thesis using fl f neighbours_at(2) [OF rep, of "lefts c" x "inord u @ rights c'"] 2(1) r
          by (simp add: FindClosest_def)
      next
        case False
        then have l: "lefts c = (lefts c' @ inord u) @ [x]" by (simp add: Cons g)
        then have "k > key_of x" using 2(2) by auto
        then have "cmpKey k x = 1" using cmp_less [of k x] cmp_zero [of k x] cmp_unit [of k x] by auto
        then show ?thesis using fl f neighbours_at(1) [OF rep, of "lefts c' @ inord u" x "rights c"] 2(1) l
          by (simp add: FindClosest_def last_of_def)
      qed
    qed
  qed
qed

end

subsection \<open>Properties\<close>

lemma avl_rep_height: "avl_rep T t \<Longrightarrow> t_count T < 9227464 \<Longrightarrow> ht t \<le> int kMaxAVLTreeHeight"
  unfolding avl_rep_def by (intro avl_height_bound) auto

text \<open>A tree of three nodes with the keys 10, 20 and 30, for the examples; the nodes are numbered by their keys.\<close>

definition example_node :: "node_ptr \<Rightarrow> avl_node" where
  "example_node p =
     (if p = 20 then \<lparr>n_parent = None, n_left = Some 10, n_right = Some 30, n_balance = 0\<rparr>
      else \<lparr>n_parent = Some 20, n_left = None, n_right = None, n_balance = 0\<rparr>)"

definition example_tree :: avl_tree where
  "example_tree = \<lparr>t_root = Some 20, t_count = 3, t_node = example_node\<rparr>"

definition example_cmp :: "int \<Rightarrow> node_ptr \<Rightarrow> int" where
  "example_cmp k n = (if k = int n then 0 else if k < int n then -1 else 1)"

lemma example_compare: "avl_compare_unit example_cmp (\<lambda>m. example_cmp (int m)) int"
  by unfold_locales (auto simp: example_cmp_def)

lemma example_compare_weak: "avl_compare example_cmp (\<lambda>m. example_cmp (int m)) int"
  by unfold_locales (auto simp: example_cmp_def)

lemma example_rep: "avl_rep example_tree (Nd (Nd Lf 10 0 Lf) 20 0 (Nd Lf 30 0 Lf))"
  by (simp add: avl_rep_def example_tree_def example_node_def)

text \<open>
  C3: \<open>Insert\<close> on a balanced search tree of fewer than 9,227,464 nodes always ends without overflowing its stack of 32
  entries. A node whose key is in the tree is refused with \<open>B_BAD_VALUE\<close> and nothing changes; any other node is put
  in its place in the order of the keys, the other nodes keep theirs, the parent links, balance factors and the
  count are right again, every node outside the tree is untouched, and the result is \<open>B_OK\<close>.
\<close>

theorem avl_insert_refines:
  assumes "avl_compare cmpKey cmpNodes key_of" "avl_rep T t" "sorted_wrt (<) (map key_of (inord t))" "t_count T < 9227464"
    "x \<notin> set (inord t)"
  shows "if key_of x \<in> key_of ` set (inord t) then Insert_node cmpNodes x T = Some (Some (B_BAD_VALUE, T))
    else \<exists>T' t'. Insert_node cmpNodes x T = Some (Some (B_OK, T')) \<and> avl_rep T' t' \<and> inord t' = insort_key key_of x (inord t)
      \<and> (\<forall>z. z \<notin> set (inord t') \<longrightarrow> t_node T' z = t_node T z)"
proof (cases "key_of x \<in> key_of ` set (inord t)")
  case True
  then show ?thesis using avl_compare.insert_duplicate [OF assms(1-3) avl_rep_height [OF assms(2,4)]]
    by (simp add: Insert_node_def insert_status_def)
next
  case False
  then show ?thesis using avl_compare.insert_new [OF assms(1-3) avl_rep_height [OF assms(2,4)] assms(5)]
    by (fastforce simp: Insert_node_def insert_status_def)
qed

theorem avl_insert_refines_witness:
  "\<exists>T' t'. Insert_node (\<lambda>m. example_cmp (int m)) 25 example_tree = Some (Some (B_OK, T')) \<and> avl_rep T' t' \<and> inord t' = [10, 20, 25, 30]"
  using avl_insert_refines [OF example_compare_weak example_rep, of 25] by (simp add: example_tree_def) blast

text \<open>
  C5: \<open>Remove\<close> of a node of a balanced tree of fewer than 9,227,464 nodes always ends without overflowing a stack and
  returns true; the other nodes keep their order, the tree is balanced again with right parent links, balance
  factors and count, and every node outside the tree is untouched.
\<close>

theorem avl_remove_refines:
  assumes "avl_rep T t" "t_count T < 9227464" "x \<in> set (inord t)"
  shows "\<exists>T' t'. Remove_node (Some x) T = Some (Some (True, T')) \<and> avl_rep T' t' \<and> inord t' = remove1 x (inord t)
    \<and> (\<forall>z. z \<notin> set (inord t) \<longrightarrow> t_node T' z = t_node T z)"
proof -
  have "ht t \<le> int kMaxAVLTreeHeight + 1" using avl_rep_height [OF assms(1,2)] by simp
  then show ?thesis using remove_law [OF assms(1) _ assms(3)] by (fastforce simp: Remove_node_def)
qed

theorem avl_remove_refines_witness:
  "\<exists>T' t'. Remove_node (Some 20) example_tree = Some (Some (True, T')) \<and> avl_rep T' t' \<and> inord t' = [10, 30]"
  using avl_remove_refines [OF example_rep, of 20] by (simp add: example_tree_def) blast

text \<open>
  C15: \<open>FindClosest\<close> with a comparator that returns -1, 0 or 1 always ends with the last node whose key is not above the
  key, or the first node whose key is not below it, as asked, and with \<open>NULL\<close> if there is none; \<open>Find\<close> ends with the
  node that has the key, if there is one.
\<close>

theorem avl_find_closest:
  assumes "avl_compare_unit cmpKey cmpNodes key_of" "avl_rep T t" "sorted_wrt (<) (map key_of (inord t))"
  shows "FindClosest cmpKey k lower T =
      Some (if lower then last_of (filter (\<lambda>x. key_of x \<le> k) (inord t)) else first_of (filter (\<lambda>x. k \<le> key_of x) (inord t)))
    \<and> Find cmpKey k T = Some (find (\<lambda>x. key_of x = k) (inord t))"
  using avl_compare_unit.FindClosest_at [OF assms] avl_compare.Find_at [OF _ assms(2,3)] assms(1)
  by (auto simp: avl_compare_unit_def)

theorem avl_find_closest_witness:
  "FindClosest example_cmp 25 True example_tree = Some (Some 20) \<and> FindClosest example_cmp 25 False example_tree = Some (Some 30)"
  using avl_find_closest [OF example_compare example_rep, of 25 True] avl_find_closest [OF example_compare example_rep, of 25 False]
  by (simp add: last_of_def)

text \<open>
  C17: \<open>CheckTree\<close> reports no failed check exactly on trees whose parent links, balance factors and count are right and
  whose balance factors are between -1 and 1.
\<close>

theorem avl_check_tree:
  "CheckTree T = Some True \<longleftrightarrow> (\<exists>t. tree_at T None (t_root T) t \<and> avl t \<and> t_count T = int (length (inord t)))"
  by (rule CheckTree_iff)

text \<open>
  C16: \<open>Next\<close> and \<open>Previous\<close> always end with the neighbours of a node in the order of the tree, \<open>NULL\<close> at its ends;
  \<open>LeftMost\<close> and \<open>RightMost\<close> end with its first and last node.
\<close>

theorem avl_neighbours:
  assumes "avl_rep T t" "inord t = xs @ x # ys"
  shows "Next T (Some x) = Some (first_of ys) \<and> Previous T (Some x) = Some (last_of xs)
    \<and> LeftMost T (t_root T) = Some (first_of (xs @ [x])) \<and> RightMost T (t_root T) = Some (last_of (x # ys))"
  using neighbours_at [OF assms] ends_at [OF assms(1)] by (auto simp: assms(2) first_of_def last_of_def hd_append)

theorem avl_neighbours_witness:
  "Next example_tree (Some 20) = Some (Some 30) \<and> Previous example_tree (Some 20) = Some (Some 10)"
  using avl_neighbours [OF example_rep, of "[10]" 20 "[30]"] by (simp add: last_of_def)

end
