(* ===== verification/Vm_Areas.thy ===== *)
theory Vm_Areas
  imports Kernel_Avl
begin

text \<open>
  The global tree of areas of the kernel (\<open>VMAreas\<close> in \<open>src/src/system/kernel/vm/VMArea.cpp\<close> and \<open>VMArea.h\<close>): look-up by
  identifier and by name, insertion and removal, and the comparators of both trees of areas, on which the locale
  \<open>avl_compare_unit\<close> of \<open>Kernel_Avl\<close> is interpreted. It also holds the results of code that may crash or not end, which
  the theories of address spaces use.
\<close>

subsection \<open>Runs\<close>

text \<open>
  A run of code that may crash: \<open>None\<close> where a loop does not end, \<open>Some (Inl c)\<close> for a crash, \<open>Some (Inr x)\<close> for a
  result. A failed \<open>ASSERT\<close> and a call of \<open>panic\<close> are crashes.
\<close>

datatype crash = Stack_overflow | Null_pointer | Failed_assert | Panic

type_synonym 'a run = "(crash + 'a) option"

definition done_with :: "'a \<Rightarrow> 'a run" where
  "done_with x = Some (Inr x)"

definition crash_with :: "crash \<Rightarrow> 'a run" where
  "crash_with c = Some (Inl c)"

definition and_then :: "'a run \<Rightarrow> ('a \<Rightarrow> 'b run) \<Rightarrow> 'b run" where
  "and_then m f = Option.bind m (\<lambda>r. case r of Inl c \<Rightarrow> Some (Inl c) | Inr x \<Rightarrow> f x)"

text \<open>The walks of a tree, and the operations that may overflow their stack.\<close>

definition walk :: "'a option \<Rightarrow> 'a run" where
  "walk r = Option.bind r done_with"

definition tree_op :: "'a option option \<Rightarrow> 'a run" where
  "tree_op r = Option.bind r (\<lambda>x. case x of None \<Rightarrow> crash_with Stack_overflow | Some y \<Rightarrow> done_with y)"

lemma run_simps [simp]:
  "and_then (done_with x) f = f x" "and_then (crash_with c) f = crash_with c" "walk (Some x) = done_with x"
  "tree_op (Some (Some y)) = done_with y" "tree_op (Some None) = crash_with Stack_overflow"
  by (simp_all add: and_then_def done_with_def crash_with_def walk_def tree_op_def)

lemma done_with_inject [simp]: "done_with x = done_with y \<longleftrightarrow> x = y" "done_with x \<noteq> crash_with c" "crash_with c \<noteq> done_with x"
  "crash_with c = crash_with d \<longleftrightarrow> c = d"
  by (simp_all add: done_with_def crash_with_def)

lemma and_then_mono [partial_function_mono]:
  assumes f: "mono_option f" and g: "\<And>y. mono_option (\<lambda>h. g y h)"
  shows "mono_option (\<lambda>h. and_then (f h) (\<lambda>y. g y h))"
  unfolding and_then_def
proof (rule bind_mono [OF f])
  fix r
  show "mono_option (\<lambda>h. case r of Inl c \<Rightarrow> Some (Inl c) | Inr x \<Rightarrow> g x h)"
    using g by (cases r) (simp_all add: option.const_mono)
qed

subsection \<open>Areas\<close>

type_synonym addr = "64 word"

record vm_area =
  a_id :: int
  a_name :: string
  a_base :: addr
  a_size :: addr
  a_protection :: uint32
  a_cache_offset :: addr

type_synonym area_store = "node_ptr \<Rightarrow> vm_area"

definition RESERVED_AREA_ID :: int where "RESERVED_AREA_ID = -1"

definition ContainsAddress :: "vm_area \<Rightarrow> addr \<Rightarrow> bool" where
  "ContainsAddress a address \<longleftrightarrow> a_base a \<le> address \<and> address \<le> a_base a + (a_size a - 1)"

subsection \<open>The comparators\<close>

definition VMAreasTree_CompareKey :: "area_store \<Rightarrow> int \<Rightarrow> node_ptr \<Rightarrow> int" where
  "VMAreasTree_CompareKey area key n =
     (let valueId = a_id (area n) in if valueId = key then 0 else if key < valueId then -1 else 1)"

definition VMAreasTree_CompareNodes :: "area_store \<Rightarrow> node_ptr \<Rightarrow> node_ptr \<Rightarrow> int" where
  "VMAreasTree_CompareNodes area a b = VMAreasTree_CompareKey area (a_id (area a)) b"

definition VMUserAreaTree_CompareKey :: "area_store \<Rightarrow> addr \<Rightarrow> node_ptr \<Rightarrow> int" where
  "VMUserAreaTree_CompareKey area a n =
     (let b = a_base (area n) in if a = b then 0 else if a < b then -1 else 1)"

definition VMUserAreaTree_CompareNodes :: "area_store \<Rightarrow> node_ptr \<Rightarrow> node_ptr \<Rightarrow> int" where
  "VMUserAreaTree_CompareNodes area a b = VMUserAreaTree_CompareKey area (a_base (area a)) b"

interpretation areas: avl_compare_unit "VMAreasTree_CompareKey area" "VMAreasTree_CompareNodes area" "\<lambda>n. a_id (area n)" for area
  by unfold_locales (auto simp: VMAreasTree_CompareKey_def VMAreasTree_CompareNodes_def Let_def)

interpretation user: avl_compare_unit "VMUserAreaTree_CompareKey area" "VMUserAreaTree_CompareNodes area" "\<lambda>n. a_base (area n)" for area
  by unfold_locales (auto simp: VMUserAreaTree_CompareKey_def VMUserAreaTree_CompareNodes_def Let_def)

subsection \<open>The table of all areas\<close>

text \<open>The operations below run while the lock of the table is held.\<close>

definition VMAreas_Lookup :: "area_store \<Rightarrow> int \<Rightarrow> avl_tree \<Rightarrow> node_ptr option run" where
  "VMAreas_Lookup area key T = walk (Find (VMAreasTree_CompareKey area) key T)"

partial_function (option) find_name :: "area_store \<Rightarrow> string \<Rightarrow> avl_tree \<Rightarrow> avl_iterator \<Rightarrow> (status + int) run" where
  "find_name area name T it =
     and_then (walk (iter_Next T it)) (\<lambda>(n, it).
       case n of None \<Rightarrow> done_with (Inl B_NAME_NOT_FOUND)
       | Some x \<Rightarrow> if a_name (area x) = name then done_with (Inr (a_id (area x))) else find_name area name T it)"

definition VMAreas_Find :: "area_store \<Rightarrow> string \<Rightarrow> avl_tree \<Rightarrow> (status + int) run" where
  "VMAreas_Find area name T = and_then (walk (GetIterator T)) (find_name area name T)"

definition VMAreas_Insert :: "area_store \<Rightarrow> node_ptr \<Rightarrow> avl_tree \<Rightarrow> (status \<times> avl_tree) run" where
  "VMAreas_Insert area x T = tree_op (Insert_node (VMAreasTree_CompareNodes area) x T)"

definition VMAreas_Remove :: "node_ptr \<Rightarrow> avl_tree \<Rightarrow> avl_tree run" where
  "VMAreas_Remove x T = and_then (tree_op (Remove_node (Some x) T)) (\<lambda>(_, T). done_with T)"

subsection \<open>Iteration\<close>

text \<open>An iterator in front of the nodes \<open>ys\<close> of a tree.\<close>

definition iter_at :: "atree \<Rightarrow> avl_iterator \<Rightarrow> node_ptr list \<Rightarrow> bool" where
  "iter_at t it ys \<longleftrightarrow> it_next it = first_of ys \<and> (\<exists>xs. inord t = xs @ ys)"

lemma iter_at_start: "avl_rep T t \<Longrightarrow> \<exists>it. GetIterator T = Some it \<and> iter_at t it (inord t)"
  by (simp add: GetIterator_def ends_at iter_at_def)

lemma iter_at_node:
  "avl_rep T t \<Longrightarrow> inord t = xs @ x # ys \<Longrightarrow> \<exists>it. GetIterator_node T (Some x) = Some it \<and> iter_at t it ys"
  by (auto simp: GetIterator_node_def neighbours_at iter_at_def)

lemma iter_Next_at:
  assumes "avl_rep T t" "iter_at t it ys"
  shows "\<exists>it'. iter_Next T it = Some (first_of ys, it') \<and> iter_at t it' (tl ys)"
proof (cases ys)
  case Nil
  then show ?thesis using assms(2) by (simp add: iter_Next_def iter_at_def)
next
  case (Cons y zs)
  then obtain xs where "inord t = xs @ y # zs" "it_next it = Some y" using assms(2) by (auto simp: iter_at_def)
  then have "iter_Next T it = Some (Some y, \<lparr>it_current = Some y, it_next = first_of zs\<rparr>)"
    using neighbours_at(1) [OF assms(1)] by (simp add: iter_Next_def)
  moreover have "iter_at t \<lparr>it_current = Some y, it_next = first_of zs\<rparr> zs"
    using \<open>inord t = xs @ y # zs\<close> by (auto simp: iter_at_def intro: exI [of _ "xs @ [y]"])
  ultimately show ?thesis using Cons by simp
qed

lemma find_name_at:
  assumes "avl_rep T t" "iter_at t it ys"
  shows "find_name area name T it =
    done_with (case find (\<lambda>x. a_name (area x) = name) ys of None \<Rightarrow> Inl B_NAME_NOT_FOUND | Some x \<Rightarrow> Inr (a_id (area x)))"
  using assms(2)
proof (induction ys arbitrary: it)
  case Nil
  then show ?case using iter_Next_at [OF assms(1) Nil] by (subst find_name.simps) auto
next
  case (Cons y ys)
  then show ?case using iter_Next_at [OF assms(1) Cons.prems] by (subst find_name.simps) auto
qed

lemma find_insort:
  assumes "f x \<notin> f ` set xs"
  shows "find (\<lambda>n. f n = i) (insort_key f x xs) = (if i = f x then Some x else find (\<lambda>n. f n = i) xs)"
  using assms by (induction xs) auto

lemma strict_insort:
  fixes f :: "'a \<Rightarrow> 'b::linorder"
  assumes "f x \<notin> f ` set xs" "sorted_wrt (<) (map f xs)"
  shows "sorted_wrt (<) (map f (insort_key f x xs))"
  using assms
proof (induction xs)
  case (Cons y ys)
  have "f x \<noteq> f y" using Cons.prems(1) by auto
  then have "f x < f y \<or> f y < f x" by auto
  then show ?case using Cons by (fastforce simp: set_insort_key)
qed simp

subsection \<open>Properties of the table of all areas\<close>

text \<open>
  C19: the table of all areas is the list of areas in the order of their identifiers: \<open>Find\<close> by name always ends with
  the identifier of the first area of that name in this order, or with \<open>B_NAME_NOT_FOUND\<close> when there is none; \<open>Lookup\<close>
  ends with the area that has the identifier, if any.
\<close>

theorem areas_lookup_find:
  assumes "avl_rep T t" "sorted_wrt (<) (map (\<lambda>n. a_id (area n)) (inord t))"
  shows "VMAreas_Find area name T =
      done_with (case find (\<lambda>x. a_name (area x) = name) (inord t) of None \<Rightarrow> Inl B_NAME_NOT_FOUND | Some x \<Rightarrow> Inr (a_id (area x)))
    \<and> VMAreas_Lookup area key T = done_with (find (\<lambda>x. a_id (area x) = key) (inord t))"
proof -
  obtain it where it: "GetIterator T = Some it" "iter_at t it (inord t)" using iter_at_start [OF assms(1)] by blast
  show ?thesis using find_name_at [OF assms(1) it(2)] areas.Find_at [OF assms]
    by (simp add: VMAreas_Find_def VMAreas_Lookup_def it(1))
qed

definition example_areas :: area_store where
  "example_areas n = \<lparr>a_id = int n, a_name = (if n = 30 then ''heap'' else ''code''), a_base = 0, a_size = 1, a_protection = 0, a_cache_offset = 0\<rparr>"

theorem areas_lookup_find_witness:
  "VMAreas_Find example_areas ''heap'' example_tree = done_with (Inr 30) \<and> VMAreas_Lookup example_areas 20 example_tree = done_with (Some 20)"
  using areas_lookup_find [OF example_rep, of example_areas "''heap''" 20] by (simp add: example_areas_def)

text \<open>
  C18: \<open>VMAreas::Insert\<close> followed by \<open>Lookup\<close> finds the area, and every other look-up is as before; an area whose identifier
  is taken is refused with \<open>B_BAD_VALUE\<close>. \<open>Remove\<close> undoes the insertion: the list of areas is the old one again.
\<close>

theorem areas_insert_remove:
  assumes "avl_rep T t" "sorted_wrt (<) (map (\<lambda>n. a_id (area n)) (inord t))" "t_count T < 9227463" "x \<notin> set (inord t)"
  shows "if a_id (area x) \<in> (\<lambda>n. a_id (area n)) ` set (inord t) then VMAreas_Insert area x T = done_with (B_BAD_VALUE, T)
    else \<exists>T' t' T'' t''. VMAreas_Insert area x T = done_with (B_OK, T') \<and> avl_rep T' t'
      \<and> (\<forall>key. VMAreas_Lookup area key T' = (if key = a_id (area x) then done_with (Some x) else VMAreas_Lookup area key T))
      \<and> VMAreas_Remove x T' = done_with T'' \<and> avl_rep T'' t'' \<and> inord t'' = inord t"
proof (cases "a_id (area x) \<in> (\<lambda>n. a_id (area n)) ` set (inord t)")
  case True
  then show ?thesis using areas.insert_duplicate [OF assms(1,2) avl_rep_height [OF assms(1)]] assms(3)
    by (simp add: VMAreas_Insert_def Insert_node_def insert_status_def)
next
  case False
  obtain res T' t' where 1: "avl_Insert (VMAreasTree_CompareNodes area) x T = Some (Some (res, T'))" "res \<in> {OK, HEIGHT_CHANGED}"
    "avl_rep T' t'" "inord t' = insort_key (\<lambda>n. a_id (area n)) x (inord t)"
    using areas.insert_new [OF assms(1,2) avl_rep_height [OF assms(1)] assms(4) False] assms(3) by auto
  have ins: "VMAreas_Insert area x T = done_with (B_OK, T')" using 1(1,2) by (auto simp: VMAreas_Insert_def Insert_node_def insert_status_def)
  have s': "sorted_wrt (<) (map (\<lambda>n. a_id (area n)) (inord t'))"
    unfolding 1(4) by (rule strict_insort [OF False assms(2)])
  have d: "find (\<lambda>n. a_id (area n) = i) (inord t') = (if i = a_id (area x) then Some x else find (\<lambda>n. a_id (area n) = i) (inord t))" for i
    unfolding 1(4) by (rule find_insort) (use False in auto)
  have c': "t_count T' < 9227464" "x \<in> set (inord t')" using 1(3,4) assms(1,3) by (auto simp: avl_rep_def set_insort_key)
  obtain T'' t'' res' where 2: "avl_Remove (Some x) T' = Some (Some (res', T''))" "res' \<in> {OK, HEIGHT_CHANGED}"
    "avl_rep T'' t''" "inord t'' = remove1 x (inord t')"
    using remove_law [OF 1(3) _ c'(2)] avl_rep_height [OF 1(3) c'(1)] by auto
  have "VMAreas_Remove x T' = done_with T''" using 2(1) by (simp add: VMAreas_Remove_def Remove_node_def)
  moreover have "inord t'' = inord t" unfolding 2(4) 1(4) by (rule remove1_insort_key)
  ultimately show ?thesis using False ins 1(3) 2(3) d areas.Find_at [OF 1(3) s'] areas.Find_at [OF assms(1,2)]
    by (auto simp: VMAreas_Lookup_def)
qed

theorem areas_insert_remove_witness:
  "\<exists>T' t'. VMAreas_Insert example_areas 25 example_tree = done_with (B_OK, T') \<and> avl_rep T' t'
    \<and> VMAreas_Lookup example_areas 25 T' = done_with (Some 25)"
  using areas_insert_remove [OF example_rep, of example_areas 25] by (auto simp: example_areas_def example_tree_def)

end
