(* ===== verification/Vm_UserAddressSpace.thy ===== *)
theory Vm_UserAddressSpace
  imports Vm_Areas
begin

text \<open>
  The user address space (\<open>src/src/system/kernel/vm/VMUserAddressSpace.cpp\<close>, with \<open>VMUserArea.cpp\<close> and \<open>.h\<close>): its areas in an
  AVL tree, the search for a free slot for each kind of address specification, insertion, removal and resizing of
  areas, and reserved address ranges. The fields of the areas and of the tree are those of the source; addresses are
  64-bit words. The random numbers, the results of allocations and the architecture's page size are explicit.
\<close>

unbundle bit_operations_syntax

subsection \<open>The state\<close>

record uspace =
  u_base :: addr
  u_end :: addr
  u_free :: addr
  u_refs :: int
  u_changes :: int
  u_randomizing :: bool
  u_deleting :: bool
  u_hint :: addr
  u_tree :: avl_tree
  u_area :: area_store
  u_random :: "nat \<Rightarrow> addr"

text \<open>The values that \<open>secure_get_random\<close> returns one after the other are part of the state.\<close>

definition draw :: "uspace \<Rightarrow> addr \<times> uspace" where
  "draw S = (u_random S 0, S\<lparr>u_random := \<lambda>n. u_random S (Suc n)\<rparr>)"

text \<open>A new address space: \<open>nodes\<close> and \<open>areas\<close> are the memory of the areas still to come.\<close>

definition VMUserAddressSpace :: "addr \<Rightarrow> addr \<Rightarrow> (node_ptr \<Rightarrow> avl_node) \<Rightarrow> area_store \<Rightarrow> (nat \<Rightarrow> addr) \<Rightarrow> uspace" where
  "VMUserAddressSpace base sz nodes areas random =
     \<lparr>u_base = base, u_end = base + (sz - 1), u_free = sz, u_refs = 1, u_changes = 0, u_randomizing = True, u_deleting = False,
      u_hint = 0, u_tree = AVLTreeBase nodes, u_area = areas, u_random = random\<rparr>"

definition base_of :: "uspace \<Rightarrow> node_ptr \<Rightarrow> addr" where "base_of S x = a_base (u_area S x)"
definition size_of :: "uspace \<Rightarrow> node_ptr \<Rightarrow> addr" where "size_of S x = a_size (u_area S x)"
definition reserved :: "uspace \<Rightarrow> node_ptr \<Rightarrow> bool" where "reserved S x \<longleftrightarrow> a_id (u_area S x) = RESERVED_AREA_ID"

definition upd_area :: "node_ptr \<Rightarrow> (vm_area \<Rightarrow> vm_area) \<Rightarrow> uspace \<Rightarrow> uspace" where
  "upd_area x f S = S\<lparr>u_area := (u_area S)(x := f (u_area S x))\<rparr>"

definition SetBase :: "node_ptr \<Rightarrow> addr \<Rightarrow> uspace \<Rightarrow> uspace" where "SetBase x v = upd_area x (\<lambda>a. a\<lparr>a_base := v\<rparr>)"
definition SetSize :: "node_ptr \<Rightarrow> addr \<Rightarrow> uspace \<Rightarrow> uspace" where "SetSize x v = upd_area x (\<lambda>a. a\<lparr>a_size := v\<rparr>)"
definition IncrementChangeCount :: "uspace \<Rightarrow> uspace" where "IncrementChangeCount S = S\<lparr>u_changes := u_changes S + 1\<rparr>"
definition ua_Get :: "uspace \<Rightarrow> uspace" where "ua_Get S = S\<lparr>u_refs := u_refs S + 1\<rparr>"
definition ua_Put :: "uspace \<Rightarrow> uspace" where "ua_Put S = S\<lparr>u_refs := u_refs S - 1\<rparr>"

text \<open>The tree of the areas.\<close>

definition ua_FindClosest :: "uspace \<Rightarrow> addr \<Rightarrow> bool \<Rightarrow> node_ptr option run" where
  "ua_FindClosest S a lower = walk (FindClosest (VMUserAreaTree_CompareKey (u_area S)) a lower (u_tree S))"

definition ua_Next :: "uspace \<Rightarrow> node_ptr \<Rightarrow> node_ptr option run" where
  "ua_Next S x = walk (Next (u_tree S) (Some x))"

definition ua_Previous :: "uspace \<Rightarrow> node_ptr \<Rightarrow> node_ptr option run" where
  "ua_Previous S x = walk (Previous (u_tree S) (Some x))"

definition ua_Insert :: "node_ptr \<Rightarrow> uspace \<Rightarrow> uspace run" where
  "ua_Insert x S = and_then (tree_op (Insert_node (VMUserAreaTree_CompareNodes (u_area S)) x (u_tree S))) (\<lambda>(_, T). done_with (S\<lparr>u_tree := T\<rparr>))"

definition ua_Remove :: "node_ptr \<Rightarrow> uspace \<Rightarrow> uspace run" where
  "ua_Remove x S = and_then (tree_op (Remove_node (Some x) (u_tree S))) (\<lambda>(_, T). done_with (S\<lparr>u_tree := T\<rparr>))"

definition deref :: "node_ptr option \<Rightarrow> (node_ptr \<Rightarrow> 'a run) \<Rightarrow> 'a run" where
  "deref p f = (case p of None \<Rightarrow> crash_with Null_pointer | Some x \<Rightarrow> f x)"

lemma deref_mono [partial_function_mono]: "(\<And>y. mono_option (\<lambda>h. g y h)) \<Longrightarrow> mono_option (\<lambda>h. deref p (\<lambda>y. g y h))"
  by (cases p) (simp_all add: deref_def option.const_mono)

lemma deref_simps [simp]: "deref None f = crash_with Null_pointer" "deref (Some x) f = f x"
  by (simp_all add: deref_def)

subsection \<open>Addresses\<close>

datatype address_spec =
    B_ANY_ADDRESS | B_EXACT_ADDRESS | B_BASE_ADDRESS | B_CLONE_ADDRESS | B_ANY_KERNEL_ADDRESS | B_ANY_KERNEL_BLOCK_ADDRESS
  | B_RANDOMIZED_ANY_ADDRESS | B_RANDOMIZED_BASE_ADDRESS | Unknown_spec uint32

record restrictions =
  r_address :: addr
  r_spec :: address_spec
  r_alignment :: addr

definition kMaxRandomize :: addr where "kMaxRandomize = 0x8000000000"
definition kMaxInitialRandomize :: addr where "kMaxInitialRandomize = 0x20000000000"
definition USER_BASE_ANY :: addr where "USER_BASE_ANY = 0x100000"
definition B_PAGE_SIZE :: addr where "B_PAGE_SIZE = 4096"
definition RESERVED_AVOID_BASE :: uint32 where "RESERVED_AVOID_BASE = 1"

definition ROUNDDOWN :: "addr \<Rightarrow> addr \<Rightarrow> addr" where "ROUNDDOWN a b = (a div b) * b"
definition ROUNDUP :: "addr \<Rightarrow> addr \<Rightarrow> addr" where "ROUNDUP a b = ROUNDDOWN (a + b - 1) b"

definition is_valid_spot :: "addr \<Rightarrow> addr \<Rightarrow> addr \<Rightarrow> addr \<Rightarrow> bool" where
  "is_valid_spot base alignedBase sz limit \<longleftrightarrow>
     base \<le> alignedBase \<and> alignedBase < alignedBase + (sz - 1) \<and> alignedBase + (sz - 1) \<le> limit"

definition is_base_address_spec :: "address_spec \<Rightarrow> bool" where
  "is_base_address_spec spec \<longleftrightarrow> spec = B_BASE_ADDRESS \<or> spec = B_RANDOMIZED_BASE_ADDRESS"

definition align_address :: "addr \<Rightarrow> addr \<Rightarrow> addr" where
  "align_address address alignment = ROUNDUP address alignment"

definition align_address_spec :: "addr \<Rightarrow> addr \<Rightarrow> address_spec \<Rightarrow> addr \<Rightarrow> addr" where
  "align_address_spec address alignment spec baseAddress =
     align_address (if is_base_address_spec spec then max address baseAddress else address) alignment"

definition IsRandomized :: "uspace \<Rightarrow> address_spec \<Rightarrow> bool" where
  "IsRandomized S spec \<longleftrightarrow> u_randomizing S \<and> (spec = B_RANDOMIZED_ANY_ADDRESS \<or> spec = B_RANDOMIZED_BASE_ADDRESS)"

definition RandomizeAddress :: "addr \<Rightarrow> addr \<Rightarrow> addr \<Rightarrow> bool \<Rightarrow> uspace \<Rightarrow> (addr \<times> uspace) run" where
  "RandomizeAddress start end alignment initial S =
     (if start AND (alignment - 1) \<noteq> 0 \<or> end < start then crash_with Failed_assert
      else if start = end then done_with (start, S)
      else
        let range = min (end - start + 1) (if initial then kMaxInitialRandomize else kMaxRandomize);
            (random, S) = draw S
        in done_with (start + (random mod range AND NOT (alignment - 1)), S))"

subsection \<open>Looking up areas\<close>

partial_function (option) skip_reserved :: "uspace \<Rightarrow> bool \<Rightarrow> node_ptr option \<Rightarrow> node_ptr option run" where
  "skip_reserved S lower p =
     (case p of None \<Rightarrow> done_with None
      | Some x \<Rightarrow> if reserved S x then and_then (if lower then ua_Previous S x else ua_Next S x) (skip_reserved S lower)
                 else done_with (Some x))"

definition FirstArea :: "uspace \<Rightarrow> node_ptr option run" where
  "FirstArea S = and_then (walk (LeftMost (u_tree S) (t_root (u_tree S)))) (skip_reserved S False)"

definition NextArea :: "uspace \<Rightarrow> node_ptr \<Rightarrow> node_ptr option run" where
  "NextArea S x = and_then (ua_Next S x) (skip_reserved S False)"

definition LookupArea :: "uspace \<Rightarrow> addr \<Rightarrow> node_ptr option run" where
  "LookupArea S address =
     and_then (ua_FindClosest S address True) (\<lambda>p.
       done_with (case p of None \<Rightarrow> None
         | Some x \<Rightarrow> if reserved S x then None else if ContainsAddress (u_area S x) address then Some x else None))"

definition FindClosestArea :: "uspace \<Rightarrow> addr \<Rightarrow> bool \<Rightarrow> node_ptr option run" where
  "FindClosestArea S address lower = and_then (ua_FindClosest S address lower) (skip_reserved S lower)"

subsection \<open>Removing and resizing areas\<close>

definition RemoveArea :: "node_ptr \<Rightarrow> uspace \<Rightarrow> uspace run" where
  "RemoveArea x S =
     and_then (ua_Remove x S) (\<lambda>S.
       let S = (if \<not> reserved S x then (IncrementChangeCount S)\<lparr>u_free := u_free S + size_of S x\<rparr> else S)
       in done_with (if base_of S x + size_of S x = u_hint S then S\<lparr>u_hint := u_hint S - size_of S x\<rparr> else S))"

partial_function (option) can_resize_loop :: "uspace \<Rightarrow> addr \<Rightarrow> node_ptr option \<Rightarrow> bool run" where
  "can_resize_loop S newEnd next =
     (case next of None \<Rightarrow> done_with (newEnd \<le> u_end S)
      | Some n \<Rightarrow>
          if newEnd < base_of S n then done_with True
          else if \<not> reserved S n then done_with False
          else if newEnd \<le> base_of S n + (size_of S n - 1) then done_with True
          else and_then (ua_Next S n) (can_resize_loop S newEnd))"

definition CanResizeArea :: "uspace \<Rightarrow> node_ptr \<Rightarrow> addr \<Rightarrow> bool run" where
  "CanResizeArea S x newSize =
     (let newEnd = base_of S x + (newSize - 1)
      in if newEnd < base_of S x then done_with False else and_then (ua_Next S x) (can_resize_loop S newEnd))"

definition ShrinkAreaHead :: "node_ptr \<Rightarrow> addr \<Rightarrow> uspace \<Rightarrow> status \<times> uspace" where
  "ShrinkAreaHead x sz S =
     (let oldSize = size_of S x
      in if sz = oldSize then (B_OK, S) else (B_OK, SetSize x sz (SetBase x (base_of S x + oldSize - sz) S)))"

definition ShrinkAreaTail :: "node_ptr \<Rightarrow> addr \<Rightarrow> uspace \<Rightarrow> status \<times> uspace" where
  "ShrinkAreaTail x sz S = (if sz = size_of S x then (B_OK, S) else (B_OK, SetSize x sz S))"

text \<open>The loop of \<open>ResizeArea\<close> over the areas behind a growing one.\<close>

partial_function (option) resize_loop :: "node_ptr \<Rightarrow> addr \<Rightarrow> addr \<Rightarrow> node_ptr option \<Rightarrow> uspace \<Rightarrow> (status \<times> uspace) run" where
  "resize_loop x newSize newEnd next S =
     (case next of None \<Rightarrow> done_with (B_OK, S)
      | Some n \<Rightarrow>
          if newEnd < base_of S n then done_with (B_OK, S)
          else if \<not> reserved S n \<and> base_of S n < newEnd then crash_with Panic
          else
            let offset = (base_of S x + newSize) - base_of S n
            in if size_of S n \<le> offset
               then and_then (ua_Next S n) (\<lambda>nextNext. and_then (RemoveArea n S) (\<lambda>S. resize_loop x newSize newEnd nextNext (ua_Put S)))
               else done_with (ShrinkAreaHead n (size_of S n - offset) S))"

definition ResizeArea :: "node_ptr \<Rightarrow> addr \<Rightarrow> uspace \<Rightarrow> (status \<times> uspace) run" where
  "ResizeArea x newSize S =
     (let oldEnd = base_of S x + (size_of S x - 1);
          newEnd = base_of S x + (newSize - 1)
      in and_then (ua_Next S x) (\<lambda>next.
           and_then
             (if oldEnd < newEnd then resize_loop x newSize newEnd next S
              else
                case next of None \<Rightarrow> done_with (B_OK, S)
                | Some n \<Rightarrow>
                    if reserved S n \<and> base_of S n = oldEnd + 1
                    then
                      let oldNextBase = base_of S n;
                          newNextBase = max (oldNextBase - (oldEnd - newEnd)) (a_cache_offset (u_area S n));
                          S = SetBase n newNextBase S
                      in done_with (B_OK, SetSize n (size_of S n + (oldNextBase - newNextBase)) S)
                    else done_with (B_OK, S))
             (\<lambda>(status, S). if status = B_OK then done_with (B_OK, SetSize x newSize S) else done_with (status, S))))"

subsection \<open>Inserting into a reserved range\<close>

text \<open>\<open>alloc\<close> is what the allocation of a new reserved area returns.\<close>

definition CreateReserved :: "node_ptr option \<Rightarrow> uint32 \<Rightarrow> uspace \<Rightarrow> node_ptr option \<times> uspace" where
  "CreateReserved alloc flags S =
     (case alloc of None \<Rightarrow> (None, S)
      | Some n \<Rightarrow> (Some n, upd_area n (\<lambda>a. a\<lparr>a_id := RESERVED_AREA_ID, a_protection := flags\<rparr>) S))"

text \<open>The part that removes, resizes or splits the reserved area \<open>r\<close>.\<close>

definition carve :: "addr \<Rightarrow> addr \<Rightarrow> node_ptr \<Rightarrow> node_ptr option \<Rightarrow> uspace \<Rightarrow> (status \<times> uspace) run" where
  "carve start sz r alloc S =
     (if start = base_of S r
      then
        if sz = size_of S r then and_then (ua_Remove r S) (\<lambda>S. done_with (B_OK, ua_Put S))
        else
          let S = SetBase r (base_of S r + sz) S
          in done_with (B_OK, SetSize r (size_of S r - sz) S)
      else if start + sz = base_of S r + size_of S r then done_with (B_OK, SetSize r (start - base_of S r) S)
      else
        case CreateReserved alloc (a_protection (u_area S r)) S of
          (None, S) \<Rightarrow> done_with (B_NO_MEMORY, S)
        | (Some n, S) \<Rightarrow>
            let S = ua_Get S;
                S = SetBase n (start + sz) S;
                S = SetSize n (base_of S r + size_of S r - start - sz) S;
                S = upd_area n (\<lambda>a. a\<lparr>a_cache_offset := a_cache_offset (u_area S r)\<rparr>) S;
                S = SetSize r (start - base_of S r) S
            in and_then (ua_Insert n S) (\<lambda>S. done_with (B_OK, S)))"

definition InsertAreaIntoReservedRegion :: "addr \<Rightarrow> addr \<Rightarrow> node_ptr \<Rightarrow> node_ptr option \<Rightarrow> uspace \<Rightarrow> (status \<times> uspace) run" where
  "InsertAreaIntoReservedRegion start sz x alloc S =
     and_then (ua_FindClosest S start True) (\<lambda>p.
       case p of None \<Rightarrow> done_with (B_ENTRY_NOT_FOUND, S)
       | Some r \<Rightarrow>
           if \<not> ContainsAddress (u_area S r) start \<or> \<not> ContainsAddress (u_area S r) (start + sz - 1) then done_with (B_ENTRY_NOT_FOUND, S)
           else if \<not> reserved S r then done_with (B_BAD_VALUE, S)
           else
             and_then (carve start sz r alloc S) (\<lambda>(status, S).
               if status \<noteq> B_OK then done_with (status, S)
               else and_then (ua_Insert x (SetSize x sz (SetBase x start S))) (\<lambda>S. done_with (B_OK, IncrementChangeCount S))))"

subsection \<open>Searching for a free slot\<close>

text \<open>
  The parts of \<open>_InsertAreaSlot\<close>. The constant arguments of the search are collected in a record: the size and end of the
  search, the alignment, the area and the hint.
\<close>

record search =
  s_size :: addr
  s_end :: addr
  s_alignment :: addr
  s_area :: node_ptr
  s_useHint :: bool
  s_originalStart :: addr

text \<open>A spot is taken: the base is randomized if asked for, and the area is placed there.\<close>

definition take_spot :: "search \<Rightarrow> address_spec \<Rightarrow> addr \<Rightarrow> addr \<Rightarrow> uspace \<Rightarrow> uspace run" where
  "take_spot q spec alignedBase rangeEnd S =
     and_then (if IsRandomized S spec then RandomizeAddress alignedBase rangeEnd (s_alignment q) False S else done_with (alignedBase, S))
       (\<lambda>(b, S). done_with (SetBase (s_area q) b S))"

text \<open>The loop over the holes between areas: whether a spot was found, the last and the next area, and the state.\<close>

partial_function (option) hole_loop :: "search \<Rightarrow> address_spec \<Rightarrow> addr \<Rightarrow> node_ptr option \<Rightarrow> node_ptr option \<Rightarrow> avl_iterator \<Rightarrow> uspace \<Rightarrow>
    (bool \<times> node_ptr option \<times> node_ptr option \<times> uspace) run" where
  "hole_loop q spec start prev next it S =
     (case next of None \<Rightarrow> done_with (False, prev, next, S)
      | Some n \<Rightarrow>
          if base_of S n + size_of S n - 1 \<le> s_end q
          then
            deref prev (\<lambda>l.
              let alignedBase = align_address_spec (base_of S l + size_of S l) (s_alignment q) spec start;
                  nextBase = min (s_end q) (base_of S n - 1)
              in if is_valid_spot (base_of S l + (size_of S l - 1)) alignedBase (s_size q) nextBase
                 then and_then (take_spot q spec alignedBase (min (nextBase - s_size q + 1) (s_end q)) S) (\<lambda>S. done_with (True, prev, next, S))
                 else and_then (walk (iter_Next (u_tree S) it)) (\<lambda>(m, it). hole_loop q spec start next m it S))
          else done_with (False, prev, next, S))"

text \<open>The loop over the reserved areas.\<close>

partial_function (option) reserved_loop :: "search \<Rightarrow> address_spec \<Rightarrow> node_ptr option \<Rightarrow> avl_iterator \<Rightarrow> uspace \<Rightarrow> (bool \<times> uspace) run" where
  "reserved_loop q spec next it S =
     (case next of None \<Rightarrow> done_with (False, S)
      | Some n \<Rightarrow>
          if \<not> reserved S n then and_then (walk (iter_Next (u_tree S) it)) (\<lambda>(m, it). reserved_loop q spec m it S)
          else if s_end q < base_of S n + s_size q - 1 then done_with (False, S)
          else
            let alignedBase = align_address (base_of S n) (s_alignment q)
            in if base_of S n = alignedBase \<and> size_of S n = s_size q
               then and_then (ua_Remove n S) (\<lambda>S. done_with (True, SetBase (s_area q) alignedBase S))
               else if a_protection (u_area S n) AND RESERVED_AVOID_BASE = 0 \<and> alignedBase = base_of S n \<and> s_size q \<le> size_of S n
               then
                 let rangeEnd = min (base_of S n + size_of S n - s_size q) (s_end q)
                 in and_then (if IsRandomized S spec then RandomizeAddress (base_of S n) rangeEnd (s_alignment q) False S
                              else done_with (alignedBase, S))
                      (\<lambda>(alignedBase, S).
                         let offset = alignedBase - base_of S n;
                             S = SetBase n (base_of S n + offset + s_size q) S;
                             S = SetSize n (size_of S n - offset - s_size q) S
                         in done_with (True, SetBase (s_area q) alignedBase S))
               else if is_valid_spot (base_of S n) alignedBase (s_size q) (min (base_of S n + size_of S n - 1) (s_end q))
               then
                 and_then
                   (if IsRandomized S spec
                    then
                      let startRange = max (ROUNDDOWN (base_of S n + size_of S n - (s_size q + kMaxRandomize)) (s_alignment q))
                                           (align_address (base_of S n) (s_alignment q));
                          rangeEnd = min (base_of S n + size_of S n - s_size q) (s_end q)
                      in RandomizeAddress startRange rangeEnd (s_alignment q) False S
                    else done_with (ROUNDDOWN (base_of S n + size_of S n - s_size q) (s_alignment q), S))
                   (\<lambda>(alignedBase, S). done_with (True, SetBase (s_area q) alignedBase (SetSize n (alignedBase - base_of S n) S)))
               else and_then (walk (iter_Next (u_tree S) it)) (\<lambda>(m, it). reserved_loop q spec m it S))"

text \<open>The search from the label \<open>second_chance\<close> on, for the specifications that leave the base open.\<close>

partial_function (option) search_spot :: "search \<Rightarrow> address_spec \<Rightarrow> addr \<Rightarrow> uspace \<Rightarrow> (bool \<times> uspace) run" where
  "search_spot q spec start S =
     and_then (ua_FindClosest S (start + s_size q) False) (\<lambda>next.
     and_then (case next of Some n \<Rightarrow> ua_Previous S n | None \<Rightarrow> ua_FindClosest S (start + s_size q) True) (\<lambda>prev.
     and_then (case next of Some n \<Rightarrow> done_with (Some n) | None \<Rightarrow> walk (LeftMost (u_tree S) (t_root (u_tree S)))) (\<lambda>from.
     and_then (walk (GetIterator_node (u_tree S) from)) (\<lambda>it.
     and_then
       (case prev of Some l \<Rightarrow> hole_loop q spec start prev next it S
        | None \<Rightarrow>
            let alignedBase = align_address start (s_alignment q);
                nextBase = (case next of None \<Rightarrow> s_end q | Some n \<Rightarrow> min (base_of S n - 1) (s_end q))
            in if is_valid_spot start alignedBase (s_size q) nextBase
               then and_then (take_spot q spec alignedBase (min (nextBase - s_size q + 1) (s_end q)) S) (\<lambda>S. done_with (True, prev, next, S))
               else and_then (walk (iter_Next (u_tree S) it)) (\<lambda>(m, it). hole_loop q spec start next m it S))
       (\<lambda>(found, prev, next, S).
          if found then done_with (True, S)
          else
            deref prev (\<lambda>l.
              let alignedBase = align_address_spec (base_of S l + size_of S l) (s_alignment q) spec start
              in if next = None \<and> is_valid_spot (base_of S l + (size_of S l - 1)) alignedBase (s_size q) (s_end q)
                 then and_then (take_spot q spec alignedBase (s_end q - s_size q + 1) S) (\<lambda>S. done_with (True, S))
                 else if is_base_address_spec spec
                 then
                   if \<not> IsRandomized S spec then search_spot q B_ANY_ADDRESS USER_BASE_ANY S
                   else if start = s_originalStart q then search_spot q B_RANDOMIZED_ANY_ADDRESS USER_BASE_ANY S
                   else search_spot q B_RANDOMIZED_BASE_ADDRESS (s_originalStart q) S
                 else if s_useHint q \<and> s_originalStart q \<noteq> 0 \<and> start \<noteq> s_originalStart q
                 then search_spot q spec (s_originalStart q) S
                 else if \<not> reserved S (s_area q)
                 then and_then (walk (GetIterator (u_tree S))) (\<lambda>it.
                        and_then (walk (iter_Next (u_tree S) it)) (\<lambda>(n, it). reserved_loop q spec n it S))
                 else done_with (False, S)))))))"

text \<open>The case of an exact address.\<close>

definition exact_spot :: "search \<Rightarrow> addr \<Rightarrow> uspace \<Rightarrow> (bool \<times> uspace) run" where
  "exact_spot q start S =
     and_then (ua_FindClosest S (start + s_size q) False) (\<lambda>next.
     and_then (case next of Some n \<Rightarrow> ua_Previous S n | None \<Rightarrow> ua_FindClosest S (start + s_size q) True) (\<lambda>prev.
       if (case prev of None \<Rightarrow> True | Some l \<Rightarrow> base_of S l + (size_of S l - 1) < start)
          \<and> (case next of None \<Rightarrow> True | Some n \<Rightarrow> start + (s_size q - 1) < base_of S n)
       then done_with (True, SetBase (s_area q) start S) else done_with (False, S)))"

text \<open>Doubling the alignment up to the size: \<open>None\<close> where the loop does not end.\<close>

partial_function (option) grow_alignment :: "addr \<Rightarrow> addr \<Rightarrow> addr option" where
  "grow_alignment alignment sz = (if alignment < sz then grow_alignment (push_bit 1 alignment) sz else Some alignment)"

text \<open>The last part of \<open>_InsertAreaSlot\<close>, from the alignment of the start on.\<close>

definition place_area :: "addr \<Rightarrow> addr \<Rightarrow> addr \<Rightarrow> address_spec \<Rightarrow> node_ptr \<Rightarrow> uspace \<Rightarrow> addr \<Rightarrow> (status \<times> uspace) run" where
  "place_area start sz end spec x S alignment =
     (let start = align_address start alignment;
          useHint = (spec \<noteq> B_EXACT_ADDRESS \<and> \<not> is_base_address_spec spec \<and> (u_end S - u_base S + 1) div 2 < u_free S)
      in and_then
           (if u_randomizing S \<and> spec = B_RANDOMIZED_BASE_ADDRESS
            then and_then (RandomizeAddress start (end - sz + 1) alignment True S) (\<lambda>(b, S). done_with (start, b, S))
            else if useHint \<and> start \<le> u_hint S \<and> u_hint S \<le> end - sz + 1 then done_with (start, u_hint S, S)
            else done_with (0, start, S))
           (\<lambda>(originalStart, start, S).
              let q = \<lparr>s_size = sz, s_end = end, s_alignment = alignment, s_area = x, s_useHint = useHint, s_originalStart = originalStart\<rparr>
              in if spec \<in> {B_ANY_ADDRESS, B_ANY_KERNEL_ADDRESS, B_ANY_KERNEL_BLOCK_ADDRESS, B_RANDOMIZED_ANY_ADDRESS, B_BASE_ADDRESS,
                            B_RANDOMIZED_BASE_ADDRESS, B_EXACT_ADDRESS}
                 then
                   and_then (if spec = B_EXACT_ADDRESS then exact_spot q start S else search_spot q spec start S) (\<lambda>(found, S).
                     if \<not> found then done_with (if spec = B_EXACT_ADDRESS then B_BAD_VALUE else B_NO_MEMORY, S)
                     else
                       let S = (if useHint then S\<lparr>u_hint := base_of S x + sz\<rparr> else S)
                       in and_then (ua_Insert x (SetSize x sz S)) (\<lambda>S. done_with (B_OK, IncrementChangeCount S)))
                 else done_with (B_BAD_VALUE, S)))"

definition InsertAreaSlot :: "addr \<Rightarrow> addr \<Rightarrow> addr \<Rightarrow> address_spec \<Rightarrow> addr \<Rightarrow> node_ptr \<Rightarrow> node_ptr option \<Rightarrow> uspace \<Rightarrow> (status \<times> uspace) run" where
  "InsertAreaSlot start sz end spec alignment x alloc S =
     (if start < u_base S \<or> sz = 0 \<or> u_end S < end \<or> end < start + (sz - 1) then done_with (B_BAD_ADDRESS, S)
      else
        and_then (if spec = B_EXACT_ADDRESS \<and> \<not> reserved S x then InsertAreaIntoReservedRegion start sz x alloc S
                  else done_with (B_ENTRY_NOT_FOUND, S)) (\<lambda>(status, S).
        if status = B_OK \<or> status = B_BAD_VALUE then done_with (status, S)
        else
          let alignment = (if alignment = 0 then B_PAGE_SIZE else alignment)
          in and_then (walk (if spec = B_ANY_KERNEL_BLOCK_ADDRESS then grow_alignment alignment sz else Some alignment))
               (place_area start sz end spec x S)))"

definition InsertArea :: "node_ptr \<Rightarrow> addr \<Rightarrow> restrictions \<Rightarrow> node_ptr option \<Rightarrow> uspace \<Rightarrow> (status \<times> uspace) run" where
  "InsertArea x sz r alloc S =
     (let range =
        (case r_spec r of
           B_EXACT_ADDRESS \<Rightarrow> Some (r_address r, r_address r + (sz - 1))
         | B_BASE_ADDRESS \<Rightarrow> Some (max (u_base S) (r_address r), u_end S)
         | B_RANDOMIZED_BASE_ADDRESS \<Rightarrow> Some (max (u_base S) (r_address r), u_end S)
         | B_ANY_ADDRESS \<Rightarrow> Some (max (u_base S) USER_BASE_ANY, u_end S)
         | B_ANY_KERNEL_ADDRESS \<Rightarrow> Some (max (u_base S) USER_BASE_ANY, u_end S)
         | B_ANY_KERNEL_BLOCK_ADDRESS \<Rightarrow> Some (max (u_base S) USER_BASE_ANY, u_end S)
         | B_RANDOMIZED_ANY_ADDRESS \<Rightarrow> Some (max (u_base S) USER_BASE_ANY, u_end S)
         | _ \<Rightarrow> None)
      in case range of None \<Rightarrow> done_with (B_BAD_VALUE, S)
         | Some (searchBase, searchEnd) \<Rightarrow>
             and_then (InsertAreaSlot searchBase sz searchEnd (r_spec r) (r_alignment r) x alloc S) (\<lambda>(status, S).
               done_with (status, if status = B_OK then S\<lparr>u_free := u_free S - size_of S x\<rparr> else S)))"

subsection \<open>Reserved ranges\<close>

text \<open>\<open>alloc1\<close> is the new reserved area, \<open>alloc2\<close> the one that \<open>InsertArea\<close> may need.\<close>

definition ReserveAddressRange :: "addr \<Rightarrow> restrictions \<Rightarrow> uint32 \<Rightarrow> node_ptr option \<Rightarrow> node_ptr option \<Rightarrow> uspace \<Rightarrow> (status \<times> uspace) run" where
  "ReserveAddressRange sz r flags alloc1 alloc2 S =
     (if u_deleting S then done_with (B_BAD_TEAM_ID, S)
      else
        case CreateReserved alloc1 flags S of
          (None, S) \<Rightarrow> done_with (B_NO_MEMORY, S)
        | (Some x, S) \<Rightarrow>
            and_then (InsertArea x sz r alloc2 S) (\<lambda>(status, S).
              if status \<noteq> B_OK then done_with (status, S)
              else done_with (B_OK, ua_Get (upd_area x (\<lambda>a. a\<lparr>a_cache_offset := base_of S x\<rparr>) S))))"

partial_function (option) unreserve_loop :: "addr option \<Rightarrow> avl_iterator \<Rightarrow> uspace \<Rightarrow> uspace run" where
  "unreserve_loop endAddress it S =
     and_then (walk (iter_Next (u_tree S) it)) (\<lambda>(p, it).
       case p of None \<Rightarrow> done_with S
       | Some x \<Rightarrow>
           if (case endAddress of None \<Rightarrow> False | Some e \<Rightarrow> e < base_of S x + size_of S x - 1) then done_with S
           else if reserved S x then and_then (RemoveArea x S) (\<lambda>S. unreserve_loop endAddress it (ua_Put S))
           else unreserve_loop endAddress it S)"

definition UnreserveAddressRange :: "addr \<Rightarrow> addr \<Rightarrow> uspace \<Rightarrow> (status \<times> uspace) run" where
  "UnreserveAddressRange address sz S =
     (if u_deleting S then done_with (B_BAD_TEAM_ID, S)
      else
        and_then (ua_FindClosest S address False) (\<lambda>p.
          case p of None \<Rightarrow> done_with (B_OK, S)
          | Some a \<Rightarrow>
              and_then (walk (GetIterator_node (u_tree S) (Some a))) (\<lambda>it.
              and_then (unreserve_loop (Some (address + sz - 1)) it S) (\<lambda>S. done_with (B_OK, S)))))"

definition UnreserveAllAddressRanges :: "uspace \<Rightarrow> uspace run" where
  "UnreserveAllAddressRanges S = and_then (walk (GetIterator (u_tree S))) (\<lambda>it. unreserve_loop None it S)"

end
