(* ===== verification/Vm_UserAreaInsert.thy ===== *)
theory Vm_UserAreaInsert
  imports Vm_UserAddressSpace
begin

text \<open>
  Insertion into a user address space. The invariant says that the areas lie in the address space, in the order of the
  tree and apart from each other. The loops of the search are followed from hole to hole; a spot that is found is free,
  aligned and inside the range, and inserting an area there keeps the invariant.
\<close>

subsection \<open>The invariant\<close>

text \<open>The areas lie in the address space, in the order of the tree and apart from each other.\<close>

definition space_ok :: "uspace \<Rightarrow> node_ptr list \<Rightarrow> bool" where
  "space_ok S xs \<longleftrightarrow> 0 < uint (u_base S) \<and> uint (u_end S) < 2 ^ 63
     \<and> (\<forall>x \<in> set xs. uint (u_base S) \<le> uint (base_of S x) \<and> 0 < uint (size_of S x)
          \<and> uint (base_of S x) + uint (size_of S x) \<le> uint (u_end S) + 1)
     \<and> sorted_wrt (\<lambda>x y. uint (base_of S x) + uint (size_of S x) \<le> uint (base_of S y)) xs"

definition ua_inv :: "uspace \<Rightarrow> atree \<Rightarrow> bool" where
  "ua_inv S t \<longleftrightarrow> avl_rep (u_tree S) t \<and> space_ok S (inord t)"

lemma space_okD:
  assumes "space_ok S xs" "x \<in> set xs"
  shows "uint (u_base S) \<le> uint (base_of S x)" "0 < uint (size_of S x)"
    "uint (base_of S x) + uint (size_of S x) \<le> uint (u_end S) + 1" "uint (base_of S x) + uint (size_of S x) \<le> 2 ^ 63"
  using assms by (auto simp: space_ok_def)

lemma space_ok_sorted:
  assumes "space_ok S xs"
  shows "sorted_wrt (<) (map (\<lambda>n. a_base (u_area S n)) xs)"
proof -
  have "sorted_wrt (\<lambda>x y. uint (base_of S x) + uint (size_of S x) \<le> uint (base_of S y)) xs" "\<forall>x \<in> set xs. 0 < uint (size_of S x)"
    using assms by (auto simp: space_ok_def)
  then have "sorted_wrt (\<lambda>x y. base_of S x < base_of S y) xs"
    by (induction xs) (auto simp: word_less_def)
  then show ?thesis by (simp add: sorted_wrt_map base_of_def)
qed

lemma space_ok_split:
  assumes "space_ok S (xs @ ys)" "x \<in> set xs" "y \<in> set ys"
  shows "uint (base_of S x) + uint (size_of S x) \<le> uint (base_of S y)"
  using assms by (auto simp: space_ok_def sorted_wrt_append)

lemma last_word: "0 < uint s \<Longrightarrow> uint (b :: addr) + uint s \<le> 2 ^ 63 \<Longrightarrow> uint (b + (s - 1)) = uint b + uint s - 1"
  for s :: addr
proof -
  assume a: "0 < uint s" "uint b + uint s \<le> 2 ^ 63"
  then have "uint (s - 1) = uint s - 1" by (simp add: uint_sub_if')
  then show "uint (b + (s - 1)) = uint b + uint s - 1" using a by (simp add: uint_plus_if')
qed

lemma end_word: "uint (b :: addr) + uint (s :: addr) \<le> 2 ^ 63 \<Longrightarrow> uint (b + s) = uint b + uint s"
  by (simp add: uint_plus_if')

lemma ContainsAddress_iff:
  assumes "space_ok S xs" "x \<in> set xs"
  shows "ContainsAddress (u_area S x) a \<longleftrightarrow> uint (base_of S x) \<le> uint a \<and> uint a < uint (base_of S x) + uint (size_of S x)"
  using last_word [of "size_of S x" "base_of S x"] space_okD [OF assms]
  by (auto simp: ContainsAddress_def word_le_def base_of_def size_of_def)

subsection \<open>The tree operations on a well-formed space\<close>

lemma new_space_inv:
  assumes "0 < uint base" "0 < uint sz" "uint base + uint sz \<le> 2 ^ 63"
  shows "ua_inv (VMUserAddressSpace base sz nodes areas random) Lf"
  using assms last_word [of sz base] by (simp add: ua_inv_def space_ok_def VMUserAddressSpace_def avl_rep_def AVLTreeBase_def)

lemma ua_laws:
  assumes "ua_inv S t"
  shows "ua_FindClosest S a lower = done_with (if lower then last_of (filter (\<lambda>x. base_of S x \<le> a) (inord t))
      else first_of (filter (\<lambda>x. a \<le> base_of S x) (inord t)))"
    and "inord t = xs @ x # ys \<Longrightarrow> ua_Next S x = done_with (first_of ys)"
    and "inord t = xs @ x # ys \<Longrightarrow> ua_Previous S x = done_with (last_of xs)"
  using assms user.FindClosest_at [of "u_tree S" t "u_area S" a lower] space_ok_sorted [of S "inord t"] neighbours_at [of "u_tree S" t xs x ys]
  by (auto simp: ua_inv_def ua_FindClosest_def ua_Next_def ua_Previous_def base_of_def)

lemma skip_reserved_up:
  assumes "ua_inv S t" "inord t = xs @ ys"
  shows "skip_reserved S False (first_of ys) = done_with (find (\<lambda>x. \<not> reserved S x) ys)"
  using assms(2)
proof (induction ys arbitrary: xs)
  case Nil
  then show ?case by (subst skip_reserved.simps) simp
next
  case (Cons y ys)
  then show ?case using ua_laws(2) [OF assms(1), of xs y ys] Cons.IH [of "xs @ [y]"] by (subst skip_reserved.simps) simp
qed

lemma skip_reserved_down:
  assumes "ua_inv S t" "inord t = xs @ ys"
  shows "skip_reserved S True (last_of xs) = done_with (find (\<lambda>x. \<not> reserved S x) (rev xs))"
  using assms(2)
proof (induction xs arbitrary: ys rule: rev_induct)
  case Nil
  then show ?case by (subst skip_reserved.simps) simp
next
  case (snoc x xs)
  then show ?case using ua_laws(3) [OF assms(1), of xs x ys] snoc.IH [of "x # ys"] by (subst skip_reserved.simps) simp
qed

lemma filter_prefix:
  assumes "sorted_wrt (\<lambda>x y. P y \<longrightarrow> P x) xs"
  shows "\<exists>us vs. xs = us @ vs \<and> filter P xs = us \<and> filter (\<lambda>x. \<not> P x) xs = vs"
  using assms
proof (induction xs)
  case (Cons x xs)
  then obtain us vs where u: "xs = us @ vs" "filter P xs = us" "filter (\<lambda>x. \<not> P x) xs = vs" by auto
  show ?case
  proof (cases "P x")
    case True
    then show ?thesis using u by (intro exI [of _ "x # us"] exI [of _ vs]) simp
  next
    case False
    then have "\<forall>y \<in> set xs. \<not> P y" using Cons.prems by auto
    then have "us = []" using u(2) by (auto simp: filter_empty_conv)
    then show ?thesis using u False by (intro exI [of _ "[]"] exI [of _ "x # vs"]) simp
  qed
qed simp

lemma base_prefix:
  assumes "space_ok S xs"
  obtains us vs where "xs = us @ vs" "filter (\<lambda>x. base_of S x \<le> a) xs = us" "filter (\<lambda>x. \<not> base_of S x \<le> a) xs = vs"
proof -
  have "sorted_wrt (\<lambda>x y. base_of S y \<le> a \<longrightarrow> base_of S x \<le> a) xs"
    using space_ok_sorted [OF assms] unfolding sorted_wrt_map base_of_def by (rule sorted_wrt_mono_rel [rotated]) auto
  then show thesis using filter_prefix [of "\<lambda>x. base_of S x \<le> a" xs] that by blast
qed

lemma base_prefix_strict:
  assumes "space_ok S xs"
  obtains us vs where "xs = us @ vs" "filter (\<lambda>x. base_of S x < a) xs = us" "filter (\<lambda>x. a \<le> base_of S x) xs = vs"
proof -
  have "sorted_wrt (\<lambda>x y. base_of S y < a \<longrightarrow> base_of S x < a) xs"
    using space_ok_sorted [OF assms] unfolding sorted_wrt_map base_of_def by (rule sorted_wrt_mono_rel [rotated]) auto
  then show thesis using filter_prefix [of "\<lambda>x. base_of S x < a" xs] that by (auto simp: not_less)
qed

lemma find_app: "find P (xs @ ys) = (case find P xs of None \<Rightarrow> find P ys | Some x \<Rightarrow> Some x)"
  by (induction xs) auto

lemma find_first: "find P xs = first_of (filter P xs)"
  by (induction xs) auto

lemma find_rev: "find P (rev xs) = last_of (filter P xs)"
  by (induction xs rule: rev_induct) auto

lemma LookupArea_at:
  assumes "ua_inv S t"
  shows "LookupArea S a = done_with (find (\<lambda>x. \<not> reserved S x \<and> ContainsAddress (u_area S x) a) (inord t))"
proof -
  have ok: "space_ok S (inord t)" using assms by (simp add: ua_inv_def)
  obtain us vs where u: "inord t = us @ vs" "filter (\<lambda>x. base_of S x \<le> a) (inord t) = us" "filter (\<lambda>x. \<not> base_of S x \<le> a) (inord t) = vs"
    by (rule base_prefix [OF ok])
  note con = ContainsAddress_iff [OF ok]
  have v: "\<not> ContainsAddress (u_area S y) a" if "y \<in> set vs" for y
    using that u(3) con [of y] by (auto simp: word_le_def)
  show ?thesis
  proof (cases us rule: rev_cases)
    case Nil
    have "find (\<lambda>x. \<not> reserved S x \<and> ContainsAddress (u_area S x) a) (inord t) = None" using v by (auto simp: find_None_iff u(1) Nil)
    then show ?thesis using ua_laws(1) [OF assms, of a True] by (simp add: LookupArea_def u(2) Nil)
  next
    case (snoc ws x)
    have "x \<in> set (filter (\<lambda>x. base_of S x \<le> a) (inord t))" unfolding u(2) snoc by simp
    then have "base_of S x \<le> a" by simp
    then have w: "\<not> ContainsAddress (u_area S y) a" if "y \<in> set ws" for y
      using that space_ok_split [of S "ws" "x # vs" y x] ok con [of y] u(1) snoc by (auto simp: word_le_def)
    have "find (\<lambda>x. \<not> reserved S x \<and> ContainsAddress (u_area S x) a) ws = None" "find (\<lambda>x. \<not> reserved S x \<and> ContainsAddress (u_area S x) a) vs = None"
      using v w by (auto simp: find_None_iff)
    then have "find (\<lambda>x. \<not> reserved S x \<and> ContainsAddress (u_area S x) a) (inord t)
        = (if \<not> reserved S x \<and> ContainsAddress (u_area S x) a then Some x else None)" by (simp add: u(1) snoc find_app)
    then show ?thesis using ua_laws(1) [OF assms, of a True] by (auto simp: LookupArea_def u(2) snoc)
  qed
qed

lemma FindClosestArea_at:
  assumes "ua_inv S t"
  shows "FindClosestArea S a lower = done_with (if lower then last_of (filter (\<lambda>x. \<not> reserved S x \<and> base_of S x \<le> a) (inord t))
      else first_of (filter (\<lambda>x. \<not> reserved S x \<and> a \<le> base_of S x) (inord t)))"
proof -
  have ok: "space_ok S (inord t)" using assms by (simp add: ua_inv_def)
  show ?thesis
  proof (cases lower)
    case True
    obtain us vs where u: "inord t = us @ vs" "filter (\<lambda>x. base_of S x \<le> a) (inord t) = us" "filter (\<lambda>x. \<not> base_of S x \<le> a) (inord t) = vs"
      by (rule base_prefix [OF ok])
    have "FindClosestArea S a True = done_with (last_of (filter (\<lambda>x. \<not> reserved S x) us))"
      using ua_laws(1) [OF assms, of a True] skip_reserved_down [OF assms u(1)] by (simp add: FindClosestArea_def u(2) find_rev)
    also have "filter (\<lambda>x. \<not> reserved S x) us = filter (\<lambda>x. \<not> reserved S x \<and> base_of S x \<le> a) (inord t)" by (simp add: conj_commute flip: u(2))
    finally show ?thesis using True by simp
  next
    case False
    obtain us vs where u: "inord t = us @ vs" "filter (\<lambda>x. base_of S x < a) (inord t) = us" "filter (\<lambda>x. a \<le> base_of S x) (inord t) = vs"
      by (rule base_prefix_strict [OF ok])
    have "FindClosestArea S a False = done_with (first_of (filter (\<lambda>x. \<not> reserved S x) vs))"
      using ua_laws(1) [OF assms, of a False] skip_reserved_up [OF assms u(1)] by (simp add: FindClosestArea_def u(3) find_first)
    also have "filter (\<lambda>x. \<not> reserved S x) vs = filter (\<lambda>x. \<not> reserved S x \<and> a \<le> base_of S x) (inord t)" by (simp add: conj_commute flip: u(3))
    finally show ?thesis using False by simp
  qed
qed

subsection \<open>Alignment and random addresses\<close>

lemma valid_spot:
  assumes "is_valid_spot lo ab sz lim" "sz \<noteq> 0"
  shows "uint lo \<le> uint ab" "uint ab + uint sz \<le> uint lim + 1" "1 < uint sz"
proof -
  have s: "0 < uint sz" using assms(2) by (simp add: uint_0_iff order_less_le)
  then have s1: "uint (sz - 1) = uint sz - 1" by (simp add: uint_sub_if')
  have v: "uint lo \<le> uint ab" "uint ab < uint (ab + (sz - 1))" "uint (ab + (sz - 1)) \<le> uint lim"
    using assms(1) by (simp_all add: is_valid_spot_def word_le_def word_less_def)
  have "uint (ab + (sz - 1)) = uint ab + (uint sz - 1)"
    using v(2) s uint_lt2p [of sz] uint_lt2p [of ab] unfolding uint_plus_if' s1 by (auto split: if_splits)
  then show "uint lo \<le> uint ab" "uint ab + uint sz \<le> uint lim + 1" "1 < uint sz" using v by auto
qed

lemma ROUNDDOWN_uint: "uint (ROUNDDOWN a b) = (uint a div uint b) * uint b"
proof -
  have "(uint a div uint b) * uint b \<le> uint a" using mod_int_pos_iff [of "uint a" "uint b"]
    by (metis add.commute div_mult_mod_eq le_add_same_cancel2 uint_ge_0 uint_mod)
  moreover have "0 \<le> (uint a div uint b) * uint b" by (simp add: pos_imp_zdiv_nonneg_iff div_int_pos_iff)
  ultimately have "(uint a div uint b) * uint b mod 2 ^ 64 = (uint a div uint b) * uint b"
    using uint_lt2p [of a] by (intro mod_pos_pos_trivial) auto
  then show ?thesis by (simp add: ROUNDDOWN_def uint_word_ariths uint_div)
qed

lemma ROUNDDOWN_le: "uint (ROUNDDOWN a b) \<le> uint a"
  unfolding ROUNDDOWN_uint by (metis add.commute div_mult_mod_eq le_add_same_cancel2 uint_ge_0 uint_mod)

lemma ROUNDUP_cases:
  assumes "0 < uint b"
  shows "uint a \<le> uint (ROUNDUP a b) \<or> ROUNDUP a b = 0"
proof -
  have b1: "uint (b - 1) = uint b - 1" using assms by (simp add: uint_sub_if')
  show ?thesis
  proof (cases "uint a + uint b - 1 < 2 ^ 64")
  case True
  have "uint (a + b - 1) = uint a + uint b - 1"
    using assms True b1 uint_plus_if' [of a "b - 1"] by (simp add: algebra_simps)
  then have "uint (ROUNDUP a b) = (uint a + uint b - 1) div uint b * uint b" by (simp add: ROUNDUP_def ROUNDDOWN_uint)
  moreover have "uint a + uint b - 1 - (uint a + uint b - 1) div uint b * uint b < uint b"
    using pos_mod_bound [OF assms, of "uint a + uint b - 1"] by (simp add: minus_div_mult_eq_mod)
  ultimately show ?thesis by linarith
next
  case False
  have "uint (a + b - 1) = uint a + uint b - 1 - 2 ^ 64"
    using assms False b1 uint_plus_if' [of a "b - 1"] by (simp add: algebra_simps)
  moreover have "uint a + uint b - 1 - 2 ^ 64 < uint b" using uint_lt2p [of a] by simp
  ultimately have "uint (ROUNDUP a b) = 0" using False by (simp add: ROUNDUP_def ROUNDDOWN_uint)
  then show ?thesis by (simp add: uint_0_iff)
qed
qed

lemma uint_pow2: "k < 64 \<Longrightarrow> uint (2 ^ k :: addr) = 2 ^ k"
  by (rule uint_2p) (simp add: word_gt_0)

definition aligned :: "addr \<Rightarrow> addr \<Rightarrow> bool" where
  "aligned al a \<longleftrightarrow> a AND (al - 1) = 0"

lemma aligned_iff: "aligned (2 ^ k) a \<longleftrightarrow> 2 ^ k dvd uint a"
  unfolding and_mask_dvd by (simp add: aligned_def mask_eq_exp_minus_1)

lemma ROUND_aligned: "k < 64 \<Longrightarrow> aligned (2 ^ k) (ROUNDDOWN a (2 ^ k))" "k < 64 \<Longrightarrow> aligned (2 ^ k) (ROUNDUP a (2 ^ k))"
  by (simp_all add: aligned_iff ROUNDUP_def ROUNDDOWN_uint uint_pow2)

text \<open>Everything but the random numbers is the same.\<close>

definition same_space :: "uspace \<Rightarrow> uspace \<Rightarrow> bool" where
  "same_space S S' \<longleftrightarrow> S' = S\<lparr>u_random := u_random S'\<rparr>"

lemma RandomizeAddress_at:
  assumes "k < 64" "aligned (2 ^ k) start" "0 < uint start" "uint start \<le> uint end"
  shows "\<exists>b S'. RandomizeAddress start end (2 ^ k) initial S = done_with (b, S') \<and> same_space S S' \<and> aligned (2 ^ k) b
    \<and> uint start \<le> uint b \<and> uint b \<le> uint end"
proof (cases "start = end")
  case True
  then show ?thesis using assms by (simp add: RandomizeAddress_def aligned_def same_space_def)
next
  case False
  define range where "range = min (end - start + 1) (if initial then kMaxInitialRandomize else kMaxRandomize)"
  define r where "r = u_random S 0 mod range AND NOT (2 ^ k - 1)"
  have e: "uint (end - start) = uint end - uint start" using assms(4) by (simp add: uint_sub_if')
  then have e1: "uint (end - start + 1) = uint end - uint start + 1" using assms(3,4) uint_lt2p [of "end"] by (simp add: uint_plus_if')
  have pos: "0 < range" using assms(4) e1 by (auto simp: range_def min_def word_less_def kMaxInitialRandomize_def kMaxRandomize_def)
  have "r \<le> u_random S 0 mod range" unfolding r_def by (rule word_and_le2)
  also have "\<dots> < range" using pos by (rule word_mod_less_divisor)
  also have "range \<le> end - start + 1" by (simp add: range_def)
  finally have r: "uint r \<le> uint end - uint start" using e1 by (simp add: word_less_def)
  then have b: "uint (start + r) = uint start + uint r" using uint_lt2p [of "end"] by (simp add: uint_plus_if')
  have "take_bit k r = 0" unfolding r_def by (simp add: take_bit_eq_mask mask_eq_exp_minus_1 [symmetric] and.assoc)
  then have "aligned (2 ^ k) r" by (simp add: aligned_def take_bit_eq_mask mask_eq_exp_minus_1)
  then have "aligned (2 ^ k) (start + r)" using assms(2) b by (simp add: aligned_iff)
  moreover have "RandomizeAddress start end (2 ^ k) initial S = done_with (start + r, snd (draw S))"
    using False assms(2,4) unfolding RandomizeAddress_def
    by (simp add: Let_def draw_def r_def range_def aligned_def word_less_def split: prod.splits)
  ultimately show ?thesis using b r by (auto simp: same_space_def draw_def)
qed

subsection \<open>Free spots\<close>

definition free_spot :: "uspace \<Rightarrow> node_ptr list \<Rightarrow> addr \<Rightarrow> addr \<Rightarrow> bool" where
  "free_spot S xs b sz \<longleftrightarrow> uint (u_base S) \<le> uint b \<and> uint b + uint sz \<le> uint (u_end S) + 1
     \<and> (\<forall>y \<in> set xs. uint (base_of S y) + uint (size_of S y) \<le> uint b \<or> uint b + uint sz \<le> uint (base_of S y))"

lemma free_between:
  assumes ok: "space_ok S (us @ vs)" and lo: "us \<noteq> [] \<Longrightarrow> uint (base_of S (last us)) + uint (size_of S (last us)) \<le> uint b"
    and hi: "vs \<noteq> [] \<Longrightarrow> uint b + uint sz \<le> uint (base_of S (hd vs))"
    and range: "uint (u_base S) \<le> uint b" "uint b + uint sz \<le> uint (u_end S) + 1"
  shows "free_spot S (us @ vs) b sz"
proof -
  have s: "sorted_wrt (\<lambda>x y. uint (base_of S x) + uint (size_of S x) \<le> uint (base_of S y)) (us @ vs)" using ok by (simp add: space_ok_def)
  have "uint (base_of S y) + uint (size_of S y) \<le> uint b" if "y \<in> set us" for y
  proof (cases us rule: rev_cases)
    case (snoc ws x)
    have "uint (base_of S x) + uint (size_of S x) \<le> uint b" using lo snoc by simp
    moreover have "y = x \<or> uint (base_of S y) + uint (size_of S y) \<le> uint (base_of S x)"
      using that s snoc by (auto simp: sorted_wrt_append)
    ultimately show ?thesis using uint_ge_0 [of "size_of S x"] by (smt (verit))
  qed (use that in simp)
  moreover have "uint b + uint sz \<le> uint (base_of S y)" if "y \<in> set vs" for y
  proof (cases vs)
    case (Cons x ws)
    have "uint b + uint sz \<le> uint (base_of S x)" using hi Cons by simp
    moreover have "y = x \<or> uint (base_of S x) + uint (size_of S x) \<le> uint (base_of S y)"
      using that s Cons by (auto simp: sorted_wrt_append)
    ultimately show ?thesis using uint_ge_0 [of "size_of S x"] by (smt (verit))
  qed (use that in simp)
  ultimately show ?thesis using range by (auto simp: free_spot_def)
qed

definition placed :: "node_ptr \<Rightarrow> addr \<Rightarrow> uspace \<Rightarrow> uspace \<Rightarrow> bool" where
  "placed x b S S' \<longleftrightarrow> (\<exists>S1. same_space S S1 \<and> S' = SetBase x b S1)"

lemma placed_here: "placed x b S (SetBase x b S)"
  by (auto simp: placed_def same_space_def intro: exI [of _ S])

lemma take_spot_at:
  assumes k: "k < 64" "s_alignment q = 2 ^ k" "aligned (2 ^ k) ab" and ab: "0 < uint ab" "uint ab + uint (s_size q) \<le> uint lim + 1"
    and re: "re = lim - s_size q + 1 \<or> re = min (lim - s_size q + 1) (s_end q) \<and> lim \<le> s_end q" and sz: "0 < uint (s_size q)"
  shows "\<exists>b S'. take_spot q spec ab re S = done_with S' \<and> placed (s_area q) b S S' \<and> aligned (2 ^ k) b
    \<and> uint ab \<le> uint b \<and> uint b + uint (s_size q) \<le> uint lim + 1"
proof -
  have "uint (lim - s_size q) = uint lim - uint (s_size q)" using ab by (simp add: uint_sub_if')
  then have l: "uint (lim - s_size q + 1) = uint lim - uint (s_size q) + 1" using sz uint_lt2p [of lim] by (simp add: uint_plus_if')
  have r: "uint re = uint lim - uint (s_size q) + 1" using re
  proof
    assume a: "re = min (lim - s_size q + 1) (s_end q) \<and> lim \<le> s_end q"
    then have "lim - s_size q + 1 \<le> s_end q" using l sz by (simp add: word_le_def)
    then show ?thesis using a l by (simp add: min_def)
  qed (simp add: l)
  show ?thesis
  proof (cases "IsRandomized S spec")
    case True
    obtain b S' where "RandomizeAddress ab re (2 ^ k) False S = done_with (b, S')" "same_space S S'" "aligned (2 ^ k) b"
      "uint ab \<le> uint b" "uint b \<le> uint re"
      using RandomizeAddress_at [OF k(1,3) ab(1), of re False S] ab(2) r by auto
    then show ?thesis using True r k(2) by (auto simp: take_spot_def placed_def)
  next
    case False
    then have "take_spot q spec ab re S = done_with (SetBase (s_area q) ab S)" by (simp add: take_spot_def)
    then show ?thesis using placed_here k(3) ab(2) by blast
  qed
qed

text \<open>The aligned address behind an area, and the first aligned one.\<close>

lemma align_behind:
  assumes ok: "space_ok S xs" "l \<in> set xs" and k: "k < 64" and sz: "sz \<noteq> 0"
    and ab: "ab = align_address_spec (base_of S l + size_of S l) (2 ^ k) spec start"
    and v: "is_valid_spot (base_of S l + (size_of S l - 1)) ab sz lim"
  shows "aligned (2 ^ k) ab" "uint (base_of S l) + uint (size_of S l) \<le> uint ab" "0 < uint ab" "uint ab + uint sz \<le> uint lim + 1"
    "uint (u_base S) \<le> uint ab"
proof -
  note o = space_okD [OF ok]
  have b: "0 < uint (u_base S)" using ok(1) by (simp add: space_ok_def)
  have e: "uint (base_of S l + size_of S l) = uint (base_of S l) + uint (size_of S l)" using o(4) by (rule end_word)
  define w where "w = (if is_base_address_spec spec then max (base_of S l + size_of S l) start else base_of S l + size_of S l)"
  have w: "uint (base_of S l) + uint (size_of S l) \<le> uint w" using e by (auto simp: w_def max_def word_le_def)
  have abw: "ab = ROUNDUP w (2 ^ k)" by (simp add: ab align_address_spec_def align_address_def w_def)
  show "aligned (2 ^ k) ab" using ROUND_aligned(2) [OF k] abw by simp
  have lo: "uint (base_of S l) + uint (size_of S l) - 1 \<le> uint ab" using valid_spot(1) [OF v sz] last_word [OF o(2,4)] by simp
  then show "0 < uint ab" using b o by linarith
  then have "ab \<noteq> 0" by auto
  then show "uint (base_of S l) + uint (size_of S l) \<le> uint ab"
    using ROUNDUP_cases [of "2 ^ k" w] w by (auto simp: abw uint_pow2 k)
  then show "uint (u_base S) \<le> uint ab" using o by linarith
  show "uint ab + uint sz \<le> uint lim + 1" by (rule valid_spot(2) [OF v sz])
qed

subsection \<open>The loop over the holes\<close>

definition at_gap :: "atree \<Rightarrow> node_ptr option \<Rightarrow> node_ptr option \<Rightarrow> bool" where
  "at_gap t p n \<longleftrightarrow> (\<exists>xs l ys. inord t = xs @ l # ys \<and> p = Some l \<and> n = first_of ys)"

lemma at_gapI: "inord t = xs @ l # ys \<Longrightarrow> at_gap t (Some l) (first_of ys)"
  unfolding at_gap_def by blast

lemma hole_loop_at:
  assumes inv: "ua_inv S t" and k: "k < 64" "s_alignment q = 2 ^ k" and sz: "s_size q \<noteq> 0" and e: "s_end q \<le> u_end S"
    and l: "inord t = xs @ l # ys" and it: "ys \<noteq> [] \<Longrightarrow> iter_at t it (tl ys)"
  shows "\<exists>found p n S'. hole_loop q spec start (Some l) (first_of ys) it S = done_with (found, p, n, S')
    \<and> (if found then \<exists>b. placed (s_area q) b S S' \<and> aligned (2 ^ k) b \<and> free_spot S (inord t) b (s_size q)
         \<and> uint b + uint (s_size q) \<le> uint (s_end q) + 1
       else S' = S \<and> at_gap t p n)"
  using l it
proof (induction ys arbitrary: xs l it)
  case Nil
  have "hole_loop q spec start (Some l) (first_of []) it S = done_with (False, Some l, first_of [], S)" by (subst hole_loop.simps) simp
  then show ?case using at_gapI [OF Nil.prems(1)] by metis
next
  case (Cons n ys)
  have rep: "avl_rep (u_tree S) t" and ok: "space_ok S (inord t)" using inv by (auto simp: ua_inv_def)
  show ?case
  proof (cases "base_of S n + size_of S n - 1 \<le> s_end q")
    case False
    then have "hole_loop q spec start (Some l) (first_of (n # ys)) it S = done_with (False, Some l, first_of (n # ys), S)"
      by (subst hole_loop.simps) simp
    then show ?thesis using at_gapI [OF Cons.prems(1)] by metis
  next
    case True
    define ab where "ab = align_address_spec (base_of S l + size_of S l) (2 ^ k) spec start"
    define lim where "lim = min (s_end q) (base_of S n - 1)"
    have nl: "n \<in> set (inord t)" "l \<in> set (inord t)" using Cons.prems(1) by auto
    have bn: "0 < uint (base_of S n)" using ok space_okD(1) [OF ok nl(1)] by (auto simp: space_ok_def)
    then have lim: "lim \<le> s_end q" "uint lim \<le> uint (base_of S n) - 1" by (auto simp: lim_def min_def word_le_def uint_sub_if')
    show ?thesis
    proof (cases "is_valid_spot (base_of S l + (size_of S l - 1)) ab (s_size q) lim")
      case V: True
      note a = align_behind [OF ok nl(2) k(1) sz ab_def V]
      have "0 < uint (s_size q)" using sz by (simp add: uint_0_iff order_less_le)
      then obtain b S' where b: "take_spot q spec ab (min (lim - s_size q + 1) (s_end q)) S = done_with S'" "placed (s_area q) b S S'"
        "aligned (2 ^ k) b" "uint ab \<le> uint b" "uint b + uint (s_size q) \<le> uint lim + 1"
        using take_spot_at [OF k a(1,3,4)] lim(1) by blast
      have be: "uint b + uint (s_size q) \<le> uint (s_end q) + 1" using b(5) lim(1) by (simp add: word_le_def)
      have "free_spot S ((xs @ [l]) @ n # ys) b (s_size q)"
      proof (rule free_between)
        show "space_ok S ((xs @ [l]) @ n # ys)" using ok Cons.prems(1) by simp
      qed (use a b be lim e in \<open>auto simp: word_le_def\<close>)
      then have fs: "free_spot S (inord t) b (s_size q)" using Cons.prems(1) by simp
      have "hole_loop q spec start (Some l) (first_of (n # ys)) it S = done_with (True, Some l, Some n, S')"
        using True V b(1) by (subst hole_loop.simps) (simp add: ab_def lim_def k(2) Let_def)
      then show ?thesis using b fs be by metis
    next
      case V: False
      obtain it' where it': "iter_Next (u_tree S) it = Some (first_of ys, it')" "iter_at t it' (tl ys)"
        using iter_Next_at [OF rep, of it ys] Cons.prems(2) by auto
      have "hole_loop q spec start (Some l) (first_of (n # ys)) it S = hole_loop q spec start (Some n) (first_of ys) it' S"
        using True V it'(1) by (subst hole_loop.simps) (simp add: ab_def lim_def k(2) Let_def)
      then show ?thesis using Cons.IH [of "xs @ [l]" n it'] Cons.prems(1) it'(2) by simp
    qed
  qed
qed

subsection \<open>The search\<close>

definition search_ready :: "uspace \<Rightarrow> atree \<Rightarrow> search \<Rightarrow> nat \<Rightarrow> bool" where
  "search_ready S t q k \<longleftrightarrow> ua_inv S t \<and> inord t \<noteq> [] \<and> k < 64 \<and> s_alignment q = 2 ^ k \<and> s_size q \<noteq> 0 \<and> s_end q \<le> u_end S"

text \<open>What a successful search gives.\<close>

definition spot_found :: "uspace \<Rightarrow> atree \<Rightarrow> search \<Rightarrow> nat \<Rightarrow> uspace \<Rightarrow> bool" where
  "spot_found S t q k S' \<longleftrightarrow> (\<exists>b. placed (s_area q) b S S' \<and> aligned (2 ^ k) b \<and> free_spot S (inord t) b (s_size q)
     \<and> uint b + uint (s_size q) \<le> uint (s_end q) + 1)"

lemma search_neighbours:
  assumes inv: "ua_inv S t"
  obtains us vs where "inord t = us @ vs" "ua_FindClosest S a False = done_with (first_of vs)"
    "(case first_of vs of Some n \<Rightarrow> ua_Previous S n | None \<Rightarrow> ua_FindClosest S a True) = done_with (last_of us)"
    "\<forall>y \<in> set us. base_of S y < a" "\<forall>y \<in> set vs. a \<le> base_of S y"
proof -
  have ok: "space_ok S (inord t)" using inv by (simp add: ua_inv_def)
  obtain us vs where u: "inord t = us @ vs" "filter (\<lambda>x. base_of S x < a) (inord t) = us" "filter (\<lambda>x. a \<le> base_of S x) (inord t) = vs"
    by (rule base_prefix_strict [OF ok])
  have f: "ua_FindClosest S a False = done_with (first_of vs)" using ua_laws(1) [OF inv, of a False] u(3) by simp
  have lt: "\<forall>y \<in> set us. base_of S y < a" "\<forall>y \<in> set vs. a \<le> base_of S y" by (auto simp flip: u(2,3))
  have p: "(case first_of vs of Some n \<Rightarrow> ua_Previous S n | None \<Rightarrow> ua_FindClosest S a True) = done_with (last_of us)"
  proof (cases vs)
    case Nil
    have "filter (\<lambda>x. base_of S x \<le> a) us = us" using lt(1) by (intro filter_True) (auto simp: less_imp_le)
    then have "filter (\<lambda>x. base_of S x \<le> a) (inord t) = us" by (simp add: u(1) Nil)
    then show ?thesis using ua_laws(1) [OF inv, of a True] Nil by simp
  next
    case (Cons n ws)
    then show ?thesis using ua_laws(3) [OF inv, of us n ws] u(1) by simp
  qed
  show thesis using that [OF u(1) f p lt] .
qed

text \<open>The first part of the search: the hole before the first area and the loop.\<close>

definition first_pass :: "search \<Rightarrow> address_spec \<Rightarrow> addr \<Rightarrow> node_ptr option \<Rightarrow> node_ptr option \<Rightarrow> avl_iterator \<Rightarrow> uspace \<Rightarrow>
    (bool \<times> node_ptr option \<times> node_ptr option \<times> uspace) run" where
  "first_pass q spec start prev next it S =
     (case prev of Some l \<Rightarrow> hole_loop q spec start prev next it S
      | None \<Rightarrow>
          let alignedBase = align_address start (s_alignment q);
              nextBase = (case next of None \<Rightarrow> s_end q | Some n \<Rightarrow> min (base_of S n - 1) (s_end q))
          in if is_valid_spot start alignedBase (s_size q) nextBase
             then and_then (take_spot q spec alignedBase (min (nextBase - s_size q + 1) (s_end q)) S) (\<lambda>S. done_with (True, prev, next, S))
             else and_then (walk (iter_Next (u_tree S) it)) (\<lambda>(m, it). hole_loop q spec start next m it S))"

lemma first_pass_at:
  assumes r: "search_ready S t q k" and us: "inord t = us @ vs" and it: "vs \<noteq> [] \<Longrightarrow> iter_at t it (tl vs)" and st: "u_base S \<le> start"
  shows "\<exists>found p n S'. first_pass q spec start (last_of us) (first_of vs) it S = done_with (found, p, n, S')
    \<and> (if found then spot_found S t q k S' else S' = S \<and> at_gap t p n)"
proof -
  have inv: "ua_inv S t" and k: "k < 64" "s_alignment q = 2 ^ k" and sz: "s_size q \<noteq> 0" and e: "s_end q \<le> u_end S"
    using r by (auto simp: search_ready_def)
  have rep: "avl_rep (u_tree S) t" and ok: "space_ok S (inord t)" using inv by (auto simp: ua_inv_def)
  have hole: "\<exists>found p n S'. hole_loop q spec start (Some l) (first_of ys) it S = done_with (found, p, n, S')
    \<and> (if found then spot_found S t q k S' else S' = S \<and> at_gap t p n)"
    if "inord t = xs @ l # ys" "ys \<noteq> [] \<Longrightarrow> iter_at t it (tl ys)" for xs l ys it
    using hole_loop_at [OF inv k sz e that, of spec start] unfolding spot_found_def .
  show ?thesis
  proof (cases us rule: rev_cases)
    case (snoc ws l)
    then show ?thesis using hole [of ws l vs it] us it by (simp add: first_pass_def)
  next
    case Nil
    obtain n ws where vs: "vs = n # ws" using us Nil r by (cases vs) (auto simp: search_ready_def)
    define lim where "lim = min (base_of S n - 1) (s_end q)"
    have n: "n \<in> set (inord t)" using us Nil vs by simp
    have b0: "0 < uint (u_base S)" "0 < uint (base_of S n)" using ok space_okD(1) [OF ok n] by (auto simp: space_ok_def)
    have lim: "lim \<le> s_end q" "uint lim \<le> uint (base_of S n) - 1" using b0 by (auto simp: lim_def min_def word_le_def uint_sub_if')
    define ab where "ab = ROUNDUP start (2 ^ k)"
    show ?thesis
    proof (cases "is_valid_spot start ab (s_size q) lim")
      case True
      note v = valid_spot [OF True sz]
      have s0: "uint (u_base S) \<le> uint ab" using v(1) st by (simp add: word_le_def)
      obtain b S' where b: "take_spot q spec ab (min (lim - s_size q + 1) (s_end q)) S = done_with S'" "placed (s_area q) b S S'"
        "aligned (2 ^ k) b" "uint ab \<le> uint b" "uint b + uint (s_size q) \<le> uint lim + 1"
        using take_spot_at [OF k, of ab lim "min (lim - s_size q + 1) (s_end q)" spec S] ROUND_aligned(2) [OF k(1)] v b0 s0 lim(1)
        by (auto simp: ab_def)
      have be: "uint b + uint (s_size q) \<le> uint (s_end q) + 1" using b(5) lim(1) by (simp add: word_le_def)
      have "free_spot S ([] @ inord t) b (s_size q)"
        by (rule free_between) (use ok b be lim e s0 us Nil vs in \<open>auto simp: word_le_def\<close>)
      then have "spot_found S t q k S'" using b be by (auto simp: spot_found_def)
      moreover have "first_pass q spec start (last_of us) (first_of vs) it S = done_with (True, None, Some n, S')"
        using True b(1) by (simp add: first_pass_def Nil vs align_address_def k(2) ab_def lim_def Let_def)
      ultimately show ?thesis by metis
    next
      case False
      obtain it' where it': "iter_Next (u_tree S) it = Some (first_of ws, it')" "iter_at t it' (tl ws)"
        using iter_Next_at [OF rep, of it ws] it vs by auto
      have "first_pass q spec start (last_of us) (first_of vs) it S = hole_loop q spec start (Some n) (first_of ws) it' S"
        using False it'(1) by (simp add: first_pass_def Nil vs align_address_def k(2) ab_def lim_def Let_def)
      then show ?thesis using hole [of "[]" n ws it'] us Nil vs it'(2) by simp
    qed
  qed
qed

text \<open>What is tried when no hole is found.\<close>

definition fall_back :: "search \<Rightarrow> address_spec \<Rightarrow> addr \<Rightarrow> uspace \<Rightarrow> (bool \<times> uspace) run" where
  "fall_back q spec start S =
     (if is_base_address_spec spec
      then
        if \<not> IsRandomized S spec then search_spot q B_ANY_ADDRESS USER_BASE_ANY S
        else if start = s_originalStart q then search_spot q B_RANDOMIZED_ANY_ADDRESS USER_BASE_ANY S
        else search_spot q B_RANDOMIZED_BASE_ADDRESS (s_originalStart q) S
      else if s_useHint q \<and> s_originalStart q \<noteq> 0 \<and> start \<noteq> s_originalStart q
      then search_spot q spec (s_originalStart q) S
      else if \<not> reserved S (s_area q)
      then and_then (walk (GetIterator (u_tree S))) (\<lambda>it.
             and_then (walk (iter_Next (u_tree S) it)) (\<lambda>(n, it). reserved_loop q spec n it S))
      else done_with (False, S))"

lemma search_spot_pass:
  assumes r: "search_ready S t q k" and st: "u_base S \<le> start"
  shows "(\<exists>S'. search_spot q spec start S = done_with (True, S') \<and> spot_found S t q k S') \<or> search_spot q spec start S = fall_back q spec start S"
proof -
  have inv: "ua_inv S t" and k: "k < 64" "s_alignment q = 2 ^ k" and sz: "s_size q \<noteq> 0" and e: "s_end q \<le> u_end S"
    using r by (auto simp: search_ready_def)
  have rep: "avl_rep (u_tree S) t" and ok: "space_ok S (inord t)" using inv by (auto simp: ua_inv_def)
  obtain us vs where u: "inord t = us @ vs" "ua_FindClosest S (start + s_size q) False = done_with (first_of vs)"
    "(case first_of vs of Some n \<Rightarrow> ua_Previous S n | None \<Rightarrow> ua_FindClosest S (start + s_size q) True) = done_with (last_of us)"
    by (rule search_neighbours [OF inv])
  define frm where "frm = (case first_of vs of Some n \<Rightarrow> Some n | None \<Rightarrow> first_of (inord t))"
  have fr: "(case first_of vs of Some n \<Rightarrow> done_with (Some n) | None \<Rightarrow> walk (LeftMost (u_tree S) (t_root (u_tree S)))) = done_with frm"
    using ends_at(1) [OF rep] by (cases vs) (auto simp: frm_def)
  obtain it where it: "GetIterator_node (u_tree S) frm = Some it" "vs \<noteq> [] \<Longrightarrow> iter_at t it (tl vs)"
  proof (cases vs)
    case Nil
    obtain y ys where y: "inord t = [] @ y # ys" using r by (cases "inord t") (auto simp: search_ready_def)
    then show thesis using that iter_at_node [OF rep y] Nil by (auto simp: frm_def)
  next
    case (Cons n ws)
    then show thesis using that iter_at_node [OF rep, of us n ws] u(1) by (auto simp: frm_def)
  qed
  obtain found p n S' where h: "first_pass q spec start (last_of us) (first_of vs) it S = done_with (found, p, n, S')"
    "if found then spot_found S t q k S' else S' = S \<and> at_gap t p n" using first_pass_at [OF r u(1) it(2) st] by blast
  have step: "search_spot q spec start S = and_then (first_pass q spec start (last_of us) (first_of vs) it S)
     (\<lambda>(found, prev, next, S). if found then done_with (True, S)
          else
            deref prev (\<lambda>l.
              let alignedBase = align_address_spec (base_of S l + size_of S l) (s_alignment q) spec start
              in if next = None \<and> is_valid_spot (base_of S l + (size_of S l - 1)) alignedBase (s_size q) (s_end q)
                 then and_then (take_spot q spec alignedBase (s_end q - s_size q + 1) S) (\<lambda>S. done_with (True, S))
                 else fall_back q spec start S))"
    unfolding fall_back_def first_pass_def by (subst search_spot.simps) (simp only: u(2,3) run_simps fr it(1))
  show ?thesis
  proof (cases found)
    case True
    then show ?thesis using step h by simp
  next
    case False
    then have S: "S' = S" and g: "at_gap t p n" using h(2) by auto
    obtain xs l ys where l: "inord t = xs @ l # ys" "p = Some l" "n = first_of ys" using g by (auto simp: at_gap_def)
    define ab where "ab = align_address_spec (base_of S l + size_of S l) (2 ^ k) spec start"
    show ?thesis
    proof (cases "n = None \<and> is_valid_spot (base_of S l + (size_of S l - 1)) ab (s_size q) (s_end q)")
      case V: True
      then have ys: "ys = []" using l(3) by (cases ys) auto
      have lt: "l \<in> set (inord t)" using l by simp
      note a = align_behind [OF ok lt k(1) sz ab_def conjunct2 [OF V]]
      have "0 < uint (s_size q)" using sz by (simp add: uint_0_iff order_less_le)
      then obtain b S2 where b: "take_spot q spec ab (s_end q - s_size q + 1) S = done_with S2" "placed (s_area q) b S S2"
        "aligned (2 ^ k) b" "uint ab \<le> uint b" "uint b + uint (s_size q) \<le> uint (s_end q) + 1"
        using take_spot_at [OF k a(1,3,4)] by blast
      have "free_spot S ((xs @ [l]) @ []) b (s_size q)"
        by (rule free_between) (use ok l ys a b e in \<open>auto simp: word_le_def\<close>)
      then have "spot_found S t q k S2" using b l ys by (auto simp: spot_found_def)
      moreover have "search_spot q spec start S = done_with (True, S2)"
        using step h(1) False S l(2) V b(1) by (simp add: ab_def k(2) Let_def)
      ultimately show ?thesis by blast
    next
      case V: False
      have "search_spot q spec start S = fall_back q spec start S"
        using V step h(1) False S l(2) by (auto simp: ab_def k(2) Let_def)
      then show ?thesis ..
    qed
  qed
qed

lemma reserved_loop_none:
  assumes inv: "ua_inv S t" and none: "\<forall>y \<in> set (inord t). \<not> reserved S y" and l: "inord t = xs @ ys" and it: "iter_at t it (tl ys)"
  shows "reserved_loop q spec (first_of ys) it S = done_with (False, S)"
  using l it
proof (induction ys arbitrary: xs it)
  case Nil
  then show ?case by (subst reserved_loop.simps) simp
next
  case (Cons y ys)
  have rep: "avl_rep (u_tree S) t" using inv by (simp add: ua_inv_def)
  obtain it' where it': "iter_Next (u_tree S) it = Some (first_of ys, it')" "iter_at t it' (tl ys)"
    using iter_Next_at [OF rep, of it ys] Cons.prems(2) by auto
  have "\<not> reserved S y" using none Cons.prems(1) by simp
  then have "reserved_loop q spec (first_of (y # ys)) it S = reserved_loop q spec (first_of ys) it' S"
    by (subst reserved_loop.simps) (simp add: it'(1))
  then show ?case using Cons.IH [of "xs @ [y]" it'] Cons.prems(1) it'(2) by simp
qed

lemma reserved_scan_none:
  assumes inv: "ua_inv S t" and none: "\<forall>y \<in> set (inord t). \<not> reserved S y"
  shows "and_then (walk (GetIterator (u_tree S))) (\<lambda>it.
     and_then (walk (iter_Next (u_tree S) it)) (\<lambda>(n, it). reserved_loop q spec n it S)) = done_with (False, S)"
proof -
  have rep: "avl_rep (u_tree S) t" using inv by (simp add: ua_inv_def)
  obtain it where it: "GetIterator (u_tree S) = Some it" "iter_at t it (inord t)" using iter_at_start [OF rep] by blast
  obtain it' where it': "iter_Next (u_tree S) it = Some (first_of (inord t), it')" "iter_at t it' (tl (inord t))"
    using iter_Next_at [OF rep it(2)] by blast
  show ?thesis using it(1) it'(1) reserved_loop_none [OF inv none, of "[]" "inord t" it'] it'(2) by simp
qed

text \<open>The search as a whole: it ends, with a spot or without a change.\<close>

definition search_ends :: "uspace \<Rightarrow> atree \<Rightarrow> search \<Rightarrow> nat \<Rightarrow> (bool \<times> uspace) run \<Rightarrow> bool" where
  "search_ends S t q k m \<longleftrightarrow> (\<exists>found S'. m = done_with (found, S') \<and> (if found then spot_found S t q k S' else S' = S))"

lemma search_ends_pass:
  assumes "search_ready S t q k" "u_base S \<le> start" "search_ends S t q k (fall_back q spec start S)"
  shows "search_ends S t q k (search_spot q spec start S)"
  using search_spot_pass [OF assms(1,2), of spec]
proof
  assume "\<exists>S'. search_spot q spec start S = done_with (True, S') \<and> spot_found S t q k S'"
  then obtain S' where "search_spot q spec start S = done_with (True, S')" "spot_found S t q k S'" by blast
  then show ?thesis unfolding search_ends_def by (intro exI [of _ True] exI [of _ S']) simp
next
  assume "search_spot q spec start S = fall_back q spec start S"
  then show ?thesis using assms(3) by simp
qed

lemma search_spot_open:
  assumes r: "search_ready S t q k" and none: "\<forall>y \<in> set (inord t). \<not> reserved S y" and sp: "\<not> is_base_address_spec spec"
    and st: "u_base S \<le> start" "s_originalStart q = 0 \<or> u_base S \<le> s_originalStart q"
  shows "search_ends S t q k (search_spot q spec start S)"
proof -
  have inv: "ua_inv S t" using r by (simp add: search_ready_def)
  have last: "search_ends S t q k (search_spot q spec start S)"
    if "\<not> (s_useHint q \<and> s_originalStart q \<noteq> 0 \<and> start \<noteq> s_originalStart q)" "u_base S \<le> start" for start
  proof (rule search_ends_pass [OF r that(2)])
    have "fall_back q spec start S = done_with (False, S)"
      unfolding fall_back_def if_not_P [OF sp] if_not_P [OF that(1)] reserved_scan_none [OF inv none] by simp
    then show "search_ends S t q k (fall_back q spec start S)" unfolding search_ends_def by (intro exI [of _ False] exI [of _ S]) simp
  qed
  show ?thesis
  proof (cases "s_useHint q \<and> s_originalStart q \<noteq> 0 \<and> start \<noteq> s_originalStart q")
    case True
    have "fall_back q spec start S = search_spot q spec (s_originalStart q) S" unfolding fall_back_def if_not_P [OF sp] if_P [OF True] ..
    then show ?thesis using search_ends_pass [OF r st(1)] last [of "s_originalStart q"] st(2) True by simp
  qed (rule last [OF _ st(1)])
qed

lemma search_spot_at:
  assumes r: "search_ready S t q k" and none: "\<forall>y \<in> set (inord t). \<not> reserved S y"
    and st: "u_base S \<le> start" "u_base S \<le> USER_BASE_ANY" "s_originalStart q = 0 \<or> u_base S \<le> s_originalStart q"
    and rb: "spec = B_RANDOMIZED_BASE_ADDRESS \<Longrightarrow> u_randomizing S \<Longrightarrow> u_base S \<le> s_originalStart q"
  shows "search_ends S t q k (search_spot q spec start S)"
proof (cases "is_base_address_spec spec")
  case False
  then show ?thesis using search_spot_open [OF r none _ st(1,3)] by blast
next
  case B: True
  have any: "search_ends S t q k (search_spot q B_ANY_ADDRESS USER_BASE_ANY S)" "search_ends S t q k (search_spot q B_RANDOMIZED_ANY_ADDRESS USER_BASE_ANY S)"
    by (rule search_spot_open [OF r none _ st(2,3)], simp add: is_base_address_spec_def)+
  have direct: "search_ends S t q k (search_spot q spec start S)" if "\<not> IsRandomized S spec \<or> start = s_originalStart q" "u_base S \<le> start" for start
  proof (rule search_ends_pass [OF r that(2)])
    show "search_ends S t q k (fall_back q spec start S)" using that(1) B any unfolding fall_back_def by simp
  qed
  show ?thesis
  proof (cases "IsRandomized S spec \<and> start \<noteq> s_originalStart q")
    case False
    then show ?thesis using direct st(1) by blast
  next
    case True
    then have sp: "spec = B_RANDOMIZED_BASE_ADDRESS" "u_randomizing S" using B by (auto simp: IsRandomized_def is_base_address_spec_def)
    have "fall_back q spec start S = search_spot q spec (s_originalStart q) S" using B True sp(1) unfolding fall_back_def by simp
    then show ?thesis using search_ends_pass [OF r st(1)] direct [of "s_originalStart q"] rb [OF sp] by simp
  qed
qed

text \<open>In an empty address space the search finds an aligned start at which the area fits.\<close>

lemma search_spot_empty:
  assumes inv: "ua_inv S t" and e: "inord t = []" and k: "k < 64" "s_alignment q = 2 ^ k"
    and sz: "1 < uint (s_size q)" and st: "u_base S \<le> start" "aligned (2 ^ k) start" "uint start + uint (s_size q) \<le> uint (s_end q) + 1"
    and en: "s_end q \<le> u_end S" and up: "ROUNDUP start (2 ^ k) = start"
  shows "\<exists>S'. search_spot q spec start S = done_with (True, S') \<and> spot_found S t q k S'"
proof -
  have rep: "avl_rep (u_tree S) t" and ok: "space_ok S (inord t)" using inv by (auto simp: ua_inv_def)
  have u0: "0 < uint (u_base S)" "uint (u_end S) < 2 ^ 63" using ok by (auto simp: space_ok_def)
  have f: "ua_FindClosest S a b = done_with None" for a b using ua_laws(1) [OF inv, of a b] e by (cases b) (simp_all add: first_of_def last_of_def)
  have l: "LeftMost (u_tree S) (t_root (u_tree S)) = Some None" using ends_at(1) [OF rep] e by (simp add: first_of_def)
  have "uint (s_size q - 1) = uint (s_size q) - 1" using sz by (simp add: uint_sub_if')
  then have "uint (start + (s_size q - 1)) = uint start + uint (s_size q) - 1"
    using st(3) sz u0(2) en by (simp add: uint_plus_if' word_le_def)
  then have v: "is_valid_spot start start (s_size q) (s_end q)" using st(3) sz by (simp add: is_valid_spot_def word_le_def word_less_def)
  have s0: "0 < uint start" using u0(1) st(1) by (simp add: word_le_def)
  have "0 < uint (s_size q)" using sz by simp
  then obtain b S' where b: "take_spot q spec start (min (s_end q - s_size q + 1) (s_end q)) S = done_with S'" "placed (s_area q) b S S'"
    "aligned (2 ^ k) b" "uint start \<le> uint b" "uint b + uint (s_size q) \<le> uint (s_end q) + 1"
    using take_spot_at [OF k st(2) s0 st(3), of "min (s_end q - s_size q + 1) (s_end q)" spec S] by auto
  have "free_spot S ([] @ []) b (s_size q)"
    by (rule free_between) (use ok e b st(1) en in \<open>auto simp: word_le_def\<close>)
  then have "spot_found S t q k S'" using b e by (auto simp: spot_found_def)
  moreover have "search_spot q spec start S = done_with (True, S')"
    by (subst search_spot.simps) (simp add: f l GetIterator_node_def Next_def align_address_def k(2) up v b(1) Let_def)
  ultimately show ?thesis by blast
qed

subsection \<open>Entering the area\<close>

text \<open>Giving one area a range between its neighbours keeps the areas apart.\<close>

lemma put_middle:
  assumes ok: "space_ok S (us @ vs)" and z: "z \<notin> set (us @ vs)"
    and lo: "\<And>u. u \<in> set us \<Longrightarrow> uint (base_of S u) + uint (size_of S u) \<le> uint (base_of S' z)"
    and hi: "\<And>v. v \<in> set vs \<Longrightarrow> uint (base_of S' z) + uint (size_of S' z) \<le> uint (base_of S v)"
    and range: "uint (u_base S) \<le> uint (base_of S' z)" "0 < uint (size_of S' z)" "uint (base_of S' z) + uint (size_of S' z) \<le> uint (u_end S) + 1"
    and S': "u_base S' = u_base S" "u_end S' = u_end S" "\<And>y. y \<noteq> z \<Longrightarrow> base_of S' y = base_of S y" "\<And>y. y \<noteq> z \<Longrightarrow> size_of S' y = size_of S y"
  shows "space_ok S' (us @ z # vs)"
proof -
  let ?R = "\<lambda>S x y. uint (base_of S x) + uint (size_of S x) \<le> uint (base_of S y)"
  have o: "sorted_wrt (?R S) (us @ vs)" using ok by (simp add: space_ok_def)
  have eq: "base_of S' y = base_of S y" "size_of S' y = size_of S y" if "y \<in> set us \<union> set vs" for y
  proof -
    have "y \<noteq> z" using that z by auto
    then show "base_of S' y = base_of S y" "size_of S' y = size_of S y" using S'(3,4) by blast+
  qed
  have ou: "sorted_wrt (?R S') us" using sorted_wrt_mono_rel [of us "?R S" "?R S'"] o eq by (simp add: sorted_wrt_append)
  have ov: "sorted_wrt (?R S') vs" using sorted_wrt_mono_rel [of vs "?R S" "?R S'"] o eq by (simp add: sorted_wrt_append)
  have uv: "?R S' y w" if "y \<in> set us" "w \<in> set vs" for y w using o eq that by (simp add: sorted_wrt_append)
  have uz: "?R S' y z" if "y \<in> set us" for y using lo [OF that] eq [of y] that by simp
  have zv: "?R S' z y" if "y \<in> set vs" for y using hi [OF that] eq [of y] that by simp
  have "sorted_wrt (?R S') (us @ z # vs)" using ou ov uv uz zv by (simp add: sorted_wrt_append)
  moreover have "uint (u_base S') \<le> uint (base_of S' y) \<and> 0 < uint (size_of S' y) \<and> uint (base_of S' y) + uint (size_of S' y) \<le> uint (u_end S') + 1"
    if "y \<in> set (us @ z # vs)" for y
  proof (cases "y = z")
    case True
    then show ?thesis using range S'(1,2) by simp
  next
    case False
    then have "y \<in> set (us @ vs)" using that by simp
    then show ?thesis using space_okD [OF ok, of y] eq [of y] S'(1,2) by simp
  qed
  ultimately show ?thesis using ok S'(1,2) by (auto simp: space_ok_def)
qed

lemma space_ok_drop: "space_ok S (us @ z # vs) \<Longrightarrow> space_ok S (us @ vs)"
  by (auto simp: space_ok_def sorted_wrt_append)

lemma insert_space_ok:
  assumes ok: "space_ok S xs" and free: "free_spot S xs b sz" and sz: "0 < uint sz" and x: "x \<notin> set xs"
    and S': "u_base S' = u_base S" "u_end S' = u_end S" "base_of S' x = b" "size_of S' x = sz"
      "\<And>y. y \<noteq> x \<Longrightarrow> base_of S' y = base_of S y" "\<And>y. y \<noteq> x \<Longrightarrow> size_of S' y = size_of S y"
  shows "space_ok S' (insort_key (base_of S') x xs)" "base_of S' x \<notin> base_of S' ` set xs"
proof -
  obtain us vs where u: "xs = us @ vs" "filter (\<lambda>x. base_of S x < b) xs = us" "filter (\<lambda>x. b \<le> base_of S x) xs = vs"
    by (rule base_prefix_strict [OF ok])
  have us_set: "set us = {y \<in> set xs. base_of S y < b}" unfolding u(2) [symmetric] by simp
  have vs_set: "set vs = {y \<in> set xs. b \<le> base_of S y}" unfolding u(3) [symmetric] by simp
  have us: "uint (base_of S y) + uint (size_of S y) \<le> uint b" if "y \<in> set us" for y
  proof -
    have y: "y \<in> set xs" "uint (base_of S y) < uint b" using that by (simp_all add: us_set word_less_def)
    then show ?thesis using free sz unfolding free_spot_def by fastforce
  qed
  have vs: "uint b + uint sz \<le> uint (base_of S y)" if "y \<in> set vs" for y
  proof -
    have y: "y \<in> set xs" "uint b \<le> uint (base_of S y)" using that by (simp_all add: vs_set word_le_def)
    then show ?thesis using free space_okD(2) [OF ok y(1)] unfolding free_spot_def by fastforce
  qed
  have ne: "y \<noteq> x" if "y \<in> set us \<union> set vs" for y using that x u(1) by auto
  have lt: "\<forall>y \<in> set us. base_of S' y < base_of S' x" "\<forall>y \<in> set vs. base_of S' x < base_of S' y"
  proof -
    show "\<forall>y \<in> set us. base_of S' y < base_of S' x"
    proof
      fix y assume y: "y \<in> set us"
      then have "y \<in> set xs" "y \<noteq> x" using ne us_set by auto
      then show "base_of S' y < base_of S' x" using us [OF y] space_okD(2) [OF ok, of y] S'(3,5) by (simp add: word_less_def)
    qed
    show "\<forall>y \<in> set vs. base_of S' x < base_of S' y"
    proof
      fix y assume y: "y \<in> set vs"
      then have "y \<noteq> x" using ne by auto
      then show "base_of S' x < base_of S' y" using vs [OF y] S'(3,5) sz by (simp add: word_less_def)
    qed
  qed
  then show "base_of S' x \<notin> base_of S' ` set xs" using u(1) by auto
  have i: "insort_key (base_of S') x xs = us @ x # vs" using insort_middle [OF lt] u(1) by simp
  show "space_ok S' (insort_key (base_of S') x xs)" unfolding i
    by (rule put_middle [of S]) (use ok u(1) x us vs free sz S' in \<open>auto simp: free_spot_def\<close>)
qed

lemma upd_area_simps [simp]:
  "u_area (upd_area x f S) y = (if y = x then f (u_area S x) else u_area S y)" "u_tree (upd_area x f S) = u_tree S"
  "u_base (upd_area x f S) = u_base S" "u_end (upd_area x f S) = u_end S" "u_free (upd_area x f S) = u_free S"
  "u_refs (upd_area x f S) = u_refs S" "u_hint (upd_area x f S) = u_hint S" "u_randomizing (upd_area x f S) = u_randomizing S"
  by (simp_all add: upd_area_def)

lemmas area_sets = SetBase_def SetSize_def base_of_def size_of_def reserved_def

lemma ua_Insert_at:
  assumes inv: "ua_inv S t" and x: "x \<notin> set (inord t)" "t_count (u_tree S) < 9227464"
    and S': "u_tree S' = u_tree S" "u_base S' = u_base S" "u_end S' = u_end S" "\<And>y. y \<noteq> x \<Longrightarrow> u_area S' y = u_area S y"
    and free: "free_spot S (inord t) (base_of S' x) (size_of S' x)" "0 < uint (size_of S' x)"
  shows "\<exists>S'' t'. ua_Insert x S' = done_with S'' \<and> S'' = S'\<lparr>u_tree := u_tree S''\<rparr> \<and> ua_inv S'' t' \<and> set (inord t') = insert x (set (inord t))"
proof -
  have rep: "avl_rep (u_tree S) t" and ok: "space_ok S (inord t)" using inv by (auto simp: ua_inv_def)
  have bs: "base_of S' y = base_of S y" "size_of S' y = size_of S y" if "y \<noteq> x" for y using S'(4) [OF that] by (simp_all add: base_of_def size_of_def)
  note ins = insert_space_ok [OF ok free x(1) S'(2,3) refl refl bs]
  have m: "map (\<lambda>n. a_base (u_area S' n)) (inord t) = map (\<lambda>n. a_base (u_area S n)) (inord t)" using x(1) by (intro map_cong refl) (metis S'(4))
  have s: "sorted_wrt (<) (map (\<lambda>n. a_base (u_area S' n)) (inord t))" unfolding m by (rule space_ok_sorted [OF ok])
  have "a_base (u_area S' x) \<notin> (\<lambda>n. a_base (u_area S' n)) ` set (inord t)" using ins(2) by (auto simp: base_of_def)
  then obtain res T' t' where 1: "avl_Insert (VMUserAreaTree_CompareNodes (u_area S')) x (u_tree S) = Some (Some (res, T'))" "avl_rep T' t'"
    "inord t' = insort_key (\<lambda>n. a_base (u_area S' n)) x (inord t)"
    using user.insert_new [OF rep s avl_rep_height [OF rep x(2)] x(1)] by blast
  define S'' where "S'' = S'\<lparr>u_tree := T'\<rparr>"
  have sp: "space_ok S'' ys = space_ok S' ys" for ys by (simp add: space_ok_def S''_def base_of_def size_of_def)
  have "inord t' = insort_key (base_of S') x (inord t)" unfolding 1(3) base_of_def ..
  then have "ua_inv S'' t'" using ins(1) 1(2) unfolding ua_inv_def sp by (simp add: S''_def)
  moreover have "ua_Insert x S' = done_with S''" using 1(1) S'(1) by (simp add: ua_Insert_def Insert_node_def S''_def)
  moreover have "set (inord t') = insert x (set (inord t))" unfolding 1(3) by (simp add: set_insort_key)
  moreover have "S'' = S'\<lparr>u_tree := u_tree S''\<rparr>" by (simp add: S''_def)
  ultimately show ?thesis by blast
qed

lemma grow_alignment_at:
  "k < 64 \<Longrightarrow> uint sz \<le> 2 ^ 63 \<Longrightarrow> \<exists>j. k \<le> j \<and> j < 64 \<and> grow_alignment (2 ^ k) sz = Some (2 ^ j)"
proof (induction "63 - k" arbitrary: k)
  case 0
  then have k: "k = 63" by simp
  have "\<not> (2 ^ k :: addr) < sz" unfolding word_less_def uint_pow2 [OF 0(2)] using 0(3) by (simp only: k not_less)
  then have "grow_alignment (2 ^ k) sz = Some (2 ^ k)" by (subst grow_alignment.simps) (simp only: if_False)
  then show ?case using 0(2) by blast
next
  case (Suc n)
  then have k: "n = 63 - Suc k" "Suc k < 64" by simp_all
  show ?case
  proof (cases "(2 ^ k :: addr) < sz")
    case True
    have "grow_alignment (2 ^ k) sz = grow_alignment (2 ^ Suc k) sz" 
      by (subst grow_alignment.simps) (simp only: True if_True push_bit_eq_mult power_one_right power_Suc2)
    then show ?thesis using Suc.hyps(1) [OF k Suc.prems(2)] by (auto intro: Suc_leD)
  next
    case False
    then have "grow_alignment (2 ^ k) sz = Some (2 ^ k)" by (subst grow_alignment.simps) (simp only: if_False)
    then show ?thesis using Suc.prems(1) by blast
  qed
qed

lemma into_reserved_none:
  assumes "ua_inv S t" "\<forall>y \<in> set (inord t). \<not> reserved S y"
  shows "\<exists>st \<in> {B_ENTRY_NOT_FOUND, B_BAD_VALUE}. InsertAreaIntoReservedRegion start sz x alloc S = done_with (st, S)"
proof (cases "last_of (filter (\<lambda>x. base_of S x \<le> start) (inord t))")
  case None
  then show ?thesis using ua_laws(1) [OF assms(1), of start True] by (simp add: InsertAreaIntoReservedRegion_def)
next
  case (Some r)
  then have "r \<in> set (inord t)" by (auto simp: last_of_def split: if_splits) (metis filter_is_subset last_in_set subset_code(1))
  then have "\<not> reserved S r" using assms(2) by blast
  then show ?thesis using ua_laws(1) [OF assms(1), of start True] Some by (simp add: InsertAreaIntoReservedRegion_def)
qed

lemma exact_spot_at:
  assumes inv: "ua_inv S t" and e: "uint (u_base S) \<le> uint start" "uint start + uint (s_size q) \<le> uint (u_end S) + 1" "0 < uint (s_size q)"
  shows "exact_spot q start S = done_with (True, SetBase (s_area q) start S) \<and> free_spot S (inord t) start (s_size q)
    \<or> exact_spot q start S = done_with (False, S)"
proof -
  have ok: "space_ok S (inord t)" using inv by (simp add: ua_inv_def)
  obtain us vs where u: "inord t = us @ vs" "ua_FindClosest S (start + s_size q) False = done_with (first_of vs)"
    "(case first_of vs of Some n \<Rightarrow> ua_Previous S n | None \<Rightarrow> ua_FindClosest S (start + s_size q) True) = done_with (last_of us)"
    by (rule search_neighbours [OF inv])
  define c where "c \<longleftrightarrow> (case last_of us of None \<Rightarrow> True | Some l \<Rightarrow> base_of S l + (size_of S l - 1) < start)
          \<and> (case first_of vs of None \<Rightarrow> True | Some n \<Rightarrow> start + (s_size q - 1) < base_of S n)"
  have step: "exact_spot q start S = (if c then done_with (True, SetBase (s_area q) start S) else done_with (False, S))"
    unfolding exact_spot_def u(2) run_simps u(3) c_def by simp
  have "uint (start + (s_size q - 1)) = uint start + uint (s_size q) - 1"
    using e ok by (intro last_word) (auto simp: space_ok_def)
  then have "free_spot S (us @ vs) start (s_size q)" if c
    using that ok u(1) e last_word [OF space_okD(2,4) [OF ok]]
    by (intro free_between) (auto simp: c_def last_of_def first_of_def word_less_def)
  then show ?thesis using step u(1) by auto
qed

lemma ROUNDUP_nowrap:
  assumes "0 < uint b" "uint a + uint b \<le> 2 ^ 64"
  shows "uint (ROUNDUP a b) = (uint a + uint b - 1) div uint b * uint b" "uint a \<le> uint (ROUNDUP a b)"
proof -
  have b1: "uint (b - 1) = uint b - 1" using assms(1) by (simp add: uint_sub_if')
  have "uint (a + b - 1) = uint a + uint b - 1" using assms b1 uint_plus_if' [of a "b - 1"] by (simp add: algebra_simps)
  then show *: "uint (ROUNDUP a b) = (uint a + uint b - 1) div uint b * uint b" by (simp add: ROUNDUP_def ROUNDDOWN_uint)
  have "uint a + uint b - 1 - (uint a + uint b - 1) div uint b * uint b < uint b"
    using pos_mod_bound [OF assms(1), of "uint a + uint b - 1"] by (simp add: minus_div_mult_eq_mod)
  then show "uint a \<le> uint (ROUNDUP a b)" using * by linarith
qed

lemma ROUNDUP_aligned:
  assumes "k < 64" "aligned (2 ^ k) a" "uint a + 2 ^ k \<le> 2 ^ 64"
  shows "ROUNDUP a (2 ^ k) = a"
proof -
  obtain m where m: "uint a = 2 ^ k * m" using assms(2) by (auto simp: aligned_iff dvd_def)
  have "uint (ROUNDUP a (2 ^ k)) = (uint a + 2 ^ k - 1) div 2 ^ k * 2 ^ k"
    using ROUNDUP_nowrap(1) [of "2 ^ k" a] assms(3) by (simp add: uint_pow2 [OF assms(1)])
  also have "uint a + 2 ^ k - 1 = (2 ^ k - 1) + 2 ^ k * m" using m by simp
  also have "(2 ^ k - 1 + 2 ^ k * m) div 2 ^ k = m" by (simp add: div_pos_pos_trivial)
  finally have "uint (ROUNDUP a (2 ^ k)) = uint a" using m by (simp add: mult.commute)
  then show ?thesis by (simp add: word_uint_eq_iff)
qed

text \<open>What an insertion leaves: the area is in the tree at an aligned place, every other area is as before.\<close>

definition inserted :: "uspace \<Rightarrow> atree \<Rightarrow> node_ptr \<Rightarrow> addr \<Rightarrow> addr \<Rightarrow> uspace \<Rightarrow> bool" where
  "inserted S t x sz al S' \<longleftrightarrow> (\<exists>t'. ua_inv S' t' \<and> set (inord t') = insert x (set (inord t))) \<and> size_of S' x = sz \<and> aligned al (base_of S' x)
     \<and> (\<forall>y. y \<noteq> x \<longrightarrow> u_area S' y = u_area S y) \<and> a_id (u_area S' x) = a_id (u_area S x)"

definition untouched :: "uspace \<Rightarrow> uspace \<Rightarrow> bool" where
  "untouched S S' \<longleftrightarrow> S' = S\<lparr>u_random := u_random S'\<rparr>"

lemma untouchedD:
  assumes "untouched S S'"
  shows "u_tree S' = u_tree S" "u_base S' = u_base S" "u_end S' = u_end S" "u_area S' = u_area S" "u_free S' = u_free S" "u_randomizing S' = u_randomizing S"
proof -
  obtain r where "S' = S\<lparr>u_random := r\<rparr>" using assms unfolding untouched_def by blast
  then show "u_tree S' = u_tree S" "u_base S' = u_base S" "u_end S' = u_end S" "u_area S' = u_area S" "u_free S' = u_free S" "u_randomizing S' = u_randomizing S"
    by simp_all
qed

text \<open>Entering the area at a spot that was found.\<close>

lemma enter_area:
  assumes inv: "ua_inv S t" and x: "x \<notin> set (inord t)" "t_count (u_tree S) < 9227464" and sz: "0 < uint sz" "k < 64"
    and p: "placed x b S S1" "aligned (2 ^ k) b" "free_spot S (inord t) b sz"
    and S2: "S2 = (if h then S1\<lparr>u_hint := v\<rparr> else S1)"
  shows "\<exists>S'. and_then (ua_Insert x (SetSize x sz S2)) (\<lambda>S. done_with (B_OK, IncrementChangeCount S)) = done_with (B_OK, S')
    \<and> inserted S t x sz (2 ^ k) S' \<and> base_of S' x = b \<and> u_free S' = u_free S"
proof -
  obtain S0 where S0: "S0 = S\<lparr>u_random := u_random S0\<rparr>" "S1 = SetBase x b S0" using p(1) by (auto simp: placed_def same_space_def)
  define S3 where "S3 = SetSize x sz S2"
  have e: "u_tree S0 = u_tree S" "u_base S0 = u_base S" "u_end S0 = u_end S" "u_area S0 = u_area S" "u_free S0 = u_free S"
    by (subst S0(1), simp)+
  have f: "u_tree S3 = u_tree S" "u_base S3 = u_base S" "u_end S3 = u_end S" "u_free S3 = u_free S" "base_of S3 x = b" "size_of S3 x = sz"
    "a_id (u_area S3 x) = a_id (u_area S x)" and o: "\<And>y. y \<noteq> x \<Longrightarrow> u_area S3 y = u_area S y"
    by (simp_all add: S3_def S2 S0(2) e area_sets)
  obtain S4 t' where 4: "ua_Insert x S3 = done_with S4" "S4 = S3\<lparr>u_tree := u_tree S4\<rparr>" "ua_inv S4 t'" "set (inord t') = insert x (set (inord t))"
    using ua_Insert_at [OF inv x f(1-3) o] p(3) sz(1) f(5,6) by auto
  have a4: "u_area S4 = u_area S3" "u_free S4 = u_free S3" by (subst 4(2), simp)+
  define S5 where "S5 = IncrementChangeCount S4"
  have a5: "u_area S5 = u_area S3" "u_free S5 = u_free S" using a4 f(4) by (simp_all add: S5_def IncrementChangeCount_def)
  have "ua_inv S5 t'" using 4(3) by (simp add: S5_def IncrementChangeCount_def ua_inv_def space_ok_def base_of_def size_of_def)
  then have "inserted S t x sz (2 ^ k) S5" using 4(4) a5(1) o f(5-7) p(2) by (auto simp: inserted_def base_of_def size_of_def)
  moreover have "and_then (ua_Insert x S3) (\<lambda>S. done_with (B_OK, IncrementChangeCount S)) = done_with (B_OK, S5)" using 4(1) by (simp add: S5_def)
  moreover have "base_of S5 x = b" using a5(1) f(5) by (simp add: base_of_def)
  ultimately show ?thesis using a5(2) unfolding S3_def by blast
qed

text \<open>The specifications that leave the base of the area open.\<close>

definition open_specs :: "address_spec set" where
  "open_specs = {B_ANY_ADDRESS, B_ANY_KERNEL_ADDRESS, B_ANY_KERNEL_BLOCK_ADDRESS, B_RANDOMIZED_ANY_ADDRESS, B_BASE_ADDRESS, B_RANDOMIZED_BASE_ADDRESS}"

lemma place_area_at:
  assumes inv: "ua_inv S t"
    and ne: "inord t = [] \<Longrightarrow> spec \<noteq> B_EXACT_ADDRESS \<Longrightarrow> 1 < uint sz \<and> u_hint S < u_base S \<and> uint (ROUNDUP start (2 ^ k)) + uint sz \<le> uint end + 1"
    and none: "\<forall>y \<in> set (inord t). \<not> reserved S y"
    and x: "x \<notin> set (inord t)" "t_count (u_tree S) < 9227464" and any: "u_base S \<le> USER_BASE_ANY" and sz: "0 < uint sz" and k: "k < 64"
    and st: "u_base S \<le> start" "uint start + uint sz \<le> uint end + 1" "end \<le> u_end S"
    and ex: "spec = B_EXACT_ADDRESS \<Longrightarrow> aligned (2 ^ k) start"
    and rb: "spec = B_RANDOMIZED_BASE_ADDRESS \<Longrightarrow> u_randomizing S \<Longrightarrow> uint (ROUNDUP start (2 ^ k)) + uint sz \<le> uint end + 1"
  shows "\<exists>st S'. place_area start sz end spec x S (2 ^ k) = done_with (st, S')
    \<and> (if st = B_OK then inserted S t x sz (2 ^ k) S' \<and> (spec = B_EXACT_ADDRESS \<longrightarrow> base_of S' x = start) \<and> u_free S' = u_free S
       else untouched S S') \<and> (inord t = [] \<and> spec \<in> open_specs \<longrightarrow> st = B_OK)"
proof -
  have ok: "space_ok S (inord t)" using inv by (simp add: ua_inv_def)
  have e63: "uint end < 2 ^ 63" "0 < uint (u_base S)" using ok st(3) by (auto simp: space_ok_def word_le_def)
  define start' where "start' = ROUNDUP start (2 ^ k)"
  have p63: "(2 :: int) ^ k \<le> 2 ^ 63" using k by (intro power_increasing) auto
  have s': "uint start \<le> uint start'" unfolding start'_def using e63(1) st(2) sz p63
    by (intro ROUNDUP_nowrap(2)) (simp_all add: uint_pow2 [OF k])
  then have bs: "u_base S \<le> start'" using st(1) by (simp add: word_le_def)
  have al: "aligned (2 ^ k) start'" unfolding start'_def by (rule ROUND_aligned(2) [OF k])
  define useHint where "useHint \<longleftrightarrow> spec \<noteq> B_EXACT_ADDRESS \<and> \<not> is_base_address_spec spec \<and> (u_end S - u_base S + 1) div 2 < u_free S"
  define pick where "pick = (if u_randomizing S \<and> spec = B_RANDOMIZED_BASE_ADDRESS
      then and_then (RandomizeAddress start' (end - sz + 1) (2 ^ k) True S) (\<lambda>(b, S). done_with (start', b, S))
      else if useHint \<and> start' \<le> u_hint S \<and> u_hint S \<le> end - sz + 1 then done_with (start', u_hint S, S) else done_with (0, start', S))"
  have "uint (end - sz) = uint end - uint sz" using st(1,2) e63(2) by (simp add: uint_sub_if' word_le_def)
  then have e1: "uint (end - sz + 1) = uint end - uint sz + 1" using sz e63(1) by (simp add: uint_plus_if')
  obtain os go S0 where pk: "pick = done_with (os, go, S0)" "untouched S S0" "u_base S \<le> go" "os = 0 \<or> os = start'"
    "spec = B_RANDOMIZED_BASE_ADDRESS \<Longrightarrow> u_randomizing S \<Longrightarrow> os = start'" "spec = B_EXACT_ADDRESS \<Longrightarrow> go = start'"
    "inord t = [] \<Longrightarrow> spec \<noteq> B_EXACT_ADDRESS \<Longrightarrow> aligned (2 ^ k) go \<and> uint go + uint sz \<le> uint end + 1"
  proof (cases "u_randomizing S \<and> spec = B_RANDOMIZED_BASE_ADDRESS")
    case True
    have "uint start' \<le> uint (end - sz + 1)" using rb True e1 by (simp add: start'_def)
    moreover have "0 < uint start'" using bs e63(2) by (simp add: word_le_def)
    ultimately obtain b S0 where "RandomizeAddress start' (end - sz + 1) (2 ^ k) True S = done_with (b, S0)" "same_space S S0" "uint start' \<le> uint b"
      "aligned (2 ^ k) b" "uint b \<le> uint (end - sz + 1)"
      using RandomizeAddress_at [OF k al] by blast
    then show thesis using that [of start' b S0] True bs e1 by (auto simp: pick_def untouched_def same_space_def word_le_def)
  next
    case False
    show thesis
    proof (cases "useHint \<and> start' \<le> u_hint S \<and> u_hint S \<le> end - sz + 1")
      case True
      then have "inord t \<noteq> []" using ne bs by (auto simp: useHint_def)
      then show thesis using that [of start' "u_hint S" S] True False bs by (auto simp: pick_def untouched_def useHint_def)
    next
      case F: False
      have "pick = done_with (0, start', S)" unfolding pick_def using False F by auto
      then show thesis using that [of 0 start' S] False bs al ne by (auto simp: untouched_def start'_def)
    qed
  qed
  define q where "q = \<lparr>s_size = sz, s_end = end, s_alignment = 2 ^ k, s_area = x, s_useHint = useHint, s_originalStart = os\<rparr>"
  have qs: "s_size q = sz" "s_end q = end" "s_alignment q = 2 ^ k" "s_area q = x" "s_useHint q = useHint" "s_originalStart q = os" by (simp_all add: q_def)
  have S0: "u_tree S0 = u_tree S" "u_base S0 = u_base S" "u_end S0 = u_end S" "u_area S0 = u_area S" "u_free S0 = u_free S" "u_randomizing S0 = u_randomizing S"
    using untouchedD [OF pk(2)] by simp_all
  have inv0: "ua_inv S0 t" using inv S0 by (simp add: ua_inv_def space_ok_def base_of_def size_of_def)
  have none0: "\<forall>y \<in> set (inord t). \<not> reserved S0 y" using none S0(4) by (simp add: reserved_def)
  define m where "m = (if spec = B_EXACT_ADDRESS then exact_spot q go S0 else search_spot q spec go S0)"
  define fin where "fin = (\<lambda>(found, S). if \<not> found then done_with (if spec = B_EXACT_ADDRESS then B_BAD_VALUE else B_NO_MEMORY, S)
     else let S = (if useHint then S\<lparr>u_hint := base_of S x + sz\<rparr> else S)
          in and_then (ua_Insert x (SetSize x sz S)) (\<lambda>S. done_with (B_OK, IncrementChangeCount S)))"
  have step: "place_area start sz end spec x S (2 ^ k) = (if spec \<in> {B_ANY_ADDRESS, B_ANY_KERNEL_ADDRESS, B_ANY_KERNEL_BLOCK_ADDRESS,
      B_RANDOMIZED_ANY_ADDRESS, B_BASE_ADDRESS, B_RANDOMIZED_BASE_ADDRESS, B_EXACT_ADDRESS} then and_then m fin else done_with (B_BAD_VALUE, S0))"
    unfolding place_area_def align_address_def start'_def [symmetric] useHint_def [symmetric] Let_def pick_def [symmetric] pk(1) run_simps prod.case
      m_def fin_def q_def ..
  have m: "(\<exists>b S1. m = done_with (True, S1) \<and> placed x b S0 S1 \<and> aligned (2 ^ k) b \<and> free_spot S0 (inord t) b sz \<and> (spec = B_EXACT_ADDRESS \<longrightarrow> b = start))
    \<or> m = done_with (False, S0) \<and> (inord t = [] \<longrightarrow> spec = B_EXACT_ADDRESS)"
  proof (cases "spec = B_EXACT_ADDRESS")
    case True
    have se: "start' = start" unfolding start'_def using ex [OF True] st(2) sz e63(1) p63 by (intro ROUNDUP_aligned [OF k]) auto
    have "uint (u_base S0) \<le> uint start" "uint start + uint (s_size q) \<le> uint (u_end S0) + 1" "0 < uint (s_size q)"
      using st sz by (simp_all add: S0 qs word_le_def)
    from exact_spot_at [OF inv0 this] show ?thesis
      using True al pk(6) placed_here [of x start S0] by (auto simp: m_def se qs)
  next
    case False
    show ?thesis
    proof (cases "inord t = []")
      case E: True
      have up: "ROUNDUP go (2 ^ k) = go" using pk(7) [OF E False] sz e63(1) p63 by (intro ROUNDUP_aligned [OF k]) auto
      have "\<exists>S'. search_spot q spec go S0 = done_with (True, S') \<and> spot_found S0 t q k S'"
        by (rule search_spot_empty [OF inv0 E k]) (use pk(3,7) ne E False st(3) up in \<open>simp_all add: qs S0\<close>)
      then show ?thesis using False by (auto simp: m_def spot_found_def qs)
    next
      case E: False
    have r: "search_ready S0 t q k" using inv0 E k sz st(3) by (auto simp: search_ready_def qs S0)
    have "search_ends S0 t q k (search_spot q spec go S0)"
      using pk(3-5) bs any by (intro search_spot_at [OF r none0]) (auto simp: qs S0)
    then show ?thesis using False E by (auto simp: m_def search_ends_def spot_found_def qs split: if_splits)
    qed
  qed
  have ins: "inserted S t x sz al' S' = inserted S0 t x sz al' S'" for al' S' by (simp add: inserted_def S0)
  have "\<exists>st S'. and_then m fin = done_with (st, S')
    \<and> (if st = B_OK then inserted S t x sz (2 ^ k) S' \<and> (spec = B_EXACT_ADDRESS \<longrightarrow> base_of S' x = start) \<and> u_free S' = u_free S
       else untouched S S') \<and> (inord t = [] \<and> spec \<in> open_specs \<longrightarrow> st = B_OK)"
    using m
  proof
    assume "m = done_with (False, S0) \<and> (inord t = [] \<longrightarrow> spec = B_EXACT_ADDRESS)"
    then show ?thesis using pk(2) by (auto simp: fin_def open_specs_def)
  next
    assume "\<exists>b S1. m = done_with (True, S1) \<and> placed x b S0 S1 \<and> aligned (2 ^ k) b \<and> free_spot S0 (inord t) b sz \<and> (spec = B_EXACT_ADDRESS \<longrightarrow> b = start)"
    then obtain b S1 where b: "m = done_with (True, S1)" "placed x b S0 S1" "aligned (2 ^ k) b" "free_spot S0 (inord t) b sz" "spec = B_EXACT_ADDRESS \<longrightarrow> b = start"
      by blast
    obtain S' where S': "and_then (ua_Insert x (SetSize x sz (if useHint then S1\<lparr>u_hint := base_of S1 x + sz\<rparr> else S1))) (\<lambda>S. done_with (B_OK, IncrementChangeCount S))
        = done_with (B_OK, S')" "inserted S0 t x sz (2 ^ k) S'" "base_of S' x = b" "u_free S' = u_free S0"
      using enter_area [OF inv0 x(1) _ sz k b(2-4) refl, of useHint "base_of S1 x + sz"] x(2) S0(1) by auto
    then have "and_then m fin = done_with (B_OK, S')" using b(1) by (simp add: fin_def Let_def)
    then show ?thesis using S' b(5) S0(5) ins by (intro exI [of _ B_OK] exI [of _ S']) auto
  qed
  then show ?thesis using step pk(2) by (auto simp: open_specs_def)
qed

lemma aligned_mono: "k \<le> j \<Longrightarrow> aligned (2 ^ j) a \<Longrightarrow> aligned (2 ^ k) a"
  unfolding aligned_iff using le_imp_power_dvd dvd_trans by blast

definition alignment_of :: "addr \<Rightarrow> addr" where
  "alignment_of a = (if a = 0 then B_PAGE_SIZE else a)"

text \<open>The alignment that the search uses.\<close>

definition slot_alignment :: "address_spec \<Rightarrow> addr \<Rightarrow> addr \<Rightarrow> addr" where
  "slot_alignment spec al sz =
     (if spec = B_ANY_KERNEL_BLOCK_ADDRESS then the (grow_alignment (alignment_of al) sz) else alignment_of al)"

text \<open>In an empty address space: nothing to search for, and no hint of earlier areas.\<close>

definition first_slot :: "uspace \<Rightarrow> addr \<Rightarrow> addr \<Rightarrow> addr \<Rightarrow> addr \<Rightarrow> bool" where
  "first_slot S start sz end al \<longleftrightarrow> 1 < uint sz \<and> u_hint S < u_base S \<and> u_base S \<le> start \<and> end \<le> u_end S
     \<and> uint start + uint sz \<le> uint end + 1 \<and> uint (ROUNDUP start al) + uint sz \<le> uint end + 1"

lemma InsertAreaSlot_at:
  assumes inv: "ua_inv S t" and ne: "inord t = [] \<Longrightarrow> spec \<noteq> B_EXACT_ADDRESS \<Longrightarrow> first_slot S start sz end (slot_alignment spec al sz)"
    and none: "\<forall>y \<in> set (inord t). \<not> reserved S y"
    and x: "x \<notin> set (inord t)" "t_count (u_tree S) < 9227464" and any: "u_base S \<le> USER_BASE_ANY"
    and sz: "0 < uint sz" "uint sz \<le> 2 ^ 63" "uint start + uint sz \<le> 2 ^ 64" and k: "k < 64" "alignment_of al = 2 ^ k"
    and ex: "spec = B_EXACT_ADDRESS \<Longrightarrow> aligned (2 ^ k) start"
    and rb: "spec = B_RANDOMIZED_BASE_ADDRESS \<Longrightarrow> u_randomizing S \<Longrightarrow> uint (ROUNDUP start (2 ^ k)) + uint sz \<le> uint end + 1"
  shows "\<exists>st S'. InsertAreaSlot start sz end spec al x alloc S = done_with (st, S')
    \<and> (if st = B_OK then inserted S t x sz (2 ^ k) S' \<and> (spec = B_EXACT_ADDRESS \<longrightarrow> base_of S' x = start) \<and> u_free S' = u_free S
       else untouched S S') \<and> (inord t = [] \<and> spec \<in> open_specs \<longrightarrow> st = B_OK)"
proof (cases "start < u_base S \<or> sz = 0 \<or> u_end S < end \<or> end < start + (sz - 1)")
  case True
  have "uint (sz - 1) = uint sz - 1" using sz(1) by (simp add: uint_sub_if')
  then have l: "uint (start + (sz - 1)) = uint start + uint sz - 1" using sz(1,3) by (simp add: uint_plus_if')
  have "\<not> (inord t = [] \<and> spec \<in> open_specs)"
  proof
    assume "inord t = [] \<and> spec \<in> open_specs"
    then have "first_slot S start sz end (slot_alignment spec al sz)" using ne by (auto simp: open_specs_def)
    then show False using True l sz(1) by (auto simp: first_slot_def word_less_def word_le_def)
  qed
  moreover have "InsertAreaSlot start sz end spec al x alloc S = done_with (B_BAD_ADDRESS, S)" using True unfolding InsertAreaSlot_def by simp
  ultimately show ?thesis by (simp add: untouched_def)
next
  case False
  have "uint (sz - 1) = uint sz - 1" using sz(1) by (simp add: uint_sub_if')
  then have "uint (start + (sz - 1)) = uint start + uint sz - 1" using sz(1,3) by (simp add: uint_plus_if')
  then have st: "u_base S \<le> start" "uint start + uint sz \<le> uint end + 1" "end \<le> u_end S" using False by (auto simp: word_less_def word_le_def)
  define al2 where "al2 = (if spec = B_ANY_KERNEL_BLOCK_ADDRESS then grow_alignment (2 ^ k) sz else Some (2 ^ k))"
  obtain j where j: "k \<le> j" "j < 64" "al2 = Some (2 ^ j)" "spec \<noteq> B_ANY_KERNEL_BLOCK_ADDRESS \<Longrightarrow> j = k"
    using grow_alignment_at [OF k(1) sz(2)] k(1) unfolding al2_def by (cases "spec = B_ANY_KERNEL_BLOCK_ADDRESS") auto
  have sa: "slot_alignment spec al sz = 2 ^ j" using j(3) k(2) by (auto simp: slot_alignment_def al2_def split: if_splits)
  have pl: "\<exists>st S'. place_area start sz end spec x S (2 ^ j) = done_with (st, S')
    \<and> (if st = B_OK then inserted S t x sz (2 ^ j) S' \<and> (spec = B_EXACT_ADDRESS \<longrightarrow> base_of S' x = start) \<and> u_free S' = u_free S
       else untouched S S') \<and> (inord t = [] \<and> spec \<in> open_specs \<longrightarrow> st = B_OK)"
  proof (rule place_area_at [OF inv _ none x any sz(1) j(2) st])
    show "1 < uint sz \<and> u_hint S < u_base S \<and> uint (ROUNDUP start (2 ^ j)) + uint sz \<le> uint end + 1"
      if "inord t = []" "spec \<noteq> B_EXACT_ADDRESS" using ne [OF that] by (simp add: first_slot_def sa)
    show "aligned (2 ^ j) start" if "spec = B_EXACT_ADDRESS" using ex [OF that] j(4) that by simp
    show "uint (ROUNDUP start (2 ^ j)) + uint sz \<le> uint end + 1" if "spec = B_RANDOMIZED_BASE_ADDRESS" "u_randomizing S"
      using rb [OF that] j(4) that(1) by simp
  qed
  have mono: "inserted S t x sz (2 ^ k) S'" if "inserted S t x sz (2 ^ j) S'" for S' using that aligned_mono [OF j(1)] by (auto simp: inserted_def)
  obtain r where r: "(if spec = B_EXACT_ADDRESS \<and> \<not> reserved S x then InsertAreaIntoReservedRegion start sz x alloc S else done_with (B_ENTRY_NOT_FOUND, S))
      = done_with (r, S)" "r \<in> {B_ENTRY_NOT_FOUND, B_BAD_VALUE}"
      "spec \<in> open_specs \<Longrightarrow> r = B_ENTRY_NOT_FOUND"
  proof (cases "spec = B_EXACT_ADDRESS \<and> \<not> reserved S x")
    case True
    then show thesis using into_reserved_none [OF inv none, of start sz x alloc] that by (auto simp: open_specs_def)
  next
    case False
    then show thesis using that [of B_ENTRY_NOT_FOUND] by auto
  qed
  have "InsertAreaSlot start sz end spec al x alloc S = (if r = B_BAD_VALUE then done_with (B_BAD_VALUE, S) else place_area start sz end spec x S (2 ^ j))"
    unfolding InsertAreaSlot_def if_not_P [OF False] r(1) run_simps prod.case alignment_of_def [symmetric] k(2) Let_def al2_def [symmetric] j(3)
    using r(2) by auto
  then show ?thesis
  proof (cases "r = B_BAD_VALUE")
    case True
    then show ?thesis using \<open>InsertAreaSlot start sz end spec al x alloc S = _\<close> r(3) by (auto simp: untouched_def)
  next
    case False
    obtain st S' where "place_area start sz end spec x S (2 ^ j) = done_with (st, S')"
      "if st = B_OK then inserted S t x sz (2 ^ j) S' \<and> (spec = B_EXACT_ADDRESS \<longrightarrow> base_of S' x = start) \<and> u_free S' = u_free S else untouched S S'"
      "inord t = [] \<and> spec \<in> open_specs \<longrightarrow> st = B_OK"
      using pl by blast
    then show ?thesis using False \<open>InsertAreaSlot start sz end spec al x alloc S = _\<close> mono
      by (intro exI [of _ st] exI [of _ S']) (simp split: if_splits)
  qed
qed

lemma inserted_free: "inserted S t x sz al S' \<Longrightarrow> inserted S t x sz al (S'\<lparr>u_free := v\<rparr>)"
  by (simp add: inserted_def ua_inv_def space_ok_def base_of_def size_of_def)

text \<open>The address the search begins with.\<close>

definition search_start :: "uspace \<Rightarrow> restrictions \<Rightarrow> addr" where
  "search_start S r = max (u_base S) (if is_base_address_spec (r_spec r) then r_address r else USER_BASE_ANY)"

text \<open>
  C2: \<open>InsertArea\<close> in an address space without reserved ranges, for every address specification, always ends, without a
  crash, a failed assertion or a stack overflow. With \<open>B_OK\<close> the area has the size asked for, lies in the address space,
  overlaps no other area and has an aligned base, the exact address if one was asked for; the tree holds it and the
  areas of before, which are unchanged, and the free space is reduced by the size. With any other result tree and
  areas are as before. The range asked for must not wrap around, an exact address must be aligned, and a randomized base
  must leave room for the area once it is aligned. When the address space is empty and the base is left open, the
  area must have more than one byte and fit at the aligned start of the search, and the hint must be the one of a new
  address space; then the insertion succeeds. (Without that, the search in an empty address space reads through a null
  pointer.)
\<close>

theorem insert_area_apart:
  assumes "ua_inv S t"
    "inord t = [] \<and> r_spec r \<in> open_specs \<longrightarrow> first_slot S (search_start S r) sz (u_end S) (slot_alignment (r_spec r) (r_alignment r) sz)"
    "\<forall>y \<in> set (inord t). \<not> reserved S y" "x \<notin> set (inord t)" "t_count (u_tree S) < 9227464"
    "u_base S \<le> USER_BASE_ANY" "0 < uint sz" "uint sz \<le> 2 ^ 62" "uint (r_address r) + uint sz \<le> 2 ^ 64"
    "k < 64" "alignment_of (r_alignment r) = 2 ^ k" "r_spec r = B_EXACT_ADDRESS \<longrightarrow> aligned (2 ^ k) (r_address r)"
    "r_spec r = B_RANDOMIZED_BASE_ADDRESS \<longrightarrow> uint (ROUNDUP (max (u_base S) (r_address r)) (2 ^ k)) + uint sz \<le> uint (u_end S) + 1"
  shows "\<exists>st S'. InsertArea x sz r alloc S = done_with (st, S') \<and>
    (if st = B_OK then (\<exists>t'. ua_inv S' t' \<and> set (inord t') = insert x (set (inord t))) \<and> size_of S' x = sz \<and> aligned (2 ^ k) (base_of S' x)
        \<and> (r_spec r = B_EXACT_ADDRESS \<longrightarrow> base_of S' x = r_address r) \<and> (\<forall>y. y \<noteq> x \<longrightarrow> u_area S' y = u_area S y) \<and> u_free S' = u_free S - sz
     else u_tree S' = u_tree S \<and> u_area S' = u_area S \<and> u_free S' = u_free S)
    \<and> (inord t = [] \<and> r_spec r \<in> open_specs \<longrightarrow> st = B_OK)"
proof -
  have sz: "uint sz \<le> 2 ^ 63" using assms(8) by simp
  have slot: "\<exists>st S'. and_then (InsertAreaSlot start sz end (r_spec r) (r_alignment r) x alloc S)
       (\<lambda>(status, S). done_with (status, if status = B_OK then S\<lparr>u_free := u_free S - size_of S x\<rparr> else S)) = done_with (st, S')
     \<and> (if st = B_OK then inserted S t x sz (2 ^ k) S' \<and> (r_spec r = B_EXACT_ADDRESS \<longrightarrow> base_of S' x = start) \<and> u_free S' = u_free S - sz else untouched S S')
     \<and> (inord t = [] \<and> r_spec r \<in> open_specs \<longrightarrow> st = B_OK)"
    if pre: "uint start + uint sz \<le> 2 ^ 64" "r_spec r = B_EXACT_ADDRESS \<Longrightarrow> aligned (2 ^ k) start"
      "r_spec r = B_RANDOMIZED_BASE_ADDRESS \<Longrightarrow> uint (ROUNDUP start (2 ^ k)) + uint sz \<le> uint end + 1"
      "r_spec r \<noteq> B_EXACT_ADDRESS \<Longrightarrow> r_spec r \<in> open_specs \<and> start = search_start S r \<and> end = u_end S" for start "end"
  proof -
    have ne: "first_slot S start sz end (slot_alignment (r_spec r) (r_alignment r) sz)" if "inord t = []" "r_spec r \<noteq> B_EXACT_ADDRESS"
      using assms(2) pre(4) that by simp
    obtain st S' where i: "InsertAreaSlot start sz end (r_spec r) (r_alignment r) x alloc S = done_with (st, S')"
      "if st = B_OK then inserted S t x sz (2 ^ k) S' \<and> (r_spec r = B_EXACT_ADDRESS \<longrightarrow> base_of S' x = start) \<and> u_free S' = u_free S else untouched S S'"
      "inord t = [] \<and> r_spec r \<in> open_specs \<longrightarrow> st = B_OK"
      using InsertAreaSlot_at [where alloc = alloc and spec = "r_spec r", OF assms(1) ne assms(3-7) sz pre(1) assms(10,11) pre(2,3)] by blast
    show ?thesis
    proof (cases "st = B_OK")
      case True
      then have ins: "inserted S t x sz (2 ^ k) S'" "r_spec r = B_EXACT_ADDRESS \<longrightarrow> base_of S' x = start" "u_free S' = u_free S" using i(2) by auto
      have "size_of S' x = sz" using ins(1) by (simp add: inserted_def)
      then show ?thesis using True i(1) ins inserted_free [OF ins(1), of "u_free S - sz"]
        by (intro exI [of _ B_OK] exI [of _ "S'\<lparr>u_free := u_free S - sz\<rparr>"]) (simp add: base_of_def)
    next
      case False
      then show ?thesis using i by (intro exI [of _ st] exI [of _ S']) simp
    qed
  qed
  have fin: "untouched S S' \<Longrightarrow> u_tree S' = u_tree S \<and> u_area S' = u_area S \<and> u_free S' = u_free S" for S' using untouchedD by blast
  have b: "uint (max (u_base S) (r_address r)) + uint sz \<le> 2 ^ 64" "uint (max (u_base S) USER_BASE_ANY) + uint sz \<le> 2 ^ 64"
    using assms(6,8,9) by (auto simp: max_def word_le_def USER_BASE_ANY_def)
  define leave where "leave = (\<lambda>(status, S). done_with (status, if status = B_OK then S\<lparr>u_free := u_free S - size_of S x\<rparr> else S) :: (status \<times> uspace) run)"
  have goal: ?thesis if run: "InsertArea x sz r alloc S = and_then (InsertAreaSlot start sz end (r_spec r) (r_alignment r) x alloc S) leave"
      and pre: "uint start + uint sz \<le> 2 ^ 64" "r_spec r = B_EXACT_ADDRESS \<Longrightarrow> start = r_address r"
        "r_spec r = B_RANDOMIZED_BASE_ADDRESS \<Longrightarrow> uint (ROUNDUP start (2 ^ k)) + uint sz \<le> uint end + 1"
        "r_spec r \<noteq> B_EXACT_ADDRESS \<Longrightarrow> r_spec r \<in> open_specs \<and> start = search_start S r \<and> end = u_end S" for start "end"
  proof -
    obtain st S' where "InsertArea x sz r alloc S = done_with (st, S')"
      "if st = B_OK then inserted S t x sz (2 ^ k) S' \<and> (r_spec r = B_EXACT_ADDRESS \<longrightarrow> base_of S' x = start) \<and> u_free S' = u_free S - sz else untouched S S'"
      "inord t = [] \<and> r_spec r \<in> open_specs \<longrightarrow> st = B_OK"
      using slot [OF pre(1) _ pre(3,4)] pre(2) assms(12) unfolding run leave_def by blast
    then show ?thesis using fin [of S'] pre(2) by (intro exI [of _ st] exI [of _ S']) (auto simp: inserted_def split: if_splits)
  qed
  note run = InsertArea_def Let_def leave_def open_specs_def search_start_def is_base_address_spec_def
  show ?thesis
  proof (cases "r_spec r")
    case B_ANY_ADDRESS
    show ?thesis by (rule goal [of "max (u_base S) USER_BASE_ANY" "u_end S"]) (use B_ANY_ADDRESS b in \<open>simp_all add: run\<close>)
  next
    case B_EXACT_ADDRESS
    show ?thesis by (rule goal [of "r_address r" "r_address r + (sz - 1)"]) (use B_EXACT_ADDRESS assms(9) in \<open>simp_all add: run\<close>)
  next
    case B_BASE_ADDRESS
    show ?thesis by (rule goal [of "max (u_base S) (r_address r)" "u_end S"]) (use B_BASE_ADDRESS b in \<open>simp_all add: run\<close>)
  next
    case B_ANY_KERNEL_ADDRESS
    show ?thesis by (rule goal [of "max (u_base S) USER_BASE_ANY" "u_end S"]) (use B_ANY_KERNEL_ADDRESS b in \<open>simp_all add: run\<close>)
  next
    case B_ANY_KERNEL_BLOCK_ADDRESS
    show ?thesis by (rule goal [of "max (u_base S) USER_BASE_ANY" "u_end S"]) (use B_ANY_KERNEL_BLOCK_ADDRESS b in \<open>simp_all add: run\<close>)
  next
    case B_RANDOMIZED_ANY_ADDRESS
    show ?thesis by (rule goal [of "max (u_base S) USER_BASE_ANY" "u_end S"]) (use B_RANDOMIZED_ANY_ADDRESS b in \<open>simp_all add: run\<close>)
  next
    case B_RANDOMIZED_BASE_ADDRESS
    show ?thesis by (rule goal [of "max (u_base S) (r_address r)" "u_end S"]) (use B_RANDOMIZED_BASE_ADDRESS b assms(13) in \<open>simp_all add: run\<close>)
  qed (auto simp: InsertArea_def Let_def open_specs_def)
qed

subsection \<open>Examples\<close>

text \<open>Three areas of a page each at 2, 3 and 4 MB; the last one is a reserved range in the second space.\<close>

definition example_space :: "bool \<Rightarrow> uspace" where
  "example_space res = \<lparr>u_base = 0x100000, u_end = 0x7fffffffffff, u_free = 0x7fffffefd000, u_refs = 1, u_changes = 0, u_randomizing = False,
     u_deleting = False, u_hint = 0, u_tree = example_tree,
     u_area = (\<lambda>n. \<lparr>a_id = (if res \<and> n = 30 then RESERVED_AREA_ID else int n), a_name = [],
       a_base = (if n = 10 then 0x200000 else if n = 20 then 0x300000 else if n = 30 then 0x400000 else 0), a_size = 0x1000,
       a_protection = 0, a_cache_offset = 0x400000\<rparr>),
     u_random = (\<lambda>_. 0)\<rparr>"

definition example_shape :: atree where
  "example_shape = Nd (Nd Lf 10 0 Lf) 20 0 (Nd Lf 30 0 Lf)"

lemma example_inord: "inord example_shape = [10, 20, 30]"
  by (simp add: example_shape_def)

lemma example_inv: "ua_inv (example_space res) example_shape"
  using example_rep by (simp add: ua_inv_def example_shape_def example_space_def space_ok_def base_of_def size_of_def)

lemma example_reserved: "reserved (example_space res) n \<longleftrightarrow> res \<and> n = 30"
  by (simp add: reserved_def example_space_def RESERVED_AREA_ID_def)

lemma example_fields: "t_count (u_tree (example_space res)) = 3" "u_deleting (example_space res) = False" "u_base (example_space res) = 0x100000"
  "u_end (example_space res) = 0x7fffffffffff" "size_of (example_space res) n = 0x1000" "base_of (example_space res) 10 = 0x200000"
  "base_of (example_space res) 20 = 0x300000" "base_of (example_space res) 30 = 0x400000" "a_cache_offset (u_area (example_space res) n) = 0x400000"
  by (simp_all add: example_space_def base_of_def size_of_def example_tree_def)

definition example_request :: restrictions where
  "example_request = \<lparr>r_address = 0x500000, r_spec = B_EXACT_ADDRESS, r_alignment = 0\<rparr>"

text \<open>A new address space, and a request for a page anywhere.\<close>

definition fresh_space :: uspace where
  "fresh_space = VMUserAddressSpace 0x100000 0x700000 (\<lambda>_. \<lparr>n_parent = None, n_left = None, n_right = None, n_balance = 0\<rparr>)
     (\<lambda>n. \<lparr>a_id = int n, a_name = [], a_base = 0, a_size = 0, a_protection = 0, a_cache_offset = 0\<rparr>) (\<lambda>_. 0)"

lemma fresh_inv: "ua_inv fresh_space Lf"
  by (simp add: ua_inv_def fresh_space_def VMUserAddressSpace_def AVLTreeBase_def avl_rep_def space_ok_def)

theorem insert_area_apart_witness:
  "(\<exists>st S'. InsertArea 25 0x2000 example_request None (example_space False) = done_with (st, S')
      \<and> (st = B_OK \<longrightarrow> base_of S' 25 = 0x500000 \<and> size_of S' 25 = 0x2000))
    \<and> (\<exists>S'. InsertArea 1 0x1000 \<lparr>r_address = 0, r_spec = B_ANY_ADDRESS, r_alignment = 0\<rparr> None fresh_space = done_with (B_OK, S')
      \<and> size_of S' 1 = 0x1000 \<and> u_free S' = 0x6ff000)"
proof
  have "\<exists>st S'. InsertArea 25 0x2000 example_request None (example_space False) = done_with (st, S') \<and>
    (if st = B_OK then (\<exists>t'. ua_inv S' t' \<and> set (inord t') = insert 25 (set (inord example_shape))) \<and> size_of S' 25 = 0x2000 \<and> aligned (2 ^ 12) (base_of S' 25)
        \<and> (r_spec example_request = B_EXACT_ADDRESS \<longrightarrow> base_of S' 25 = r_address example_request)
        \<and> (\<forall>y. y \<noteq> 25 \<longrightarrow> u_area S' y = u_area (example_space False) y) \<and> u_free S' = u_free (example_space False) - 0x2000
     else u_tree S' = u_tree (example_space False) \<and> u_area S' = u_area (example_space False) \<and> u_free S' = u_free (example_space False))
     \<and> (inord example_shape = [] \<and> r_spec example_request \<in> open_specs \<longrightarrow> st = B_OK)"
    by (rule insert_area_apart [OF example_inv])
      (simp_all add: example_inord example_fields example_reserved example_request_def USER_BASE_ANY_def alignment_of_def B_PAGE_SIZE_def aligned_def)
  then show "\<exists>st S'. InsertArea 25 0x2000 example_request None (example_space False) = done_with (st, S')
      \<and> (st = B_OK \<longrightarrow> base_of S' 25 = 0x500000 \<and> size_of S' 25 = 0x2000)"
    by (elim exE conjE) (rule exI, rule exI, rule conjI, assumption, auto simp: example_request_def)
  let ?r = "\<lparr>r_address = 0, r_spec = B_ANY_ADDRESS, r_alignment = 0\<rparr>"
  have "\<exists>st S'. InsertArea 1 0x1000 ?r None fresh_space = done_with (st, S') \<and>
    (if st = B_OK then (\<exists>t'. ua_inv S' t' \<and> set (inord t') = insert 1 (set (inord Lf))) \<and> size_of S' 1 = 0x1000 \<and> aligned (2 ^ 12) (base_of S' 1)
        \<and> (r_spec ?r = B_EXACT_ADDRESS \<longrightarrow> base_of S' 1 = r_address ?r)
        \<and> (\<forall>y. y \<noteq> 1 \<longrightarrow> u_area S' y = u_area fresh_space y) \<and> u_free S' = u_free fresh_space - 0x1000
     else u_tree S' = u_tree fresh_space \<and> u_area S' = u_area fresh_space \<and> u_free S' = u_free fresh_space)
     \<and> (inord Lf = [] \<and> r_spec ?r \<in> open_specs \<longrightarrow> st = B_OK)"
    by (rule insert_area_apart [OF fresh_inv])
      (simp_all add: fresh_space_def VMUserAddressSpace_def AVLTreeBase_def USER_BASE_ANY_def alignment_of_def slot_alignment_def first_slot_def
        search_start_def is_base_address_spec_def B_PAGE_SIZE_def ROUNDUP_def ROUNDDOWN_def)
  moreover have "u_free fresh_space - 0x1000 = 0x6ff000" by (simp add: fresh_space_def VMUserAddressSpace_def)
  ultimately show "\<exists>S'. InsertArea 1 0x1000 ?r None fresh_space = done_with (B_OK, S') \<and> size_of S' 1 = 0x1000 \<and> u_free S' = 0x6ff000"
    by (auto simp: open_specs_def)
qed

text \<open>In an empty address space where the aligned start lies behind the end, the search reads through a null pointer.\<close>

lemma insert_empty_space_crash:
  "InsertArea x 0x2000 \<lparr>r_address = 0, r_spec = B_ANY_ADDRESS, r_alignment = 0x10000000000\<rparr> alloc
     (VMUserAddressSpace 0x100000 0x700000 nodes areas random) = crash_with Null_pointer"
  by (simp add: InsertArea_def InsertAreaSlot_def place_area_def VMUserAddressSpace_def USER_BASE_ANY_def Let_def align_address_def ROUNDUP_def ROUNDDOWN_def
    is_base_address_spec_def AVLTreeBase_def search_spot.simps [where start = "0x10000000000"] ua_FindClosest_def FindClosest_def key_loop.simps LeftMost_def
    GetIterator_node_def Next_def iter_Next_def is_valid_spot_def hole_loop.simps)

end
