(* ===== verification/Vm_UserAreaResize.thy ===== *)
theory Vm_UserAreaResize
  imports Vm_UserAreaInsert
begin

text \<open>
  Removal and resizing of areas and giving back of reserved ranges in a user address space, on top of the invariant of
  \<open>Vm_UserAreaInsert\<close>.
\<close>

subsection \<open>Removal and resizing\<close>

lemma sorted_wrt_remove1: "sorted_wrt R xs \<Longrightarrow> sorted_wrt R (remove1 x xs)"
proof (induction xs)
  case (Cons a xs)
  have "set (remove1 x xs) \<subseteq> set xs" by (rule set_remove1_subset)
  then show ?case using Cons by auto
qed simp

lemma ua_Remove_at:
  assumes inv: "ua_inv S t" and x: "x \<in> set (inord t)" "t_count (u_tree S) < 9227464"
  shows "\<exists>T' t'. ua_Remove x S = done_with (S\<lparr>u_tree := T'\<rparr>) \<and> ua_inv (S\<lparr>u_tree := T'\<rparr>) t' \<and> inord t' = remove1 x (inord t)"
proof -
  have rep: "avl_rep (u_tree S) t" and ok: "space_ok S (inord t)" using inv by (auto simp: ua_inv_def)
  obtain res T' t' where 1: "avl_Remove (Some x) (u_tree S) = Some (Some (res, T'))" "avl_rep T' t'" "inord t' = remove1 x (inord t)"
    using remove_law [OF rep _ x(1)] avl_rep_height [OF rep x(2)] by auto
  have "space_ok S (remove1 x (inord t))"
    using ok set_remove1_subset [of x "inord t"] sorted_wrt_remove1 [of _ "inord t" x] by (auto simp: space_ok_def)
  then have "ua_inv (S\<lparr>u_tree := T'\<rparr>) t'" using 1 by (simp add: ua_inv_def space_ok_def base_of_def size_of_def)
  then show ?thesis using 1 by (intro exI [of _ T'] exI [of _ t']) (simp add: ua_Remove_def Remove_node_def)
qed

lemma count_card: "avl_rep T t \<Longrightarrow> t_count T = int (card (set (inord t)))"
  by (simp add: avl_rep_def distinct_card)

lemma RemoveArea_at:
  assumes inv: "ua_inv S t" and x: "x \<in> set (inord t)" "t_count (u_tree S) < 9227464"
  shows "\<exists>S' t'. RemoveArea x S = done_with S' \<and> ua_inv S' t' \<and> inord t' = remove1 x (inord t) \<and> u_area S' = u_area S
    \<and> u_base S' = u_base S \<and> u_end S' = u_end S \<and> u_free S' = (if reserved S x then u_free S else u_free S + size_of S x)
    \<and> t_count (u_tree S') = t_count (u_tree S) - 1 \<and> u_refs S' = u_refs S"
proof -
  have rep: "avl_rep (u_tree S) t" using inv by (simp add: ua_inv_def)
  obtain T' t' where 1: "ua_Remove x S = done_with (S\<lparr>u_tree := T'\<rparr>)" "ua_inv (S\<lparr>u_tree := T'\<rparr>) t'" "inord t' = remove1 x (inord t)"
    using ua_Remove_at [OF inv x] by blast
  have "set (inord t') = set (inord t) - {x}" using 1(3) rep by (simp add: avl_rep_def)
  moreover have "0 < card (set (inord t))" using x(1) by (auto simp: card_gt_0_iff)
  ultimately have c: "t_count T' = t_count (u_tree S) - 1"
    using count_card [of T' t'] count_card [OF rep] 1(2) x(1) by (simp add: ua_inv_def card_Diff_singleton of_nat_diff)
  obtain S' where S': "RemoveArea x S = done_with S'" "u_tree S' = T'" "u_area S' = u_area S" "u_base S' = u_base S" "u_end S' = u_end S"
    "u_free S' = (if reserved S x then u_free S else u_free S + size_of S x)" "u_refs S' = u_refs S"
    using 1(1) by (auto simp: RemoveArea_def Let_def IncrementChangeCount_def reserved_def base_of_def size_of_def)
  then have "ua_inv S' t'" using 1(2) by (simp add: ua_inv_def space_ok_def base_of_def size_of_def)
  then show ?thesis using S' 1(3) c by auto
qed

text \<open>What \<open>CanResizeArea\<close> finds behind the area: reserved ranges that end before the new end, then room.\<close>

definition room_behind :: "uspace \<Rightarrow> int \<Rightarrow> node_ptr list \<Rightarrow> bool" where
  "room_behind S e ys \<longleftrightarrow> (\<exists>rs zs. ys = rs @ zs \<and> (\<forall>y \<in> set rs. reserved S y \<and> uint (base_of S y) + uint (size_of S y) - 1 < e)
     \<and> (case zs of [] \<Rightarrow> e \<le> uint (u_end S)
        | z # _ \<Rightarrow> e < uint (base_of S z) \<or> reserved S z \<and> uint (base_of S z) \<le> e \<and> e < uint (base_of S z) + uint (size_of S z)))"

lemma room_behind_Cons:
  "room_behind S e (y # ys) \<longleftrightarrow> e < uint (base_of S y)
     \<or> reserved S y \<and> uint (base_of S y) \<le> e \<and> e < uint (base_of S y) + uint (size_of S y)
     \<or> reserved S y \<and> uint (base_of S y) + uint (size_of S y) - 1 < e \<and> room_behind S e ys"
proof
  assume "room_behind S e (y # ys)"
  then obtain rs zs where z: "y # ys = rs @ zs" "\<forall>y \<in> set rs. reserved S y \<and> uint (base_of S y) + uint (size_of S y) - 1 < e"
    "case zs of [] \<Rightarrow> e \<le> uint (u_end S)
        | z # _ \<Rightarrow> e < uint (base_of S z) \<or> reserved S z \<and> uint (base_of S z) \<le> e \<and> e < uint (base_of S z) + uint (size_of S z)"
    unfolding room_behind_def by blast
  show "e < uint (base_of S y) \<or> reserved S y \<and> uint (base_of S y) \<le> e \<and> e < uint (base_of S y) + uint (size_of S y)
     \<or> reserved S y \<and> uint (base_of S y) + uint (size_of S y) - 1 < e \<and> room_behind S e ys"
  proof (cases rs)
    case Nil
    then show ?thesis using z(1,3) by auto
  next
    case (Cons r rs')
    then have "ys = rs' @ zs" "y = r" using z(1) by auto
    then show ?thesis using z(2,3) Cons unfolding room_behind_def by auto
  qed
next
  assume "e < uint (base_of S y) \<or> reserved S y \<and> uint (base_of S y) \<le> e \<and> e < uint (base_of S y) + uint (size_of S y)
     \<or> reserved S y \<and> uint (base_of S y) + uint (size_of S y) - 1 < e \<and> room_behind S e ys"
  then consider "e < uint (base_of S y) \<or> reserved S y \<and> uint (base_of S y) \<le> e \<and> e < uint (base_of S y) + uint (size_of S y)"
    | rs zs where "reserved S y" "uint (base_of S y) + uint (size_of S y) - 1 < e" "ys = rs @ zs"
      "\<forall>y \<in> set rs. reserved S y \<and> uint (base_of S y) + uint (size_of S y) - 1 < e"
      "case zs of [] \<Rightarrow> e \<le> uint (u_end S)
        | z # _ \<Rightarrow> e < uint (base_of S z) \<or> reserved S z \<and> uint (base_of S z) \<le> e \<and> e < uint (base_of S z) + uint (size_of S z)"
    unfolding room_behind_def by blast
  then show "room_behind S e (y # ys)"
  proof cases
    case 1
    then show ?thesis unfolding room_behind_def by (intro exI [of _ "[]"] exI [of _ "y # ys"]) simp
  next
    case 2
    then show ?thesis unfolding room_behind_def by (intro exI [of _ "y # rs"] exI [of _ zs]) simp
  qed
qed

lemma room_behind_Nil: "room_behind S e [] \<longleftrightarrow> e \<le> uint (u_end S)"
  by (simp add: room_behind_def)

lemma can_resize_loop_at:
  assumes inv: "ua_inv S t" and l: "inord t = xs @ ys"
  shows "can_resize_loop S newEnd (first_of ys) = done_with (room_behind S (uint newEnd) ys)"
  using l
proof (induction ys arbitrary: xs)
  case Nil
  then show ?case by (subst can_resize_loop.simps) (simp add: room_behind_Nil word_le_def)
next
  case (Cons y ys)
  have ok: "space_ok S (inord t)" using inv by (simp add: ua_inv_def)
  have y: "y \<in> set (inord t)" using Cons.prems by simp
  note o = space_okD [OF ok y]
  have e: "uint (base_of S y + (size_of S y - 1)) = uint (base_of S y) + uint (size_of S y) - 1" by (rule last_word [OF o(2,4)])
  have n: "ua_Next S y = done_with (first_of ys)" using ua_laws(2) [OF inv Cons.prems] .
  have ih: "can_resize_loop S newEnd (first_of ys) = done_with (room_behind S (uint newEnd) ys)" using Cons.IH [of "xs @ [y]"] Cons.prems by simp
  show ?case by (subst can_resize_loop.simps) (auto simp: room_behind_Cons n ih word_less_def word_le_def e)
qed

text \<open>The loop of \<open>ResizeArea\<close> makes the room: the reserved ranges in the way are removed or lose their head.\<close>

lemma space_ok_same:
  assumes "space_ok S xs" "u_base S' = u_base S" "u_end S' = u_end S" "\<And>y. y \<in> set xs \<Longrightarrow> base_of S' y = base_of S y \<and> size_of S' y = size_of S y"
  shows "space_ok S' xs"
proof -
  have "sorted_wrt (\<lambda>x y. uint (base_of S' x) + uint (size_of S' x) \<le> uint (base_of S' y)) xs"
    by (rule sorted_wrt_mono_rel [of xs "\<lambda>x y. uint (base_of S x) + uint (size_of S x) \<le> uint (base_of S y)"])
      (use assms in \<open>auto simp: space_ok_def\<close>)
  then show ?thesis using assms by (auto simp: space_ok_def)
qed

lemma move_head:
  assumes ok: "space_ok S (us @ z # vs)" and z: "z \<notin> set (us @ vs)"
    and e: "\<And>u. u \<in> set us \<Longrightarrow> uint (base_of S u) + uint (size_of S u) \<le> e" "uint (u_base S) \<le> e" "e < uint (base_of S z) + uint (size_of S z)"
    and S': "u_base S' = u_base S" "u_end S' = u_end S" "uint (base_of S' z) = e" "uint (size_of S' z) = uint (base_of S z) + uint (size_of S z) - e"
      "\<And>y. y \<noteq> z \<Longrightarrow> base_of S' y = base_of S y" "\<And>y. y \<noteq> z \<Longrightarrow> size_of S' y = size_of S y"
  shows "space_ok S' (us @ z # vs)"
proof -
  have hi: "e + uint (size_of S' z) \<le> uint (base_of S v)" if "v \<in> set vs" for v
    using space_ok_split [of S "us @ [z]" vs z v] ok that S'(4) by simp
  have zz: "z \<in> set (us @ z # vs)" by simp
  show ?thesis
    by (rule put_middle [OF space_ok_drop [OF ok] z]) (use hi e S' space_okD(3) [OF ok zz] in auto)
qed

lemma room_after_removal:
  assumes ok: "space_ok S (xs @ n # ys)" and ge: "uint (base_of S n) + uint (size_of S n) \<le> e + 1"
    and rm: "e < uint (base_of S n) + uint (size_of S n) \<or> room_behind S e ys"
  shows "room_behind S e ys"
proof (cases "room_behind S e ys")
  case False
  then have eq: "e + 1 = uint (base_of S n) + uint (size_of S n)" using rm ge by linarith
  show ?thesis
  proof (cases ys)
    case Nil
    then show ?thesis using space_okD(3) [OF ok, of n] eq by (simp add: room_behind_Nil)
  next
    case (Cons y ys')
    then have "uint (base_of S n) + uint (size_of S n) \<le> uint (base_of S y)" using space_ok_split [of S "xs @ [n]" ys n y] ok by simp
    then show ?thesis using eq Cons by (simp add: room_behind_Cons)
  qed
qed

lemma room_behind_cong:
  assumes "u_area S' = u_area S" "u_end S' = u_end S"
  shows "room_behind S' e ys = room_behind S e ys"
proof -
  have "base_of S' = base_of S" "size_of S' = size_of S" "reserved S' = reserved S"
    by (simp_all add: fun_eq_iff base_of_def size_of_def reserved_def assms(1))
  then show ?thesis by (simp only: room_behind_def assms(2))
qed

lemma ShrinkAreaHead_at:
  assumes inv: "ua_inv S t" and l: "inord t = us @ n # vs" and off: "0 < uint offset" "uint offset < uint (size_of S n)"
  shows "\<exists>S'. ShrinkAreaHead n (size_of S n - offset) S = (B_OK, S') \<and> ua_inv S' t \<and> uint (base_of S' n) = uint (base_of S n) + uint offset
    \<and> (\<forall>y. y \<noteq> n \<longrightarrow> u_area S' y = u_area S y) \<and> (\<forall>y. a_id (u_area S' y) = a_id (u_area S y)) \<and> u_base S' = u_base S \<and> u_end S' = u_end S"
proof -
  have ok: "space_ok S (us @ n # vs)" and rep: "avl_rep (u_tree S) t" using inv l by (simp_all add: ua_inv_def)
  have nt: "n \<in> set (us @ n # vs)" and d: "n \<notin> set (us @ vs)" using rep l by (auto simp: avl_rep_def)
  note o = space_okD [OF ok nt]
  define S' where "S' = snd (ShrinkAreaHead n (size_of S n - offset) S)"
  have ns: "size_of S n - offset \<noteq> size_of S n" using off(1) by auto
  have "base_of S n + size_of S n - (size_of S n - offset) = base_of S n + offset" by simp
  then have f: "base_of S' n = base_of S n + offset" "size_of S' n = size_of S n - offset" "u_tree S' = u_tree S" "u_base S' = u_base S" "u_end S' = u_end S"
    "\<And>y. y \<noteq> n \<Longrightarrow> u_area S' y = u_area S y" "\<And>y. a_id (u_area S' y) = a_id (u_area S y)"
    using ns by (simp_all add: S'_def ShrinkAreaHead_def area_sets)
  have b: "uint (base_of S' n) = uint (base_of S n) + uint offset" unfolding f(1) by (rule end_word) (use o off in linarith)
  have s: "uint (size_of S' n) = uint (size_of S n) - uint offset" unfolding f(2) using off(2) by (simp add: uint_sub_if')
  have "space_ok S' (us @ n # vs)"
    by (rule move_head [OF ok d, of "uint (base_of S n) + uint offset"])
      (use o off b s f space_ok_split [of S us "n # vs" _ n] ok in \<open>fastforce simp: base_of_def size_of_def\<close>)+
  then have "ua_inv S' t" using rep l f(3) by (simp add: ua_inv_def)
  moreover have "ShrinkAreaHead n (size_of S n - offset) S = (B_OK, S')" using ns by (simp add: S'_def ShrinkAreaHead_def Let_def)
  ultimately show ?thesis using b f by auto
qed

lemma resize_loop_at:
  assumes "ua_inv S t" "inord t = xs @ x # ys" "t_count (u_tree S) < 9227464" "room_behind S (uint newEnd) ys"
    "uint newEnd = uint (base_of S x) + uint newSize - 1" "0 < uint newSize" "uint newEnd < 2 ^ 63"
  shows "\<exists>S' t' zs. resize_loop x newSize newEnd (first_of ys) S = done_with (B_OK, S') \<and> ua_inv S' t' \<and> inord t' = xs @ x # zs
    \<and> (\<forall>z \<in> set zs. uint newEnd < uint (base_of S' z)) \<and> set zs \<subseteq> set ys \<and> {y \<in> set ys. \<not> reserved S y} \<subseteq> set zs
    \<and> (\<forall>y. \<not> reserved S y \<or> y \<notin> set ys \<longrightarrow> u_area S' y = u_area S y) \<and> (\<forall>y. a_id (u_area S' y) = a_id (u_area S y))
    \<and> u_base S' = u_base S \<and> u_end S' = u_end S"
  using assms
proof (induction ys arbitrary: S t)
  case Nil
  then show ?case by (subst resize_loop.simps) auto
next
  case (Cons n ys)
  note pr = Cons.prems
  have rep: "avl_rep (u_tree S) t" and ok: "space_ok S (inord t)" using pr(1) by (auto simp: ua_inv_def)
  have n: "n \<in> set (inord t)" using pr(2) by simp
  note o = space_okD [OF ok n]
  have dist: "distinct (inord t)" using rep by (simp add: avl_rep_def)
  show ?case
  proof (cases "uint newEnd < uint (base_of S n)")
    case True
    then have run: "resize_loop x newSize newEnd (first_of (n # ys)) S = done_with (B_OK, S)" by (subst resize_loop.simps) (simp add: word_less_def)
    have "uint newEnd < uint (base_of S z)" if "z \<in> set (n # ys)" for z
      using that True space_ok_split [of S "xs @ [x, n]" ys n z] ok pr(2) o(2) by auto
    then show ?thesis using run pr(1,2) by (intro exI [of _ S] exI [of _ t] exI [of _ "n # ys"]) auto
  next
    case False
    then have r: "reserved S n" and rm: "uint newEnd < uint (base_of S n) + uint (size_of S n) \<or> room_behind S (uint newEnd) ys"
      using pr(4) by (auto simp: room_behind_Cons)
    define offset where "offset = (base_of S x + newSize) - base_of S n"
    have "uint (base_of S x + newSize) = uint newEnd + 1" using pr(5,7) by (subst end_word) auto
    then have off: "uint offset = uint newEnd + 1 - uint (base_of S n)" using False by (simp add: offset_def uint_sub_if')
    have nx: "ua_Next S n = done_with (first_of ys)" using ua_laws(2) [OF pr(1), of "xs @ [x]" n ys] pr(2) by simp
    have ne: "\<not> newEnd < base_of S n" using False by (simp add: word_less_def)
    show ?thesis
    proof (cases "size_of S n \<le> offset")
      case True
      obtain S1 t1 where 1: "RemoveArea n S = done_with S1" "ua_inv S1 t1" "inord t1 = remove1 n (inord t)" "u_area S1 = u_area S"
        "u_base S1 = u_base S" "u_end S1 = u_end S" "t_count (u_tree S1) = t_count (u_tree S) - 1"
        using RemoveArea_at [OF pr(1) n pr(3)] by blast
      have i1: "inord t1 = xs @ x # ys" using 1(3) pr(2) dist by (simp add: remove1_append)
      define S2 where "S2 = ua_Put S1"
      have S2: "u_area S2 = u_area S" "u_base S2 = u_base S" "u_end S2 = u_end S" "ua_inv S2 t1" "t_count (u_tree S2) < 9227464"
        using 1 pr(3) by (simp_all add: S2_def ua_Put_def ua_inv_def space_ok_def base_of_def size_of_def)
      have "room_behind S (uint newEnd) ys"
        by (rule room_after_removal [of S "xs @ [x]" n]) (use ok pr(2) rm True off in \<open>auto simp: word_le_def\<close>)
      then have room: "room_behind S2 (uint newEnd) ys" unfolding room_behind_cong [OF S2(1,3)] .
      have bx: "uint newEnd = uint (base_of S2 x) + uint newSize - 1" using pr(5) S2(1) by (simp add: base_of_def)
      have rs: "reserved S2 y = reserved S y" for y using S2(1) by (simp add: reserved_def)
      obtain S' t' zs where ih: "resize_loop x newSize newEnd (first_of ys) S2 = done_with (B_OK, S')" "ua_inv S' t'" "inord t' = xs @ x # zs"
        "\<forall>z \<in> set zs. uint newEnd < uint (base_of S' z)" "set zs \<subseteq> set ys" "{y \<in> set ys. \<not> reserved S2 y} \<subseteq> set zs"
        "\<forall>y. \<not> reserved S2 y \<or> y \<notin> set ys \<longrightarrow> u_area S' y = u_area S2 y" "\<forall>y. a_id (u_area S' y) = a_id (u_area S2 y)" "u_base S' = u_base S2" "u_end S' = u_end S2"
        using Cons.IH [OF S2(4) i1 S2(5) room bx pr(6,7)] by blast
      have "resize_loop x newSize newEnd (first_of (n # ys)) S = resize_loop x newSize newEnd (first_of ys) S2"
        using ne r True nx 1(1) by (subst resize_loop.simps) (simp add: offset_def S2_def Let_def)
      then show ?thesis using ih S2(1-3) rs r by (intro exI [of _ S'] exI [of _ t'] exI [of _ zs]) auto
    next
      case F: False
      have lt: "0 < uint offset" "uint offset < uint (size_of S n)" using F off False by (simp_all add: word_le_def)
      have l: "inord t = (xs @ [x]) @ n # ys" using pr(2) by simp
      obtain S' where S': "ShrinkAreaHead n (size_of S n - offset) S = (B_OK, S')" "ua_inv S' t" "uint (base_of S' n) = uint (base_of S n) + uint offset"
        "\<forall>y. y \<noteq> n \<longrightarrow> u_area S' y = u_area S y" "\<forall>y. a_id (u_area S' y) = a_id (u_area S y)" "u_base S' = u_base S" "u_end S' = u_end S"
        using ShrinkAreaHead_at [OF pr(1) l lt] by blast
      have run: "resize_loop x newSize newEnd (first_of (n # ys)) S = done_with (B_OK, S')"
        using ne r F S'(1) by (subst resize_loop.simps) (simp add: offset_def [symmetric] Let_def)
      have ub: "uint (base_of S' n) = uint newEnd + 1" using S'(3) off by simp
      have ok': "space_ok S' (inord t)" using S'(2) by (simp add: ua_inv_def)
      have "uint newEnd < uint (base_of S' z)" if "z \<in> set (n # ys)" for z
        using that ub space_ok_split [of S' "xs @ [x, n]" ys n z] ok' pr(2) space_okD(2) [OF ok' n] by auto
      moreover have "\<not> reserved S y \<or> y \<notin> set (n # ys) \<longrightarrow> u_area S' y = u_area S y" for y using S'(4) r by (cases "y = n") auto
      ultimately show ?thesis using run S'(2,5-7) pr(2) r
        by (intro exI [of _ S'] exI [of _ t] exI [of _ "n # ys"]) auto
    qed
  qed
qed

lemma resize_ok:
  assumes ok: "space_ok S (us @ x # vs)" and x: "x \<notin> set (us @ vs)" and n: "0 < n" "uint (base_of S x) + n \<le> uint (u_end S) + 1"
    "\<And>v. v \<in> set vs \<Longrightarrow> uint (base_of S x) + n \<le> uint (base_of S v)"
    and S': "u_base S' = u_base S" "u_end S' = u_end S" "base_of S' x = base_of S x" "uint (size_of S' x) = n"
      "\<And>y. y \<noteq> x \<Longrightarrow> base_of S' y = base_of S y" "\<And>y. y \<noteq> x \<Longrightarrow> size_of S' y = size_of S y"
  shows "space_ok S' (us @ x # vs)"
proof -
  have lo: "uint (base_of S u) + uint (size_of S u) \<le> uint (base_of S x)" if "u \<in> set us" for u
    using space_ok_split [of S us "x # vs" u x] ok that by simp
  have xx: "x \<in> set (us @ x # vs)" by simp
  show ?thesis
    by (rule put_middle [OF space_ok_drop [OF ok] x]) (use lo n S' space_okD(1) [OF ok xx] in auto)
qed

lemma room_end:
  assumes "room_behind S e ys" "space_ok S (xs @ ys)"
  shows "e \<le> uint (u_end S)"
proof -
  obtain rs zs where z: "ys = rs @ zs" "case zs of [] \<Rightarrow> e \<le> uint (u_end S)
        | z # _ \<Rightarrow> e < uint (base_of S z) \<or> reserved S z \<and> uint (base_of S z) \<le> e \<and> e < uint (base_of S z) + uint (size_of S z)"
    using assms(1) unfolding room_behind_def by blast
  show ?thesis
  proof (cases zs)
    case (Cons w ws)
    then have "w \<in> set (xs @ ys)" using z(1) by simp
    then show ?thesis using space_okD [OF assms(2)] z(2) Cons by fastforce
  qed (use z(2) in simp)
qed

lemma last_nowrap:
  fixes b s :: addr
  assumes "0 < uint s" "\<not> b + (s - 1) < b"
  shows "uint (b + (s - 1)) = uint b + uint s - 1"
proof -
  have "uint (s - 1) = uint s - 1" using assms(1) by (simp add: uint_sub_if')
  then show ?thesis using assms uint_lt2p [of s] uint_lt2p [of b] unfolding word_less_def uint_plus_if' by (auto split: if_splits)
qed

definition resized :: "uspace \<Rightarrow> atree \<Rightarrow> node_ptr \<Rightarrow> addr \<Rightarrow> uspace \<Rightarrow> bool" where
  "resized S t x newSize S' \<longleftrightarrow> size_of S' x = newSize \<and> base_of S' x = base_of S x
     \<and> (\<forall>y. y \<noteq> x \<and> \<not> reserved S y \<longrightarrow> u_area S' y = u_area S y)
     \<and> (\<exists>t'. ua_inv S' t' \<and> x \<in> set (inord t') \<and> {y \<in> set (inord t'). \<not> reserved S' y} = {y \<in> set (inord t). \<not> reserved S y})"

lemma resize_grow:
  assumes inv: "ua_inv S t" and l: "inord t = xs @ x # ys" and c: "t_count (u_tree S) < 9227464" and room: "room_behind S (uint newEnd) ys"
    and e: "uint newEnd = uint (base_of S x) + uint newSize - 1" "0 < uint newSize"
  shows "\<exists>S1. resize_loop x newSize newEnd (first_of ys) S = done_with (B_OK, S1) \<and> resized S t x newSize (SetSize x newSize S1)"
proof -
  have ok: "space_ok S (inord t)" and dist: "distinct (inord t)" using inv by (auto simp: ua_inv_def avl_rep_def)
  have en: "uint newEnd \<le> uint (u_end S)" using room_end [OF room, of "xs @ [x]"] ok l by simp
  then have "uint newEnd < 2 ^ 63" using ok by (simp add: space_ok_def)
  then obtain S1 t1 zs where 1: "resize_loop x newSize newEnd (first_of ys) S = done_with (B_OK, S1)" "ua_inv S1 t1" "inord t1 = xs @ x # zs"
    "\<forall>z \<in> set zs. uint newEnd < uint (base_of S1 z)" "set zs \<subseteq> set ys" "{y \<in> set ys. \<not> reserved S y} \<subseteq> set zs"
    "\<forall>y. \<not> reserved S y \<or> y \<notin> set ys \<longrightarrow> u_area S1 y = u_area S y" "\<forall>y. a_id (u_area S1 y) = a_id (u_area S y)"
    "u_base S1 = u_base S" "u_end S1 = u_end S" using resize_loop_at [OF inv l c room e] by blast
  define S' where "S' = SetSize x newSize S1"
  have xy: "x \<notin> set ys" "x \<notin> set (xs @ zs)" using dist l 1(5) by auto
  have bx: "base_of S1 x = base_of S x" using 1(7) xy(1) by (simp add: base_of_def)
  have f: "u_tree S' = u_tree S1" "u_base S' = u_base S1" "u_end S' = u_end S1" "base_of S' x = base_of S1 x" "size_of S' x = newSize"
    and oth: "\<And>y. y \<noteq> x \<Longrightarrow> u_area S' y = u_area S1 y" and ids: "\<And>y. a_id (u_area S' y) = a_id (u_area S y)"
    using 1(8) by (simp_all add: S'_def area_sets)
  have "space_ok S' (xs @ x # zs)"
  proof (rule resize_ok [of S1 _ _ _ "uint newSize"])
    show "space_ok S1 (xs @ x # zs)" using 1(2,3) by (simp add: ua_inv_def)
    show "uint (base_of S1 x) + uint newSize \<le> uint (base_of S1 v)" if "v \<in> set zs" for v using 1(4) that e(1) bx by fastforce
  qed (use xy e en bx f oth 1(10) in \<open>auto simp: base_of_def size_of_def\<close>)
  then have inv': "ua_inv S' t1" using 1(2,3) f(1) by (simp add: ua_inv_def)
  have rs: "reserved S' y = reserved S y" for y using ids by (simp add: reserved_def)
  have "{y \<in> set (inord t1). \<not> reserved S' y} = {y \<in> set (inord t). \<not> reserved S y}" unfolding rs l 1(3) using 1(5,6) by auto
  moreover have "u_area S' y = u_area S y" if "y \<noteq> x" "\<not> reserved S y" for y using oth [OF that(1)] 1(7) that(2) by simp
  moreover have "x \<in> set (inord t1)" using 1(3) by simp
  ultimately have "resized S t x newSize S'" using f(4,5) bx unfolding resized_def
    by (intro conjI exI [of _ t1]) (simp_all add: inv')
  then show ?thesis using 1(1) S'_def by blast
qed

text \<open>A reserved range that grows down to a lower base keeps its end.\<close>

lemma grow_head_at:
  assumes inv: "ua_inv M t" and l: "inord t = us @ n # vs" and nb: "uint nb \<le> uint (base_of M n)" "uint (u_base M) \<le> uint nb"
    "\<And>u. u \<in> set us \<Longrightarrow> uint (base_of M u) + uint (size_of M u) \<le> uint nb"
    and S': "u_tree S' = u_tree M" "u_base S' = u_base M" "u_end S' = u_end M" "base_of S' n = nb" "size_of S' n = size_of M n + (base_of M n - nb)"
      "\<And>y. y \<noteq> n \<Longrightarrow> u_area S' y = u_area M y"
  shows "ua_inv S' t"
proof -
  have ok: "space_ok M (us @ n # vs)" and rep: "avl_rep (u_tree M) t" using inv l by (simp_all add: ua_inv_def)
  have nt: "n \<in> set (us @ n # vs)" and d: "n \<notin> set (us @ vs)" using rep l by (auto simp: avl_rep_def)
  note o = space_okD [OF ok nt]
  have "uint (base_of M n - nb) = uint (base_of M n) - uint nb" using nb(1) by (simp add: uint_sub_if')
  moreover have "uint (size_of M n + (base_of M n - nb)) = uint (size_of M n) + uint (base_of M n - nb)"
    by (rule end_word) (use calculation o(4) uint_ge_0 [of nb] in linarith)
  ultimately have un: "uint (size_of S' n) = uint (base_of M n) + uint (size_of M n) - uint nb" using S'(5) by simp
  have "space_ok S' (us @ n # vs)"
    by (rule move_head [OF ok d, of "uint nb"]) (use nb o S' un in \<open>auto simp: base_of_def size_of_def\<close>)
  then show ?thesis using rep l S'(1) by (simp add: ua_inv_def)
qed

lemma resize_shrink:
  assumes inv: "ua_inv S t" and l: "inord t = xs @ x # ys" and e: "0 < uint newSize" "uint newSize \<le> uint (size_of S x)"
    and off: "\<forall>y \<in> set (inord t). reserved S y \<longrightarrow> a_cache_offset (u_area S y) \<le> base_of S y"
  defines "oldEnd \<equiv> base_of S x + (size_of S x - 1)" and "newEnd \<equiv> base_of S x + (newSize - 1)"
  shows "\<exists>S1. (case first_of ys of None \<Rightarrow> done_with (B_OK, S)
      | Some n \<Rightarrow>
          if reserved S n \<and> base_of S n = oldEnd + 1
          then
            let oldNextBase = base_of S n;
                newNextBase = max (oldNextBase - (oldEnd - newEnd)) (a_cache_offset (u_area S n));
                S = SetBase n newNextBase S
            in done_with (B_OK, SetSize n (size_of S n + (oldNextBase - newNextBase)) S)
          else done_with (B_OK, S)) = done_with (B_OK, S1) \<and> resized S t x newSize (SetSize x newSize S1)"
proof -
  have ok: "space_ok S (inord t)" and dist: "distinct (inord t)" and rep: "avl_rep (u_tree S) t" using inv by (auto simp: ua_inv_def avl_rep_def)
  have xt: "x \<in> set (inord t)" using l by simp
  note o = space_okD [OF ok xt]
  have oe: "uint oldEnd = uint (base_of S x) + uint (size_of S x) - 1" unfolding oldEnd_def by (rule last_word [OF o(2,4)])
  have "uint (base_of S x) + uint newSize \<le> 2 ^ 63" using o(4) e(2) by linarith
  then have nE: "uint newEnd = uint (base_of S x) + uint newSize - 1" unfolding newEnd_def by (rule last_word [OF e(1)])
  define M where "M = SetSize x newSize S"
  have M: "u_tree M = u_tree S" "u_base M = u_base S" "u_end M = u_end S" "base_of M x = base_of S x" "size_of M x = newSize"
    "\<And>y. y \<noteq> x \<Longrightarrow> u_area M y = u_area S y" "\<And>y. reserved M y = reserved S y" by (simp_all add: M_def area_sets)
  have okM: "space_ok M (xs @ x # ys)"
  proof (rule resize_ok [of S _ _ _ "uint newSize"])
    show "space_ok S (xs @ x # ys)" using ok l by simp
    show "x \<notin> set (xs @ ys)" using dist l by auto
    show "uint (base_of S x) + uint newSize \<le> uint (base_of S v)" if "v \<in> set ys" for v
      using space_ok_split [of S "xs @ [x]" ys x v] ok l that e(2) by simp
  qed (use e o M in \<open>auto simp: base_of_def size_of_def\<close>)
  then have invM: "ua_inv M t" using rep l M(1) by (simp add: ua_inv_def)
  have resM: "resized S t x newSize M" using invM M(4-7) xt unfolding resized_def by auto
  show ?thesis
  proof (cases "first_of ys")
    case None
    then show ?thesis using resM by (simp add: M_def)
  next
    case (Some n)
    then obtain ys' where ys: "ys = n # ys'" by (cases ys) auto
    show ?thesis
    proof (cases "reserved S n \<and> base_of S n = oldEnd + 1")
      case False
      show ?thesis unfolding Some option.case if_not_P [OF False] using resM by (auto simp: M_def)
    next
      case True
      have nt: "n \<in> set (inord t)" using l ys by simp
      note on = space_okD [OF ok nt]
      define nb where "nb = max (base_of S n - (oldEnd - newEnd)) (a_cache_offset (u_area S n))"
      have bn: "uint (base_of S n) = uint oldEnd + 1" using True oe o(4) by (auto simp: uint_plus_if')
      have "uint (oldEnd - newEnd) = uint oldEnd - uint newEnd" using oe nE e(2) by (simp add: uint_sub_if')
      then have sub: "uint (base_of S n - (oldEnd - newEnd)) = uint newEnd + 1" using bn oe nE e o
        by (simp add: uint_sub_if') (insert uint_ge_0 [of "base_of S x"] e(1), linarith)
      have nb: "uint newEnd + 1 \<le> uint nb" "uint nb \<le> uint (base_of S n)"
      proof -
        show "uint newEnd + 1 \<le> uint nb" using sub by (auto simp: nb_def max_def word_le_def)
        have "uint (a_cache_offset (u_area S n)) \<le> uint (base_of S n)" using off nt True by (auto simp: word_le_def)
        then show "uint nb \<le> uint (base_of S n)" using sub bn oe nE e(2) by (auto simp: nb_def max_def)
      qed
      define S1 where "S1 = SetSize n (size_of (SetBase n nb S) n + (base_of S n - nb)) (SetBase n nb S)"
      define S' where "S' = SetSize x newSize S1"
      have xn: "x \<noteq> n" "n \<notin> set ((xs @ [x]) @ ys')" using dist l ys by auto
      have f: "u_tree S' = u_tree M" "u_base S' = u_base M" "u_end S' = u_end M" "base_of S' n = nb" "size_of S' n = size_of M n + (base_of M n - nb)"
        and oth: "\<And>y. y \<noteq> n \<Longrightarrow> u_area S' y = u_area M y" and rs: "\<And>y. reserved S' y = reserved S y"
        using xn(1) by (auto simp: S'_def S1_def M_def area_sets)
      have Mn: "base_of M n = base_of S n" "size_of M n = size_of S n" using M(6) [of n] xn(1) by (simp_all add: base_of_def size_of_def)
      have inv': "ua_inv S' t"
      proof (rule grow_head_at [OF invM, of "xs @ [x]" n ys' nb])
        show "uint (base_of M u) + uint (size_of M u) \<le> uint nb" if "u \<in> set (xs @ [x])" for u
        proof (cases "u = x")
          case True
          then show ?thesis using M(4,5) nE nb(1) by simp
        next
          case False
          then have "uint (base_of M u) + uint (size_of M u) \<le> uint (base_of M x)" using space_ok_split [of M xs "x # ys" u x] okM that by simp
          then show ?thesis using M(4) nE nb(1) e(1) by simp
        qed
        show "uint (u_base M) \<le> uint nb" using M(2) o(1) nE nb(1) e(1) by simp
      qed (use l ys Mn nb(2) f oth in auto)
      have bx: "base_of S' x = base_of S x" "size_of S' x = newSize" using oth [of x] xn(1) M(4,5) by (simp_all add: base_of_def size_of_def)
      have "u_area S' y = u_area S y" if "y \<noteq> x" "\<not> reserved S y" for y
        using oth [of y] M(6) [of y] that True by (cases "y = n") auto
      then have "resized S t x newSize S'" using inv' bx rs xt unfolding resized_def by auto
      then show ?thesis unfolding Some option.case if_P [OF True] Let_def nb_def [symmetric]
        by (intro exI [of _ S1]) (simp add: S'_def S1_def)
    qed
  qed
qed

text \<open>
  C7: When \<open>CanResizeArea\<close> allows a new size, \<open>ResizeArea\<close> returns \<open>B_OK\<close>, without a panic, a failed assertion or an endless
  loop: the area has the new size at the old base, every other area that is no reserved range is unchanged and still in the
  tree, and the areas are apart and inside the address space again. Reserved ranges in the way are shrunk or removed, and
  a reserved range behind a shrinking area grows back, at most down to the base it was reserved with.
\<close>

theorem resize_area_safe:
  assumes "ua_inv S t" "x \<in> set (inord t)" "0 < uint newSize" "CanResizeArea S x newSize = done_with True" "t_count (u_tree S) < 9227464"
    "\<forall>y \<in> set (inord t). reserved S y \<longrightarrow> a_cache_offset (u_area S y) \<le> base_of S y"
  shows "\<exists>S'. ResizeArea x newSize S = done_with (B_OK, S') \<and> size_of S' x = newSize \<and> base_of S' x = base_of S x
     \<and> (\<forall>y. y \<noteq> x \<and> \<not> reserved S y \<longrightarrow> u_area S' y = u_area S y)
     \<and> (\<exists>t'. ua_inv S' t' \<and> x \<in> set (inord t') \<and> {y \<in> set (inord t'). \<not> reserved S' y} = {y \<in> set (inord t). \<not> reserved S y})"
proof -
  obtain xs ys where l: "inord t = xs @ x # ys" using split_list [OF assms(2)] by blast
  have l': "inord t = (xs @ [x]) @ ys" using l by simp
  have nx: "ua_Next S x = done_with (first_of ys)" by (rule ua_laws(2) [OF assms(1) l])
  define newEnd where "newEnd = base_of S x + (newSize - 1)"
  have nw: "\<not> newEnd < base_of S x" and room: "room_behind S (uint newEnd) ys"
    using assms(4) can_resize_loop_at [OF assms(1) l', of newEnd] by (auto simp: CanResizeArea_def nx newEnd_def Let_def split: if_splits)
  have ne: "uint newEnd = uint (base_of S x) + uint newSize - 1" unfolding newEnd_def by (rule last_nowrap [OF assms(3)]) (use nw newEnd_def in simp)
  have ok: "space_ok S (inord t)" using assms(1) by (simp add: ua_inv_def)
  note o = space_okD [OF ok assms(2)]
  have oe: "uint (base_of S x + (size_of S x - 1)) = uint (base_of S x) + uint (size_of S x) - 1" by (rule last_word [OF o(2,4)])
  note run = ResizeArea_def Let_def nx run_simps newEnd_def [symmetric]
  have "\<exists>S1. ResizeArea x newSize S = done_with (B_OK, SetSize x newSize S1) \<and> resized S t x newSize (SetSize x newSize S1)"
  proof (cases "base_of S x + (size_of S x - 1) < newEnd")
    case True
    show ?thesis using resize_grow [OF assms(1) l assms(5) room ne assms(3)] unfolding run if_P [OF True] by auto
  next
    case False
    then have "uint newSize \<le> uint (size_of S x)" using oe ne by (simp add: word_less_def)
    note sh = resize_shrink [OF assms(1) l assms(3) this assms(6)]
    show ?thesis using sh unfolding run if_not_P [OF False]
      by (elim exE conjE) (rule exI, rule conjI [rotated], assumption, simp)
  qed
  then show ?thesis unfolding resized_def by blast
qed

subsection \<open>Giving reserved ranges back\<close>

definition ends_by :: "uspace \<Rightarrow> addr option \<Rightarrow> node_ptr \<Rightarrow> bool" where
  "ends_by S endAddress x \<longleftrightarrow> (case endAddress of None \<Rightarrow> True | Some e \<Rightarrow> base_of S x + size_of S x - 1 \<le> e)"

definition unreserved :: "uspace \<Rightarrow> addr option \<Rightarrow> node_ptr list \<Rightarrow> node_ptr list" where
  "unreserved S endAddress ys = filter (\<lambda>y. \<not> reserved S y) (takeWhile (ends_by S endAddress) ys) @ dropWhile (ends_by S endAddress) ys"

lemma unreserved_None: "unreserved S None ys = filter (\<lambda>y. \<not> reserved S y) ys"
  by (induction ys) (simp_all add: unreserved_def ends_by_def)

lemma unreserve_loop_at:
  assumes "ua_inv S t" "inord t = xs @ ys" "it_next it = first_of ys" "t_count (u_tree S) < 9227464"
  shows "\<exists>S' t'. unreserve_loop endAddress it S = done_with S' \<and> ua_inv S' t' \<and> inord t' = xs @ unreserved S endAddress ys \<and> u_area S' = u_area S"
  using assms
proof (induction ys arbitrary: S t xs it)
  case Nil
  have "iter_at t it []" using Nil.prems(2,3) by (simp add: iter_at_def)
  then have "unreserve_loop endAddress it S = done_with S"
    using iter_Next_at [of "u_tree S" t it "[]"] Nil.prems(1) by (subst unreserve_loop.simps) (auto simp: ua_inv_def)
  then show ?case using Nil.prems by (auto simp: unreserved_def)
next
  case (Cons y ys)
  have rep: "avl_rep (u_tree S) t" and y: "y \<in> set (inord t)" using Cons.prems(1,2) by (auto simp: ua_inv_def)
  have dist: "distinct (inord t)" using rep by (simp add: avl_rep_def)
  have "iter_at t it (y # ys)" using Cons.prems(2,3) by (auto simp: iter_at_def)
  then obtain it' where it: "iter_Next (u_tree S) it = Some (Some y, it')" "it_next it' = first_of ys"
    using iter_Next_at [OF rep, of it "y # ys"] by (auto simp: iter_at_def)
  have run: "unreserve_loop endAddress it S = (if \<not> ends_by S endAddress y then done_with S
      else if reserved S y then and_then (RemoveArea y S) (\<lambda>S. unreserve_loop endAddress it' (ua_Put S)) else unreserve_loop endAddress it' S)"
    by (subst unreserve_loop.simps) (auto simp: it ends_by_def not_le split: option.splits)
  consider (stop) "\<not> ends_by S endAddress y" | (drop) "ends_by S endAddress y" "reserved S y" | (keep) "ends_by S endAddress y" "\<not> reserved S y" by blast
  then show ?case
  proof cases
    case stop
    then show ?thesis using run Cons.prems(1,2) by (auto simp: unreserved_def)
  next
    case drop
    obtain S1 t1 where 1: "RemoveArea y S = done_with S1" "ua_inv S1 t1" "inord t1 = remove1 y (inord t)" "u_area S1 = u_area S"
      "t_count (u_tree S1) = t_count (u_tree S) - 1" using RemoveArea_at [OF Cons.prems(1) y Cons.prems(4)] by blast
    have S2: "ua_inv (ua_Put S1) t1" "t_count (u_tree (ua_Put S1)) < 9227464" "u_area (ua_Put S1) = u_area S"
      using 1 Cons.prems(4) by (simp_all add: ua_Put_def ua_inv_def space_ok_def base_of_def size_of_def)
    have i1: "inord t1 = xs @ ys" using 1(3) Cons.prems(2) dist by (simp add: remove1_append)
    have "ends_by (ua_Put S1) endAddress = ends_by S endAddress" "reserved (ua_Put S1) = reserved S"
      by (rule ext, simp add: ends_by_def reserved_def base_of_def size_of_def S2(3) split: option.split)+
    then have eq: "unreserved (ua_Put S1) endAddress ys = unreserved S endAddress (y # ys)" using drop by (simp add: unreserved_def)
    show ?thesis using Cons.IH [OF S2(1) i1 it(2) S2(2)] drop run 1(1) S2(3) unfolding eq by simp
  next
    case keep
    have l: "inord t = (xs @ [y]) @ ys" using Cons.prems(2) by simp
    show ?thesis using Cons.IH [OF Cons.prems(1) l it(2) Cons.prems(4)] keep run by (simp add: unreserved_def)
  qed
qed

lemma GetIterator_node_at:
  assumes "ua_inv S t" "inord t = xs @ x # ys"
  obtains it where "GetIterator_node (u_tree S) (Some x) = Some it" "it_next it = first_of ys"
  using iter_at_node [of "u_tree S" t xs x ys] assms by (auto simp: ua_inv_def iter_at_def)

text \<open>
  C20: \<open>UnreserveAllAddressRanges\<close> always ends and removes exactly the reserved ranges. \<open>UnreserveAddressRange\<close> always ends, and
  from the first area at or behind the address on, that first area excluded, removes the reserved ranges up to the first
  area that ends behind the range: the first area itself is never removed, whether it is a reserved range or not.
\<close>

theorem unreserve_ranges:
  assumes "ua_inv S t" "t_count (u_tree S) < 9227464" "\<not> u_deleting S"
  shows "(\<exists>S' t'. UnreserveAllAddressRanges S = done_with S' \<and> ua_inv S' t' \<and> inord t' = filter (\<lambda>y. \<not> reserved S y) (inord t))
    \<and> (\<exists>S' t'. UnreserveAddressRange address sz S = done_with (B_OK, S') \<and> ua_inv S' t'
        \<and> inord t' = filter (\<lambda>y. base_of S y < address) (inord t)
            @ (case filter (\<lambda>y. address \<le> base_of S y) (inord t) of [] \<Rightarrow> []
               | a # ys \<Rightarrow> a # filter (\<lambda>y. \<not> reserved S y) (takeWhile (\<lambda>y. base_of S y + size_of S y - 1 \<le> address + sz - 1) ys)
                            @ dropWhile (\<lambda>y. base_of S y + size_of S y - 1 \<le> address + sz - 1) ys))"
proof
  have rep: "avl_rep (u_tree S) t" and ok: "space_ok S (inord t)" using assms(1) by (auto simp: ua_inv_def)
  obtain it where it: "GetIterator (u_tree S) = Some it" "it_next it = first_of (inord t)"
    using iter_at_start [OF rep] by (auto simp: iter_at_def)
  have "unreserved S None (inord t) = filter (\<lambda>y. \<not> reserved S y) (inord t)" by (rule unreserved_None)
  then show "\<exists>S' t'. UnreserveAllAddressRanges S = done_with S' \<and> ua_inv S' t' \<and> inord t' = filter (\<lambda>y. \<not> reserved S y) (inord t)"
    using unreserve_loop_at [OF assms(1) _ it(2) assms(2), of "[]" None] it(1) by (auto simp: UnreserveAllAddressRanges_def)
  obtain us vs where u: "inord t = us @ vs" "filter (\<lambda>x. base_of S x < address) (inord t) = us" "filter (\<lambda>x. address \<le> base_of S x) (inord t) = vs"
    by (rule base_prefix_strict [OF ok])
  define e where "e = address + sz - 1"
  have un: "unreserved S (Some e) ys = filter (\<lambda>y. \<not> reserved S y) (takeWhile (\<lambda>y. base_of S y + size_of S y - 1 \<le> e) ys)
      @ dropWhile (\<lambda>y. base_of S y + size_of S y - 1 \<le> e) ys" for ys unfolding unreserved_def ends_by_def by simp
  have closest: "ua_FindClosest S address False = done_with (first_of vs)" using ua_laws(1) [OF assms(1), of address False] u(3) by simp
  note run = UnreserveAddressRange_def closest run_simps e_def [symmetric]
  show "\<exists>S' t'. UnreserveAddressRange address sz S = done_with (B_OK, S') \<and> ua_inv S' t'
        \<and> inord t' = filter (\<lambda>y. base_of S y < address) (inord t)
            @ (case filter (\<lambda>y. address \<le> base_of S y) (inord t) of [] \<Rightarrow> []
               | a # ys \<Rightarrow> a # filter (\<lambda>y. \<not> reserved S y) (takeWhile (\<lambda>y. base_of S y + size_of S y - 1 \<le> address + sz - 1) ys)
                            @ dropWhile (\<lambda>y. base_of S y + size_of S y - 1 \<le> address + sz - 1) ys)"
    unfolding u(2,3) e_def [symmetric]
  proof (cases vs)
    case Nil
    then show "\<exists>S' t'. UnreserveAddressRange address sz S = done_with (B_OK, S') \<and> ua_inv S' t' \<and> inord t' = us @ (case vs of [] \<Rightarrow> []
      | a # ys \<Rightarrow> a # filter (\<lambda>y. \<not> reserved S y) (takeWhile (\<lambda>y. base_of S y + size_of S y - 1 \<le> e) ys) @ dropWhile (\<lambda>y. base_of S y + size_of S y - 1 \<le> e) ys)"
      using assms(1,3) u(1) by (auto simp: run)
  next
    case (Cons a ys)
    obtain jt where jt: "GetIterator_node (u_tree S) (Some a) = Some jt" "it_next jt = first_of ys"
      using GetIterator_node_at [OF assms(1)] u(1) Cons by blast
    have l: "inord t = (us @ [a]) @ ys" using u(1) Cons by simp
    show "\<exists>S' t'. UnreserveAddressRange address sz S = done_with (B_OK, S') \<and> ua_inv S' t' \<and> inord t' = us @ (case vs of [] \<Rightarrow> []
      | a # ys \<Rightarrow> a # filter (\<lambda>y. \<not> reserved S y) (takeWhile (\<lambda>y. base_of S y + size_of S y - 1 \<le> e) ys) @ dropWhile (\<lambda>y. base_of S y + size_of S y - 1 \<le> e) ys)"
      using unreserve_loop_at [OF assms(1) l jt(2) assms(2), of "Some e"] assms(3) jt(1) unfolding un Cons list.case run by auto
  qed
qed

text \<open>
  C14: \<open>LookupArea\<close> always ends with the area that contains the address, reserved ranges excepted, or with \<open>NULL\<close>;
  \<open>FindClosestArea\<close> with the nearest area at or below the address, or at or above it; \<open>FirstArea\<close> and \<open>NextArea\<close> enumerate the
  areas by their addresses without the reserved ranges.
\<close>

theorem lookup_area:
  assumes "ua_inv S t"
  shows "LookupArea S a = done_with (find (\<lambda>x. \<not> reserved S x \<and> ContainsAddress (u_area S x) a) (inord t))
    \<and> FindClosestArea S a lower = done_with (if lower then last_of (filter (\<lambda>x. \<not> reserved S x \<and> base_of S x \<le> a) (inord t))
        else first_of (filter (\<lambda>x. \<not> reserved S x \<and> a \<le> base_of S x) (inord t)))
    \<and> FirstArea S = done_with (first_of (filter (\<lambda>x. \<not> reserved S x) (inord t)))
    \<and> (\<forall>xs x ys. inord t = xs @ x # ys \<longrightarrow> NextArea S x = done_with (first_of (filter (\<lambda>x. \<not> reserved S x) ys)))"
proof (intro conjI allI impI)
  have rep: "avl_rep (u_tree S) t" using assms by (simp add: ua_inv_def)
  show "FirstArea S = done_with (first_of (filter (\<lambda>x. \<not> reserved S x) (inord t)))"
    using skip_reserved_up [OF assms, of "[]" "inord t"] ends_at [OF rep] by (simp add: FirstArea_def find_first)
  fix xs x ys
  assume l: "inord t = xs @ x # ys"
  then have l': "inord t = (xs @ [x]) @ ys" by simp
  show "NextArea S x = done_with (first_of (filter (\<lambda>x. \<not> reserved S x) ys))"
    using skip_reserved_up [OF assms l'] ua_laws(2) [OF assms l] by (simp add: NextArea_def find_first)
qed (fact LookupArea_at [OF assms] FindClosestArea_at [OF assms])+

subsection \<open>Instances\<close>

theorem lookup_area_witness: "LookupArea (example_space True) 0x300fff = done_with (Some 20) \<and> LookupArea (example_space True) 0x400000 = done_with None"
  using lookup_area [OF example_inv [of True], where a = "0x300fff"] lookup_area [OF example_inv [of True], where a = "0x400000"]
  by (simp add: example_inord example_reserved) (simp add: example_space_def ContainsAddress_def)

theorem unreserve_ranges_witness:
  "(\<exists>S' t'. UnreserveAllAddressRanges (example_space True) = done_with S' \<and> ua_inv S' t' \<and> inord t' = [10, 20])
    \<and> (\<exists>S' t'. UnreserveAddressRange 0x400000 0x1000 (example_space True) = done_with (B_OK, S') \<and> ua_inv S' t' \<and> inord t' = [10, 20, 30])"
  using unreserve_ranges [OF example_inv [of True], where address = "0x400000" and sz = "0x1000"]
  by (simp add: example_inord example_reserved example_fields)

theorem resize_area_safe_witness:
  "\<exists>S'. ResizeArea 20 0x100800 (example_space True) = done_with (B_OK, S') \<and> size_of S' 20 = 0x100800"
proof -
  have l: "inord example_shape = [10] @ 20 # [30]" "inord example_shape = [10, 20] @ [30]" by (simp_all add: example_inord)
  have "CanResizeArea (example_space True) 20 0x100800 = done_with True"
    using ua_laws(2) [OF example_inv [of True] l(1)] can_resize_loop_at [OF example_inv [of True] l(2), where newEnd = "0x4007ff"]
    by (simp add: CanResizeArea_def example_fields room_behind_Cons example_reserved)
  then show ?thesis using resize_area_safe [OF example_inv [of True], where x = 20 and newSize = "0x100800"] by (auto simp: example_inord example_fields example_reserved)
qed

end
