(* ===== verification/Vm_UserAreaReserved.thy ===== *)
theory Vm_UserAreaReserved
  imports Vm_UserAreaResize
begin

text \<open>
  Areas placed at an exact address inside a reserved range: the range is removed, loses its head or its tail, or is split,
  and what is left of it is exactly the rest.
\<close>

subsection \<open>The bytes of areas\<close>

definition bytes_of :: "uspace \<Rightarrow> node_ptr \<Rightarrow> int set" where
  "bytes_of S y = {uint (base_of S y) ..< uint (base_of S y) + uint (size_of S y)}"

definition reserved_bytes :: "uspace \<Rightarrow> node_ptr set \<Rightarrow> int set" where
  "reserved_bytes S Y = (\<Union>y \<in> {y \<in> Y. reserved S y}. bytes_of S y)"

lemma bytes_of_cong: "u_area S' y = u_area S y \<Longrightarrow> bytes_of S' y = bytes_of S y"
  by (simp add: bytes_of_def base_of_def size_of_def)

lemma reserved_cong: "u_area S' y = u_area S y \<Longrightarrow> reserved S' y = reserved S y"
  by (simp add: reserved_def)

lemma reserved_bytes_insert: "reserved_bytes S (insert y Y) = (if reserved S y then bytes_of S y else {}) \<union> reserved_bytes S Y"
  by (auto simp: reserved_bytes_def)

lemma reserved_bytes_cong:
  assumes "\<And>y. y \<in> Y \<Longrightarrow> u_area S' y = u_area S y"
  shows "reserved_bytes S' Y = reserved_bytes S Y"
  unfolding reserved_bytes_def using assms bytes_of_cong [of S' _ S] reserved_cong [of S' _ S] by auto

lemma apart:
  assumes "space_ok S (us @ r # vs)" "y \<in> set us \<union> set vs"
  shows "uint (base_of S y) + uint (size_of S y) \<le> uint (base_of S r) \<or> uint (base_of S r) + uint (size_of S r) \<le> uint (base_of S y)"
  using assms space_ok_split [of S us "r # vs" y r] space_ok_split [of S "us @ [r]" vs r y] by auto

lemma bytes_apart:
  assumes "space_ok S (us @ r # vs)"
  shows "reserved_bytes S (set us \<union> set vs) \<inter> bytes_of S r = {}"
proof -
  have "bytes_of S y \<inter> bytes_of S r = {}" if "y \<in> set us \<union> set vs" for y using apart [OF assms that] by (auto simp: bytes_of_def)
  then show ?thesis unfolding reserved_bytes_def by blast
qed

lemma closest_containing:
  assumes inv: "ua_inv S t" and l: "inord t = us @ r # vs"
    and c: "uint (base_of S r) \<le> uint a" "uint a < uint (base_of S r) + uint (size_of S r)"
  shows "ua_FindClosest S a True = done_with (Some r)"
proof -
  have ok: "space_ok S (us @ r # vs)" using inv l by (simp add: ua_inv_def)
  have u: "base_of S y \<le> a" if "y \<in> set us" for y
  proof -
    have "uint (base_of S y) + uint (size_of S y) \<le> uint (base_of S r)" using space_ok_split [of S us "r # vs" y r] ok that by simp
    then show ?thesis using c(1) uint_ge_0 [of "size_of S y"] unfolding word_le_def by linarith
  qed
  have v: "\<not> base_of S y \<le> a" if "y \<in> set vs" for y
    using space_ok_split [of S "us @ [r]" vs r y] ok that c(2) by (simp add: word_le_def)
  have "filter (\<lambda>y. base_of S y \<le> a) (us @ r # vs) = us @ [r]" using u v c(1) by (simp add: word_le_def filter_id_conv filter_empty_conv)
  then show ?thesis using ua_laws(1) [OF inv, of a True] l by (simp add: last_of_def)
qed

subsection \<open>Taking a range out of a reserved area\<close>

text \<open>What the part of \<open>_InsertAreaIntoReservedRegion\<close> before the insertion leaves.\<close>

definition carved :: "uspace \<Rightarrow> node_ptr set \<Rightarrow> node_ptr \<Rightarrow> addr \<Rightarrow> addr \<Rightarrow> uspace \<Rightarrow> atree \<Rightarrow> bool" where
  "carved S Y x start sz S1 t1 \<longleftrightarrow> ua_inv S1 t1 \<and> x \<notin> set (inord t1) \<and> t_count (u_tree S1) < 9227464 \<and> free_spot S1 (inord t1) start sz
     \<and> {y \<in> set (inord t1). \<not> reserved S1 y} = {y \<in> Y. \<not> reserved S y}
     \<and> (\<forall>y \<in> insert x Y. \<not> reserved S y \<longrightarrow> u_area S1 y = u_area S y)
     \<and> reserved_bytes S1 (set (inord t1)) = reserved_bytes S Y - {uint start ..< uint start + uint sz} \<and> u_free S1 = u_free S"

lemma carved_intro:
  assumes ok: "space_ok S (us @ r # vs)" and r: "reserved S r" and x: "x \<notin> set (us @ r # vs)"
    and c: "uint (base_of S r) \<le> uint start" "uint start + uint sz \<le> uint (base_of S r) + uint (size_of S r)"
    and inv: "ua_inv S1 t1" "set (inord t1) = set us \<union> set vs \<union> N" "x \<notin> N" "t_count (u_tree S1) < 9227464"
    and same: "\<And>y. y \<in> insert x (set us \<union> set vs) \<Longrightarrow> u_area S1 y = u_area S y" "u_base S1 = u_base S" "u_end S1 = u_end S" "u_free S1 = u_free S"
    and N: "\<And>y. y \<in> N \<Longrightarrow> reserved S1 y" "(\<Union>y \<in> N. bytes_of S1 y) = bytes_of S r - {uint start ..< uint start + uint sz}"
      "\<And>y. y \<in> N \<Longrightarrow> uint (base_of S1 y) + uint (size_of S1 y) \<le> uint start \<or> uint start + uint sz \<le> uint (base_of S1 y)"
  shows "carved S (set (us @ r # vs)) x start sz S1 t1"
proof -
  let ?X = "{uint start ..< uint start + uint sz}"
  have rt: "r \<in> set (us @ r # vs)" by simp
  note o = space_okD [OF ok rt]
  have "uint (base_of S1 y) + uint (size_of S1 y) \<le> uint start \<or> uint start + uint sz \<le> uint (base_of S1 y)" if "y \<in> set (inord t1)" for y
  proof (cases "y \<in> N")
    case False
    then have y: "y \<in> set us \<union> set vs" using that inv(2) by blast
    then have "base_of S1 y = base_of S y" "size_of S1 y = size_of S y" using same(1) by (simp_all add: base_of_def size_of_def)
    then show ?thesis using apart [OF ok y] c by auto
  qed (use N(3) in blast)
  then have free: "free_spot S1 (inord t1) start sz" using o c same(2,3) by (auto simp: free_spot_def)
  have sub: "?X \<subseteq> bytes_of S r" using c by (auto simp: bytes_of_def)
  have set1: "reserved_bytes S1 (set us \<union> set vs) = reserved_bytes S (set us \<union> set vs)" by (rule reserved_bytes_cong) (use same(1) in blast)
  have "{y \<in> N. reserved S1 y} = N" using N(1) by blast
  then have "reserved_bytes S1 N = bytes_of S r - ?X" unfolding reserved_bytes_def using N(2) by simp
  moreover have "reserved_bytes S1 (set (inord t1)) = reserved_bytes S1 (set us \<union> set vs) \<union> reserved_bytes S1 N"
    unfolding inv(2) by (auto simp: reserved_bytes_def)
  moreover have "reserved_bytes S (set (us @ r # vs)) = bytes_of S r \<union> reserved_bytes S (set us \<union> set vs)"
    using reserved_bytes_insert [of S r "set us \<union> set vs"] r by simp
  ultimately have bytes: "reserved_bytes S1 (set (inord t1)) = reserved_bytes S (set (us @ r # vs)) - ?X"
    using set1 bytes_apart [OF ok] sub by blast
  have res: "reserved S1 y = reserved S y" if "y \<in> set us \<union> set vs" for y by (rule reserved_cong) (use same(1) that in blast)
  have "{y \<in> set (inord t1). \<not> reserved S1 y} = {y \<in> set (us @ r # vs). \<not> reserved S y}" using inv(2) N(1) res r by auto
  moreover have "u_area S1 y = u_area S y" if "y \<in> insert x (set (us @ r # vs))" "\<not> reserved S y" for y
    using same(1) that r by (cases "y = r") auto
  ultimately show ?thesis using inv x free bytes same(4) by (simp add: carved_def)
qed

lemma insert_carved:
  assumes c: "carved S Y x start sz S1 t1" and sz: "0 < uint sz" and x: "\<not> reserved S x"
  shows "\<exists>S' t'. and_then (ua_Insert x (SetSize x sz (SetBase x start S1))) (\<lambda>S. done_with (B_OK, IncrementChangeCount S)) = done_with (B_OK, S')
    \<and> ua_inv S' t' \<and> base_of S' x = start \<and> size_of S' x = sz \<and> {y \<in> set (inord t'). \<not> reserved S' y} = insert x {y \<in> Y. \<not> reserved S y}
    \<and> (\<forall>y \<in> Y. y \<noteq> x \<and> \<not> reserved S y \<longrightarrow> u_area S' y = u_area S y)
    \<and> reserved_bytes S' (set (inord t')) = reserved_bytes S Y - {uint start ..< uint start + uint sz} \<and> u_free S' = u_free S"
proof -
  note d = c [unfolded carved_def]
  define M where "M = SetSize x sz (SetBase x start S1)"
  have M: "u_tree M = u_tree S1" "u_base M = u_base S1" "u_end M = u_end S1" "base_of M x = start" "size_of M x = sz" "u_free M = u_free S1"
    "\<And>y. y \<noteq> x \<Longrightarrow> u_area M y = u_area S1 y" "\<And>y. reserved M y = reserved S1 y"
    by (simp_all add: M_def area_sets)
  obtain S2 t' where 2: "ua_Insert x M = done_with S2" "S2 = M\<lparr>u_tree := u_tree S2\<rparr>" "ua_inv S2 t'" "set (inord t') = insert x (set (inord t1))"
    using ua_Insert_at [of S1 t1 x M] d M sz by auto
  obtain T where T: "S2 = M\<lparr>u_tree := T\<rparr>" using 2(2) by blast
  define S' where "S' = IncrementChangeCount S2"
  have f: "u_area S' = u_area M" "u_free S' = u_free M" "u_base S' = u_base S2" "u_end S' = u_end S2" "u_tree S' = u_tree S2"
    "base_of S' = base_of M" "size_of S' = size_of M" "\<And>y. reserved S' y = reserved S1 y"
    using M(8) by (auto simp: S'_def T IncrementChangeCount_def base_of_def size_of_def reserved_def fun_eq_iff)
  have inv': "ua_inv S' t'" using 2(3) by (simp add: S'_def IncrementChangeCount_def ua_inv_def space_ok_def base_of_def size_of_def)
  have nx: "\<not> reserved S1 x" using d x by (simp add: reserved_def)
  have "reserved_bytes S' (set (inord t')) = reserved_bytes S' (set (inord t1))" using reserved_bytes_insert [of S' x "set (inord t1)"] f(8) nx 2(4) by simp
  also have "\<dots> = reserved_bytes S1 (set (inord t1))" by (rule reserved_bytes_cong) (use d M(7) f(1) in \<open>metis\<close>)
  finally have bytes: "reserved_bytes S' (set (inord t')) = reserved_bytes S Y - {uint start ..< uint start + uint sz}" using d by simp
  have "{y \<in> set (inord t'). \<not> reserved S' y} = insert x {y \<in> set (inord t1). \<not> reserved S1 y}" using f(8) nx 2(4) by auto
  moreover have "u_area S' y = u_area S y" if "y \<in> Y" "y \<noteq> x" "\<not> reserved S y" for y using f(1) M(7) [OF that(2)] d that by simp
  ultimately show ?thesis using 2(1) inv' bytes f M d
    by (intro exI [of _ S'] exI [of _ t']) (simp add: M_def [symmetric] S'_def [symmetric])
qed

subsection \<open>The four cases\<close>

lemma carve_all:
  assumes inv: "ua_inv S t" and l: "inord t = us @ r # vs" and r: "reserved S r" and x: "x \<notin> set (inord t)" and cnt: "t_count (u_tree S) < 9227463"
    and c: "start = base_of S r" "sz = size_of S r"
  shows "\<exists>S1 t1. carve start sz r alloc S = done_with (B_OK, S1) \<and> carved S (set (inord t)) x start sz S1 t1"
proof -
  have ok: "space_ok S (us @ r # vs)" and rep: "avl_rep (u_tree S) t" using inv l by (simp_all add: ua_inv_def)
  have dist: "distinct (us @ r # vs)" using rep l by (simp add: avl_rep_def)
  obtain T' t' where 1: "ua_Remove r S = done_with (S\<lparr>u_tree := T'\<rparr>)" "ua_inv (S\<lparr>u_tree := T'\<rparr>) t'" "inord t' = remove1 r (inord t)"
    using ua_Remove_at [OF inv, of r] l cnt by auto
  define S1 where "S1 = ua_Put (S\<lparr>u_tree := T'\<rparr>)"
  have inv1: "ua_inv S1 t'" using 1(2) by (simp add: S1_def ua_Put_def ua_inv_def space_ok_def base_of_def size_of_def)
  have set1: "set (inord t') = set us \<union> set vs" using 1(3) l dist by (simp add: remove1_append)
  have "card (set (inord t')) \<le> card (set (inord t))" using set1 l by (auto intro: card_mono)
  then have "t_count (u_tree S1) < 9227464" using count_card [of "u_tree S1" t'] count_card [OF rep] inv1 cnt by (simp add: ua_inv_def)
  then have "carved S (set (us @ r # vs)) x start sz S1 t'"
    by (intro carved_intro [OF ok r, where N = "{}"]) (use x l c inv1 set1 in \<open>auto simp: S1_def ua_Put_def bytes_of_def\<close>)
  then show ?thesis using 1(1) c l by (auto simp: carve_def S1_def)
qed

lemma carve_head:
  assumes inv: "ua_inv S t" and l: "inord t = us @ r # vs" and r: "reserved S r" and x: "x \<notin> set (inord t)" and cnt: "t_count (u_tree S) < 9227463"
    and c: "start = base_of S r" "uint sz < uint (size_of S r)" "0 < uint sz"
  shows "\<exists>S1 t1. carve start sz r alloc S = done_with (B_OK, S1) \<and> carved S (set (inord t)) x start sz S1 t1"
proof -
  have ok: "space_ok S (us @ r # vs)" and rep: "avl_rep (u_tree S) t" using inv l by (simp_all add: ua_inv_def)
  have rt: "r \<in> set (us @ r # vs)" and dist: "r \<notin> set (us @ vs)" using rep l by (auto simp: avl_rep_def)
  note o = space_okD [OF ok rt]
  define S1 where "S1 = SetSize r (size_of S r - sz) (SetBase r (base_of S r + sz) S)"
  have f: "u_tree S1 = u_tree S" "u_base S1 = u_base S" "u_end S1 = u_end S" "u_free S1 = u_free S" "base_of S1 r = base_of S r + sz" "size_of S1 r = size_of S r - sz"
    "\<And>y. y \<noteq> r \<Longrightarrow> u_area S1 y = u_area S y" "\<And>y. reserved S1 y = reserved S y" by (simp_all add: S1_def area_sets)
  have b: "uint (base_of S1 r) = uint (base_of S r) + uint sz" unfolding f(5) by (rule end_word) (use o c in linarith)
  have s: "uint (size_of S1 r) = uint (size_of S r) - uint sz" unfolding f(6) using c by (simp add: uint_sub_if')
  have "space_ok S1 (us @ r # vs)"
    by (rule move_head [OF ok dist, of "uint (base_of S r) + uint sz"])
      (use o c b s f space_ok_split [of S us "r # vs" _ r] ok in \<open>fastforce simp: base_of_def size_of_def\<close>)+
  then have inv1: "ua_inv S1 t" using rep l f(1) by (simp add: ua_inv_def)
  have xr: "x \<noteq> r" using x l by auto
  have "carved S (set (us @ r # vs)) x start sz S1 t"
  proof (rule carved_intro [OF ok r, where N = "{r}"])
    show "u_area S1 y = u_area S y" if "y \<in> insert x (set us \<union> set vs)" for y by (rule f(7)) (use that xr dist in auto)
  qed (use x l c inv1 cnt f r b s xr in \<open>auto simp: bytes_of_def\<close>)
  then show ?thesis using c l by (auto simp: carve_def S1_def Let_def area_sets)
qed

text \<open>The reserved area keeps the part in front of the new area.\<close>

lemma cut_tail:
  assumes inv: "ua_inv S t" and l: "inord t = us @ r # vs" and c: "uint (base_of S r) < uint start" "uint start \<le> uint (base_of S r) + uint (size_of S r)"
  defines "M \<equiv> SetSize r (start - base_of S r) S"
  shows "ua_inv M t" "uint (size_of M r) = uint start - uint (base_of S r)"
proof -
  have ok: "space_ok S (us @ r # vs)" and rep: "avl_rep (u_tree S) t" using inv l by (simp_all add: ua_inv_def)
  have rt: "r \<in> set (us @ r # vs)" and dist: "r \<notin> set (us @ vs)" using rep l by (auto simp: avl_rep_def)
  note o = space_okD [OF ok rt]
  have f: "u_tree M = u_tree S" "u_base M = u_base S" "u_end M = u_end S" "base_of M r = base_of S r" "size_of M r = start - base_of S r"
    "\<And>y. y \<noteq> r \<Longrightarrow> u_area M y = u_area S y" by (simp_all add: M_def area_sets)
  show s: "uint (size_of M r) = uint start - uint (base_of S r)" unfolding f(5) using c by (simp add: uint_sub_if')
  have "space_ok M (us @ r # vs)"
  proof (rule resize_ok [OF ok dist, of "uint start - uint (base_of S r)"])
    show "uint (base_of S r) + (uint start - uint (base_of S r)) \<le> uint (base_of S v)" if "v \<in> set vs" for v
      using space_ok_split [of S "us @ [r]" vs r v] ok that c(2) by simp
  qed (use o c f s in \<open>auto simp: base_of_def size_of_def\<close>)
  then show "ua_inv M t" using rep l f(1) by (simp add: ua_inv_def)
qed

lemma carve_tail:
  assumes inv: "ua_inv S t" and l: "inord t = us @ r # vs" and r: "reserved S r" and x: "x \<notin> set (inord t)" and cnt: "t_count (u_tree S) < 9227463"
    and c: "uint (base_of S r) < uint start" "uint start + uint sz = uint (base_of S r) + uint (size_of S r)" "0 < uint sz"
  shows "\<exists>S1 t1. carve start sz r alloc S = done_with (B_OK, S1) \<and> carved S (set (inord t)) x start sz S1 t1"
proof -
  have ok: "space_ok S (us @ r # vs)" and rep: "avl_rep (u_tree S) t" using inv l by (simp_all add: ua_inv_def)
  have rt: "r \<in> set (us @ r # vs)" and dist: "r \<notin> set (us @ vs)" using rep l by (auto simp: avl_rep_def)
  note o = space_okD [OF ok rt]
  have c2: "uint start \<le> uint (base_of S r) + uint (size_of S r)" using c by linarith
  define S1 where "S1 = SetSize r (start - base_of S r) S"
  have f: "u_tree S1 = u_tree S" "u_base S1 = u_base S" "u_end S1 = u_end S" "u_free S1 = u_free S" "base_of S1 r = base_of S r"
    "\<And>y. y \<noteq> r \<Longrightarrow> u_area S1 y = u_area S y" "\<And>y. reserved S1 y = reserved S y" by (simp_all add: S1_def area_sets)
  note cut = cut_tail [OF inv l c(1) c2, folded S1_def]
  have xr: "x \<noteq> r" using x l by auto
  have "carved S (set (us @ r # vs)) x start sz S1 t"
  proof (rule carved_intro [OF ok r, where N = "{r}"])
    show "u_area S1 y = u_area S y" if "y \<in> insert x (set us \<union> set vs)" for y by (rule f(6)) (use that xr dist in auto)
  qed (use x l c c2 cut cnt f r xr in \<open>auto simp: bytes_of_def\<close>)
  moreover have "start \<noteq> base_of S r" using c(1) by auto
  moreover have "start + sz = base_of S r + size_of S r"
    using end_word [of start sz] end_word [of "base_of S r" "size_of S r"] c(2) o(4) by (simp add: word_uint_eq_iff)
  ultimately show ?thesis using l by (auto simp: carve_def S1_def)
qed

lemma carve_split:
  assumes inv: "ua_inv S t" and l: "inord t = us @ r # vs" and r: "reserved S r" and x: "x \<notin> set (inord t)" and cnt: "t_count (u_tree S) < 9227463"
    and c: "uint (base_of S r) < uint start" "uint start + uint sz < uint (base_of S r) + uint (size_of S r)" "0 < uint sz"
    and n: "n \<notin> insert x (set (inord t))"
  shows "\<exists>S1 t1. carve start sz r (Some n) S = done_with (B_OK, S1) \<and> carved S (set (inord t)) x start sz S1 t1"
proof -
  have ok: "space_ok S (us @ r # vs)" and rep: "avl_rep (u_tree S) t" using inv l by (simp_all add: ua_inv_def)
  have rt: "r \<in> set (us @ r # vs)" and dist: "r \<notin> set (us @ vs)" using rep l by (auto simp: avl_rep_def)
  note o = space_okD [OF ok rt]
  have c2: "uint start \<le> uint (base_of S r) + uint (size_of S r)" using c by linarith
  have ne: "r \<noteq> n" "x \<noteq> r" "x \<noteq> n" using n x l by auto
  define M where "M = SetSize r (start - base_of S r) S"
  note cut = cut_tail [OF inv l c(1) c2, folded M_def]
  define C where "C = SetBase n (start + sz) (ua_Get (upd_area n (\<lambda>a. a\<lparr>a_id := RESERVED_AREA_ID, a_protection := a_protection (u_area S r)\<rparr>) S))"
  define D where "D = SetSize n (base_of C r + size_of C r - start - sz) C"
  define E where "E = upd_area n (\<lambda>a. a\<lparr>a_cache_offset := a_cache_offset (u_area D r)\<rparr>) D"
  define S0 where "S0 = SetSize r (start - base_of E r) E"
  have f: "u_tree S0 = u_tree M" "u_base S0 = u_base M" "u_end S0 = u_end M" "u_free S0 = u_free S" "\<And>y. y \<noteq> n \<Longrightarrow> u_area S0 y = u_area M y"
    "reserved S0 n" "base_of S0 n = start + sz" "size_of S0 n = base_of S r + size_of S r - start - sz"
    using ne(1) by (simp_all add: S0_def E_def D_def C_def M_def area_sets ua_Get_def)
  have g: "u_base M = u_base S" "u_end M = u_end S" "u_tree M = u_tree S" "base_of M r = base_of S r" "\<And>y. y \<noteq> r \<Longrightarrow> u_area M y = u_area S y" "reserved M r"
    using r by (simp_all add: M_def area_sets)
  have b: "uint (base_of S0 n) = uint start + uint sz" unfolding f(7) by (rule end_word) (use o c in linarith)
  have s: "uint (size_of S0 n) = uint (base_of S r) + uint (size_of S r) - (uint start + uint sz)"
    using end_word [OF o(4)] b c(2) c2 unfolding f(7,8) by (simp add: uint_sub_if')
  have fs: "free_spot M (inord t) (base_of S0 n) (size_of S0 n)"
  proof -
    have "uint (base_of M y) + uint (size_of M y) \<le> uint (base_of S0 n) \<or> uint (base_of S0 n) + uint (size_of S0 n) \<le> uint (base_of M y)" if "y \<in> set (inord t)" for y
    proof (cases "y = r")
      case True
      then show ?thesis using b cut(2) g(4) c(3) by simp
    next
      case False
      then have y: "y \<in> set us \<union> set vs" using that l by auto
      have "base_of M y = base_of S y" "size_of M y = size_of S y" using g(5) [OF False] by (simp_all add: base_of_def size_of_def)
      then show ?thesis using apart [OF ok y] b s c by auto
    qed
    then show ?thesis using b s o c g(1,2) by (auto simp: free_spot_def)
  qed
  have pre: "n \<notin> set (inord t)" "t_count (u_tree M) < 9227464" "0 < uint (size_of S0 n)" using n cnt g(3) s c(2) by auto
  obtain S1 t1 where 1: "ua_Insert n S0 = done_with S1" "S1 = S0\<lparr>u_tree := u_tree S1\<rparr>" "ua_inv S1 t1" "set (inord t1) = insert n (set (inord t))"
    using ua_Insert_at [OF cut(1) pre(1,2) f(1-3,5) fs pre(3)] by auto
  obtain T where T: "S1 = S0\<lparr>u_tree := T\<rparr>" using 1(2) by blast
  have h: "u_area S1 = u_area S0" "u_base S1 = u_base S" "u_end S1 = u_end S" "u_free S1 = u_free S" using f g by (simp_all add: T)
  have hb: "base_of S1 = base_of S0" "size_of S1 = size_of S0" by (simp_all add: fun_eq_iff base_of_def size_of_def h(1))
  have hr: "base_of S0 r = base_of S r" "uint (size_of S0 r) = uint start - uint (base_of S r)" "reserved S1 r" "reserved S1 n"
    using f(5) [OF ne(1)] g(4,6) cut(2) f(6) by (simp_all add: base_of_def size_of_def reserved_def h(1))
  have "t_count (u_tree S1) < 9227464"
    using count_card [of "u_tree S1" t1] count_card [OF rep] 1(3,4) cnt n by (simp add: ua_inv_def)
  moreover have "set (inord t1) = set us \<union> set vs \<union> {r, n}" using 1(4) l by auto
  moreover have "u_area S1 y = u_area S y" if "y \<in> insert x (set us \<union> set vs)" for y
  proof -
    have "y \<noteq> r" "y \<noteq> n" using that ne dist n l by auto
    then show ?thesis using f(5) g(5) h(1) by simp
  qed
  ultimately have "carved S (set (us @ r # vs)) x start sz S1 t1"
    by (intro carved_intro [OF ok r, where N = "{r, n}"]) (use x l c c2 1(3) ne h hb hr b s in \<open>auto simp: bytes_of_def\<close>)
  moreover have "carve start sz r (Some n) S = done_with (B_OK, S1)"
  proof -
    have "start \<noteq> base_of S r" using c(1) by auto
    moreover have "start + sz \<noteq> base_of S r + size_of S r" using b f(7) end_word [OF o(4)] c(2) by (metis order_less_irrefl)
    moreover have "carve start sz r (Some n) S = and_then (ua_Insert n S0) (\<lambda>S. done_with (B_OK, S))"
      using calculation by (simp add: carve_def CreateReserved_def Let_def S0_def E_def D_def C_def)
    ultimately show ?thesis using 1(1) by simp
  qed
  ultimately show ?thesis using l by auto
qed

lemma carve_at:
  assumes inv: "ua_inv S t" and l: "inord t = us @ r # vs" and r: "reserved S r" and x: "x \<notin> set (inord t)" and cnt: "t_count (u_tree S) < 9227463"
    and c: "uint (base_of S r) \<le> uint start" "uint start + uint sz \<le> uint (base_of S r) + uint (size_of S r)" "0 < uint sz"
    and n: "n \<notin> insert x (set (inord t))"
  shows "\<exists>S1 t1. carve start sz r (Some n) S = done_with (B_OK, S1) \<and> carved S (set (inord t)) x start sz S1 t1"
proof -
  note pre = inv l r x cnt
  consider (all) "start = base_of S r" "sz = size_of S r" | (head) "start = base_of S r" "uint sz < uint (size_of S r)"
    | (tail) "uint (base_of S r) < uint start" "uint start + uint sz = uint (base_of S r) + uint (size_of S r)"
    | (split) "uint (base_of S r) < uint start" "uint start + uint sz < uint (base_of S r) + uint (size_of S r)"
  proof (cases "uint start = uint (base_of S r)")
    case True
    then show thesis using that(1,2) c(2) by (cases "sz = size_of S r") (auto simp: word_uint_eq_iff)
  next
    case False
    then show thesis using that(3,4) c(1,2) by linarith
  qed
  then show ?thesis
  proof cases
    case all
    then show ?thesis by (rule carve_all [OF pre])
  next
    case head
    then show ?thesis using c(3) by (rule carve_head [OF pre])
  next
    case tail
    then show ?thesis using c(3) by (rule carve_tail [OF pre])
  next
    case split
    then show ?thesis using c(3) n by (rule carve_split [OF pre])
  qed
qed

lemma into_reserved_at:
  assumes inv: "ua_inv S t" and l: "inord t = us @ r # vs" and r: "reserved S r"
    and c: "uint (base_of S r) \<le> uint start" "uint start + uint sz \<le> uint (base_of S r) + uint (size_of S r)" "0 < uint sz"
  shows "InsertAreaIntoReservedRegion start sz x alloc S = and_then (carve start sz r alloc S) (\<lambda>(status, S).
    if status \<noteq> B_OK then done_with (status, S)
    else and_then (ua_Insert x (SetSize x sz (SetBase x start S))) (\<lambda>S. done_with (B_OK, IncrementChangeCount S)))"
proof -
  have ok: "space_ok S (inord t)" and rt: "r \<in> set (inord t)" using inv l by (simp_all add: ua_inv_def)
  have "uint start + uint sz \<le> 2 ^ 63" using space_okD(4) [OF ok rt] c(2) by linarith
  then have e: "uint (start + sz - 1) = uint start + uint sz - 1" using last_word [OF c(3), of start] by (simp add: algebra_simps)
  have "ContainsAddress (u_area S r) start" "ContainsAddress (u_area S r) (start + sz - 1)"
    unfolding ContainsAddress_iff [OF ok rt] e using c by linarith+
  moreover have "ua_FindClosest S start True = done_with (Some r)" using closest_containing [OF inv l c(1)] c(2,3) by linarith
  ultimately show ?thesis using r by (simp add: InsertAreaIntoReservedRegion_def)
qed

text \<open>
  C8: \<open>InsertArea\<close> at an exact address inside a reserved range succeeds whenever the allocation of a further reserved area
  does: the area has the base and the size asked for, every area that is no reserved range is unchanged and still in the
  tree, the areas are apart again, and the reserved ranges cover exactly the bytes of before without those of the new area,
  whether the reserved range was removed, shortened at either end or split.
\<close>

theorem insert_reserved_exact:
  assumes "ua_inv S t" "r \<in> set (inord t)" "reserved S r" "x \<notin> set (inord t)" "\<not> reserved S x" "t_count (u_tree S) < 9227463"
    "n \<notin> insert x (set (inord t))" "0 < uint sz" "r_spec q = B_EXACT_ADDRESS"
    "uint (base_of S r) \<le> uint (r_address q)" "uint (r_address q) + uint sz \<le> uint (base_of S r) + uint (size_of S r)"
  shows "\<exists>S' t'. InsertArea x sz q (Some n) S = done_with (B_OK, S') \<and> ua_inv S' t' \<and> base_of S' x = r_address q \<and> size_of S' x = sz
    \<and> {y \<in> set (inord t'). \<not> reserved S' y} = insert x {y \<in> set (inord t). \<not> reserved S y}
    \<and> (\<forall>y \<in> set (inord t). \<not> reserved S y \<longrightarrow> u_area S' y = u_area S y)
    \<and> reserved_bytes S' (set (inord t')) = reserved_bytes S (set (inord t)) - bytes_of S' x \<and> u_free S' = u_free S - sz"
proof -
  let ?a = "r_address q"
  obtain us vs where l: "inord t = us @ r # vs" using split_list [OF assms(2)] by blast
  have ok: "space_ok S (inord t)" using assms(1) by (simp add: ua_inv_def)
  note o = space_okD [OF ok assms(2)]
  obtain S1 t1 where 1: "carve ?a sz r (Some n) S = done_with (B_OK, S1)" "carved S (set (inord t)) x ?a sz S1 t1"
    using carve_at [OF assms(1) l assms(3,4,6,10,11,8,7)] by blast
  obtain S2 t' where 2: "and_then (ua_Insert x (SetSize x sz (SetBase x ?a S1))) (\<lambda>S. done_with (B_OK, IncrementChangeCount S)) = done_with (B_OK, S2)"
    "ua_inv S2 t'" "base_of S2 x = ?a" "size_of S2 x = sz" "{y \<in> set (inord t'). \<not> reserved S2 y} = insert x {y \<in> set (inord t). \<not> reserved S y}"
    "\<forall>y \<in> set (inord t). y \<noteq> x \<and> \<not> reserved S y \<longrightarrow> u_area S2 y = u_area S y"
    "reserved_bytes S2 (set (inord t')) = reserved_bytes S (set (inord t)) - {uint ?a ..< uint ?a + uint sz}" "u_free S2 = u_free S"
    using insert_carved [OF 1(2) assms(8,5)] by blast
  have into: "InsertAreaIntoReservedRegion ?a sz x (Some n) S = done_with (B_OK, S2)"
    unfolding into_reserved_at [OF assms(1) l assms(3,10,11,8)] 1(1) by (simp add: 2(1))
  have "uint (?a + (sz - 1)) = uint ?a + uint sz - 1" by (rule last_word [OF assms(8)]) (use o(4) assms(11) in linarith)
  then have "\<not> (?a < u_base S \<or> sz = 0 \<or> u_end S < ?a + (sz - 1) \<or> ?a + (sz - 1) < ?a + (sz - 1))"
    using o(1,3) assms(8,10,11) by (auto simp: word_less_def)
  then have "InsertAreaSlot ?a sz (?a + (sz - 1)) B_EXACT_ADDRESS (r_alignment q) x (Some n) S = done_with (B_OK, S2)"
    using assms(5) into by (simp add: InsertAreaSlot_def)
  then have run: "InsertArea x sz q (Some n) S = done_with (B_OK, S2\<lparr>u_free := u_free S - sz\<rparr>)"
    using assms(9) 2(4,8) by (simp add: InsertArea_def)
  define S' where "S' = S2\<lparr>u_free := u_free S - sz\<rparr>"
  have same: "u_area S' = u_area S2" "\<And>y. reserved S' y = reserved S2 y" "base_of S' = base_of S2" "size_of S' = size_of S2" "ua_inv S' t'"
    using 2(2) by (simp_all add: S'_def reserved_def base_of_def size_of_def fun_eq_iff ua_inv_def space_ok_def)
  have "reserved_bytes S' (set (inord t')) = reserved_bytes S2 (set (inord t'))" by (rule reserved_bytes_cong) (simp add: same(1))
  moreover have "bytes_of S' x = {uint ?a ..< uint ?a + uint sz}" using 2(3,4) same(3,4) by (simp add: bytes_of_def)
  moreover have "u_area S' y = u_area S y" if "y \<in> set (inord t)" "\<not> reserved S y" for y using 2(6) that assms(4) same(1) by auto
  ultimately show ?thesis using run 2(3-5,7) same by (intro exI [of _ S'] exI [of _ t']) (simp add: S'_def [symmetric], simp add: S'_def)
qed

theorem insert_reserved_exact_witness:
  "\<exists>S' t'. InsertArea 25 0x400 \<lparr>r_address = 0x400400, r_spec = B_EXACT_ADDRESS, r_alignment = 0\<rparr> (Some 26) (example_space True) = done_with (B_OK, S')
    \<and> ua_inv S' t' \<and> base_of S' 25 = 0x400400 \<and> {y \<in> set (inord t'). \<not> reserved S' y} = {10, 20, 25}"
proof -
  have eq: "{y \<in> set (inord example_shape). \<not> reserved (example_space True) y} = {10, 20}" by (auto simp: example_inord example_reserved)
  show ?thesis
    using insert_reserved_exact [OF example_inv [of True], of 30 25 26 "0x400" "\<lparr>r_address = 0x400400, r_spec = B_EXACT_ADDRESS, r_alignment = 0\<rparr>"]
    by (simp only: eq) (auto simp: example_inord example_reserved example_fields insert_commute)
qed

subsection \<open>A reserved range that loses all of its bytes\<close>

text \<open>
  A reserved range that asks to keep its base free can lose all of its bytes to a new area with a large alignment: it stays
  in the tree with size 0 and the base of the new area, which the tree then refuses, while the result is \<open>B_OK\<close>.
\<close>

definition squeezed_space :: uspace where
  "squeezed_space = \<lparr>u_base = 0x200000, u_end = 0x4fffff, u_free = 0, u_refs = 2, u_changes = 1, u_randomizing = True, u_deleting = False, u_hint = 0,
     u_tree = \<lparr>t_root = Some 10, t_count = 1, t_node = \<lambda>_. \<lparr>n_parent = None, n_left = None, n_right = None, n_balance = 0\<rparr>\<rparr>,
     u_area = \<lambda>n. if n = 10 then \<lparr>a_id = RESERVED_AREA_ID, a_name = [], a_base = 0x200000, a_size = 0x300000, a_protection = RESERVED_AVOID_BASE,
         a_cache_offset = 0x200000\<rparr>
       else \<lparr>a_id = 1, a_name = [], a_base = 0, a_size = 0, a_protection = 0, a_cache_offset = 0\<rparr>,
     u_random = \<lambda>_. 0\<rparr>"

lemma squeezed_inv: "ua_inv squeezed_space (Nd Lf 10 0 Lf)"
  by (simp add: ua_inv_def avl_rep_def space_ok_def squeezed_space_def base_of_def size_of_def)

lemma squeezed_fields:
  "u_base squeezed_space = 0x200000" "u_end squeezed_space = 0x4fffff" "u_free squeezed_space = 0" "u_randomizing squeezed_space" "u_hint squeezed_space = 0"
  "base_of squeezed_space 10 = 0x200000" "size_of squeezed_space 10 = 0x300000" "a_protection (u_area squeezed_space 10) = RESERVED_AVOID_BASE"
  "reserved squeezed_space 10" "\<not> reserved squeezed_space 11"
  by (simp_all add: squeezed_space_def base_of_def size_of_def reserved_def RESERVED_AREA_ID_def)

lemma squeezed_walks:
  "ua_FindClosest squeezed_space 0x400000 False = done_with None" "ua_FindClosest squeezed_space 0x400000 True = done_with (Some 10)"
  "LeftMost (u_tree squeezed_space) (t_root (u_tree squeezed_space)) = Some (Some 10)" "Next (u_tree squeezed_space) (Some 10) = Some None"
  using ua_laws(1) [OF squeezed_inv, of "0x400000"] ua_laws(2) [OF squeezed_inv, of "[]" 10 "[]"] squeezed_fields(6)
  by (auto simp: last_of_def squeezed_space_def LeftMost_def left_most.simps Next_def up_from_right.simps)

lemma insert_squeezed:
  "\<exists>S'. InsertArea 11 0x200000 \<lparr>r_address = 0, r_spec = B_ANY_ADDRESS, r_alignment = 0x200000\<rparr> None squeezed_space = done_with (B_OK, S')
     \<and> u_tree S' = u_tree squeezed_space \<and> base_of S' 11 = base_of S' 10 \<and> size_of S' 10 = 0 \<and> size_of S' 11 = 0x200000"
proof -
  define q where "q = \<lparr>s_size = 0x200000, s_end = 0x4fffff, s_alignment = 0x200000, s_area = 11, s_useHint = False, s_originalStart = 0\<rparr>"
  define S1 where "S1 = SetBase 11 0x200000 (SetSize 10 0 squeezed_space)"
  note arith = align_address_def align_address_spec_def ROUNDUP_def ROUNDDOWN_def is_base_address_spec_def is_valid_spot_def IsRandomized_def
    RESERVED_AVOID_BASE_def q_def USER_BASE_ANY_def
  have "reserved_loop q B_ANY_ADDRESS (Some 10) it squeezed_space = done_with (True, S1)" for it
    by (subst reserved_loop.simps) (simp add: squeezed_fields arith S1_def)
  then have search: "search_spot q B_ANY_ADDRESS 0x200000 squeezed_space = done_with (True, S1)"
    by (subst search_spot.simps)
      (simp add: squeezed_walks squeezed_fields arith GetIterator_node_def GetIterator_def iter_Next_def hole_loop.simps [of _ _ _ _ None])
  have dup: "ua_Insert 11 (SetSize 11 0x200000 S1) = done_with (SetSize 11 0x200000 S1)"
    by (simp add: ua_Insert_def Insert_node_def avl_Insert_def insert_descend.simps [where s = RootSlot] S1_def area_sets squeezed_space_def
      VMUserAreaTree_CompareNodes_def VMUserAreaTree_CompareKey_def insert_status_def upd_area_def)
  have "InsertArea 11 0x200000 \<lparr>r_address = 0, r_spec = B_ANY_ADDRESS, r_alignment = 0x200000\<rparr> None squeezed_space
      = done_with (B_OK, (IncrementChangeCount (SetSize 11 0x200000 S1))\<lparr>u_free := u_free (SetSize 11 0x200000 S1) - 0x200000\<rparr>)"
    using search dup by (simp add: InsertArea_def InsertAreaSlot_def place_area_def squeezed_fields arith Let_def)
       (simp add: IncrementChangeCount_def area_sets)
  then show ?thesis by (auto simp: S1_def area_sets IncrementChangeCount_def squeezed_space_def)
qed

end
