(* ===== verification/Libroot_Sort.thy ===== *)
theory Libroot_Sort
  imports Prelude
begin

text \<open>
  Sorting and searching of \<open>src/system/libroot/posix/stdlib\<close>: \<open>bsearch.c\<close>, \<open>heapsort.c\<close> and \<open>qsort.c\<close>.
  An array of \<open>nmemb\<close> items of \<open>size\<close> bytes is a list
  of items; the byte loops that exchange two items (\<open>SWAP\<close>, \<open>COPY\<close>, \<open>swapfunc\<close>) are one exchange of items, and a
  pointer into the array is the index of its item. The comparison function is a parameter with an \<open>int\<close> result, of
  which only the sign is used. The locale \<open>comparator\<close> is the contract the sorts rely on: a total preorder, given
  by signs. The kernel's comparison functions interpret it in the theories of the components that call \<open>qsort\<close>.
\<close>


type_synonym 'a cmp_t = "'a \<Rightarrow> 'a \<Rightarrow> int"

definition bswap :: "'a list \<Rightarrow> nat \<Rightarrow> nat \<Rightarrow> 'a list" where
  "bswap a i j = a[i := a ! j, j := a ! i]"

subsection \<open>\<open>bsearch\<close>\<close>

function bsearch_loop :: "('k \<Rightarrow> 'a \<Rightarrow> int) \<Rightarrow> 'k \<Rightarrow> 'a list \<Rightarrow> nat \<Rightarrow> nat \<Rightarrow> nat option" where
  "bsearch_loop compar key a base lim =
     (if lim = 0 then None
      else
        let p = base + lim div 2;
            cmp = compar key (a ! p)
        in if cmp = 0 then Some p
           else if 0 < cmp then bsearch_loop compar key a (p + 1) ((lim - 1) div 2)
           else bsearch_loop compar key a base (lim div 2))"
  by pat_completeness auto
termination by (relation "measure (\<lambda>(compar, key, a, base, lim). lim)") auto

declare bsearch_loop.simps [simp del]

definition bsearch :: "('k \<Rightarrow> 'a \<Rightarrow> int) \<Rightarrow> 'k \<Rightarrow> 'a list \<Rightarrow> nat \<Rightarrow> nat option" where
  "bsearch compar key a nmemb = bsearch_loop compar key a 0 nmemb"

subsection \<open>\<open>heapsort\<close>\<close>

text \<open>The items are numbered from 1.\<close>

definition item :: "'a list \<Rightarrow> nat \<Rightarrow> 'a" where "item a i = a ! (i - 1)"

definition set_item :: "'a list \<Rightarrow> nat \<Rightarrow> 'a \<Rightarrow> 'a list" where "set_item a i v = a[i - 1 := v]"

text \<open>The larger child of \<open>par\<close>, as both macros choose it.\<close>

definition big_child :: "'a cmp_t \<Rightarrow> nat \<Rightarrow> 'a list \<Rightarrow> nat \<Rightarrow> nat" where
  "big_child compar n a par =
     (let child = par * 2
      in if child < n \<and> compar (item a child) (item a (child + 1)) < 0 then child + 1 else child)"

function heap_create :: "'a cmp_t \<Rightarrow> nat \<Rightarrow> nat \<Rightarrow> 'a list \<Rightarrow> 'a list" where
  "heap_create compar n par a =
     (if 0 < par \<and> par * 2 \<le> n
      then
        let child = big_child compar n a par
        in if compar (item a child) (item a par) \<le> 0 then a
           else heap_create compar n child (bswap a (par - 1) (child - 1))
      else a)"
  by pat_completeness auto
termination
  by (relation "measure (\<lambda>(compar, n, par, a). Suc n - par)") (auto simp: big_child_def Let_def split: if_splits)

declare heap_create.simps [simp del]

function heap_down :: "'a cmp_t \<Rightarrow> nat \<Rightarrow> nat \<Rightarrow> 'a list \<Rightarrow> nat \<times> 'a list" where
  "heap_down compar n par a =
     (if 0 < par \<and> par * 2 \<le> n
      then
        let child = big_child compar n a par
        in heap_down compar n child (set_item a par (item a child))
      else (par, a))"
  by pat_completeness auto
termination
  by (relation "measure (\<lambda>(compar, n, par, a). Suc n - par)") (auto simp: big_child_def Let_def split: if_splits)

declare heap_down.simps [simp del]

function heap_up :: "'a cmp_t \<Rightarrow> 'a \<Rightarrow> nat \<Rightarrow> 'a list \<Rightarrow> 'a list" where
  "heap_up compar k child a =
     (if child \<le> 1 \<or> compar k (item a (child div 2)) < 0 then set_item a child k
      else heap_up compar k (child div 2) (set_item a child (item a (child div 2))))"
  by pat_completeness auto
termination by (relation "measure (\<lambda>(compar, k, child, a). child)") auto

declare heap_up.simps [simp del]

definition heap_select :: "'a cmp_t \<Rightarrow> nat \<Rightarrow> 'a \<Rightarrow> 'a list \<Rightarrow> 'a list" where
  "heap_select compar n k a = (let (par, a) = heap_down compar n 1 a in heap_up compar k par a)"

fun heap_build :: "'a cmp_t \<Rightarrow> nat \<Rightarrow> nat \<Rightarrow> 'a list \<Rightarrow> 'a list" where
  "heap_build compar n 0 a = a"
| "heap_build compar n (Suc l) a = heap_build compar n l (heap_create compar n (Suc l) a)"

fun heap_drain :: "'a cmp_t \<Rightarrow> nat \<Rightarrow> 'a list \<Rightarrow> 'a list" where
  "heap_drain compar n a =
     (if n \<le> 1 then a
      else
        let k = item a n;
            a = set_item a n (item a 1)
        in heap_drain compar (n - 1) (heap_select compar (n - 1) k a))"

declare heap_drain.simps [simp del]

text \<open>\<open>Inl\<close> is the result \<open>-1\<close> with \<open>errno\<close>, \<open>Inr\<close> the array after a result 0.\<close>

definition heapsort :: "bool \<Rightarrow> 'a cmp_t \<Rightarrow> nat \<Rightarrow> nat \<Rightarrow> 'a list \<Rightarrow> status + 'a list" where
  "heapsort malloc_ok compar nmemb sz a =
     (if nmemb \<le> 1 then Inr a
      else if sz = 0 then Inl EINVAL
      else if \<not> malloc_ok then Inl B_NO_MEMORY
      else Inr (heap_drain compar nmemb (heap_build compar nmemb (nmemb div 2) a)))"

subsection \<open>Comparison functions\<close>

definition total_preorder :: "'a cmp_t \<Rightarrow> bool" where
  "total_preorder cmp \<longleftrightarrow> (\<forall>x y. sgn (cmp y x) = - sgn (cmp x y))
     \<and> (\<forall>x y z. cmp x y \<le> 0 \<longrightarrow> cmp y z \<le> 0 \<longrightarrow> cmp x z \<le> 0)"

definition sorted_range :: "'a cmp_t \<Rightarrow> 'a list \<Rightarrow> nat \<Rightarrow> nat \<Rightarrow> bool" where
  "sorted_range cmp a i j \<longleftrightarrow> (\<forall>k l. i \<le> k \<and> k < l \<and> l < j \<longrightarrow> cmp (a ! k) (a ! l) \<le> 0)"

lemma bsearch_loop_correct:
  assumes "\<forall>i j. i < j \<and> j < length a \<longrightarrow> sgn (compar key (a ! j)) \<le> sgn (compar key (a ! i))"
    and "base + lim \<le> length a"
    and "\<forall>i<base. compar key (a ! i) > 0" "\<forall>i. base + lim \<le> i \<and> i < length a \<longrightarrow> compar key (a ! i) < 0"
  shows "case bsearch_loop compar key a base lim of
      Some i \<Rightarrow> i < length a \<and> compar key (a ! i) = 0
    | None \<Rightarrow> \<forall>i<length a. compar key (a ! i) \<noteq> 0"
  using assms(2-)
proof (induction lim arbitrary: base rule: less_induct)
  case (less lim)
  show ?case
  proof (cases "lim = 0")
    case True
    have "compar key (a ! i) \<noteq> 0" if "i < length a" for i
      using less.prems(2) less.prems(3) [rule_format, of i] True that by (cases "i < base") auto
    with True show ?thesis by (simp add: bsearch_loop.simps)
  next
    case False
    define p where "p = base + lim div 2"
    have p: "p < length a" "base \<le> p" "p < base + lim" using False less.prems(1) by (auto simp: p_def)
    have mono: "sgn (compar key (a ! j)) \<le> sgn (compar key (a ! i))" if "i \<le> j" "j < length a" for i j
      using assms(1) that by (cases "i = j") auto
    consider "compar key (a ! p) = 0" | "0 < compar key (a ! p)" | "compar key (a ! p) < 0" by linarith
    then show ?thesis
    proof cases
      case 1
      then show ?thesis using p False by (simp add: bsearch_loop.simps p_def Let_def)
    next
      case 2
      have lo: "\<forall>i<p + 1. 0 < compar key (a ! i)"
      proof (intro allI impI)
        fix i assume "i < p + 1"
        with mono [of i p] p 2 show "0 < compar key (a ! i)" by (auto simp: sgn_if split: if_splits)
      qed
      have e: "p + 1 + (lim - 1) div 2 = base + lim" using False unfolding p_def by presburger
      have "bsearch_loop compar key a base lim = bsearch_loop compar key a (p + 1) ((lim - 1) div 2)"
        using 2 False by (subst bsearch_loop.simps) (simp add: p_def Let_def)
      with less.IH [of "(lim - 1) div 2" "p + 1"] lo e less.prems False show ?thesis by simp
    next
      case 3
      have hi: "\<forall>i. base + lim div 2 \<le> i \<and> i < length a \<longrightarrow> compar key (a ! i) < 0"
      proof (intro allI impI)
        fix i assume "base + lim div 2 \<le> i \<and> i < length a"
        with mono [of p i] 3 show "compar key (a ! i) < 0" by (auto simp: p_def sgn_if split: if_splits)
      qed
      have "bsearch_loop compar key a base lim = bsearch_loop compar key a base (lim div 2)"
        using 3 False by (subst bsearch_loop.simps) (simp add: p_def Let_def)
      with less.IH [of "lim div 2" base] hi less.prems False show ?thesis by simp
    qed
  qed
qed

text \<open>Heaps: every item from \<open>2\<close> to \<open>n\<close> whose parent is at least \<open>l\<close> is not above its parent.\<close>

definition heap_from :: "'a cmp_t \<Rightarrow> nat \<Rightarrow> nat \<Rightarrow> 'a list \<Rightarrow> bool" where
  "heap_from cmp l n a \<longleftrightarrow> (\<forall>i. 2 \<le> i \<and> i \<le> n \<and> l \<le> i div 2 \<longrightarrow> cmp (item a i) (item a (i div 2)) \<le> 0)"

definition heap_except :: "'a cmp_t \<Rightarrow> nat \<Rightarrow> nat \<Rightarrow> nat \<Rightarrow> 'a list \<Rightarrow> bool" where
  "heap_except cmp l n p a \<longleftrightarrow>
     (\<forall>i. 2 \<le> i \<and> i \<le> n \<and> l \<le> i div 2 \<and> i div 2 \<noteq> p \<longrightarrow> cmp (item a i) (item a (i div 2)) \<le> 0)
     \<and> (\<forall>i. 2 \<le> i \<and> i \<le> n \<and> i div 2 = p \<and> l \<le> p div 2 \<and> 2 \<le> p \<longrightarrow> cmp (item a i) (item a (p div 2)) \<le> 0)"

text \<open>A heap with a hole at item \<open>p\<close>, whose contents do not count: the items below the hole are not
  above the item over it.\<close>

definition heap_hole :: "'a cmp_t \<Rightarrow> nat \<Rightarrow> nat \<Rightarrow> 'a list \<Rightarrow> bool" where
  "heap_hole cmp n p a \<longleftrightarrow>
     (\<forall>i. 2 \<le> i \<and> i \<le> n \<and> i \<noteq> p \<and> i div 2 \<noteq> p \<longrightarrow> cmp (item a i) (item a (i div 2)) \<le> 0)
     \<and> (\<forall>i. 2 \<le> i \<and> i \<le> n \<and> i div 2 = p \<and> 2 \<le> p \<longrightarrow> cmp (item a i) (item a (p div 2)) \<le> 0)"

lemma item_set_item:
  "0 < p \<Longrightarrow> p \<le> length a \<Longrightarrow> 0 < i \<Longrightarrow> item (set_item a p v) i = (if i = p then v else item a i)"
  by (cases "i \<le> length a") (auto simp: item_def set_item_def nth_list_update nth_via_drop)

lemma length_set_item [simp]: "length (set_item a p v) = length a"
  by (simp add: set_item_def)

lemma mset_move_hole:
  assumes "p \<noteq> c" "0 < p" "p \<le> length a" "0 < c" "c \<le> length a"
  shows "mset (set_item (set_item a p (item a c)) c k) = mset (set_item a p k)"
proof -
  let ?b = "set_item a p k"
  have "p - 1 < length ?b" "c - 1 < length ?b" "p - 1 \<noteq> c - 1" using assms by auto
  then have "mset (?b[p - 1 := ?b ! (c - 1), c - 1 := ?b ! (p - 1)]) = mset ?b" by (intro mset_swap) auto
  moreover have "?b[p - 1 := ?b ! (c - 1), c - 1 := ?b ! (p - 1)] = set_item (set_item a p (item a c)) c k"
    using \<open>p - 1 \<noteq> c - 1\<close> assms by (simp add: set_item_def item_def)
  ultimately show ?thesis by simp
qed

lemma drop_set_item: "0 < p \<Longrightarrow> p \<le> n \<Longrightarrow> drop n (set_item a p v) = drop n a"
  by (simp add: set_item_def)

lemma sgn_flip:
  "sgn a = - sgn (b :: int) \<Longrightarrow> (a \<le> 0 \<longleftrightarrow> 0 \<le> b) \<and> (a < 0 \<longleftrightarrow> 0 < b) \<and> (a = 0 \<longleftrightarrow> b = 0)"
  by (cases a "0::int" rule: linorder_cases; cases b "0::int" rule: linorder_cases) auto

locale comparator =
  fixes cmp :: "'a cmp_t"
  assumes pre: "total_preorder cmp"
begin

lemma cmp_sgn: "sgn (cmp y x) = - sgn (cmp x y)"
  using pre unfolding total_preorder_def by blast

lemma cmp_trans: "cmp x y \<le> 0 \<Longrightarrow> cmp y z \<le> 0 \<Longrightarrow> cmp x z \<le> 0"
  using pre unfolding total_preorder_def by blast

lemma cmp_flip: "cmp y x \<le> 0 \<longleftrightarrow> 0 \<le> cmp x y" "cmp y x < 0 \<longleftrightarrow> 0 < cmp x y" "cmp y x = 0 \<longleftrightarrow> cmp x y = 0"
  using sgn_flip [OF cmp_sgn] by blast+

lemma cmp_refl: "cmp x x = 0"
  using cmp_flip(1) [of x x] cmp_flip(2) [of x x] by linarith

lemma cmp_total: "cmp x y \<le> 0 \<or> cmp y x \<le> 0"
  using cmp_flip(1) [of x y] by linarith

lemma big_child_props:
  assumes "0 < p" "p * 2 \<le> n" "c = big_child cmp n a p"
  shows "c div 2 = p" "p < c" "c \<le> n" "\<forall>i. 2 \<le> i \<and> i \<le> n \<and> i div 2 = p \<longrightarrow> cmp (item a i) (item a c) \<le> 0"
proof -
  have c: "c = p * 2 \<or> c = p * 2 + 1 \<and> p * 2 < n \<and> cmp (item a (p * 2)) (item a (p * 2 + 1)) < 0"
    using assms(3) by (auto simp: big_child_def Let_def split: if_splits)
  then show "c div 2 = p" "p < c" "c \<le> n" using assms by auto
  show "\<forall>i. 2 \<le> i \<and> i \<le> n \<and> i div 2 = p \<longrightarrow> cmp (item a i) (item a c) \<le> 0"
  proof (intro allI impI)
    fix i assume i: "2 \<le> i \<and> i \<le> n \<and> i div 2 = p"
    then have "i = p * 2 \<or> i = p * 2 + 1" by auto
    then show "cmp (item a i) (item a c) \<le> 0"
    proof
      assume e: "i = p * 2 + 1"
      show ?thesis
      proof (cases "c = i")
        case False
        then have "c = p * 2" "\<not> cmp (item a (p * 2)) (item a (p * 2 + 1)) < 0"
          using assms(3) e i by (auto simp: big_child_def Let_def split: if_splits)
        then show ?thesis using e cmp_flip(1) by simp
      qed (simp add: cmp_refl)
    next
      assume "i = p * 2"
      with c show ?thesis by (auto simp: cmp_refl)
    qed
  qed
qed

lemma item_bswap:
  assumes "0 < p" "p < c" "c \<le> length a" "0 < i"
  shows "item (bswap a (p - 1) (c - 1)) i = (if i = p then item a c else if i = c then item a p else item a i)"
proof (cases "i \<le> length a")
  case True
  with assms show ?thesis by (auto simp: item_def bswap_def nth_list_update)
next
  case False
  with assms show ?thesis by (auto simp: item_def bswap_def nth_list_update nth_via_drop)
qed

lemma heap_create_correct:
  assumes "heap_except cmp l n p a" "0 < p" "l \<le> p" "n \<le> length a" "0 < l"
  shows "heap_from cmp l n (heap_create cmp n p a) \<and> length (heap_create cmp n p a) = length a
    \<and> mset (heap_create cmp n p a) = mset a \<and> drop n (heap_create cmp n p a) = drop n a"
  using assms(1-4)
proof (induction "Suc n - p" arbitrary: p a rule: less_induct)
  case less
  note ex = less.prems(1) [unfolded heap_except_def]
  show ?case
  proof (cases "p * 2 \<le> n")
    case False
    then have "heap_from cmp l n a" using ex unfolding heap_from_def by fastforce
    with False show ?thesis by (simp add: heap_create.simps)
  next
    case True
    define c where "c = big_child cmp n a p"
    note c = big_child_props [OF less.prems(2) True c_def]
    show ?thesis
    proof (cases "cmp (item a c) (item a p) \<le> 0")
      case T: True
      have "heap_from cmp l n a" unfolding heap_from_def
      proof (intro allI impI)
        fix i assume i: "2 \<le> i \<and> i \<le> n \<and> l \<le> i div 2"
        show "cmp (item a i) (item a (i div 2)) \<le> 0"
        proof (cases "i div 2 = p")
          case True
          then show ?thesis using c(4) i cmp_trans [OF _ T] by blast
        qed (use ex i in blast)
      qed
      with True T less.prems(2) show ?thesis by (simp add: heap_create.simps flip: c_def)
    next
      case F: False
      define b where "b = bswap a (p - 1) (c - 1)"
      have it: "item b i = (if i = p then item a c else if i = c then item a p else item a i)" if "0 < i" for i
        unfolding b_def using less.prems c that by (intro item_bswap) auto
      have "heap_except cmp l n c b" unfolding heap_except_def
      proof (intro conjI allI impI)
        fix i assume i: "2 \<le> i \<and> i \<le> n \<and> l \<le> i div 2 \<and> i div 2 \<noteq> c"
        then have h: "0 < i" "0 < i div 2" by auto
        consider "i = c" | "i = p" "i \<noteq> c" | "i div 2 = p" "i \<noteq> c" "i \<noteq> p"
          | "i \<noteq> c" "i \<noteq> p" "i div 2 \<noteq> p" by blast
        then show "cmp (item b i) (item b (i div 2)) \<le> 0"
        proof cases
          case 1
          then show ?thesis using it [OF h(1)] it [OF h(2)] c F cmp_total by auto
        next
          case 2
          then have "cmp (item a c) (item a (p div 2)) \<le> 0" using ex c i by auto
          then show ?thesis using 2 i it [OF h(1)] it [OF h(2)] c(2) by auto
        next
          case 3
          then show ?thesis using c(4) i it [OF h(1)] it [OF h(2)] c(2) by auto
        next
          case 4
          then show ?thesis using ex i it [OF h(1)] it [OF h(2)] by auto
        qed
      next
        fix i assume i: "2 \<le> i \<and> i \<le> n \<and> i div 2 = c \<and> l \<le> c div 2 \<and> 2 \<le> c"
        then have "i \<noteq> p" "i \<noteq> c" using c(2) by auto
        moreover have "cmp (item a i) (item a c) \<le> 0" using ex i c less.prems(3) by auto
        ultimately show "cmp (item b i) (item b (c div 2)) \<le> 0"
          using i c it [of i] it [of p] less.prems(2) by auto
      qed
      moreover have "length b = length a" by (simp add: b_def bswap_def)
      moreover have "mset b = mset a"
        unfolding b_def bswap_def using less.prems c by (intro mset_swap) auto
      moreover have "drop n b = drop n a" using c less.prems(2) by (simp add: b_def bswap_def)
      moreover have "heap_create cmp n p a = heap_create cmp n c b"
        using True F less.prems(2) by (subst heap_create.simps) (simp add: Let_def b_def flip: c_def)
      ultimately show ?thesis using less.hyps [of c b] c less.prems True by simp
    qed
  qed
qed

lemma heap_down_hole:
  assumes "heap_hole cmp n p a" "0 < p" "p \<le> n" "n \<le> length a" "heap_down cmp n p a = (q, b)"
  shows "heap_hole cmp n q b \<and> 0 < q \<and> q \<le> n \<and> n < q * 2 \<and> length b = length a
    \<and> mset (set_item b q k) = mset (set_item a p k) \<and> drop n b = drop n a"
  using assms
proof (induction "Suc n - p" arbitrary: p a rule: less_induct)
  case less
  note ex = less.prems(1) [unfolded heap_hole_def]
  show ?case
  proof (cases "p * 2 \<le> n")
    case False
    with less.prems show ?thesis by (auto simp: heap_down.simps)
  next
    case True
    define c where "c = big_child cmp n a p"
    note c = big_child_props [OF less.prems(2) True c_def]
    define a' where "a' = set_item a p (item a c)"
    have it: "item a' i = (if i = p then item a c else item a i)" if "0 < i" for i
      unfolding a'_def using less.prems that by (intro item_set_item) auto
    have "heap_hole cmp n c a'" unfolding heap_hole_def
    proof (intro conjI allI impI)
      fix i assume i: "2 \<le> i \<and> i \<le> n \<and> i \<noteq> c \<and> i div 2 \<noteq> c"
      then have h: "0 < i" "0 < i div 2" by auto
      consider "i = p" | "i div 2 = p" "i \<noteq> p" | "i \<noteq> p" "i div 2 \<noteq> p" by blast
      then show "cmp (item a' i) (item a' (i div 2)) \<le> 0"
      proof cases
        case 1
        then have "cmp (item a c) (item a (p div 2)) \<le> 0" using ex c i by auto
        then show ?thesis using 1 i it [OF h(1)] it [OF h(2)] by auto
      next
        case 2
        then show ?thesis using c(4) i it [OF h(1)] it [OF h(2)] by auto
      next
        case 3
        then show ?thesis using ex i it [OF h(1)] it [OF h(2)] by auto
      qed
    next
      fix i assume i: "2 \<le> i \<and> i \<le> n \<and> i div 2 = c \<and> 2 \<le> c"
      then have "i \<noteq> p" "i div 2 \<noteq> p" using c(2) by auto
      then have "cmp (item a i) (item a c) \<le> 0" using ex i by auto
      then show "cmp (item a' i) (item a' (c div 2)) \<le> 0"
        using i c it [of i] it [of p] less.prems(2) \<open>i \<noteq> p\<close> by auto
    qed
    moreover have "heap_down cmp n c a' = (q, b)"
      using True less.prems(2,5) by (subst (asm) heap_down.simps) (simp add: Let_def a'_def flip: c_def)
    moreover have "length a' = length a" "drop n a' = drop n a"
      using less.prems by (auto simp: a'_def drop_set_item)
    moreover have "mset (set_item a' c k) = mset (set_item a p k)"
      unfolding a'_def using c less.prems by (intro mset_move_hole) auto
    ultimately show ?thesis using less.hyps [of c a'] c less.prems by simp
  qed
qed

lemma heap_up_heap:
  assumes "heap_hole cmp n p a" "0 < p" "p \<le> n" "n \<le> length a"
    and "\<forall>i. 2 \<le> i \<and> i \<le> n \<and> i div 2 = p \<longrightarrow> cmp (item a i) k \<le> 0"
  shows "heap_from cmp 1 n (heap_up cmp k p a) \<and> length (heap_up cmp k p a) = length a
    \<and> mset (heap_up cmp k p a) = mset (set_item a p k) \<and> drop n (heap_up cmp k p a) = drop n a"
  using assms
proof (induction p arbitrary: a rule: less_induct)
  case (less p)
  note ex = less.prems(1) [unfolded heap_hole_def]
  have it: "item (set_item a p v) i = (if i = p then v else item a i)" if "0 < i" for i v
    using less.prems that by (intro item_set_item) auto
  show ?case
  proof (cases "p \<le> 1 \<or> cmp k (item a (p div 2)) < 0")
    case True
    have "heap_from cmp 1 n (set_item a p k)" unfolding heap_from_def
    proof (intro allI impI)
      fix i assume i: "2 \<le> i \<and> i \<le> n \<and> 1 \<le> i div 2"
      then have h: "0 < i" "0 < i div 2" by auto
      consider "i = p" | "i div 2 = p" "i \<noteq> p" | "i \<noteq> p" "i div 2 \<noteq> p" by blast
      then show "cmp (item (set_item a p k) i) (item (set_item a p k) (i div 2)) \<le> 0"
      proof cases
        case 1
        then show ?thesis using True i by (auto simp: it)
      next
        case 2
        then show ?thesis using less.prems(5) i by (auto simp: it)
      next
        case 3
        then show ?thesis using ex i h by (auto simp: it)
      qed
    qed
    moreover have e: "heap_up cmp k p a = set_item a p k" using True by (subst heap_up.simps) auto
    ultimately show ?thesis unfolding e using less.prems by (simp add: drop_set_item)
  next
    case False
    define q where "q = p div 2"
    define a' where "a' = set_item a p (item a q)"
    have q: "0 < q" "q < p" "2 \<le> p" using False by (auto simp: q_def)
    have kq: "cmp (item a q) k \<le> 0" using False cmp_flip(1) [of "item a q" k] by (simp add: q_def)
    have it': "item a' i = (if i = p then item a q else item a i)" if "0 < i" for i
      unfolding a'_def using it [OF that] by simp
    have sib: "cmp (item a i) (item a q) \<le> 0" if "2 \<le> i" "i \<le> n" "i div 2 = q" "i \<noteq> p" for i
      using ex that q by auto
    have "heap_hole cmp n q a'" unfolding heap_hole_def
    proof (intro conjI allI impI)
      fix i assume i: "2 \<le> i \<and> i \<le> n \<and> i \<noteq> q \<and> i div 2 \<noteq> q"
      then have h: "0 < i" "0 < i div 2" "i \<noteq> p" by (auto simp: q_def)
      show "cmp (item a' i) (item a' (i div 2)) \<le> 0"
        using ex i h q it' [OF h(1)] it' [OF h(2)] by (cases "i div 2 = p") (auto simp: q_def)
    next
      fix i assume i: "2 \<le> i \<and> i \<le> n \<and> i div 2 = q \<and> 2 \<le> q"
      have "q div 2 \<noteq> p" "0 < q div 2" "q \<noteq> p" using i q by auto
      then have up: "cmp (item a q) (item a (q div 2)) \<le> 0"
        using ex i q less.prems(3) by auto
      show "cmp (item a' i) (item a' (q div 2)) \<le> 0"
        using i up cmp_trans [OF sib [of i] up] it' [of i] it' [of "q div 2"] \<open>q div 2 \<noteq> p\<close> \<open>0 < q div 2\<close>
        by (cases "i = p") simp_all
    qed
    moreover have "\<forall>i. 2 \<le> i \<and> i \<le> n \<and> i div 2 = q \<longrightarrow> cmp (item a' i) k \<le> 0"
    proof (intro allI impI)
      fix i assume i: "2 \<le> i \<and> i \<le> n \<and> i div 2 = q"
      then show "cmp (item a' i) k \<le> 0"
        using cmp_trans [OF sib [of i] kq] kq it' [of i] by (cases "i = p") simp_all
    qed
    moreover have "heap_up cmp k p a = heap_up cmp k q a'"
      using False by (subst heap_up.simps) (simp add: q_def a'_def)
    moreover have "mset (set_item a' q k) = mset (set_item a p k)"
      unfolding a'_def using q less.prems by (intro mset_move_hole) auto
    moreover have "length a' = length a" "drop n a' = drop n a"
      using less.prems by (auto simp: a'_def drop_set_item)
    ultimately show ?thesis using less.IH [of q a'] q less.prems by simp
  qed
qed

lemma heap_select_heap:
  assumes "heap_from cmp 2 n a" "0 < n" "n \<le> length a"
  shows "heap_from cmp 1 n (heap_select cmp n k a) \<and> length (heap_select cmp n k a) = length a
    \<and> mset (heap_select cmp n k a) = mset (set_item a 1 k) \<and> drop n (heap_select cmp n k a) = drop n a"
proof -
  obtain q b where e: "heap_down cmp n 1 a = (q, b)" by fastforce
  have "heap_hole cmp n 1 a" using assms(1) unfolding heap_hole_def heap_from_def by auto
  from heap_down_hole [OF this _ _ assms(3) e] assms(2)
  have d: "heap_hole cmp n q b" "0 < q" "q \<le> n" "n < q * 2" "length b = length a"
    "mset (set_item b q k) = mset (set_item a 1 k)" "drop n b = drop n a" by auto
  have "\<forall>i. 2 \<le> i \<and> i \<le> n \<and> i div 2 = q \<longrightarrow> cmp (item b i) k \<le> 0" using d(4) by auto
  from heap_up_heap [OF d(1-3) _ this] d assms(3) e show ?thesis by (simp add: heap_select_def)
qed

lemma heap_root_max:
  assumes "heap_from cmp 1 n a" "1 \<le> i" "i \<le> n"
  shows "cmp (item a i) (item a 1) \<le> 0"
  using assms(2-)
proof (induction i rule: less_induct)
  case (less i)
  show ?case
  proof (cases "i = 1")
    case False
    then have "cmp (item a i) (item a (i div 2)) \<le> 0" using less.prems assms(1) unfolding heap_from_def by auto
    moreover have "cmp (item a (i div 2)) (item a 1) \<le> 0" using less False by simp
    ultimately show ?thesis by (rule cmp_trans)
  qed (simp add: cmp_refl)
qed

lemma heap_build_heap:
  assumes "heap_from cmp (Suc l) n a" "n \<le> length a"
  shows "heap_from cmp 1 n (heap_build cmp n l a) \<and> length (heap_build cmp n l a) = length a
    \<and> mset (heap_build cmp n l a) = mset a"
  using assms
proof (induction l arbitrary: a)
  case (Suc l)
  have "heap_except cmp (Suc l) n (Suc l) a"
    using Suc.prems(1) unfolding heap_except_def heap_from_def by auto
  from heap_create_correct [OF this] Suc.prems(2)
  have "heap_from cmp (Suc l) n (heap_create cmp n (Suc l) a)"
    "length (heap_create cmp n (Suc l) a) = length a" "mset (heap_create cmp n (Suc l) a) = mset a" by auto
  with Suc.IH [of "heap_create cmp n (Suc l) a"] Suc.prems(2) show ?case by simp
qed (simp)

lemma heap_drain_sorts:
  assumes "heap_from cmp 1 n a" "n \<le> length a" "sorted_wrt (\<lambda>x y. cmp x y \<le> 0) (drop n a)"
    and "\<forall>x\<in>set (take n a). \<forall>y\<in>set (drop n a). cmp x y \<le> 0"
  shows "sorted_wrt (\<lambda>x y. cmp x y \<le> 0) (heap_drain cmp n a) \<and> mset (heap_drain cmp n a) = mset a"
  using assms
proof (induction n arbitrary: a rule: less_induct)
  case (less n)
  show ?case
  proof (cases "n \<le> 1")
    case True
    have "sorted_wrt (\<lambda>x y. cmp x y \<le> 0) (take n a)" using True by (cases a; cases n) auto
    with less.prems have "sorted_wrt (\<lambda>x y. cmp x y \<le> 0) (take n a @ drop n a)"
      by (simp only: sorted_wrt_append)
    with True show ?thesis by (simp add: heap_drain.simps)
  next
    case False
    define k where "k = item a n"
    define a1 where "a1 = set_item a n (item a 1)"
    define b where "b = heap_select cmp (n - 1) k a1"
    have it: "item a1 i = (if i = n then item a 1 else item a i)" if "0 < i" for i
      unfolding a1_def using less.prems False that by (intro item_set_item) auto
    have "heap_from cmp 2 (n - 1) a1" unfolding heap_from_def
    proof (intro allI impI)
      fix i assume i: "2 \<le> i \<and> i \<le> n - 1 \<and> 2 \<le> i div 2"
      then have "i < n" "i div 2 < n" "0 < i" "0 < i div 2" using False by auto
      then show "cmp (item a1 i) (item a1 (i div 2)) \<le> 0"
        using less.prems(1) i by (auto simp: it heap_from_def)
    qed
    from heap_select_heap [OF this] False less.prems(2)
    have b: "heap_from cmp 1 (n - 1) b" "length b = length a" "mset b = mset (set_item a1 1 k)"
      "drop (n - 1) b = drop (n - 1) a1" by (auto simp: b_def a1_def)
    have root: "\<forall>x\<in>set (take n a). cmp x (item a 1) \<le> 0"
    proof
      fix x assume "x \<in> set (take n a)"
      then obtain i where "i < n" "x = a ! i" using less.prems(2) by (auto simp: in_set_conv_nth)
      then show "cmp x (item a 1) \<le> 0" using heap_root_max [OF less.prems(1), of "Suc i"] by (simp add: item_def)
    qed
    have mem: "item a 1 \<in> set (take n a)" using False less.prems(2)
      by (auto simp: item_def in_set_conv_nth intro!: exI [of _ 0])
    have mb: "mset b = mset a"
    proof -
      have "mset (a[n - 1 := a ! 0, 0 := a ! (n - 1)]) = mset a" using less.prems False by (intro mset_swap) auto
      with b(3) show ?thesis by (simp add: a1_def set_item_def k_def item_def)
    qed
    have db: "drop (n - 1) b = item a 1 # drop n a"
    proof -
      have "drop (n - 1) a1 = a1 ! (n - 1) # drop (Suc (n - 1)) a1"
        using False less.prems(2) by (intro Cons_nth_drop_Suc [symmetric]) (simp add: a1_def)
      with b(4) False less.prems(2) show ?thesis by (simp add: a1_def set_item_def item_def)
    qed
    have "mset (take (n - 1) b) + mset (drop (n - 1) b) = mset (take n a) + mset (drop n a)"
      using mb by (simp only: union_code [symmetric] mset_append [symmetric] append_take_drop_id)
    then have "add_mset (item a 1) (mset (take (n - 1) b)) = mset (take n a)" unfolding db by simp
    then have tb: "set (take (n - 1) b) \<subseteq> set (take n a)" by (metis in_multiset_in_set mset_subset_eq_insertD subsetI insertI2 set_mset_add_mset_insert set_mset_mset)
    have "sorted_wrt (\<lambda>x y. cmp x y \<le> 0) (drop (n - 1) b)"
      unfolding db using less.prems(3,4) mem by simp
    moreover have "\<forall>x\<in>set (take (n - 1) b). \<forall>y\<in>set (drop (n - 1) b). cmp x y \<le> 0"
      unfolding db using tb root less.prems(4) by auto
    moreover have "heap_drain cmp n a = heap_drain cmp (n - 1) b"
      using False by (subst heap_drain.simps) (simp add: Let_def b_def a1_def k_def)
    ultimately show ?thesis using less.IH [of "n - 1" b] b mb False less.prems(2) by simp
  qed
qed

lemma heapsort_sorts:
  assumes "0 < sz"
  shows "\<exists>b. heapsort True cmp (length a) sz a = Inr b \<and> sorted_wrt (\<lambda>x y. cmp x y \<le> 0) b \<and> mset b = mset a"
proof (cases "length a \<le> 1")
  case True
  then have "sorted_wrt (\<lambda>x y. cmp x y \<le> 0) a" by (cases a) auto
  with True show ?thesis by (simp add: heapsort_def)
next
  case False
  have "heap_from cmp (Suc (length a div 2)) (length a) a" unfolding heap_from_def by auto
  from heap_build_heap [OF this]
  have "heap_from cmp 1 (length a) (heap_build cmp (length a) (length a div 2) a)"
    "length (heap_build cmp (length a) (length a div 2) a) = length a"
    "mset (heap_build cmp (length a) (length a div 2) a) = mset a" by auto
  with heap_drain_sorts [of "length a" "heap_build cmp (length a) (length a div 2) a"] False assms
  show ?thesis by (simp add: heapsort_def)
qed

end


subsection \<open>\<open>qsort\<close>\<close>

definition med3 :: "'a cmp_t \<Rightarrow> 'a list \<Rightarrow> nat \<Rightarrow> nat \<Rightarrow> nat \<Rightarrow> nat" where
  "med3 cmp x a b c =
     (if cmp (x ! a) (x ! b) < 0
      then (if cmp (x ! b) (x ! c) < 0 then b else if cmp (x ! a) (x ! c) < 0 then c else a)
      else (if cmp (x ! b) (x ! c) > 0 then b else if cmp (x ! a) (x ! c) < 0 then a else c))"

text \<open>The inner loop of the insertion sort: the item at \<open>pl\<close> moves down while its predecessor is larger.\<close>

fun insertion_down :: "'a cmp_t \<Rightarrow> nat \<Rightarrow> nat \<Rightarrow> 'a list \<Rightarrow> 'a list" where
  "insertion_down cmp a pl x =
     (if a < pl \<and> cmp (x ! (pl - 1)) (x ! pl) > 0
      then insertion_down cmp a (pl - 1) (bswap x pl (pl - 1)) else x)"

declare insertion_down.simps [simp del]

function insertion_loop :: "'a cmp_t \<Rightarrow> nat \<Rightarrow> nat \<Rightarrow> nat \<Rightarrow> 'a list \<Rightarrow> 'a list" where
  "insertion_loop cmp a pn pm x =
     (if pm < pn then insertion_loop cmp a pn (pm + 1) (insertion_down cmp a pm x) else x)"
  by pat_completeness auto
termination by (relation "measure (\<lambda>(cmp, a, pn, pm, x). pn - pm)") auto

declare insertion_loop.simps [simp del]

definition qsort_pivot :: "'a cmp_t \<Rightarrow> nat \<Rightarrow> nat \<Rightarrow> 'a list \<Rightarrow> nat" where
  "qsort_pivot cmp a n x =
     (let pm = a + n div 2
      in if n > 7
         then
           let pl = a;
               pn = a + (n - 1);
               d = n div 8;
               (pl, pm, pn) =
                 (if n > 40
                  then (med3 cmp x pl (pl + d) (pl + 2 * d), med3 cmp x (pm - d) pm (pm + d),
                        med3 cmp x (pn - 2 * d) (pn - d) pn)
                  else (pl, pm, pn))
           in med3 cmp x pl pm pn
         else pm)"

text \<open>The two scans of the partition loop. \<open>pb\<close> starts one above the first item, so \<open>pc\<close> is never 0 where
  the second scan lowers it.\<close>

function scan_up :: "'a cmp_t \<Rightarrow> nat \<Rightarrow> nat \<Rightarrow> nat \<Rightarrow> nat \<Rightarrow> bool \<Rightarrow> 'a list \<Rightarrow> nat \<times> nat \<times> bool \<times> 'a list" where
  "scan_up cmp a pc pa pb swapped x =
     (if pb \<le> pc \<and> cmp (x ! pb) (x ! a) \<le> 0
      then if cmp (x ! pb) (x ! a) = 0 then scan_up cmp a pc (pa + 1) (pb + 1) True (bswap x pa pb)
           else scan_up cmp a pc pa (pb + 1) swapped x
      else (pa, pb, swapped, x))"
  by pat_completeness auto
termination by (relation "measure (\<lambda>(cmp, a, pc, pa, pb, swapped, x). Suc pc - pb)") auto

function scan_down :: "'a cmp_t \<Rightarrow> nat \<Rightarrow> nat \<Rightarrow> nat \<Rightarrow> nat \<Rightarrow> bool \<Rightarrow> 'a list \<Rightarrow> nat \<times> nat \<times> bool \<times> 'a list" where
  "scan_down cmp a pb pc pd swapped x =
     (if pb \<le> pc \<and> 0 < pc \<and> cmp (x ! pc) (x ! a) \<ge> 0
      then if cmp (x ! pc) (x ! a) = 0 then scan_down cmp a pb (pc - 1) (pd - 1) True (bswap x pc pd)
           else scan_down cmp a pb (pc - 1) pd swapped x
      else (pc, pd, swapped, x))"
  by pat_completeness auto
termination by (relation "measure (\<lambda>(cmp, a, pb, pc, pd, swapped, x). pc)") auto

declare scan_up.simps [simp del] scan_down.simps [simp del]

lemma scan_up_mono:
  "scan_up cmp a pc pa pb sw x = (pa', pb', sw', x') \<Longrightarrow> pb \<le> pb'"
proof (induction cmp a pc pa pb sw x arbitrary: pa' pb' sw' x' rule: scan_up.induct)
  case (1 cmp a pc pa pb sw x)
  show ?case
  proof (cases "pb \<le> pc \<and> cmp (x ! pb) (x ! a) \<le> 0")
    case True
    with "1.prems" "1.IH"(2) [OF True] "1.IH"(1) [OF True] show ?thesis
      by (subst (asm) scan_up.simps) (fastforce split: if_splits)
  next
    case False
    with "1.prems" show ?thesis by (subst (asm) scan_up.simps) auto
  qed
qed

lemma scan_down_mono:
  "scan_down cmp a pb pc pd sw x = (pc', pd', sw', x') \<Longrightarrow> pc' \<le> pc"
proof (induction cmp a pb pc pd sw x arbitrary: pc' pd' sw' x' rule: scan_down.induct)
  case (1 cmp a pb pc pd sw x)
  show ?case
  proof (cases "pb \<le> pc \<and> 0 < pc \<and> cmp (x ! pc) (x ! a) \<ge> 0")
    case True
    with "1.prems" "1.IH"(2) [OF True] "1.IH"(1) [OF True] show ?thesis
      by (subst (asm) scan_down.simps) (fastforce split: if_splits)
  next
    case False
    with "1.prems" show ?thesis by (subst (asm) scan_down.simps) auto
  qed
qed

function partition_loop ::
  "'a cmp_t \<Rightarrow> nat \<Rightarrow> nat \<Rightarrow> nat \<Rightarrow> nat \<Rightarrow> nat \<Rightarrow> bool \<Rightarrow> 'a list \<Rightarrow> nat \<times> nat \<times> nat \<times> nat \<times> bool \<times> 'a list" where
  "partition_loop cmp a pa pb pc pd swapped x =
     (case scan_up cmp a pc pa pb swapped x of (pa, pb, swapped, x) \<Rightarrow>
        (case scan_down cmp a pb pc pd swapped x of (pc, pd, swapped, x) \<Rightarrow>
           if pb > pc then (pa, pb, pc, pd, swapped, x)
           else partition_loop cmp a pa (pb + 1) (pc - 1) pd True (bswap x pb pc)))"
  by pat_completeness auto
termination
proof (relation "measure (\<lambda>(cmp, a, pa, pb, pc, pd, swapped, x). Suc pc - pb)", goal_cases)
  case (2 cmp a pa pb pc pd sw x pa' r1 pb' r2 sw' x' pc' r3 pd' r4 sw'' x'')
  then show ?case
    using scan_up_mono [of cmp a pc pa pb sw x pa' pb' sw' x']
      scan_down_mono [of cmp a pb' pc pd sw' x' pc' pd' sw'' x''] by auto
qed simp

declare partition_loop.simps [simp del]

text \<open>\<open>vecswap\<close> exchanges two runs of items.\<close>

fun vecswap :: "'a list \<Rightarrow> nat \<Rightarrow> nat \<Rightarrow> nat \<Rightarrow> 'a list" where
  "vecswap x a b 0 = x"
| "vecswap x a b (Suc n) = vecswap (bswap x a b) (a + 1) (b + 1) n"

text \<open>A rearrangement of the items from \<open>i\<close> up to \<open>j\<close>.\<close>

definition perm_in :: "nat \<Rightarrow> nat \<Rightarrow> 'a list \<Rightarrow> 'a list \<Rightarrow> bool" where
  "perm_in i j x y \<longleftrightarrow> mset y = mset x \<and> take i y = take i x \<and> drop j y = drop j x"

lemma perm_in_refl [simp]: "perm_in i j x x"
  by (simp add: perm_in_def)

lemma perm_in_trans: "perm_in i j x y \<Longrightarrow> perm_in i j y z \<Longrightarrow> perm_in i j x z"
  by (simp add: perm_in_def)

lemma perm_in_length: "perm_in i j x y \<Longrightarrow> length y = length x"
  unfolding perm_in_def by (metis size_mset)

lemma take_eq_mono: "take n x = take n y \<Longrightarrow> m \<le> n \<Longrightarrow> take m x = take m y"
  by (metis min.absorb1 take_take)

lemma drop_eq_mono: "drop n x = drop n y \<Longrightarrow> n \<le> m \<Longrightarrow> drop m x = drop m y"
  by (metis drop_drop le_add_diff_inverse2)

lemma perm_in_mono: "perm_in i j x y \<Longrightarrow> i' \<le> i \<Longrightarrow> j \<le> j' \<Longrightarrow> perm_in i' j' x y"
  unfolding perm_in_def using take_eq_mono drop_eq_mono by metis

lemma perm_in_nth:
  assumes "perm_in i j x y" "k < i \<or> j \<le> k" "k < length x"
  shows "y ! k = x ! k"
  using assms(2)
proof
  assume "k < i"
  then show ?thesis using assms(1) unfolding perm_in_def by (metis nth_take)
next
  assume "j \<le> k"
  moreover have "drop j y ! (k - j) = drop j x ! (k - j)" using assms(1) by (simp add: perm_in_def)
  ultimately show ?thesis using assms perm_in_length [OF assms(1)] by simp
qed

lemma length_bswap [simp]: "length (bswap x i j) = length x"
  by (simp add: bswap_def)

lemma nth_bswap:
  "i < length x \<Longrightarrow> j < length x \<Longrightarrow> bswap x i j ! k = (if k = i then x ! j else if k = j then x ! i else x ! k)"
  by (auto simp: bswap_def nth_list_update)

lemma perm_in_bswap:
  assumes "i \<le> k" "k < j" "i \<le> l" "l < j" "j \<le> length x"
  shows "perm_in i j x (bswap x k l)"
  using assms by (auto simp: perm_in_def bswap_def mset_swap)

lemma perm_in_slice:
  assumes "perm_in i j x y" "i \<le> j" "j \<le> length x"
  shows "mset (take (j - i) (drop i y)) = mset (take (j - i) (drop i x))"
proof -
  have split: "mset z = mset (take i z) + mset (take (j - i) (drop i z)) + mset (drop j z)" for z :: "'a list"
  proof -
    have "z = take i z @ take (j - i) (drop i z) @ drop j z"
      using assms(2) by (metis append_take_drop_id drop_drop le_add_diff_inverse2)
    then show ?thesis by (metis mset_append add.assoc)
  qed
  have e: "mset y = mset x" "take i y = take i x" "drop j y = drop j x" using assms(1) by (auto simp: perm_in_def)
  from e(1) show ?thesis unfolding split [of x] split [of y] e(2,3) by simp
qed

lemma perm_in_all:
  assumes "perm_in i j x y" "j \<le> length x" "\<forall>k. i \<le> k \<and> k < j \<longrightarrow> P (x ! k)" "i \<le> k" "k < j"
  shows "P (y ! k)"
proof -
  have "y ! k = take (j - i) (drop i y) ! (k - i)" using assms perm_in_length [OF assms(1)] by simp
  moreover have "k - i < length (take (j - i) (drop i y))" using assms perm_in_length [OF assms(1)] by simp
  ultimately have "y ! k \<in> set (take (j - i) (drop i y))" by (metis nth_mem)
  also have "\<dots> = set (take (j - i) (drop i x))"
    using perm_in_slice [OF assms(1)] assms by (metis order.strict_implies_order order_le_less_trans set_mset_mset)
  finally obtain l where "l < j - i" "y ! k = x ! (i + l)" using assms by (auto simp: in_set_conv_nth)
  then show ?thesis using assms(3) by auto
qed

text \<open>The invariant of the partition: items equal to the pivot at both ends, smaller ones before \<open>pb\<close> and larger
  ones after \<open>pc\<close>.\<close>

definition part_inv :: "'a cmp_t \<Rightarrow> nat \<Rightarrow> nat \<Rightarrow> nat \<Rightarrow> nat \<Rightarrow> nat \<Rightarrow> nat \<Rightarrow> 'a list \<Rightarrow> bool" where
  "part_inv cmp a pn pa pb pc pd x \<longleftrightarrow> a < pa \<and> pa \<le> pb \<and> pb \<le> Suc pc \<and> pc \<le> pd \<and> pd < pn \<and> pn \<le> length x
     \<and> (\<forall>i. a < i \<and> i < pa \<longrightarrow> cmp (x ! i) (x ! a) = 0) \<and> (\<forall>i. pa \<le> i \<and> i < pb \<longrightarrow> cmp (x ! i) (x ! a) < 0)
     \<and> (\<forall>i. pc < i \<and> i \<le> pd \<longrightarrow> cmp (x ! i) (x ! a) > 0) \<and> (\<forall>i. pd < i \<and> i < pn \<longrightarrow> cmp (x ! i) (x ! a) = 0)"

lemma scan_up_inv:
  assumes "part_inv cmp a pn pa pb pc pd x" "scan_up cmp a pc pa pb sw x = (pa', pb', sw', x')"
  shows "part_inv cmp a pn pa' pb' pc pd x' \<and> perm_in a pn x x' \<and> (pb' \<le> pc \<longrightarrow> cmp (x' ! pb') (x' ! a) > 0)"
  using assms
proof (induction cmp a pc pa pb sw x arbitrary: pa' pb' sw' x' rule: scan_up.induct)
  case (1 cmp a pc pa pb sw x)
  note inv = "1.prems"(1) [unfolded part_inv_def]
  show ?case
  proof (cases "pb \<le> pc \<and> cmp (x ! pb) (x ! a) \<le> 0")
    case True
    show ?thesis
    proof (cases "cmp (x ! pb) (x ! a) = 0")
      case T: True
      have "part_inv cmp a pn (pa + 1) (pb + 1) pc pd (bswap x pa pb)"
        unfolding part_inv_def using inv True T by (auto simp: nth_bswap less_Suc_eq)
      moreover from True T "1.prems"
      have "scan_up cmp a pc (pa + 1) (pb + 1) True (bswap x pa pb) = (pa', pb', sw', x')"
        by (subst (asm) scan_up.simps) simp
      moreover have "perm_in a pn x (bswap x pa pb)" using inv True by (intro perm_in_bswap) auto
      ultimately show ?thesis using "1.IH"(1) [OF True T] perm_in_trans by blast
    next
      case F: False
      then have "part_inv cmp a pn pa (pb + 1) pc pd x"
        unfolding part_inv_def using inv True by (auto simp: less_Suc_eq)
      moreover from True F "1.prems" have "scan_up cmp a pc pa (pb + 1) sw x = (pa', pb', sw', x')"
        by (subst (asm) scan_up.simps) simp
      ultimately show ?thesis using "1.IH"(2) [OF True F] by blast
    qed
  next
    case False
    with "1.prems" show ?thesis by (simp add: scan_up.simps [of cmp a pc pa pb sw x]) auto
  qed
qed

lemma scan_down_inv:
  assumes "part_inv cmp a pn pa pb pc pd x" "scan_down cmp a pb pc pd sw x = (pc', pd', sw', x')"
  shows "part_inv cmp a pn pa pb pc' pd' x' \<and> perm_in a pn x x' \<and> (pb \<le> pc' \<longrightarrow> cmp (x' ! pc') (x' ! a) < 0)
    \<and> (\<forall>i\<le>pc'. x' ! i = x ! i) \<and> pc' \<le> pc"
  using assms
proof (induction cmp a pb pc pd sw x arbitrary: pc' pd' sw' x' rule: scan_down.induct)
  case (1 cmp a pb pc pd sw x)
  note inv = "1.prems"(1) [unfolded part_inv_def]
  show ?case
  proof (cases "pb \<le> pc \<and> 0 < pc \<and> cmp (x ! pc) (x ! a) \<ge> 0")
    case True
    have h: "pc - Suc 0 < i \<longleftrightarrow> pc \<le> i" "i \<le> pd - Suc 0 \<longleftrightarrow> i < pd" "pd - Suc 0 < i \<longleftrightarrow> pd \<le> i" for i
      using True inv by auto
    have r: "pc \<le> i \<Longrightarrow> i \<noteq> pc \<Longrightarrow> i \<le> pd \<Longrightarrow> 0 < cmp (x ! i) (x ! a)"
      "pd \<le> i \<Longrightarrow> i \<noteq> pd \<Longrightarrow> i < pn \<Longrightarrow> cmp (x ! i) (x ! a) = 0"
      "a < i \<Longrightarrow> i < pa \<Longrightarrow> cmp (x ! i) (x ! a) = 0" "pa \<le> i \<Longrightarrow> i < pb \<Longrightarrow> cmp (x ! i) (x ! a) < 0" for i
      using inv by (simp_all add: nat_less_le)
    have b: "a < pa" "pa \<le> pb" "pb \<le> pc" "0 < pc" "pc \<le> pd" "pd < pn" "pn \<le> length x" using inv True by simp_all
    show ?thesis
    proof (cases "cmp (x ! pc) (x ! a) = 0")
      case T: True
      have "part_inv cmp a pn pa pb (pc - 1) (pd - 1) (bswap x pc pd)"
        unfolding part_inv_def using b T by (auto simp: nth_bswap h r)
      moreover from True T "1.prems"
      have "scan_down cmp a pb (pc - 1) (pd - 1) True (bswap x pc pd) = (pc', pd', sw', x')"
        by (subst (asm) scan_down.simps) simp
      moreover have "perm_in a pn x (bswap x pc pd)" using inv True by (intro perm_in_bswap) auto
      moreover have "\<forall>i\<le>pc - 1. bswap x pc pd ! i = x ! i" using inv True by (auto simp: nth_bswap)
      ultimately show ?thesis
        using "1.IH"(1) [OF True T, of pc' pd' sw' x'] perm_in_trans [of a pn x "bswap x pc pd" x'] by auto
    next
      case F: False
      have "part_inv cmp a pn pa pb (pc - 1) pd x"
        unfolding part_inv_def using b
      proof (intro conjI allI impI)
        fix i assume "pc - 1 < i \<and> i \<le> pd"
        then show "0 < cmp (x ! i) (x ! a)" using r(1) [of i] F True by (cases "i = pc") (auto simp: h)
      qed (auto simp: r)
      moreover from True F "1.prems" have "scan_down cmp a pb (pc - 1) pd sw x = (pc', pd', sw', x')"
        by (subst (asm) scan_down.simps) simp
      ultimately show ?thesis using "1.IH"(2) [OF True F, of pc' pd' sw' x'] by auto
    qed
  next
    case False
    with "1.prems" inv show ?thesis by (simp add: scan_down.simps [of cmp a pb pc pd sw x]) auto
  qed
qed

lemma partition_loop_inv:
  assumes "part_inv cmp a pn pa pb pc pd x" "partition_loop cmp a pa pb pc pd sw x = (pa', pb', pc', pd', sw', x')"
  shows "part_inv cmp a pn pa' pb' pc' pd' x' \<and> perm_in a pn x x' \<and> pb' = Suc pc'"
  using assms
proof (induction cmp a pa pb pc pd sw x arbitrary: pa' pb' pc' pd' sw' x' rule: partition_loop.induct)
  case (1 cmp a pa pb pc pd sw x)
  obtain pa1 pb1 sw1 x1 where u: "scan_up cmp a pc pa pb sw x = (pa1, pb1, sw1, x1)" by (metis prod_cases4)
  obtain pc1 pd1 sw2 x2 where d: "scan_down cmp a pb1 pc pd sw1 x1 = (pc1, pd1, sw2, x2)" by (metis prod_cases4)
  from scan_up_inv [OF "1.prems"(1) u]
  have i1: "part_inv cmp a pn pa1 pb1 pc pd x1" "perm_in a pn x x1" "pb1 \<le> pc \<Longrightarrow> cmp (x1 ! pb1) (x1 ! a) > 0" by auto
  from scan_down_inv [OF i1(1) d]
  have i2: "part_inv cmp a pn pa1 pb1 pc1 pd1 x2" "perm_in a pn x1 x2" "pb1 \<le> pc1 \<Longrightarrow> cmp (x2 ! pc1) (x2 ! a) < 0"
    "\<forall>i\<le>pc1. x2 ! i = x1 ! i" "pc1 \<le> pc" by auto
  note inv = i2(1) [unfolded part_inv_def]
  show ?case
  proof (cases "pb1 > pc1")
    case True
    then have "(pa', pb', pc', pd', sw', x') = (pa1, pb1, pc1, pd1, sw2, x2)"
      using "1.prems"(2) by (subst (asm) partition_loop.simps) (simp add: u d)
    moreover have "pb1 = Suc pc1" using True inv by linarith
    ultimately show ?thesis using i2(1) perm_in_trans [OF i1(2) i2(2)] by simp
  next
    case False
    have up: "cmp (x2 ! pb1) (x2 ! a) > 0"
    proof -
      have "x2 ! pb1 = x1 ! pb1" "x2 ! a = x1 ! a" using i2(4) False inv by auto
      with i1(3) i2(5) False show ?thesis by simp
    qed
    have lo: "cmp (x2 ! pc1) (x2 ! a) < 0" using i2(3) False by simp
    have ne: "pb1 < pc1" using up lo False by (cases "pb1 = pc1") auto
    have h: "pc1 - Suc 0 < i \<longleftrightarrow> pc1 \<le> i" for i using ne by auto
    have r: "pc1 \<le> i \<Longrightarrow> i \<noteq> pc1 \<Longrightarrow> i \<le> pd1 \<Longrightarrow> 0 < cmp (x2 ! i) (x2 ! a)"
      "pd1 < i \<Longrightarrow> i < pn \<Longrightarrow> cmp (x2 ! i) (x2 ! a) = 0"
      "a < i \<Longrightarrow> i < pa1 \<Longrightarrow> cmp (x2 ! i) (x2 ! a) = 0" "pa1 \<le> i \<Longrightarrow> i < pb1 \<Longrightarrow> cmp (x2 ! i) (x2 ! a) < 0" for i
      using inv by (simp_all add: nat_less_le)
    have b: "a < pa1" "pa1 \<le> pb1" "pc1 \<le> pd1" "pd1 < pn" "pn \<le> length x2" using inv by simp_all
    have inv': "part_inv cmp a pn pa1 (pb1 + 1) (pc1 - 1) pd1 (bswap x2 pb1 pc1)"
      unfolding part_inv_def using b ne up lo by (auto simp: nth_bswap less_Suc_eq h r)
    have eq: "partition_loop cmp a pa1 (pb1 + 1) (pc1 - 1) pd1 True (bswap x2 pb1 pc1)
      = (pa', pb', pc', pd', sw', x')"
      using "1.prems"(2) False by (subst (asm) partition_loop.simps) (simp add: u d)
    have p: "perm_in a pn x2 (bswap x2 pb1 pc1)" using inv ne by (intro perm_in_bswap) auto
    from "1.IH" [OF u [symmetric] refl refl d [symmetric] refl refl False inv' eq]
    show ?thesis using perm_in_trans [OF i1(2) perm_in_trans [OF i2(2) perm_in_trans [OF p]]] by blast
  qed
qed

lemma med3_elim: "P a \<Longrightarrow> P b \<Longrightarrow> P c \<Longrightarrow> P (med3 cmp x a b c)"
  by (simp add: med3_def)

lemma qsort_pivot_range:
  assumes "7 \<le> n"
  shows "a \<le> qsort_pivot cmp a n x \<and> qsort_pivot cmp a n x < a + n"
proof (cases "n > 40")
  case True
  let ?P = "\<lambda>i. a \<le> i \<and> i < a + n"
  show ?thesis unfolding qsort_pivot_def Let_def using True
    by (simp, intro med3_elim [of ?P]) auto
next
  case False
  then show ?thesis using assms med3_elim [of "\<lambda>i. a \<le> i \<and> i < a + n" a "a + n div 2" "a + (n - 1)" cmp x]
    by (simp add: qsort_pivot_def Let_def)
qed

definition qsort_partition ::
  "'a cmp_t \<Rightarrow> nat \<Rightarrow> nat \<Rightarrow> 'a list \<Rightarrow> nat \<times> nat \<times> nat \<times> nat \<times> bool \<times> 'a list" where
  "qsort_partition cmp a n x =
     partition_loop cmp a (a + 1) (a + 1) (a + (n - 1)) (a + (n - 1)) False (bswap x a (qsort_pivot cmp a n x))"

lemma qsort_partition_inv:
  assumes "7 \<le> n" "a + n \<le> length x" "qsort_partition cmp a n x = (pa, pb, pc, pd, sw, y)"
  shows "part_inv cmp a (a + n) pa pb pc pd y" "perm_in a (a + n) x y" "pb = Suc pc"
proof -
  let ?b = "bswap x a (qsort_pivot cmp a n x)"
  have "perm_in a (a + n) x ?b" using qsort_pivot_range [OF assms(1), of a cmp x] assms by (intro perm_in_bswap) auto
  moreover have "part_inv cmp a (a + n) (a + 1) (a + 1) (a + (n - 1)) (a + (n - 1)) ?b"
    unfolding part_inv_def using assms by auto
  ultimately show "part_inv cmp a (a + n) pa pb pc pd y" "perm_in a (a + n) x y" "pb = Suc pc"
    using partition_loop_inv assms(3) perm_in_trans unfolding qsort_partition_def by metis+
qed

text \<open>The two exchanges that bring the items equal to the pivot between the smaller and the larger ones.\<close>

definition swap_ends :: "nat \<Rightarrow> nat \<Rightarrow> nat \<Rightarrow> nat \<Rightarrow> nat \<Rightarrow> nat \<Rightarrow> 'a list \<Rightarrow> 'a list" where
  "swap_ends a pn pa pb pc pd x =
     (let d1 = min (pa - a) (pb - pa);
          x = vecswap x a (pb - d1) d1;
          d1 = min (pd - pc) (pn - pd - 1)
      in vecswap x pb (pn - d1) d1)"

text \<open>\<open>local_qsort\<close> on the \<open>n\<close> items from \<open>a\<close>. The \<open>goto loop\<close> is the last recursive call of each branch; it is
  only reached with at least two items, so the test at the head of the function changes nothing there. An array
  that does not hold the \<open>n\<close> items is outside the contract of the C function; the model leaves it alone.\<close>

function local_qsort :: "'a cmp_t \<Rightarrow> nat \<Rightarrow> nat \<Rightarrow> 'a list \<Rightarrow> 'a list" where
  "local_qsort cmp a n x =
     (if n < 2 \<or> length x < a + n then x
      else if n < 7 then insertion_loop cmp a (a + n) (a + 1) x
      else
        (case qsort_partition cmp a n x of (pa, pb, pc, pd, swapped, x) \<Rightarrow>
           if \<not> swapped then insertion_loop cmp a (a + n) (a + 1) x
           else
             let pn = a + n;
                 x = swap_ends a pn pa pb pc pd x;
                 d1 = pb - pa;
                 d2 = pd - pc
             in if d1 \<le> d2
                then
                  let x = (if d1 > 1 then local_qsort cmp a d1 x else x)
                  in if d2 > 1 then local_qsort cmp (pn - d2) d2 x else x
                else
                  let x = (if d2 > 1 then local_qsort cmp (pn - d2) d2 x else x)
                  in if d1 > 1 then local_qsort cmp a d1 x else x))"
  by (pat_completeness, elim Pair_inject, simp only:)
termination
proof (relation "measure (\<lambda>(cmp, a, n, x). n)", goal_cases)
  case (2 cmp a n x pa q pb r pc s pd t sw y)
  then show ?case using qsort_partition_inv [of n a x cmp pa pb pc pd sw y] by (auto simp: part_inv_def)
next
  case (3 cmp a n x pa q pb r pc s pd t sw y)
  then show ?case using qsort_partition_inv [of n a x cmp pa pb pc pd sw y] by (auto simp: part_inv_def)
next
  case (4 cmp a n x pa q pb r pc s pd t sw y)
  then show ?case using qsort_partition_inv [of n a x cmp pa pb pc pd sw y] by (auto simp: part_inv_def)
next
  case (5 cmp a n x pa q pb r pc s pd t sw y)
  then show ?case using qsort_partition_inv [of n a x cmp pa pb pc pd sw y] by (auto simp: part_inv_def)
qed simp

declare local_qsort.simps [simp del]

definition qsort :: "'a cmp_t \<Rightarrow> 'a list \<Rightarrow> nat \<Rightarrow> 'a list" where
  "qsort cmp x n = local_qsort cmp 0 n x"


lemma vecswap_nth:
  assumes "a + n \<le> b" "b + n \<le> length x"
  shows "vecswap x a b n ! k =
    (if a \<le> k \<and> k < a + n then x ! (k - a + b) else if b \<le> k \<and> k < b + n then x ! (k - b + a) else x ! k)"
  using assms
proof (induction n arbitrary: x a b)
  case (Suc n)
  have "vecswap x a b (Suc n) ! k =
    (if a + 1 \<le> k \<and> k < a + 1 + n then bswap x a b ! (k - (a + 1) + (b + 1))
     else if b + 1 \<le> k \<and> k < b + 1 + n then bswap x a b ! (k - (b + 1) + (a + 1)) else bswap x a b ! k)"
    using Suc.IH [of "a + 1" "b + 1" "bswap x a b"] Suc.prems by simp
  also have "\<dots> = (if a \<le> k \<and> k < a + Suc n then x ! (k - a + b)
    else if b \<le> k \<and> k < b + Suc n then x ! (k - b + a) else x ! k)"
  proof -
    have nb: "bswap x a b ! i = (if i = a then x ! b else if i = b then x ! a else x ! i)" for i
      using Suc.prems by (intro nth_bswap) auto
    consider "k = a" | "a < k" "k < a + Suc n" | "k = b" | "b < k" "k < b + Suc n"
      | "k < a \<or> a + Suc n \<le> k" "k < b \<or> b + Suc n \<le> k" by linarith
    then show ?thesis using Suc.prems unfolding nb by cases (auto simp: Suc_diff_Suc)
  qed
  finally show ?case .
qed auto

lemma perm_in_vecswap:
  "a + n \<le> b \<Longrightarrow> b + n \<le> length x \<Longrightarrow> perm_in a (b + n) x (vecswap x a b n)"
proof (induction n arbitrary: x a b)
  case (Suc n)
  have "perm_in a (b + Suc n) x (bswap x a b)" using Suc.prems by (intro perm_in_bswap) auto
  moreover have "perm_in (a + 1) (b + 1 + n) (bswap x a b) (vecswap (bswap x a b) (a + 1) (b + 1) n)"
    using Suc.IH [of "a + 1" "b + 1" "bswap x a b"] Suc.prems by simp
  then have "perm_in a (b + Suc n) (bswap x a b) (vecswap (bswap x a b) (a + 1) (b + 1) n)"
    by (rule perm_in_mono) auto
  ultimately show ?case by (simp add: perm_in_trans)
qed simp

text \<open>Exchanging the shorter part of a run with the end of the run turns it around as two blocks.\<close>

lemma block_swap_nth:
  assumes "a + p + q \<le> length x" "y = vecswap x a (a + p + q - min p q) (min p q)"
  shows "a \<le> i \<Longrightarrow> i < a + q \<Longrightarrow> \<exists>k. a + p \<le> k \<and> k < a + p + q \<and> y ! i = x ! k"
    "a + q \<le> i \<Longrightarrow> i < a + p + q \<Longrightarrow> \<exists>k. a \<le> k \<and> k < a + p \<and> y ! i = x ! k"
    "perm_in a (a + p + q) x y"
proof -
  show "\<exists>k. a + p \<le> k \<and> k < a + p + q \<and> y ! i = x ! k" if "a \<le> i" "i < a + q"
  proof (cases "p \<le> q")
    case True
    then have y: "y = vecswap x a (a + q) p" using assms(2) by simp
    have "y ! i = x ! (if i < a + p then i - a + (a + q) else i)"
      unfolding y using True that assms(1) by (subst vecswap_nth) auto
    then show ?thesis using that True by (intro exI [of _ "if i < a + p then i - a + (a + q) else i"]) auto
  next
    case False
    then have y: "y = vecswap x a (a + p) q" using assms(2) by simp
    have "y ! i = x ! (i - a + (a + p))" unfolding y using False that assms(1) by (subst vecswap_nth) auto
    then show ?thesis using that by (intro exI [of _ "i - a + (a + p)"]) auto
  qed
  show "\<exists>k. a \<le> k \<and> k < a + p \<and> y ! i = x ! k" if "a + q \<le> i" "i < a + p + q"
  proof (cases "p \<le> q")
    case True
    then have y: "y = vecswap x a (a + q) p" using assms(2) by simp
    have "y ! i = x ! (i - (a + q) + a)" unfolding y using True that assms(1) by (subst vecswap_nth) auto
    then show ?thesis using that by (intro exI [of _ "i - (a + q) + a"]) auto
  next
    case False
    then have y: "y = vecswap x a (a + p) q" using assms(2) by simp
    have "y ! i = x ! (if a + p \<le> i then i - (a + p) + a else i)"
      unfolding y using False that assms(1) by (subst vecswap_nth) auto
    then show ?thesis using that False by (intro exI [of _ "if a + p \<le> i then i - (a + p) + a else i"]) auto
  qed
  have "a + min p q \<le> a + p + q - min p q" "a + p + q - min p q + min p q = a + p + q" by auto
  then show "perm_in a (a + p + q) x y"
    using perm_in_vecswap [of a "min p q" "a + p + q - min p q" x] assms by simp
qed

lemma block_swap:
  assumes "a \<le> m" "m \<le> e" "e \<le> length x" "\<forall>i. a \<le> i \<and> i < m \<longrightarrow> P (x ! i)" "\<forall>i. m \<le> i \<and> i < e \<longrightarrow> Q (x ! i)"
    and y: "y = vecswap x a (e - min (m - a) (e - m)) (min (m - a) (e - m))"
  shows "perm_in a e x y" "\<forall>i. a \<le> i \<and> i < a + (e - m) \<longrightarrow> Q (y ! i)" "\<forall>i. a + (e - m) \<le> i \<and> i < e \<longrightarrow> P (y ! i)"
proof -
  obtain p q where pq: "m = a + p" "e = a + p + q" using assms(1,2) by (metis le_add_diff_inverse)
  have "a + p + q \<le> length x" "y = vecswap x a (a + p + q - min p q) (min p q)" using assms(3) y pq by auto
  note s = block_swap_nth [OF this]
  show "perm_in a e x y" using s(3) pq by simp
  show "\<forall>i. a \<le> i \<and> i < a + (e - m) \<longrightarrow> Q (y ! i)" using s(1) assms(5) pq by fastforce
  show "\<forall>i. a + (e - m) \<le> i \<and> i < e \<longrightarrow> P (y ! i)" using s(2) assms(4) pq by fastforce
qed

text \<open>After the partition: smaller, equal and larger items, in that order.\<close>

lemma swap_ends_blocks:
  assumes inv: "part_inv cmp a pn pa pb pc pd x" and pb: "pb = Suc pc" and v: "cmp (x ! a) (x ! a) = 0"
    and y: "y = swap_ends a pn pa pb pc pd x"
  shows "perm_in a pn x y" "\<forall>i. a \<le> i \<and> i < a + (pb - pa) \<longrightarrow> cmp (y ! i) (x ! a) < 0"
    "\<forall>i. a + (pb - pa) \<le> i \<and> i < pn - (pd - pc) \<longrightarrow> cmp (y ! i) (x ! a) = 0"
    "\<forall>i. pn - (pd - pc) \<le> i \<and> i < pn \<longrightarrow> cmp (y ! i) (x ! a) > 0"
proof -
  note i = inv [unfolded part_inv_def]
  have b: "a < pa" "pa \<le> pb" "pb \<le> Suc pc" "pc \<le> pd" "pd < pn" "pn \<le> length x" using i by simp_all
  define x1 where "x1 = vecswap x a (pb - min (pa - a) (pb - pa)) (min (pa - a) (pb - pa))"
  have lo: "\<forall>i. a \<le> i \<and> i < pa \<longrightarrow> cmp (x ! i) (x ! a) = 0"
  proof (intro allI impI)
    fix j assume "a \<le> j \<and> j < pa"
    then show "cmp (x ! j) (x ! a) = 0" using i v by (cases "j = a") auto
  qed
  have le: "\<forall>i. pa \<le> i \<and> i < pb \<longrightarrow> cmp (x ! i) (x ! a) < 0" using i by blast
  have "a \<le> pa" "pb \<le> length x" using b pb by simp_all
  note s1 = block_swap [OF \<open>a \<le> pa\<close> b(2) \<open>pb \<le> length x\<close>, of "\<lambda>z. cmp z (x ! a) = 0" "\<lambda>z. cmp z (x ! a) < 0",
      OF lo le x1_def]
  have x1: "x1 ! j = x ! j" if "pb \<le> j" "j < pn" for j
    using perm_in_nth [OF s1(1), of j] that b by simp
  have len: "length x1 = length x" using perm_in_length [OF s1(1)] .
  have gt: "\<forall>j. pb \<le> j \<and> j < Suc pd \<longrightarrow> cmp (x1 ! j) (x ! a) > 0" using i b pb x1 by simp
  have eq: "\<forall>j. Suc pd \<le> j \<and> j < pn \<longrightarrow> cmp (x1 ! j) (x ! a) = 0" using i b pb x1 by simp
  have y2: "y = vecswap x1 pb (pn - min (Suc pd - pb) (pn - Suc pd)) (min (Suc pd - pb) (pn - Suc pd))"
    unfolding y swap_ends_def Let_def x1_def [symmetric] using pb by simp
  have "pb \<le> Suc pd" "Suc pd \<le> pn" "pn \<le> length x1" using b pb len by simp_all
  note s2 = block_swap [OF this, of "\<lambda>z. cmp z (x ! a) > 0" "\<lambda>z. cmp z (x ! a) = 0", OF gt eq y2]
  have y1: "y ! j = x1 ! j" if "j < pb" for j
    using perm_in_nth [OF s2(1), of j] that b pb len by simp
  show "perm_in a pn x y"
    using perm_in_mono [OF s1(1), of a pn] perm_in_mono [OF s2(1), of a pn] b pb perm_in_trans by auto
  have "i < pb" if "i < a + (pb - pa)" for i using that b by linarith
  then show "\<forall>i. a \<le> i \<and> i < a + (pb - pa) \<longrightarrow> cmp (y ! i) (x ! a) < 0"
    using s1(2) y1 by metis
  show "\<forall>i. pn - (pd - pc) \<le> i \<and> i < pn \<longrightarrow> cmp (y ! i) (x ! a) > 0"
  proof -
    have "pn - (pd - pc) = pb + (pn - Suc pd)" using b pb by linarith
    with s2(3) show ?thesis by simp
  qed
  show "\<forall>i. a + (pb - pa) \<le> i \<and> i < pn - (pd - pc) \<longrightarrow> cmp (y ! i) (x ! a) = 0"
  proof (intro allI impI)
    fix j assume j: "a + (pb - pa) \<le> j \<and> j < pn - (pd - pc)"
    show "cmp (y ! j) (x ! a) = 0"
    proof (cases "j < pb")
      case True
      then show ?thesis using s1(3) y1 [of j] j by simp
    next
      case False
      have "pb + (pn - Suc pd) = pn - (pd - pc)" using b pb by simp
      then show ?thesis using s2(2) j False by simp
    qed
  qed
qed

lemma sorted_rangeI_le: "sorted_range cmp x i j \<Longrightarrow> j' \<le> j \<Longrightarrow> sorted_range cmp x i j'"
  by (simp add: sorted_range_def)

lemma sorted_range_cong:
  "\<forall>k. i \<le> k \<and> k < j \<longrightarrow> y ! k = x ! k \<Longrightarrow> sorted_range cmp x i j \<Longrightarrow> sorted_range cmp y i j"
  by (simp add: sorted_range_def)

context comparator
begin

lemma insertion_down_sorts:
  assumes "a \<le> pl" "pl < e" "e \<le> length x"
    "\<forall>k l. a \<le> k \<and> k < l \<and> l < e \<and> k \<noteq> pl \<and> l \<noteq> pl \<longrightarrow> cmp (x ! k) (x ! l) \<le> 0"
    "\<forall>l. pl < l \<and> l < e \<longrightarrow> cmp (x ! pl) (x ! l) \<le> 0"
  shows "sorted_range cmp (insertion_down cmp a pl x) a e \<and> perm_in a e x (insertion_down cmp a pl x)"
  using assms
proof (induction pl arbitrary: x rule: less_induct)
  case (less pl)
  show ?case
  proof (cases "a < pl \<and> cmp (x ! (pl - Suc 0)) (x ! pl) > 0")
    case True
    let ?y = "bswap x pl (pl - Suc 0)"
    have n: "?y ! k = (if k = pl then x ! (pl - Suc 0) else if k = pl - Suc 0 then x ! pl else x ! k)" for k
      using less.prems by (intro nth_bswap) auto
    have p: "pl - Suc 0 < pl" "a \<le> pl - Suc 0" "pl - Suc 0 < e" "e \<le> length ?y" using True less.prems by auto
    have "\<forall>k l. a \<le> k \<and> k < l \<and> l < e \<and> k \<noteq> pl - Suc 0 \<and> l \<noteq> pl - Suc 0 \<longrightarrow> cmp (?y ! k) (?y ! l) \<le> 0"
    proof (intro allI impI)
      fix k l assume kl: "a \<le> k \<and> k < l \<and> l < e \<and> k \<noteq> pl - Suc 0 \<and> l \<noteq> pl - Suc 0"
      consider "k = pl" | "l = pl" "k \<noteq> pl" | "k \<noteq> pl" "l \<noteq> pl" by blast
      then show "cmp (?y ! k) (?y ! l) \<le> 0"
      proof cases
        case 1
        then have "cmp (x ! (pl - Suc 0)) (x ! l) \<le> 0" using less.prems(4) [rule_format, of "pl - Suc 0" l] kl p by auto
        with 1 kl show ?thesis by (simp add: n)
      next
        case 2
        then have "k < pl - Suc 0" using kl by auto
        then have "cmp (x ! k) (x ! (pl - Suc 0)) \<le> 0" using less.prems(4) [rule_format, of k "pl - Suc 0"] kl p by auto
        with 2 kl show ?thesis by (simp add: n)
      next
        case 3
        with kl less.prems(4) show ?thesis by (simp add: n)
      qed
    qed
    moreover have "\<forall>l. pl - Suc 0 < l \<and> l < e \<longrightarrow> cmp (?y ! (pl - Suc 0)) (?y ! l) \<le> 0"
    proof (intro allI impI)
      fix l assume l: "pl - Suc 0 < l \<and> l < e"
      have "cmp (x ! pl) (x ! (pl - Suc 0)) \<le> 0" using True cmp_total [of "x ! pl" "x ! (pl - Suc 0)"] by linarith
      then show "cmp (?y ! (pl - Suc 0)) (?y ! l) \<le> 0"
        using less.prems(5) [rule_format, of l] l p by (cases "l = pl") (auto simp: n)
    qed
    ultimately have "sorted_range cmp (insertion_down cmp a (pl - Suc 0) ?y) a e
      \<and> perm_in a e ?y (insertion_down cmp a (pl - Suc 0) ?y)" by (rule less.IH [OF p])
    moreover have "insertion_down cmp a pl x = insertion_down cmp a (pl - Suc 0) ?y"
      using True by (subst insertion_down.simps) simp
    moreover have "perm_in a e x ?y" using True less.prems by (intro perm_in_bswap) auto
    ultimately show ?thesis using perm_in_trans by fastforce
  next
    case False
    have "sorted_range cmp x a e" unfolding sorted_range_def
    proof (intro allI impI)
      fix k l assume kl: "a \<le> k \<and> k < l \<and> l < e"
      consider "k = pl" | "l = pl" | "k \<noteq> pl" "l \<noteq> pl" by blast
      then show "cmp (x ! k) (x ! l) \<le> 0"
      proof cases
        case 2
        then have last: "cmp (x ! (pl - Suc 0)) (x ! pl) \<le> 0" using False kl by auto
        show ?thesis
        proof (cases "k = pl - Suc 0")
          case False
          then have "k < pl - Suc 0" "pl - Suc 0 < e" "pl - Suc 0 \<noteq> pl" using kl 2 by linarith+
          then have "cmp (x ! k) (x ! (pl - Suc 0)) \<le> 0" using less.prems(4) [rule_format, of k "pl - Suc 0"] kl 2 by auto
          from cmp_trans [OF this last] 2 show ?thesis by simp
        qed (use last 2 in simp)
      qed (use kl less.prems(4,5) in auto)
    qed
    moreover have "insertion_down cmp a pl x = x" using False by (subst insertion_down.simps) auto
    ultimately show ?thesis by simp
  qed
qed

lemma insertion_loop_sorts:
  assumes "a < pm" "pm \<le> pn" "pn \<le> length x" "sorted_range cmp x a pm"
  shows "sorted_range cmp (insertion_loop cmp a pn pm x) a pn \<and> perm_in a pn x (insertion_loop cmp a pn pm x)"
  using assms
proof (induction "pn - pm" arbitrary: pm x rule: less_induct)
  case less
  show ?case
  proof (cases "pm < pn")
    case True
    let ?y = "insertion_down cmp a pm x"
    have s: "sorted_range cmp ?y a (Suc pm) \<and> perm_in a (Suc pm) x ?y"
      using less.prems True by (intro insertion_down_sorts) (auto simp: sorted_range_def)
    then have p: "perm_in a pn x ?y" using True perm_in_mono [of a "Suc pm" x ?y a pn] by auto
    have "sorted_range cmp (insertion_loop cmp a pn (Suc pm) ?y) a pn \<and> perm_in a pn ?y (insertion_loop cmp a pn (Suc pm) ?y)"
      using less.prems True s perm_in_length [OF p] by (intro less.hyps) auto
    with p perm_in_trans True show ?thesis by (subst (1 2) insertion_loop.simps) auto
  next
    case False
    then have "pm = pn" using less.prems by simp
    moreover have "insertion_loop cmp a pn pm x = x" using False by (subst insertion_loop.simps) simp
    ultimately show ?thesis using less.prems by simp
  qed
qed

lemma insertion_sort_sorts:
  "2 \<le> n \<Longrightarrow> a + n \<le> length x \<Longrightarrow> sorted_range cmp (insertion_loop cmp a (a + n) (a + 1) x) a (a + n)
     \<and> perm_in a (a + n) x (insertion_loop cmp a (a + n) (a + 1) x)"
  by (rule insertion_loop_sorts) (auto simp: sorted_range_def)

text \<open>Two sorted outer blocks around a block equal to the pivot make a sorted range.\<close>

lemma sorted_blocks:
  assumes "\<forall>i. a \<le> i \<and> i < l \<longrightarrow> cmp (y ! i) v < 0" "\<forall>i. l \<le> i \<and> i < r \<longrightarrow> cmp (y ! i) v = 0"
    "\<forall>i. r \<le> i \<and> i < e \<longrightarrow> cmp (y ! i) v > 0" "sorted_range cmp y a l" "sorted_range cmp y r e"
  shows "sorted_range cmp y a e"
  unfolding sorted_range_def
proof (intro allI impI)
  fix k m assume km: "a \<le> k \<and> k < m \<and> m < e"
  consider "m < l" | "r \<le> k" | "k < r" "l \<le> m" by linarith
  then show "cmp (y ! k) (y ! m) \<le> 0"
  proof cases
    case 3
    have "cmp (y ! k) v \<le> 0" using assms(1,2) km 3 by (cases "k < l") (auto intro: less_imp_le)
    moreover have "cmp v (y ! m) \<le> 0" using assms(2,3) km 3 cmp_flip [of v "y ! m"] by (cases "m < r") (auto simp: not_less)
    ultimately show ?thesis by (rule cmp_trans)
  qed (use assms(4,5) km in \<open>auto simp: sorted_range_def\<close>)
qed

lemma sort_blocks:
  assumes "\<forall>i. a \<le> i \<and> i < l \<longrightarrow> cmp (y ! i) v < 0" "\<forall>i. l \<le> i \<and> i < r \<longrightarrow> cmp (y ! i) v = 0"
    "\<forall>i. r \<le> i \<and> i < e \<longrightarrow> cmp (y ! i) v > 0" "a \<le> l" "l \<le> r" "r \<le> e" "e \<le> length y"
    and z: "perm_in a l y z" "perm_in r e z w" "sorted_range cmp z a l" "sorted_range cmp w r e"
  shows "sorted_range cmp w a e" "perm_in a e y w"
proof -
  have len: "length z = length y" "length w = length y" using perm_in_length [OF z(1)] perm_in_length [OF z(2)] by auto
  have zn: "z ! i = y ! i" if "l \<le> i" "i < e" for i using perm_in_nth [OF z(1), of i] that assms(7) by auto
  have wn: "w ! i = z ! i" if "i < r" for i using perm_in_nth [OF z(2), of i] that assms(4-7) len by auto
  have "\<forall>i. a \<le> i \<and> i < l \<longrightarrow> cmp (w ! i) v < 0"
    using perm_in_all [OF z(1), of "\<lambda>u. cmp u v < 0"] assms wn by auto
  moreover have "\<forall>i. l \<le> i \<and> i < r \<longrightarrow> cmp (w ! i) v = 0" using assms wn zn by auto
  moreover have "\<forall>i. r \<le> i \<and> i < e \<longrightarrow> cmp (w ! i) v > 0"
    using perm_in_all [OF z(2), of "\<lambda>u. cmp u v > 0"] assms zn len by auto
  moreover have "sorted_range cmp w a l" using z(3) wn assms(5) by (auto simp: sorted_range_def)
  ultimately show "sorted_range cmp w a e" using z(4) by (rule sorted_blocks)
  show "perm_in a e y w"
    using perm_in_mono [OF z(1), of a e] perm_in_mono [OF z(2), of a e] perm_in_trans assms(4-6) by auto
qed

lemma qsort_recurse:
  assumes "a \<le> l" "l \<le> r" "r \<le> e" "e \<le> length y"
    "\<forall>i. a \<le> i \<and> i < l \<longrightarrow> cmp (y ! i) v < 0" "\<forall>i. l \<le> i \<and> i < r \<longrightarrow> cmp (y ! i) v = 0"
    "\<forall>i. r \<le> i \<and> i < e \<longrightarrow> cmp (y ! i) v > 0"
    and L: "\<And>u. e \<le> length u \<Longrightarrow> sorted_range cmp (L u) a l \<and> perm_in a l u (L u)"
    and R: "\<And>u. e \<le> length u \<Longrightarrow> sorted_range cmp (R u) r e \<and> perm_in r e u (R u)"
  shows "sorted_range cmp (R (L y)) a e \<and> perm_in a e y (R (L y))"
    "sorted_range cmp (L (R y)) a e \<and> perm_in a e y (L (R y))"
proof -
  have "perm_in a l y (L y)" "perm_in r e (L y) (R (L y))" "sorted_range cmp (L y) a l" "sorted_range cmp (R (L y)) r e"
    using L [of y] R [of "L y"] assms(4) perm_in_length [of a l y "L y"] by auto
  from sort_blocks [OF assms(5-7,1-4) this] show "sorted_range cmp (R (L y)) a e \<and> perm_in a e y (R (L y))" by blast
next
  have p: "perm_in r e y (R y)" "perm_in a l (R y) (L (R y))" "sorted_range cmp (R y) r e" "sorted_range cmp (L (R y)) a l"
    using R [of y] L [of "R y"] assms(4) perm_in_length [of r e y "R y"] by auto
  have len: "length (R y) = length y" "length (L (R y)) = length y" using perm_in_length p(1,2) by metis+
  have n1: "R y ! i = y ! i" if "i < r" for i using perm_in_nth [OF p(1), of i] that assms(3,4) by auto
  have n2: "L (R y) ! i = R y ! i" if "l \<le> i" "i < e" for i
    using perm_in_nth [OF p(2), of i] that assms(4) len by auto
  have lt: "\<forall>i. a \<le> i \<and> i < l \<longrightarrow> cmp (R y ! i) v < 0" using assms(2,5) n1 by auto
  have "\<forall>i. a \<le> i \<and> i < l \<longrightarrow> cmp (L (R y) ! i) v < 0"
    using perm_in_all [OF p(2) _ lt] assms(2-4) len by auto
  moreover have "\<forall>i. l \<le> i \<and> i < r \<longrightarrow> cmp (L (R y) ! i) v = 0" using assms(3,6) n1 n2 by auto
  moreover have "\<forall>i. r \<le> i \<and> i < e \<longrightarrow> cmp (L (R y) ! i) v > 0"
    using perm_in_all [OF p(1) assms(4,7)] assms(2) n2 by auto
  moreover have "sorted_range cmp (L (R y)) r e" using p(3) n2 assms(2) by (auto simp: sorted_range_def)
  ultimately have "sorted_range cmp (L (R y)) a e" using p(4) sorted_blocks by blast
  moreover have "perm_in a e y (L (R y))"
    using perm_in_mono [OF p(1), of a e] perm_in_mono [OF p(2), of a e] perm_in_trans assms(1-3) by auto
  ultimately show "sorted_range cmp (L (R y)) a e \<and> perm_in a e y (L (R y))" by simp
qed

lemma local_qsort_sorts:
  "a + n \<le> length x \<Longrightarrow>
     sorted_range cmp (local_qsort cmp a n x) a (a + n) \<and> perm_in a (a + n) x (local_qsort cmp a n x)"
proof (induction n arbitrary: a x rule: less_induct)
  case (less n)
  consider "n < 2" | "2 \<le> n" "n < 7" | "7 \<le> n" by linarith
  then show ?case
  proof cases
    case 1
    then show ?thesis by (subst (1 2) local_qsort.simps) (auto simp: sorted_range_def)
  next
    case 2
    then show ?thesis using insertion_sort_sorts [of n a x] less.prems by (subst (1 2) local_qsort.simps) simp
  next
    case 3
    obtain pa pb pc pd sw y where e: "qsort_partition cmp a n x = (pa, pb, pc, pd, sw, y)" by (metis prod_cases6)
    note p = qsort_partition_inv [OF 3 less.prems e]
    have len: "length y = length x" using perm_in_length [OF p(2)] .
    show ?thesis
    proof (cases sw)
      case False
      then have "local_qsort cmp a n x = insertion_loop cmp a (a + n) (a + 1) y"
        using 3 less.prems e by (subst local_qsort.simps) simp
      then show ?thesis using insertion_sort_sorts [of n a y] 3 less.prems len perm_in_trans [OF p(2)] by auto
    next
      case True
      define z where "z = swap_ends a (a + n) pa pb pc pd y"
      note b = swap_ends_blocks [OF p(1,3) cmp_refl z_def]
      have bd: "a < pa" "pa \<le> pb" "pb = Suc pc" "pc \<le> pd" "pd < a + n" using p(1,3) unfolding part_inv_def by auto
      let ?r = "a + n - (pd - pc)"
      let ?L = "\<lambda>u. if 1 < pb - pa then local_qsort cmp a (pb - pa) u else u"
      let ?R = "\<lambda>u. if 1 < pd - pc then local_qsort cmp ?r (pd - pc) u else u"
      have L: "sorted_range cmp (?L u) a (a + (pb - pa)) \<and> perm_in a (a + (pb - pa)) u (?L u)" if "a + n \<le> length u" for u
        using less.IH [of "pb - pa" a u] bd that by (auto simp: sorted_range_def)
      have R: "sorted_range cmp (?R u) ?r (a + n) \<and> perm_in ?r (a + n) u (?R u)" if "a + n \<le> length u" for u
        using less.IH [of "pd - pc" ?r u] bd that by (auto simp: sorted_range_def)
      have "a \<le> a + (pb - pa)" "a + (pb - pa) \<le> ?r" "?r \<le> a + n" "a + n \<le> length z"
        using bd len less.prems perm_in_length [OF b(1)] by auto
      note q = qsort_recurse [OF this b(2-4) L R]
      have "local_qsort cmp a n x = (if pb - pa \<le> pd - pc then ?R (?L z) else ?L (?R z))"
        using 3 less.prems e True by (subst local_qsort.simps) (simp add: Let_def flip: z_def)
      then show ?thesis using q perm_in_trans [OF perm_in_trans [OF p(2) b(1)]] by auto
    qed
  qed
qed

lemma sorted_unique:
  assumes "sorted_wrt (\<lambda>u v. cmp u v \<le> 0) y" "sorted_wrt (\<lambda>u v. cmp u v \<le> 0) z" "mset y = mset z"
    "\<forall>u v. cmp u v = 0 \<longrightarrow> u = v"
  shows "y = z"
  using assms(1-3)
proof (induction y arbitrary: z)
  case (Cons u y)
  then obtain v z' where z: "z = v # z'" by (cases z) auto
  have "set (u # y) = set z" using Cons.prems(3) by (metis set_mset_mset)
  then have "cmp u v \<le> 0" "cmp v u \<le> 0"
    using Cons.prems(1,2) cmp_refl z by (auto dest: equalityD1 [THEN subsetD, of _ _ u] equalityD2 [THEN subsetD, of _ _ v])
  then have "u = v" using cmp_flip(1) [of v u] assms(4) by force
  with Cons z show ?case by simp
qed simp

lemma qsort_correct: "sorted_wrt (\<lambda>u v. cmp u v \<le> 0) (qsort cmp x (length x)) \<and> mset (qsort cmp x (length x)) = mset x"
proof -
  have s: "sorted_range cmp (qsort cmp x (length x)) 0 (length x)" "perm_in 0 (length x) x (qsort cmp x (length x))"
    using local_qsort_sorts [of 0 "length x" x] by (simp_all add: qsort_def)
  then show ?thesis using perm_in_length [OF s(2)]
    by (simp add: sorted_wrt_iff_nth_less sorted_range_def perm_in_def)
qed

end

subsection \<open>What the callers may rely on\<close>

lemma bsearch_correct:
  assumes "\<forall>i j. i < j \<and> j < length a \<longrightarrow> sgn (compar key (a ! j)) \<le> sgn (compar key (a ! i))"
  shows "case bsearch compar key a (length a) of
      Some i \<Rightarrow> i < length a \<and> compar key (a ! i) = 0
    | None \<Rightarrow> \<forall>i<length a. compar key (a ! i) \<noteq> 0"
  unfolding bsearch_def by (rule bsearch_loop_correct [where a = a and compar = compar and key = key, OF assms]) auto

lemma comparator_sgn_antimono:
  assumes "total_preorder cmp" "cmp x y \<le> 0"
  shows "sgn (cmp key y) \<le> sgn (cmp key x)"
proof -
  note c = comparator.intro [OF assms(1)]
  have le: "cmp key y \<le> 0" if "cmp key x \<le> 0" using comparator.cmp_trans [OF c that assms(2)] .
  have "cmp x key \<le> 0" if "cmp key y = 0"
    using comparator.cmp_trans [OF c assms(2), of key] comparator.cmp_flip(1) [OF c, of y key] that by simp
  then have "0 \<le> cmp key x" if "cmp key y = 0" using comparator.cmp_flip(1) [OF c, of x key] that by blast
  with le show ?thesis
    by (cases "cmp key x" "0 :: int" rule: linorder_cases; cases "cmp key y" "0 :: int" rule: linorder_cases) auto
qed

text \<open>
  C10: For a comparison function that is a total preorder, \<open>local_qsort\<close> on \<open>n\<close> items from index \<open>a\<close> leaves these
  items sorted, is a rearrangement, and touches no item outside the range.
\<close>

theorem qsort_sorts_range:
  assumes "total_preorder cmp" "a + n \<le> length x"
  shows "sorted_range cmp (local_qsort cmp a n x) a (a + n) \<and> mset (local_qsort cmp a n x) = mset x
    \<and> take a (local_qsort cmp a n x) = take a x \<and> drop (a + n) (local_qsort cmp a n x) = drop (a + n) x"
  using comparator.local_qsort_sorts [OF comparator.intro [OF assms(1)] assms(2)] by (simp add: perm_in_def)

lemma total_preorder_diff: "total_preorder (\<lambda>u v :: int. u - v)"
  unfolding total_preorder_def by (simp add: sgn_if)

theorem qsort_sorts_range_witness:
  "sorted_range (\<lambda>u v. u - v) (local_qsort (\<lambda>u v. u - v) 1 8 [9, 5, 7, 5, 1, 8, 2, 5, 3, 0 :: int]) 1 9
    \<and> local_qsort (\<lambda>u v. u - v) 1 8 [9, 5, 7, 5, 1, 8, 2, 5, 3, 0 :: int] ! 0 = 9"
proof -
  let ?y = "local_qsort (\<lambda>u v. u - v) 1 8 [9, 5, 7, 5, 1, 8, 2, 5, 3, 0 :: int]"
  have "sorted_range (\<lambda>u v. u - v) ?y 1 9 \<and> take 1 ?y = [9]"
    using qsort_sorts_range [OF total_preorder_diff, where a = 1 and n = 8 and x = "[9, 5, 7, 5, 1, 8, 2, 5, 3, 0]"] by simp
  moreover from this have "?y ! 0 = 9" by (cases ?y) auto
  ultimately show ?thesis by simp
qed

text \<open>
  C29: \<open>heapsort\<close> returns \<open>EINVAL\<close> only for items of size 0 and \<open>B_NO_MEMORY\<close> only when the buffer of one item
  cannot be had, both for more than one item only; in every other case it sorts, and where the comparison function
  tells distinct items apart the result is that of \<open>qsort\<close>.
\<close>

theorem heapsort_result:
  assumes "total_preorder cmp"
  shows "case heapsort malloc_ok cmp (length x) sz x of
      Inl e \<Rightarrow> 1 < length x \<and> (if sz = 0 then e = EINVAL else e = B_NO_MEMORY \<and> \<not> malloc_ok)
    | Inr y \<Rightarrow> (length x \<le> 1 \<or> 0 < sz \<and> malloc_ok) \<and> sorted_wrt (\<lambda>u v. cmp u v \<le> 0) y \<and> mset y = mset x
        \<and> ((\<forall>u v. cmp u v = 0 \<longrightarrow> u = v) \<longrightarrow> y = qsort cmp x (length x))"
proof -
  note c = comparator.intro [OF assms]
  have q: "sorted_wrt (\<lambda>u v. cmp u v \<le> 0) (qsort cmp x (length x)) \<and> mset (qsort cmp x (length x)) = mset x"
    using comparator.qsort_correct [OF c] .
  have uniq: "y = qsort cmp x (length x)"
    if "sorted_wrt (\<lambda>u v. cmp u v \<le> 0) y" "mset y = mset x" "\<forall>u v. cmp u v = 0 \<longrightarrow> u = v" for y
    using that q comparator.sorted_unique [OF c] by metis
  show ?thesis
  proof (cases "1 < length x \<and> (sz = 0 \<or> \<not> malloc_ok)")
    case True
    then show ?thesis by (auto simp: heapsort_def)
  next
    case False
    have "\<exists>y. heapsort malloc_ok cmp (length x) sz x = Inr y \<and> sorted_wrt (\<lambda>u v. cmp u v \<le> 0) y \<and> mset y = mset x"
    proof (cases "length x \<le> 1")
      case True
      then have "sorted_wrt (\<lambda>u v. cmp u v \<le> 0) x" by (cases x) auto
      with True show ?thesis by (simp add: heapsort_def)
    next
      case F: False
      with False have "0 < sz" "malloc_ok" by auto
      with comparator.heapsort_sorts [OF c, of sz x] show ?thesis by simp
    qed
    then obtain y where "heapsort malloc_ok cmp (length x) sz x = Inr y" "sorted_wrt (\<lambda>u v. cmp u v \<le> 0) y" "mset y = mset x"
      by blast
    with uniq False show ?thesis by auto
  qed
qed

theorem heapsort_result_witness:
  "heapsort True (\<lambda>u v. u - v) 5 4 [3, 1, 2, 1, 5 :: int] = Inr [1, 1, 2, 3, 5]
    \<and> qsort (\<lambda>u v. u - v) [3, 1, 2, 1, 5 :: int] 5 = [1, 1, 2, 3, 5]"
proof -
  have e: "heapsort True (\<lambda>u v. u - v) 5 4 [3, 1, 2, 1, 5 :: int] = Inr [1, 1, 2, 3, 5]" by code_simp
  have len: "length [3, 1, 2, 1, 5 :: int] = 5" by simp
  from e heapsort_result [OF total_preorder_diff, where malloc_ok = True and sz = 4 and x = "[3, 1, 2, 1, 5]", unfolded len]
  show ?thesis by simp
qed

text \<open>
  \<open>bsearch\<close> in an array sorted by \<open>qsort\<close> finds an item equal to the key exactly when the unsorted array has one.
\<close>

theorem bsearch_after_qsort:
  assumes "total_preorder cmp"
  shows "case bsearch cmp key (qsort cmp x (length x)) (length x) of
      Some i \<Rightarrow> i < length x \<and> cmp key (qsort cmp x (length x) ! i) = 0
    | None \<Rightarrow> \<forall>y\<in>set x. cmp key y \<noteq> 0"
proof -
  let ?y = "qsort cmp x (length x)"
  have q: "sorted_wrt (\<lambda>u v. cmp u v \<le> 0) ?y" "mset ?y = mset x"
    using comparator.qsort_correct [OF comparator.intro [OF assms], of x] by auto
  then have len: "length ?y = length x" and set: "set ?y = set x" by (metis size_mset, metis set_mset_mset)
  have "sgn (cmp key (?y ! j)) \<le> sgn (cmp key (?y ! i))" if "i < j" "j < length ?y" for i j
    using comparator_sgn_antimono [OF assms] q(1) that by (simp add: sorted_wrt_iff_nth_less)
  then have "case bsearch cmp key ?y (length ?y) of Some i \<Rightarrow> i < length ?y \<and> cmp key (?y ! i) = 0
    | None \<Rightarrow> \<forall>i<length ?y. cmp key (?y ! i) \<noteq> 0" by (intro bsearch_correct) blast
  then show ?thesis unfolding len set [symmetric] by (auto simp: in_set_conv_nth len split: option.splits)
qed

theorem bsearch_after_qsort_witness:
  "bsearch (\<lambda>u v. u - v) 2 (qsort (\<lambda>u v. u - v) [3, 1, 2, 1, 5 :: int] 5) 5 \<noteq> None
    \<and> bsearch (\<lambda>u v. u - v) 4 (qsort (\<lambda>u v. u - v) [3, 1, 2, 1, 5 :: int] 5) 5 = None"
proof
  have len: "length [3, 1, 2, 1, 5 :: int] = 5" by simp
  show "bsearch (\<lambda>u v. u - v) 2 (qsort (\<lambda>u v. u - v) [3, 1, 2, 1, 5 :: int] 5) 5 \<noteq> None"
    using bsearch_after_qsort [OF total_preorder_diff, where key = 2 and x = "[3, 1, 2, 1, 5]", unfolded len] by (auto split: option.splits)
  show "bsearch (\<lambda>u v. u - v) 4 (qsort (\<lambda>u v. u - v) [3, 1, 2, 1, 5 :: int] 5) 5 = None" by code_simp
qed

end
