(* ===== verification/Vm_AddressSpaceLocking.thy ===== *)
theory Vm_AddressSpaceLocking
  imports Libroot_Sort
begin

text \<open>
  The scoped lockers of address spaces (\<open>src/src/system/kernel/vm/VMAddressSpaceLocking.cpp\<close> and \<open>.h\<close>): the read and the
  write locker of one address space, and \<open>MultiAddressSpaceLocker\<close>, which locks a set of them in one global order. The
  state is that of the address spaces as far as the lockers change it (references and the locks the thread holds) with
  a log of acquisitions and releases. What the locks and the allocations return, and what the tables of teams and areas
  hold at each look-up, are parameters. The destruction of an address space with its last reference is not modelled:
  the caller's references keep those of the lockers alive. The sort is \<open>qsort\<close> of \<open>Libroot_Sort\<close>, whose locale
  \<open>comparator\<close> is interpreted with \<open>_CompareItems\<close>.
\<close>

subsection \<open>Address spaces\<close>

type_synonym space_ptr = nat

text \<open>Of an address space the lockers use the ID, the number of references, and the read and write locks; the two
  counts are of the locks that the calling thread holds.\<close>

record vm_space =
  vs_id :: int
  vs_refs :: int
  vs_reads :: int
  vs_writes :: int

text \<open>All acquisitions and releases in their order; the flag is that of a write lock.\<close>

datatype lock_event = Acquire bool space_ptr | Release bool space_ptr

record vm_state =
  vm_space :: "space_ptr \<Rightarrow> vm_space"
  vm_log :: "lock_event list"

datatype vm_status = V_OK | V_BAD_TEAM_ID | V_BAD_VALUE | V_NO_MEMORY | V_LOCK int

text \<open>What the acquisition of a lock returns: below zero where it fails, that is where the lock was destroyed.\<close>

type_synonym lock_status = "bool \<Rightarrow> space_ptr \<Rightarrow> int"

definition upd_space :: "space_ptr \<Rightarrow> (vm_space \<Rightarrow> vm_space) \<Rightarrow> vm_state \<Rightarrow> vm_state" where
  "upd_space p f h = h\<lparr>vm_space := (vm_space h)(p := f (vm_space h p))\<rparr>"

definition space_Get :: "space_ptr \<Rightarrow> vm_state \<Rightarrow> vm_state" where
  "space_Get p = upd_space p (\<lambda>s. s\<lparr>vs_refs := vs_refs s + 1\<rparr>)"

definition space_Put :: "space_ptr \<Rightarrow> vm_state \<Rightarrow> vm_state" where
  "space_Put p = upd_space p (\<lambda>s. s\<lparr>vs_refs := vs_refs s - 1\<rparr>)"

definition add_lock :: "int \<Rightarrow> bool \<Rightarrow> vm_space \<Rightarrow> vm_space" where
  "add_lock d write s = (if write then s\<lparr>vs_writes := vs_writes s + d\<rparr> else s\<lparr>vs_reads := vs_reads s + d\<rparr>)"

text \<open>\<open>WriteLock\<close> and \<open>ReadLock\<close>, \<open>WriteUnlock\<close> and \<open>ReadUnlock\<close>.\<close>

definition space_Lock :: "lock_status \<Rightarrow> bool \<Rightarrow> space_ptr \<Rightarrow> vm_state \<Rightarrow> int \<times> vm_state" where
  "space_Lock st write p h =
     (if st write p < 0 then (st write p, h)
      else (st write p, (upd_space p (add_lock 1 write) h)\<lparr>vm_log := vm_log h @ [Acquire write p]\<rparr>))"

definition space_Unlock :: "bool \<Rightarrow> space_ptr \<Rightarrow> vm_state \<Rightarrow> vm_state" where
  "space_Unlock write p h = (upd_space p (add_lock (-1) write) h)\<lparr>vm_log := vm_log h @ [Release write p]\<rparr>"

text \<open>The tables: the address space of a team, and of an area. The second changes while no lock is held, so each
  look-up has a table of its own.\<close>

type_synonym teams = "int \<Rightarrow> space_ptr option"
type_synonym areas = "int \<Rightarrow> space_ptr option"

definition VMAddressSpace_Get :: "teams \<Rightarrow> int \<Rightarrow> vm_state \<Rightarrow> space_ptr option \<times> vm_state" where
  "VMAddressSpace_Get teams team h =
     (case teams team of None \<Rightarrow> (None, h) | Some p \<Rightarrow> (Some p, space_Get p h))"

definition GetAddressSpaceByAreaID :: "areas \<Rightarrow> int \<Rightarrow> vm_state \<Rightarrow> space_ptr option \<times> vm_state" where
  "GetAddressSpaceByAreaID areas a h =
     (case areas a of None \<Rightarrow> (None, h) | Some p \<Rightarrow> (Some p, space_Get p h))"

subsection \<open>The lockers of one address space\<close>

text \<open>\<open>AddressSpaceReadLocker\<close> and \<open>AddressSpaceWriteLocker\<close>; the flag says which, and \<open>l_degraded\<close> is of the second.
  A call that fails the assertion \<open>fSpace == NULL\<close> gives \<open>None\<close>.\<close>

record locker =
  l_write :: bool
  l_space :: "space_ptr option"
  l_locked :: bool
  l_degraded :: bool

definition AddressSpaceReadLocker :: locker where
  "AddressSpaceReadLocker = \<lparr>l_write = False, l_space = None, l_locked = False, l_degraded = False\<rparr>"

definition AddressSpaceWriteLocker :: locker where
  "AddressSpaceWriteLocker = \<lparr>l_write = True, l_space = None, l_locked = False, l_degraded = False\<rparr>"

definition locker_Unlock :: "locker \<Rightarrow> vm_state \<Rightarrow> locker \<times> vm_state" where
  "locker_Unlock l h =
     (if l_locked l
      then (l\<lparr>l_locked := False, l_degraded := False\<rparr>, space_Unlock (l_write l \<and> \<not> l_degraded l) (the (l_space l)) h)
      else (l, h))"

definition locker_Unset :: "locker \<Rightarrow> vm_state \<Rightarrow> locker \<times> vm_state" where
  "locker_Unset l h =
     (let (l, h) = locker_Unlock l h;
          h = (case l_space l of None \<Rightarrow> h | Some p \<Rightarrow> space_Put p h)
      in (l\<lparr>l_space := None\<rparr>, h))"

definition locker_SetTo_team :: "lock_status \<Rightarrow> teams \<Rightarrow> int \<Rightarrow> locker \<Rightarrow> vm_state \<Rightarrow> (vm_status \<times> locker \<times> vm_state) option" where
  "locker_SetTo_team st teams team l h =
     (if l_space l \<noteq> None then None
      else case VMAddressSpace_Get teams team h of
             (None, h) \<Rightarrow> Some (V_BAD_TEAM_ID, l, h)
           | (Some p, h) \<Rightarrow> Some (V_OK, l\<lparr>l_space := Some p, l_locked := True\<rparr>, snd (space_Lock st (l_write l) p h)))"

definition locker_SetTo :: "lock_status \<Rightarrow> space_ptr \<Rightarrow> bool \<Rightarrow> locker \<Rightarrow> vm_state \<Rightarrow> (vm_status \<times> locker \<times> vm_state) option" where
  "locker_SetTo st p getNewReference l h =
     (if l_space l \<noteq> None then None
      else let h = (if getNewReference then space_Get p h else h)
           in Some (V_OK, l\<lparr>l_space := Some p, l_locked := True\<rparr>, snd (space_Lock st (l_write l) p h)))"

text \<open>\<open>SetFromArea(area_id, VMArea*&)\<close>.\<close>

definition locker_SetFromArea :: "lock_status \<Rightarrow> areas \<Rightarrow> areas \<Rightarrow> int \<Rightarrow> locker \<Rightarrow> vm_state \<Rightarrow> (vm_status \<times> locker \<times> vm_state) option" where
  "locker_SetFromArea st areas areas' a l h =
     (if l_space l \<noteq> None then None
      else case GetAddressSpaceByAreaID areas a h of
             (None, h) \<Rightarrow> Some (if l_write l then V_BAD_VALUE else V_BAD_TEAM_ID, l, h)
           | (Some p, h) \<Rightarrow>
               let l = l\<lparr>l_space := Some p\<rparr>;
                   h = snd (space_Lock st (l_write l) p h)
               in if areas' a \<noteq> Some p then Some (V_BAD_VALUE, l, space_Unlock (l_write l) p h)
                  else Some (V_OK, l\<lparr>l_locked := True\<rparr>, h))"

text \<open>\<open>AddressSpaceWriteLocker::SetFromArea(team_id, area_id, bool, VMArea*&)\<close>; \<open>kernelID\<close> is \<open>VMAddressSpace::KernelID()\<close>.\<close>

definition locker_SetFromArea_team :: "lock_status \<Rightarrow> int \<Rightarrow> int \<Rightarrow> areas \<Rightarrow> areas \<Rightarrow> int \<Rightarrow> bool \<Rightarrow> locker \<Rightarrow> vm_state \<Rightarrow>
    (vm_status \<times> locker \<times> vm_state) option" where
  "locker_SetFromArea_team st kernelID team areas areas' a allowKernel l h =
     (if l_space l \<noteq> None then None
      else case areas a of
             None \<Rightarrow> Some (V_BAD_VALUE, l, h)
           | Some p \<Rightarrow>
               if vs_id (vm_space h p) = team \<or> allowKernel \<and> team = kernelID
               then
                 let h = space_Get p h;
                     l = l\<lparr>l_space := Some p\<rparr>;
                     h = snd (space_Lock st True p h)
                 in if areas' a = None then Some (V_BAD_VALUE, l, space_Unlock True p h)
                    else Some (V_OK, l\<lparr>l_locked := True\<rparr>, h)
               else Some (V_BAD_VALUE, l, h))"

text \<open>\<open>AddressSpaceReadLocker::Lock\<close>.\<close>

definition locker_Lock :: "lock_status \<Rightarrow> locker \<Rightarrow> vm_state \<Rightarrow> bool \<times> locker \<times> vm_state" where
  "locker_Lock st l h =
     (if l_locked l then (True, l, h)
      else case l_space l of
             None \<Rightarrow> (False, l, h)
           | Some p \<Rightarrow> (True, l\<lparr>l_locked := True\<rparr>, snd (space_Lock st (l_write l) p h)))"

definition DegradeToReadLock :: "lock_status \<Rightarrow> locker \<Rightarrow> vm_state \<Rightarrow> locker \<times> vm_state" where
  "DegradeToReadLock st l h =
     (let h = snd (space_Lock st False (the (l_space l)) h)
      in (l\<lparr>l_degraded := True\<rparr>, space_Unlock True (the (l_space l)) h))"

subsection \<open>The locker of several address spaces\<close>

type_synonym lock_item = "space_ptr \<times> bool"

record multi_locker =
  ml_items :: "lock_item list"
  ml_capacity :: nat
  ml_locked :: bool

definition MultiAddressSpaceLocker :: multi_locker where
  "MultiAddressSpaceLocker = \<lparr>ml_items = [], ml_capacity = 0, ml_locked = False\<rparr>"

definition CompareItems :: "(space_ptr \<Rightarrow> vm_space) \<Rightarrow> lock_item \<Rightarrow> lock_item \<Rightarrow> int" where
  "CompareItems sp a b = vs_id (sp (fst b)) - vs_id (sp (fst a))"

text \<open>\<open>alloc\<close> says whether \<open>realloc\<close> succeeds, should it be called.\<close>

definition ResizeIfNeeded :: "bool \<Rightarrow> multi_locker \<Rightarrow> bool \<times> multi_locker" where
  "ResizeIfNeeded alloc l =
     (if length (ml_items l) = ml_capacity l
      then if alloc then (True, l\<lparr>ml_capacity := ml_capacity l + 4\<rparr>) else (False, l)
      else (True, l))"

fun IndexOfAddressSpace :: "space_ptr \<Rightarrow> lock_item list \<Rightarrow> nat \<Rightarrow> nat option" where
  "IndexOfAddressSpace p [] i = None"
| "IndexOfAddressSpace p ((q, w) # xs) i = (if q = p then Some i else IndexOfAddressSpace p xs (Suc i))"

definition AddAddressSpace :: "bool \<Rightarrow> space_ptr option \<Rightarrow> bool \<Rightarrow> multi_locker \<Rightarrow> vm_state \<Rightarrow> vm_status \<times> multi_locker \<times> vm_state" where
  "AddAddressSpace alloc sp writeLock l h =
     (case sp of None \<Rightarrow> (V_BAD_VALUE, l, h)
      | Some p \<Rightarrow>
          case IndexOfAddressSpace p (ml_items l) 0 of
            None \<Rightarrow>
              (case ResizeIfNeeded alloc l of
                 (False, l) \<Rightarrow> (V_NO_MEMORY, l, space_Put p h)
               | (True, l) \<Rightarrow> (V_OK, l\<lparr>ml_items := ml_items l @ [(p, writeLock)]\<rparr>, h))
          | Some i \<Rightarrow>
              (V_OK, l\<lparr>ml_items := (ml_items l)[i := (fst (ml_items l ! i), snd (ml_items l ! i) \<or> writeLock)]\<rparr>, space_Put p h))"

definition AddTeam :: "bool \<Rightarrow> teams \<Rightarrow> int \<Rightarrow> bool \<Rightarrow> multi_locker \<Rightarrow> vm_state \<Rightarrow> vm_status \<times> multi_locker \<times> vm_state" where
  "AddTeam alloc teams team writeLock l h =
     (let (sp, h) = VMAddressSpace_Get teams team h in AddAddressSpace alloc sp writeLock l h)"

definition AddArea_id :: "bool \<Rightarrow> areas \<Rightarrow> int \<Rightarrow> bool \<Rightarrow> multi_locker \<Rightarrow> vm_state \<Rightarrow> vm_status \<times> multi_locker \<times> vm_state" where
  "AddArea_id alloc areas a writeLock l h =
     (let (sp, h) = GetAddressSpaceByAreaID areas a h in AddAddressSpace alloc sp writeLock l h)"

text \<open>\<open>AddArea(VMArea*)\<close> for an area of the address space \<open>p\<close>.\<close>

definition AddArea :: "bool \<Rightarrow> space_ptr \<Rightarrow> bool \<Rightarrow> multi_locker \<Rightarrow> vm_state \<Rightarrow> vm_status \<times> multi_locker \<times> vm_state" where
  "AddArea alloc p writeLock l h = AddAddressSpace alloc (Some p) writeLock l (space_Get p h)"

fun unlock_items :: "lock_item list \<Rightarrow> vm_state \<Rightarrow> vm_state" where
  "unlock_items [] h = h"
| "unlock_items ((p, w) # xs) h = unlock_items xs (space_Unlock w p h)"

text \<open>The loop of \<open>Lock\<close>; \<open>ys\<close> are the items locked so far, the last one first.\<close>

fun lock_items :: "lock_status \<Rightarrow> lock_item list \<Rightarrow> lock_item list \<Rightarrow> vm_state \<Rightarrow> vm_status \<times> vm_state" where
  "lock_items st ys [] h = (V_OK, h)"
| "lock_items st ys ((p, w) # xs) h =
     (let (status, h) = space_Lock st w p h
      in if status < 0 then (V_LOCK status, unlock_items ys h) else lock_items st ((p, w) # ys) xs h)"

definition multi_Lock :: "lock_status \<Rightarrow> multi_locker \<Rightarrow> vm_state \<Rightarrow> (vm_status \<times> multi_locker \<times> vm_state) option" where
  "multi_Lock st l h =
     (if ml_locked l then None
      else
        let l = l\<lparr>ml_items := qsort (CompareItems (vm_space h)) (ml_items l) (length (ml_items l))\<rparr>
        in case lock_items st [] (ml_items l) h of
             (V_OK, h) \<Rightarrow> Some (V_OK, l\<lparr>ml_locked := True\<rparr>, h)
           | (status, h) \<Rightarrow> Some (status, l, h))"

definition multi_Unlock :: "multi_locker \<Rightarrow> vm_state \<Rightarrow> multi_locker \<times> vm_state" where
  "multi_Unlock l h = (if ml_locked l then (l\<lparr>ml_locked := False\<rparr>, unlock_items (ml_items l) h) else (l, h))"

definition unref_items :: "lock_item list \<Rightarrow> vm_state \<Rightarrow> vm_state" where
  "unref_items xs h = fold (\<lambda>(p, w). space_Put p) xs h"

definition ref_items :: "lock_item list \<Rightarrow> vm_state \<Rightarrow> vm_state" where
  "ref_items xs h = fold (\<lambda>(p, w). space_Get p) xs h"

definition multi_Unset :: "multi_locker \<Rightarrow> vm_state \<Rightarrow> multi_locker \<times> vm_state" where
  "multi_Unset l h = (let (l, h) = multi_Unlock l h in (l\<lparr>ml_items := []\<rparr>, unref_items (ml_items l) h))"

subsection \<open>Adding the address spaces of a cache\<close>

text \<open>What one round of the loop of \<open>AddAreaCacheAndLock\<close> sees: the areas of the cache (the address space, whether it
  is the given area, whether an allocation for it succeeds), what the locks return, whether the area still exists
  after they were taken, and whether its cache and the first area of the cache are still the same.\<close>

record cache_round =
  cr_areas :: "(space_ptr \<times> bool \<times> bool) list"
  cr_locks :: lock_status
  cr_exists :: bool
  cr_same :: bool

fun add_areas :: "bool \<Rightarrow> bool \<Rightarrow> (space_ptr \<times> bool \<times> bool) list \<Rightarrow> multi_locker \<Rightarrow> vm_state \<Rightarrow> vm_status \<times> multi_locker \<times> vm_state" where
  "add_areas this others [] l h = (V_OK, l, h)"
| "add_areas this others ((p, given, alloc) # xs) l h =
     (case AddArea alloc p (if given then this else others) l h of
        (V_OK, l, h) \<Rightarrow> add_areas this others xs l h
      | (error, l, h) \<Rightarrow> (error, l, h))"

text \<open>\<open>None\<close>: an assertion failed; \<open>Some None\<close>: the loop goes on after the given rounds.\<close>

fun cache_loop :: "bool \<Rightarrow> bool \<Rightarrow> lock_item list \<Rightarrow> cache_round list \<Rightarrow> multi_locker \<Rightarrow> vm_state \<Rightarrow>
    (vm_status \<times> multi_locker \<times> vm_state) option option" where
  "cache_loop this others orig [] l h = Some None"
| "cache_loop this others orig (r # rs) l h =
     (case add_areas this others (cr_areas r) l h of
        (V_OK, l, h) \<Rightarrow>
          (case multi_Lock (cr_locks r) l h of
             None \<Rightarrow> None
           | Some (V_OK, l, h) \<Rightarrow>
               if \<not> cr_exists r then (let (l, h) = multi_Unlock l h in Some (Some (V_BAD_VALUE, l, h)))
               else if cr_same r then Some (Some (V_OK, l, h))
               else
                 let (l, h) = multi_Unlock l h;
                     h = ref_items orig h;
                     h = unref_items (ml_items l) h
                 in cache_loop this others orig rs (l\<lparr>ml_items := orig\<rparr>) h
           | Some (error, l, h) \<Rightarrow> Some (Some (error, l, h)))
      | (error, l, h) \<Rightarrow> Some (Some (error, l, h)))"

text \<open>\<open>alloc\<close>: the copy of the items could be made; \<open>areas\<close> and \<open>areas'\<close> are what \<open>SetFromArea\<close> of the temporary read
  locker sees.\<close>

definition AddAreaCacheAndLock :: "lock_status \<Rightarrow> bool \<Rightarrow> areas \<Rightarrow> areas \<Rightarrow> int \<Rightarrow> bool \<Rightarrow> bool \<Rightarrow> cache_round list \<Rightarrow> multi_locker \<Rightarrow> vm_state \<Rightarrow>
    (vm_status \<times> multi_locker \<times> vm_state) option option" where
  "AddAreaCacheAndLock st alloc areas areas' a this others rs l h =
     (if ml_items l \<noteq> [] \<and> \<not> alloc then Some (Some (V_NO_MEMORY, l, h))
      else
        case locker_SetFromArea st areas areas' a AddressSpaceReadLocker h of
          None \<Rightarrow> None
        | Some (V_OK, k, h) \<Rightarrow> cache_loop this others (ml_items l) rs l (snd (locker_Unset k h))
        | Some (error, k, h) \<Rightarrow> Some (Some (error, l, snd (locker_Unset k h))))"

subsection \<open>Effects of the primitives\<close>

named_theorems vm_effects

lemma space_Get_effect [vm_effects]:
  "vs_refs (vm_space (space_Get p h) q) = vs_refs (vm_space h q) + of_bool (p = q)"
  "vs_reads (vm_space (space_Get p h) q) = vs_reads (vm_space h q)" "vs_writes (vm_space (space_Get p h) q) = vs_writes (vm_space h q)"
  "vs_id (vm_space (space_Get p h) q) = vs_id (vm_space h q)" "vm_log (space_Get p h) = vm_log h"
  by (simp_all add: space_Get_def upd_space_def)

lemma space_Put_effect [vm_effects]:
  "vs_refs (vm_space (space_Put p h) q) = vs_refs (vm_space h q) - of_bool (p = q)"
  "vs_reads (vm_space (space_Put p h) q) = vs_reads (vm_space h q)" "vs_writes (vm_space (space_Put p h) q) = vs_writes (vm_space h q)"
  "vs_id (vm_space (space_Put p h) q) = vs_id (vm_space h q)" "vm_log (space_Put p h) = vm_log h"
  by (simp_all add: space_Put_def upd_space_def)

lemma space_Unlock_effect [vm_effects]:
  "vs_refs (vm_space (space_Unlock w p h) q) = vs_refs (vm_space h q)"
  "vs_reads (vm_space (space_Unlock w p h) q) = vs_reads (vm_space h q) - of_bool (p = q \<and> \<not> w)"
  "vs_writes (vm_space (space_Unlock w p h) q) = vs_writes (vm_space h q) - of_bool (p = q \<and> w)"
  "vs_id (vm_space (space_Unlock w p h) q) = vs_id (vm_space h q)" "vm_log (space_Unlock w p h) = vm_log h @ [Release w p]"
  by (simp_all add: space_Unlock_def upd_space_def add_lock_def)

text \<open>An acquisition that succeeds.\<close>

definition acquire :: "bool \<Rightarrow> space_ptr \<Rightarrow> vm_state \<Rightarrow> vm_state" where
  "acquire w p h = (upd_space p (add_lock 1 w) h)\<lparr>vm_log := vm_log h @ [Acquire w p]\<rparr>"

lemma acquire_effect [vm_effects]:
  "vs_refs (vm_space (acquire w p h) q) = vs_refs (vm_space h q)"
  "vs_reads (vm_space (acquire w p h) q) = vs_reads (vm_space h q) + of_bool (p = q \<and> \<not> w)"
  "vs_writes (vm_space (acquire w p h) q) = vs_writes (vm_space h q) + of_bool (p = q \<and> w)"
  "vs_id (vm_space (acquire w p h) q) = vs_id (vm_space h q)" "vm_log (acquire w p h) = vm_log h @ [Acquire w p]"
  by (simp_all add: acquire_def upd_space_def add_lock_def)

lemma space_Lock_ok: "0 \<le> st w p \<Longrightarrow> space_Lock st w p h = (st w p, acquire w p h)"
  by (simp add: space_Lock_def acquire_def)

lemma space_Lock_fail: "st w p < 0 \<Longrightarrow> space_Lock st w p h = (st w p, h)"
  by (simp add: space_Lock_def)

lemma unlock_items_effect [vm_effects]:
  "vs_refs (vm_space (unlock_items xs h) q) = vs_refs (vm_space h q)"
  "vs_reads (vm_space (unlock_items xs h) q) = vs_reads (vm_space h q) - int (count_list xs (q, False))"
  "vs_writes (vm_space (unlock_items xs h) q) = vs_writes (vm_space h q) - int (count_list xs (q, True))"
  "vs_id (vm_space (unlock_items xs h) q) = vs_id (vm_space h q)"
  "vm_log (unlock_items xs h) = vm_log h @ map (\<lambda>(p, w). Release w p) xs"
  by (induction xs h rule: unlock_items.induct) (auto simp: vm_effects)

fun acquire_items :: "lock_item list \<Rightarrow> vm_state \<Rightarrow> vm_state" where
  "acquire_items [] h = h"
| "acquire_items ((p, w) # xs) h = acquire_items xs (acquire w p h)"

lemma acquire_items_effect [vm_effects]:
  "vs_refs (vm_space (acquire_items xs h) q) = vs_refs (vm_space h q)"
  "vs_reads (vm_space (acquire_items xs h) q) = vs_reads (vm_space h q) + int (count_list xs (q, False))"
  "vs_writes (vm_space (acquire_items xs h) q) = vs_writes (vm_space h q) + int (count_list xs (q, True))"
  "vs_id (vm_space (acquire_items xs h) q) = vs_id (vm_space h q)"
  "vm_log (acquire_items xs h) = vm_log h @ map (\<lambda>(p, w). Acquire w p) xs"
  by (induction xs h rule: acquire_items.induct) (auto simp: vm_effects)

lemma unref_items_effect [vm_effects]:
  "vs_refs (vm_space (unref_items xs h) q) = vs_refs (vm_space h q) - int (count_list (map fst xs) q)"
  "vs_reads (vm_space (unref_items xs h) q) = vs_reads (vm_space h q)" "vs_writes (vm_space (unref_items xs h) q) = vs_writes (vm_space h q)"
  "vs_id (vm_space (unref_items xs h) q) = vs_id (vm_space h q)" "vm_log (unref_items xs h) = vm_log h"
  unfolding unref_items_def by (induction xs arbitrary: h) (auto simp: vm_effects)

lemma ref_items_effect [vm_effects]:
  "vs_refs (vm_space (ref_items xs h) q) = vs_refs (vm_space h q) + int (count_list (map fst xs) q)"
  "vs_reads (vm_space (ref_items xs h) q) = vs_reads (vm_space h q)" "vs_writes (vm_space (ref_items xs h) q) = vs_writes (vm_space h q)"
  "vs_id (vm_space (ref_items xs h) q) = vs_id (vm_space h q)" "vm_log (ref_items xs h) = vm_log h"
  unfolding ref_items_def by (induction xs arbitrary: h) (auto simp: vm_effects)

lemma count_list_distinct: "distinct xs \<Longrightarrow> count_list xs x = of_bool (x \<in> set xs)"
  by (induction xs) auto

lemma vm_space_eqI:
  assumes "\<And>q. vs_refs (vm_space h q) = vs_refs (vm_space h' q)" "\<And>q. vs_reads (vm_space h q) = vs_reads (vm_space h' q)"
    "\<And>q. vs_writes (vm_space h q) = vs_writes (vm_space h' q)" "\<And>q. vs_id (vm_space h q) = vs_id (vm_space h' q)"
  shows "vm_space h = vm_space h'"
  using assms by (intro ext vm_space.equality) auto

subsection \<open>Locking in order\<close>

interpretation asl: comparator "CompareItems sp" for sp
  by unfold_locales (auto simp: total_preorder_def CompareItems_def sgn_if)

lemma lock_items_ok:
  "(\<forall>(p, w)\<in>set xs. 0 \<le> st w p) \<Longrightarrow> lock_items st ys xs h = (V_OK, acquire_items xs h)"
  by (induction st ys xs h rule: lock_items.induct) (auto simp: space_Lock_ok)

lemma lock_items_fail:
  "(\<forall>(p, w)\<in>set us. 0 \<le> st w p) \<Longrightarrow> st w p < 0 \<Longrightarrow>
     lock_items st ys (us @ (p, w) # vs) h = (V_LOCK (st w p), unlock_items (rev us @ ys) (acquire_items us h))"
proof (induction us arbitrary: ys h)
  case Nil
  then show ?case by (simp add: space_Lock_fail)
next
  case (Cons u us)
  obtain q v where u: "u = (q, v)" by (cases u)
  have "lock_items st ys ((u # us) @ (p, w) # vs) h = lock_items st (u # ys) (us @ (p, w) # vs) (acquire v q h)"
    using Cons.prems(1) by (simp add: u space_Lock_ok)
  then show ?case using Cons by (simp add: u)
qed

text \<open>The first item whose lock fails.\<close>

lemma first_failure:
  "\<not> (\<forall>(p, w)\<in>set xs. 0 \<le> (st w p :: int)) \<Longrightarrow> \<exists>us p w vs. xs = us @ (p, w) # vs \<and> (\<forall>(p, w)\<in>set us. 0 \<le> st w p) \<and> st w p < 0"
proof -
  assume "\<not> (\<forall>(p, w)\<in>set xs. 0 \<le> st w p)"
  then have "\<exists>x\<in>set xs. \<not> (case x of (p, w) \<Rightarrow> 0 \<le> st w p)" by blast
  from split_list_first_prop [OF this] obtain us x vs where
    "xs = us @ x # vs" "\<not> (case x of (p, w) \<Rightarrow> 0 \<le> st w p)" "\<forall>y\<in>set us. case y of (p, w) \<Rightarrow> 0 \<le> st w p" by blast
  then show ?thesis by (cases x) (auto simp: not_le)
qed

lemma unlock_back:
  "vm_space (unlock_items (rev us) (acquire_items us h)) = vm_space h"
  "vm_log (unlock_items (rev us) (acquire_items us h)) = vm_log h @ map (\<lambda>(p, w). Acquire w p) us @ map (\<lambda>(p, w). Release w p) (rev us)"
  by (rule vm_space_eqI) (simp_all add: vm_effects count_list_rev)

lemma multi_Lock_ok:
  assumes "\<not> ml_locked l" "xs = qsort (CompareItems (vm_space h)) (ml_items l) (length (ml_items l))" "\<forall>(p, w)\<in>set xs. 0 \<le> st w p"
  shows "multi_Lock st l h = Some (V_OK, l\<lparr>ml_items := xs, ml_locked := True\<rparr>, acquire_items xs h)"
  using assms(1) lock_items_ok [of xs st "[]" h, OF assms(3)] assms(2) by (simp add: multi_Lock_def Let_def)

lemma multi_Lock_fail:
  assumes "\<not> ml_locked l" "us @ (p, w) # vs = qsort (CompareItems (vm_space h)) (ml_items l) (length (ml_items l))"
    "\<forall>(p, w)\<in>set us. 0 \<le> st w p" "st w p < 0"
  shows "multi_Lock st l h = Some (V_LOCK (st w p), l\<lparr>ml_items := us @ (p, w) # vs\<rparr>, unlock_items (rev us) (acquire_items us h))"
  using assms(1) lock_items_fail [of us st w p "[]" vs h, OF assms(3,4)] assms(2) [symmetric] by (simp add: multi_Lock_def Let_def)

lemma multi_sorted:
  fixes l :: multi_locker and h :: vm_state
  defines "xs \<equiv> qsort (CompareItems (vm_space h)) (ml_items l) (length (ml_items l))"
  assumes "distinct (map fst (ml_items l))" "inj_on (\<lambda>p. vs_id (vm_space h p)) (fst ` set (ml_items l))"
  shows "mset xs = mset (ml_items l)" "sorted_wrt (\<lambda>a b. vs_id (vm_space h (fst b)) < vs_id (vm_space h (fst a))) xs"
proof -
  have q: "sorted_wrt (\<lambda>u v. CompareItems (vm_space h) u v \<le> 0) xs" "mset xs = mset (ml_items l)"
    using asl.qsort_correct [of "vm_space h" "ml_items l"] by (simp_all add: xs_def)
  then show "mset xs = mset (ml_items l)" by simp
  have "mset (map fst xs) = mset (map fst (ml_items l))" using q(2) by simp
  then have d: "distinct (map fst xs)" using mset_eq_imp_distinct_iff [of "map fst xs" "map fst (ml_items l)"] assms(2) by simp
  have s: "set xs = set (ml_items l)" using q(2) by (metis set_mset_mset)
  show "sorted_wrt (\<lambda>a b. vs_id (vm_space h (fst b)) < vs_id (vm_space h (fst a))) xs"
    unfolding sorted_wrt_iff_nth_less
  proof (intro allI impI)
    fix i j assume ij: "i < j" "j < length xs"
    then have le: "vs_id (vm_space h (fst (xs ! j))) \<le> vs_id (vm_space h (fst (xs ! i)))"
      using sorted_wrt_nth_less [OF q(1) ij] by (simp add: CompareItems_def)
    have ne: "fst (xs ! i) \<noteq> fst (xs ! j)" using nth_eq_iff_index_eq [OF d, of i j] ij by simp
    have "xs ! i \<in> set (ml_items l)" "xs ! j \<in> set (ml_items l)" using nth_mem [of i xs] nth_mem [of j xs] ij s by simp_all
    then have "fst (xs ! i) \<in> fst ` set (ml_items l)" "fst (xs ! j) \<in> fst ` set (ml_items l)" by simp_all
    then have "vs_id (vm_space h (fst (xs ! i))) \<noteq> vs_id (vm_space h (fst (xs ! j)))" using inj_on_eq_iff [OF assms(3)] ne by blast
    then show "vs_id (vm_space h (fst (xs ! j))) < vs_id (vm_space h (fst (xs ! i)))" using le by simp
  qed
qed

subsection \<open>Balance of the locker of several address spaces\<close>

text \<open>\<open>R\<close>, \<open>D\<close> and \<open>W\<close> are the references, read locks and write locks apart from those of the locker.\<close>

definition ml_inv :: "(space_ptr \<Rightarrow> int) \<Rightarrow> (space_ptr \<Rightarrow> int) \<Rightarrow> (space_ptr \<Rightarrow> int) \<Rightarrow> multi_locker \<Rightarrow> vm_state \<Rightarrow> bool" where
  "ml_inv R D W l h \<longleftrightarrow> distinct (map fst (ml_items l)) \<and> length (ml_items l) \<le> ml_capacity l
     \<and> (\<forall>p. vs_refs (vm_space h p) = R p + of_bool (p \<in> fst ` set (ml_items l)))
     \<and> (\<forall>p. vs_reads (vm_space h p) = D p + of_bool (ml_locked l \<and> (p, False) \<in> set (ml_items l)))
     \<and> (\<forall>p. vs_writes (vm_space h p) = W p + of_bool (ml_locked l \<and> (p, True) \<in> set (ml_items l)))"

lemma ml_invD:
  assumes "ml_inv R D W l h"
  shows "distinct (map fst (ml_items l))" "length (ml_items l) \<le> ml_capacity l" "distinct (ml_items l)"
    "vs_refs (vm_space h p) = R p + of_bool (p \<in> fst ` set (ml_items l))"
    "vs_reads (vm_space h p) = D p + of_bool (ml_locked l \<and> (p, False) \<in> set (ml_items l))"
    "vs_writes (vm_space h p) = W p + of_bool (ml_locked l \<and> (p, True) \<in> set (ml_items l))"
  using assms unfolding ml_inv_def by (auto simp: distinct_map)

lemma IndexOf_None: "IndexOfAddressSpace p xs i = None \<longleftrightarrow> p \<notin> fst ` set xs"
  by (induction p xs i rule: IndexOfAddressSpace.induct) auto

lemma IndexOf_Some: "IndexOfAddressSpace p xs i = Some j \<Longrightarrow> i \<le> j \<and> j - i < length xs \<and> fst (xs ! (j - i)) = p"
proof (induction p xs i rule: IndexOfAddressSpace.induct)
  case (2 p q w xs i)
  show ?case
  proof (cases "q = p")
    case False
    then have "Suc i \<le> j \<and> j - Suc i < length xs \<and> fst (xs ! (j - Suc i)) = p" using 2 by simp
    moreover from this have "j - i = Suc (j - Suc i)" by linarith
    ultimately show ?thesis by simp
  qed (use 2 in simp)
qed simp

text \<open>Adding a space of which the caller has one reference.\<close>

lemma ml_inv_AddAddressSpace:
  assumes inv: "ml_inv R D W l h" and u: "\<not> ml_locked l" and h': "h' = space_Get p h"
    and A: "AddAddressSpace alloc (Some p) w l h' = (status, l', h'')"
  shows "ml_inv R D W l' h'' \<and> \<not> ml_locked l'"
proof (cases "IndexOfAddressSpace p (ml_items l) 0")
  case None
  then have n: "p \<notin> fst ` set (ml_items l)" by (simp add: IndexOf_None)
  consider "ml_items l' = ml_items l @ [(p, w)]" "ml_locked l' = ml_locked l" "h'' = space_Get p h" "length (ml_items l) < ml_capacity l'"
    | "status = V_NO_MEMORY" "l' = l" "h'' = space_Put p (space_Get p h)"
    using A None ml_invD(2) [OF inv] unfolding AddAddressSpace_def ResizeIfNeeded_def h'
    by (cases "length (ml_items l) = ml_capacity l"; cases alloc) (auto simp: le_less)
  then show ?thesis
  proof cases
    case 1
    then show ?thesis using ml_invD [OF inv] n u unfolding ml_inv_def by (simp add: vm_effects)
  next
    case 2
    then show ?thesis using ml_invD [OF inv] u unfolding ml_inv_def by (simp add: vm_effects)
  qed
next
  case (Some i)
  from IndexOf_Some [OF Some] have i: "i < length (ml_items l)" "fst (ml_items l ! i) = p" by simp_all
  have l': "l' = l\<lparr>ml_items := (ml_items l)[i := (p, snd (ml_items l ! i) \<or> w)]\<rparr>" "h'' = space_Put p (space_Get p h)"
    using A Some i by (auto simp: AddAddressSpace_def h')
  have m: "map fst ((ml_items l)[i := (p, snd (ml_items l ! i) \<or> w)]) = map fst (ml_items l)"
    using i by (simp add: map_update list_update_same_conv)
  then have "fst ` set ((ml_items l)[i := (p, snd (ml_items l ! i) \<or> w)]) = fst ` set (ml_items l)" by (metis list.set_map)
  then show ?thesis using ml_invD [OF inv] u m unfolding ml_inv_def l' by (simp add: vm_effects)
qed

lemma ml_inv_locked:
  assumes inv: "ml_inv R D W l h" and u: "\<not> ml_locked l" and m: "mset xs = mset (ml_items l)"
  shows "ml_inv R D W (l\<lparr>ml_items := xs, ml_locked := True\<rparr>) (acquire_items xs h)"
proof -
  note i = ml_invD [OF inv]
  have s: "set xs = set (ml_items l)" "length xs = length (ml_items l)" "distinct (map fst xs)" "distinct xs"
    using m i(1,3) mset_eq_imp_distinct_iff [of xs "ml_items l"] mset_eq_imp_distinct_iff [of "map fst xs" "map fst (ml_items l)"]
    by (auto dest: mset_eq_setD mset_eq_length)
  show ?thesis using i u s unfolding ml_inv_def by (simp add: vm_effects count_list_distinct)
qed

lemma ml_inv_perm:
  assumes inv: "ml_inv R D W l h" and m: "mset xs = mset (ml_items l)" and h': "vm_space h' = vm_space h"
  shows "ml_inv R D W (l\<lparr>ml_items := xs\<rparr>) h'"
proof -
  have "set xs = set (ml_items l)" "length xs = length (ml_items l)" "distinct (map fst xs)"
    using m ml_invD(1) [OF inv] mset_eq_imp_distinct_iff [of "map fst xs" "map fst (ml_items l)"] by (auto dest: mset_eq_setD mset_eq_length)
  then show ?thesis using ml_invD [OF inv] h' unfolding ml_inv_def by simp
qed

lemma ml_inv_Lock:
  assumes inv: "ml_inv R D W l h" and u: "\<not> ml_locked l" and L: "multi_Lock st l h = Some (status, l', h')"
  shows "ml_inv R D W l' h' \<and> (ml_locked l' \<longleftrightarrow> status = V_OK)"
proof -
  define xs where "xs = qsort (CompareItems (vm_space h)) (ml_items l) (length (ml_items l))"
  have m: "mset xs = mset (ml_items l)" using asl.qsort_correct by (simp add: xs_def)
  show ?thesis
  proof (cases "\<forall>(p, w)\<in>set xs. 0 \<le> st w p")
    case True
    from multi_Lock_ok [OF u xs_def True] L have "status = V_OK" "l' = l\<lparr>ml_items := xs, ml_locked := True\<rparr>" "h' = acquire_items xs h" by simp_all
    then show ?thesis using ml_inv_locked [OF inv u m] by simp
  next
    case False
    from first_failure [OF this] obtain us p w vs where x: "xs = us @ (p, w) # vs" "\<forall>(p, w)\<in>set us. 0 \<le> st w p" "st w p < 0" by blast
    from multi_Lock_fail [OF u _ x(2,3), of vs h] x(1) L xs_def
    have "status = V_LOCK (st w p)" "l' = l\<lparr>ml_items := xs\<rparr>" "h' = unlock_items (rev us) (acquire_items us h)" by simp_all
    then show ?thesis using ml_inv_perm [OF inv m unlock_back(1)] u by simp
  qed
qed

lemma ml_inv_Unlock:
  assumes inv: "ml_inv R D W l h" and U: "multi_Unlock l h = (l', h')"
  shows "ml_inv R D W l' h' \<and> \<not> ml_locked l' \<and> ml_items l' = ml_items l"
proof (cases "ml_locked l")
  case True
  then have e: "l' = l\<lparr>ml_locked := False\<rparr>" "h' = unlock_items (ml_items l) h" using U by (simp_all add: multi_Unlock_def)
  show ?thesis using ml_invD [OF inv] True unfolding ml_inv_def e by (simp add: vm_effects count_list_distinct)
next
  case False
  then show ?thesis using inv U by (simp add: multi_Unlock_def)
qed

lemma ml_inv_replace:
  assumes inv: "ml_inv R D W l h" and u: "\<not> ml_locked l" and d: "distinct (map fst xs)" "length xs \<le> ml_capacity l"
  shows "ml_inv R D W (l\<lparr>ml_items := xs\<rparr>) (unref_items (ml_items l) (ref_items xs h))"
  using ml_invD [OF inv] u d unfolding ml_inv_def by (simp add: vm_effects count_list_distinct)

lemma ml_inv_Unset:
  assumes inv: "ml_inv R D W l h" and U: "multi_Unset l h = (l', h')"
  shows "ml_inv R D W l' h' \<and> \<not> ml_locked l' \<and> ml_items l' = []"
proof -
  obtain l1 h1 where 1: "multi_Unlock l h = (l1, h1)" by fastforce
  note i = ml_inv_Unlock [OF inv 1]
  then have "ml_inv R D W (l1\<lparr>ml_items := []\<rparr>) (unref_items (ml_items l1) (ref_items [] h1))" by (intro ml_inv_replace) simp_all
  then show ?thesis using U 1 i by (auto simp: multi_Unset_def ref_items_def)
qed

subsection \<open>Balance of the lockers of one address space\<close>

definition l_mode :: "locker \<Rightarrow> bool" where "l_mode l \<longleftrightarrow> l_write l \<and> \<not> l_degraded l"

definition l_inv :: "(space_ptr \<Rightarrow> int) \<Rightarrow> (space_ptr \<Rightarrow> int) \<Rightarrow> (space_ptr \<Rightarrow> int) \<Rightarrow> locker \<Rightarrow> vm_state \<Rightarrow> bool" where
  "l_inv R D W l h \<longleftrightarrow> (l_locked l \<longrightarrow> l_space l \<noteq> None) \<and> (l_degraded l \<longrightarrow> l_locked l)
     \<and> (\<forall>p. vs_refs (vm_space h p) = R p + of_bool (l_space l = Some p))
     \<and> (\<forall>p. vs_reads (vm_space h p) = D p + of_bool (l_locked l \<and> l_space l = Some p \<and> \<not> l_mode l))
     \<and> (\<forall>p. vs_writes (vm_space h p) = W p + of_bool (l_locked l \<and> l_space l = Some p \<and> l_mode l))"

text \<open>The calls on a locker. \<open>None\<close> where a call fails an assertion, uses the null pointer, or breaks the rule that only
  a held write lock is degraded.\<close>

datatype lop = LSetTeam teams int | LSetSpace space_ptr bool | LArea areas areas int
  | LAreaTeam int int areas areas int bool | LLock | LUnlock | LDegrade | LUnset

fun locker_op :: "lock_status \<Rightarrow> lop \<Rightarrow> locker \<Rightarrow> vm_state \<Rightarrow> (locker \<times> vm_state) option" where
  "locker_op st (LSetTeam teams team) l h = map_option snd (locker_SetTo_team st teams team l h)"
| "locker_op st (LSetSpace p new) l h = map_option snd (locker_SetTo st p new l h)"
| "locker_op st (LArea as as' a) l h = map_option snd (locker_SetFromArea st as as' a l h)"
| "locker_op st (LAreaTeam k team as as' a allow) l h =
     (if l_write l then map_option snd (locker_SetFromArea_team st k team as as' a allow l h) else None)"
| "locker_op st LLock l h = Some (snd (locker_Lock st l h))"
| "locker_op st LUnlock l h = Some (locker_Unlock l h)"
| "locker_op st LDegrade l h = (if l_locked l \<and> l_mode l then Some (DegradeToReadLock st l h) else None)"
| "locker_op st LUnset l h = Some (locker_Unset l h)"

fun locker_run :: "lock_status \<Rightarrow> lop list \<Rightarrow> locker \<Rightarrow> vm_state \<Rightarrow> (locker \<times> vm_state) option" where
  "locker_run st [] l h = Some (l, h)"
| "locker_run st (x # xs) l h = Option.bind (locker_op st x l h) (\<lambda>(l, h). locker_run st xs l h)"

text \<open>The references that the caller hands over.\<close>

fun handed :: "lop list \<Rightarrow> space_ptr \<Rightarrow> int" where
  "handed [] p = 0"
| "handed (x # xs) p = (case x of LSetSpace q new \<Rightarrow> of_bool (q = p \<and> \<not> new) | _ \<Rightarrow> 0) + handed xs p"

lemma l_inv_set:
  assumes "l_inv R D W l h" "l_space l = None" "l' = l\<lparr>l_space := Some p\<rparr>"
  shows "l_inv R D W l' (space_Get p h)" "l_inv (\<lambda>q. R q - of_bool (q = p)) D W l' h"
  using assms unfolding l_inv_def l_mode_def by (auto simp: vm_effects)

lemma l_inv_lock:
  assumes "l_inv R D W l h" "l_space l = Some p" "\<not> l_locked l" "\<And>w q. 0 \<le> st w q"
  shows "l_inv R D W (l\<lparr>l_locked := True\<rparr>) (snd (space_Lock st (l_write l) p h))"
  using assms unfolding l_inv_def l_mode_def space_Lock_ok [of st, OF assms(4)] by (auto simp: vm_effects)

lemma l_inv_bounce:
  assumes "l_inv R D W l h" "\<And>w q. 0 \<le> st w q"
  shows "l_inv R D W l (space_Unlock w p (snd (space_Lock st w p h)))"
  using assms unfolding l_inv_def space_Lock_ok [of st, OF assms(2)] by (auto simp: vm_effects)

lemma l_inv_Unlock:
  assumes "l_inv R D W l h" "locker_Unlock l h = (l', h')"
  shows "l_inv R D W l' h' \<and> \<not> l_locked l' \<and> l_space l' = l_space l"
  using assms unfolding l_inv_def l_mode_def locker_Unlock_def by (auto simp: vm_effects split: if_splits)

lemma l_inv_Unset:
  assumes "l_inv R D W l h" "locker_Unset l h = (l', h')"
  shows "l_inv R D W l' h' \<and> \<not> l_locked l' \<and> l_space l' = None"
proof -
  obtain l1 h1 where 1: "locker_Unlock l h = (l1, h1)" by fastforce
  note i = l_inv_Unlock [OF assms(1) 1]
  show ?thesis
  proof (cases "l_space l1")
    case None
    then show ?thesis using assms(2) i 1 unfolding l_inv_def l_mode_def by (auto simp: locker_Unset_def)
  next
    case (Some p)
    then show ?thesis using assms(2) i 1 unfolding l_inv_def l_mode_def by (auto simp: locker_Unset_def vm_effects)
  qed
qed

lemma l_inv_Degrade:
  assumes "l_inv R D W l h" "l_locked l" "l_mode l" "\<And>w q. 0 \<le> st w q" "DegradeToReadLock st l h = (l', h')"
  shows "l_inv R D W l' h'"
  using assms unfolding l_inv_def l_mode_def DegradeToReadLock_def Let_def space_Lock_ok [of st, OF assms(4)] by (auto simp: vm_effects)

lemma l_inv_op:
  assumes inv: "l_inv R D W l h" and st: "\<And>w q. 0 \<le> st w q" and x: "locker_op st x l h = Some (l', h')"
  shows "l_inv (\<lambda>p. R p - handed [x] p) D W l' h'"
proof (cases x)
  case (LSetTeam teams team)
  show ?thesis
  proof (cases "teams team")
    case None
    then show ?thesis using x inv LSetTeam by (auto simp: locker_SetTo_team_def VMAddressSpace_Get_def split: if_splits)
  next
    case (Some p)
    then have e: "l_space l = None" "l' = l\<lparr>l_space := Some p, l_locked := True\<rparr>" "h' = snd (space_Lock st (l_write l) p (space_Get p h))"
      using x LSetTeam by (auto simp: locker_SetTo_team_def VMAddressSpace_Get_def split: if_splits)
    have u: "\<not> l_locked l" using inv e(1) by (auto simp: l_inv_def)
    have "l_inv R D W ((l\<lparr>l_space := Some p\<rparr>)\<lparr>l_locked := True\<rparr>) (snd (space_Lock st (l_write (l\<lparr>l_space := Some p\<rparr>)) p (space_Get p h)))"
      using u by (intro l_inv_lock [OF l_inv_set(1) [OF inv e(1) refl] _ _ st]) simp_all
    then show ?thesis using e LSetTeam by simp
  qed
next
  case (LSetSpace p new)
  then have e: "l_space l = None" "l' = l\<lparr>l_space := Some p, l_locked := True\<rparr>"
      "h' = snd (space_Lock st (l_write l) p (if new then space_Get p h else h))"
    using x by (auto simp: locker_SetTo_def Let_def split: if_splits)
  have u: "\<not> l_locked l" using inv e(1) by (auto simp: l_inv_def)
  have "l_inv (\<lambda>q. R q - of_bool (q = p \<and> \<not> new)) D W (l\<lparr>l_space := Some p\<rparr>) (if new then space_Get p h else h)"
    using l_inv_set [OF inv e(1) refl, of p] by simp
  then have "l_inv (\<lambda>q. R q - of_bool (q = p \<and> \<not> new)) D W ((l\<lparr>l_space := Some p\<rparr>)\<lparr>l_locked := True\<rparr>)
      (snd (space_Lock st (l_write (l\<lparr>l_space := Some p\<rparr>)) p (if new then space_Get p h else h)))"
    using u by (intro l_inv_lock [OF _ _ _ st]) simp_all
  moreover have "(\<lambda>q. R q - of_bool (q = p \<and> \<not> new)) = (\<lambda>q. R q - handed [x] q)" using LSetSpace by (auto simp: fun_eq_iff)
  ultimately show ?thesis using e by simp
next
  case (LArea as as' a)
  show ?thesis
  proof (cases "as a")
    case None
    then show ?thesis using x inv LArea by (auto simp: locker_SetFromArea_def GetAddressSpaceByAreaID_def split: if_splits)
  next
    case (Some p)
    have e: "l_space l = None" using x LArea by (auto simp: locker_SetFromArea_def split: if_splits)
    have u: "\<not> l_locked l" using inv e by (auto simp: l_inv_def)
    note s = l_inv_set(1) [OF inv e refl, of p]
    have "l_inv R D W ((l\<lparr>l_space := Some p\<rparr>)\<lparr>l_locked := True\<rparr>) (snd (space_Lock st (l_write (l\<lparr>l_space := Some p\<rparr>)) p (space_Get p h)))"
      using u by (intro l_inv_lock [OF s _ _ st]) simp_all
    then show ?thesis using x LArea Some e l_inv_bounce [OF s st, of "l_write l" p]
      by (auto simp: locker_SetFromArea_def GetAddressSpaceByAreaID_def Let_def split: if_splits)
  qed
next
  case (LAreaTeam k team as as' a allow)
  show ?thesis
  proof (cases "as a")
    case None
    then show ?thesis using x inv LAreaTeam by (auto simp: locker_SetFromArea_team_def split: if_splits)
  next
    case (Some p)
    have e: "l_space l = None" "l_write l" using x LAreaTeam by (auto simp: locker_SetFromArea_team_def split: if_splits)
    have u: "\<not> l_locked l" using inv e by (auto simp: l_inv_def)
    note s = l_inv_set(1) [OF inv e(1) refl, of p]
    have "l_inv R D W ((l\<lparr>l_space := Some p\<rparr>)\<lparr>l_locked := True\<rparr>) (snd (space_Lock st (l_write (l\<lparr>l_space := Some p\<rparr>)) p (space_Get p h)))"
      using u by (intro l_inv_lock [OF s _ _ st]) simp_all
    then show ?thesis using x inv LAreaTeam Some e l_inv_bounce [OF s st, of True p]
      by (auto simp: locker_SetFromArea_team_def Let_def split: if_splits)
  qed
next
  case LLock
  then show ?thesis using x inv l_inv_lock [OF inv _ _ st] by (auto simp: locker_Lock_def split: if_splits option.splits)
next
  case LUnlock
  then show ?thesis using x l_inv_Unlock [OF inv] by simp
next
  case LDegrade
  then show ?thesis using x l_inv_Degrade [OF inv _ _ st] by (auto split: if_splits)
next
  case LUnset
  then show ?thesis using x l_inv_Unset [OF inv] by simp
qed

lemma l_inv_run:
  "l_inv R D W l h \<Longrightarrow> (\<And>w q. 0 \<le> st w q) \<Longrightarrow> locker_run st xs l h = Some (l', h') \<Longrightarrow> l_inv (\<lambda>p. R p - handed xs p) D W l' h'"
proof (induction xs arbitrary: R l h)
  case (Cons x xs)
  from Cons.prems(3) obtain l1 h1 where 1: "locker_op st x l h = Some (l1, h1)" "locker_run st xs l1 h1 = Some (l', h')"
    by (auto split: bind_splits)
  have "l_inv (\<lambda>p. R p - handed [x] p - handed xs p) D W l' h'"
    using Cons.IH [OF l_inv_op [OF Cons.prems(1,2) 1(1)] Cons.prems(2) 1(2)] by simp
  then show ?case by (simp add: algebra_simps)
qed simp

text \<open>A read or write locker gives back exactly what it takes: after any calls and its destructor, the read and write
  locks of every address space are those of before, and so are the references but for those handed over to it.\<close>

lemma locker_balanced:
  assumes "\<And>w q. 0 \<le> st w q" "l \<in> {AddressSpaceReadLocker, AddressSpaceWriteLocker}" "locker_run st xs l h = Some (l', h')"
  defines "s \<equiv> vm_space (snd (locker_Unset l' h'))"
  shows "vs_refs (s p) = vs_refs (vm_space h p) - handed xs p" "vs_reads (s p) = vs_reads (vm_space h p)"
    "vs_writes (s p) = vs_writes (vm_space h p)"
proof -
  have "l_inv (\<lambda>p. vs_refs (vm_space h p)) (\<lambda>p. vs_reads (vm_space h p)) (\<lambda>p. vs_writes (vm_space h p)) l h"
    using assms(2) by (auto simp: l_inv_def AddressSpaceReadLocker_def AddressSpaceWriteLocker_def)
  note i = l_inv_run [OF this assms(1,3)]
  obtain l2 h2 where u: "locker_Unset l' h' = (l2, h2)" by fastforce
  have "vs_refs (vm_space h2 p) = vs_refs (vm_space h p) - handed xs p" "vs_reads (vm_space h2 p) = vs_reads (vm_space h p)"
    "vs_writes (vm_space h2 p) = vs_writes (vm_space h p)" using l_inv_Unset [OF i u] unfolding l_inv_def by simp_all
  then show "vs_refs (s p) = vs_refs (vm_space h p) - handed xs p" "vs_reads (s p) = vs_reads (vm_space h p)"
    "vs_writes (s p) = vs_writes (vm_space h p)" using u by (simp_all add: s_def)
qed

subsection \<open>Runs of the locker of several address spaces\<close>

lemma ml_inv_AddArea:
  assumes "ml_inv R D W l h" "\<not> ml_locked l" "AddArea alloc p w l h = (status, l', h')"
  shows "ml_inv R D W l' h' \<and> \<not> ml_locked l'"
  using ml_inv_AddAddressSpace [OF assms(1,2) refl] assms(3) by (simp add: AddArea_def)

lemma capacity_mono:
  "AddAddressSpace alloc sp w l h = (status, l', h') \<Longrightarrow> ml_capacity l \<le> ml_capacity l'"
  by (auto simp: AddAddressSpace_def ResizeIfNeeded_def split: option.splits if_splits)

lemma ml_inv_add_areas:
  "ml_inv R D W l h \<Longrightarrow> \<not> ml_locked l \<Longrightarrow> add_areas this others xs l h = (status, l', h') \<Longrightarrow>
     ml_inv R D W l' h' \<and> \<not> ml_locked l' \<and> ml_capacity l \<le> ml_capacity l'"
proof (induction this others xs l h rule: add_areas.induct)
  case (2 this others p given alloc xs l h)
  obtain s1 l1 h1 where A: "AddArea alloc p (if given then this else others) l h = (s1, l1, h1)" by (metis prod_cases3)
  note i = ml_inv_AddArea [OF "2.prems"(1,2) A]
  have c: "ml_capacity l \<le> ml_capacity l1" using capacity_mono A unfolding AddArea_def by blast
  show ?case
  proof (cases "s1 = V_OK")
    case True
    then have "add_areas this others xs l1 h1 = (status, l', h')" using "2.prems"(3) A by simp
    then have "ml_inv R D W l' h' \<and> \<not> ml_locked l' \<and> ml_capacity l1 \<le> ml_capacity l'"
      using "2.IH" [OF A [symmetric] True refl] i by auto
    then show ?thesis using c by simp
  next
    case False
    then show ?thesis using "2.prems"(3) A i c by (cases s1) auto
  qed
qed simp

lemma multi_Lock_frame: "multi_Lock st l h = Some (status, l', h') \<Longrightarrow> ml_capacity l' = ml_capacity l"
  by (auto simp: multi_Lock_def Let_def split: if_splits prod.splits vm_status.splits)

lemma multi_Unlock_frame: "ml_capacity (fst (multi_Unlock l h)) = ml_capacity l"
  by (simp add: multi_Unlock_def)

lemma ml_inv_cache_loop:
  "ml_inv R D W l h \<Longrightarrow> \<not> ml_locked l \<Longrightarrow> distinct (map fst orig) \<Longrightarrow> length orig \<le> ml_capacity l \<Longrightarrow>
     \<exists>r. cache_loop this others orig rs l h = Some r \<and> (\<forall>status l' h'. r = Some (status, l', h') \<longrightarrow>
       ml_inv R D W l' h' \<and> (ml_locked l' \<longleftrightarrow> status = V_OK))"
proof (induction rs arbitrary: l h)
  case (Cons r rs)
  obtain s1 l1 h1 where A: "add_areas this others (cr_areas r) l h = (s1, l1, h1)" by (metis prod_cases3)
  note i1 = ml_inv_add_areas [OF Cons.prems(1,2) A]
  show ?case
  proof (cases "s1 = V_OK")
    case False
    then show ?thesis using A i1 by (cases s1) auto
  next
    case True
    have n: "multi_Lock (cr_locks r) l1 h1 \<noteq> None" using i1 by (auto simp: multi_Lock_def Let_def split: prod.splits vm_status.splits)
    then obtain s2 l2 h2 where L: "multi_Lock (cr_locks r) l1 h1 = Some (s2, l2, h2)" by auto
    have i2: "ml_inv R D W l2 h2" "ml_locked l2 \<longleftrightarrow> s2 = V_OK" using ml_inv_Lock [OF _ _ L] i1 by blast+
    obtain l3 h3 where U: "multi_Unlock l2 h2 = (l3, h3)" by fastforce
    note i3 = ml_inv_Unlock [OF i2(1) U]
    have c3: "length orig \<le> ml_capacity l3"
      using Cons.prems(4) i1 multi_Lock_frame [OF L] multi_Unlock_frame [of l2 h2] U by simp
    show ?thesis
    proof (cases "s2 = V_OK \<and> cr_exists r \<and> \<not> cr_same r")
      case False
      then show ?thesis using A True L U i2 i3 by (cases s2) auto
    next
      case again: True
      have "ml_inv R D W (l3\<lparr>ml_items := orig\<rparr>) (unref_items (ml_items l3) (ref_items orig h3))"
        using i3 Cons.prems(3) c3 by (intro ml_inv_replace) simp_all
      from Cons.IH [OF this _ Cons.prems(3)] i3 c3 show ?thesis using A True L U again by simp
    qed
  qed
qed simp

lemma ml_inv_skip:
  assumes "ml_inv R D W l h" "\<And>p. vs_refs (vm_space h' p) = vs_refs (vm_space h p)" "\<And>p. vs_reads (vm_space h' p) = vs_reads (vm_space h p)"
    "\<And>p. vs_writes (vm_space h' p) = vs_writes (vm_space h p)"
  shows "ml_inv R D W l h'"
  using assms unfolding ml_inv_def by simp

text \<open>The temporary read locker leaves nothing behind.\<close>

lemma temporary_locker:
  assumes st: "\<And>w q. 0 \<le> st w q" and s: "locker_SetFromArea st as as' a AddressSpaceReadLocker h = Some (status, k, h')"
  shows "vs_refs (vm_space (snd (locker_Unset k h')) p) = vs_refs (vm_space h p)"
    "vs_reads (vm_space (snd (locker_Unset k h')) p) = vs_reads (vm_space h p)"
    "vs_writes (vm_space (snd (locker_Unset k h')) p) = vs_writes (vm_space h p)"
proof -
  have r: "locker_run st [LArea as as' a] AddressSpaceReadLocker h = Some (k, h')" using s by simp
  have m: "AddressSpaceReadLocker \<in> {AddressSpaceReadLocker, AddressSpaceWriteLocker}" by simp
  show "vs_refs (vm_space (snd (locker_Unset k h')) p) = vs_refs (vm_space h p)"
    "vs_reads (vm_space (snd (locker_Unset k h')) p) = vs_reads (vm_space h p)"
    "vs_writes (vm_space (snd (locker_Unset k h')) p) = vs_writes (vm_space h p)"
    using locker_balanced [OF st m r, of p] by simp_all
qed

lemma ml_inv_cache:
  assumes inv: "ml_inv R D W l h" and u: "\<not> ml_locked l" and st: "\<And>w q. 0 \<le> st w q"
  shows "\<exists>r. AddAreaCacheAndLock st alloc as as' a this others rs l h = Some r \<and> (\<forall>status l' h'. r = Some (status, l', h') \<longrightarrow>
       ml_inv R D W l' h' \<and> (ml_locked l' \<longleftrightarrow> status = V_OK))"
proof (cases "ml_items l \<noteq> [] \<and> \<not> alloc")
  case True
  then show ?thesis using inv u by (simp add: AddAreaCacheAndLock_def)
next
  case False
  have "locker_SetFromArea st as as' a AddressSpaceReadLocker h \<noteq> None"
    by (auto simp: locker_SetFromArea_def AddressSpaceReadLocker_def Let_def split: prod.splits option.splits)
  then obtain s1 k h1 where L: "locker_SetFromArea st as as' a AddressSpaceReadLocker h = Some (s1, k, h1)" by auto
  have inv': "ml_inv R D W l (snd (locker_Unset k h1))" using ml_inv_skip [OF inv] temporary_locker [OF st L] by blast
  show ?thesis
  proof (cases "s1 = V_OK")
    case True
    then show ?thesis using False L ml_inv_cache_loop [OF inv' u ml_invD(1,2) [OF inv]] by (auto simp: AddAreaCacheAndLock_def)
  next
    case err: False
    then have "AddAreaCacheAndLock st alloc as as' a this others rs l h = Some (Some (s1, l, snd (locker_Unset k h1)))"
      using False L unfolding AddAreaCacheAndLock_def by (cases s1) auto
    then show ?thesis using inv' u err by auto
  qed
qed

text \<open>The calls on a locker of several address spaces. As the comments of the class ask, spaces are added before the
  locker is locked; otherwise the run stops with \<open>None\<close>, as it does on a failed assertion and where the loop of
  \<open>AddAreaCacheAndLock\<close> needs more rounds than given.\<close>

datatype mop = MAddTeam bool teams int bool | MAddAreaID bool areas int bool | MAddArea bool space_ptr bool
  | MAddCache bool areas areas int bool bool "cache_round list" | MLock lock_status | MUnlock | MUnset

fun multi_op :: "lock_status \<Rightarrow> mop \<Rightarrow> multi_locker \<Rightarrow> vm_state \<Rightarrow> (multi_locker \<times> vm_state) option" where
  "multi_op st (MAddTeam alloc teams team w) l h = (if ml_locked l then None else Some (snd (AddTeam alloc teams team w l h)))"
| "multi_op st (MAddAreaID alloc as a w) l h = (if ml_locked l then None else Some (snd (AddArea_id alloc as a w l h)))"
| "multi_op st (MAddArea alloc p w) l h = (if ml_locked l then None else Some (snd (AddArea alloc p w l h)))"
| "multi_op st (MAddCache alloc as as' a this others rs) l h =
     (if ml_locked l then None
      else Option.bind (AddAreaCacheAndLock st alloc as as' a this others rs l h) (map_option snd))"
| "multi_op st (MLock f) l h = map_option snd (multi_Lock f l h)"
| "multi_op st MUnlock l h = Some (multi_Unlock l h)"
| "multi_op st MUnset l h = Some (multi_Unset l h)"

fun multi_run :: "lock_status \<Rightarrow> mop list \<Rightarrow> multi_locker \<Rightarrow> vm_state \<Rightarrow> (multi_locker \<times> vm_state) option" where
  "multi_run st [] l h = Some (l, h)"
| "multi_run st (x # xs) l h = Option.bind (multi_op st x l h) (\<lambda>(l, h). multi_run st xs l h)"

lemma ml_inv_add:
  assumes "ml_inv R D W l h" "\<not> ml_locked l" "snd (AddAddressSpace alloc (Some p) w l (space_Get p h)) = (l', h')"
  shows "ml_inv R D W l' h'"
  using ml_inv_AddAddressSpace [OF assms(1,2) refl] assms(3) by (metis prod.collapse)

lemma ml_inv_op:
  assumes inv: "ml_inv R D W l h" and st: "\<And>w q. 0 \<le> st w q" and x: "multi_op st x l h = Some (l', h')"
  shows "ml_inv R D W l' h'"
proof (cases x)
  case (MAddTeam alloc teams team w)
  then show ?thesis
    using x inv ml_inv_add [OF inv, where alloc = alloc and w = w]
    by (cases "teams team") (auto simp: AddTeam_def VMAddressSpace_Get_def AddAddressSpace_def [of _ None] split: if_splits prod.splits)
next
  case (MAddAreaID alloc as a w)
  then show ?thesis
    using x inv ml_inv_add [OF inv, where alloc = alloc and w = w]
    by (cases "as a") (auto simp: AddArea_id_def GetAddressSpaceByAreaID_def AddAddressSpace_def [of _ None] split: if_splits prod.splits)
next
  case (MAddArea alloc p w)
  then show ?thesis using x ml_inv_add [OF inv, of alloc p w] by (auto simp: AddArea_def split: if_splits)
next
  case (MAddCache alloc as as' a this others rs)
  then show ?thesis using x ml_inv_cache [OF inv, where st = st and alloc = alloc and as = as and as' = as' and a = a and this = this and others = others and rs = rs] st by (auto split: if_splits bind_splits)
next
  case (MLock f)
  then obtain status where "multi_Lock f l h = Some (status, l', h')" using x by auto
  moreover from this have "\<not> ml_locked l" by (auto simp: multi_Lock_def)
  ultimately show ?thesis using ml_inv_Lock [OF inv] by blast
next
  case MUnlock
  then show ?thesis using x ml_inv_Unlock [OF inv] by simp
next
  case MUnset
  then show ?thesis using x ml_inv_Unset [OF inv] by simp
qed

lemma ml_inv_run:
  "ml_inv R D W l h \<Longrightarrow> (\<And>w q. 0 \<le> st w q) \<Longrightarrow> multi_run st xs l h = Some (l', h') \<Longrightarrow> ml_inv R D W l' h'"
proof (induction xs arbitrary: l h)
  case (Cons x xs)
  from Cons.prems(3) obtain l1 h1 where 1: "multi_op st x l h = Some (l1, h1)" "multi_run st xs l1 h1 = Some (l', h')"
    by (auto split: bind_splits)
  then show ?case using Cons.IH [OF ml_inv_op [OF Cons.prems(1,2) 1(1)] Cons.prems(2)] by blast
qed simp

text \<open>
  C21: A locker of several address spaces gives back what it takes. After any calls of its operations (spaces added
  before it is locked; locks that fail, allocations that fail and retries of \<open>AddAreaCacheAndLock\<close> included) the locker
  holds one reference and, while locked, one read or write lock of each of its spaces, every space is in it once, and
  the array is within its capacity; \<open>Unset\<close>, which the destructor calls, leaves references, read locks and write locks
  of every address space as they were. The temporary read lock that looks up the space of an area is taken to succeed.
\<close>
theorem multi_locker_balanced:
  assumes "\<And>w q. 0 \<le> st w q" "multi_run st xs MultiAddressSpaceLocker h = Some (l, h')"
  shows "distinct (map fst (ml_items l)) \<and> length (ml_items l) \<le> ml_capacity l
    \<and> (\<forall>p. vs_refs (vm_space h' p) = vs_refs (vm_space h p) + of_bool (p \<in> fst ` set (ml_items l))
        \<and> vs_reads (vm_space h' p) = vs_reads (vm_space h p) + of_bool (ml_locked l \<and> (p, False) \<in> set (ml_items l))
        \<and> vs_writes (vm_space h' p) = vs_writes (vm_space h p) + of_bool (ml_locked l \<and> (p, True) \<in> set (ml_items l))
        \<and> vs_refs (vm_space (snd (multi_Unset l h')) p) = vs_refs (vm_space h p)
        \<and> vs_reads (vm_space (snd (multi_Unset l h')) p) = vs_reads (vm_space h p)
        \<and> vs_writes (vm_space (snd (multi_Unset l h')) p) = vs_writes (vm_space h p))"
proof -
  have "ml_inv (\<lambda>p. vs_refs (vm_space h p)) (\<lambda>p. vs_reads (vm_space h p)) (\<lambda>p. vs_writes (vm_space h p)) MultiAddressSpaceLocker h"
    by (simp add: ml_inv_def MultiAddressSpaceLocker_def)
  note i = ml_inv_run [OF this assms]
  obtain l2 h2 where U: "multi_Unset l h' = (l2, h2)" by fastforce
  note j = ml_inv_Unset [OF i U]
  have k: "vs_refs (vm_space h2 p) = vs_refs (vm_space h p)" "vs_reads (vm_space h2 p) = vs_reads (vm_space h p)"
    "vs_writes (vm_space h2 p) = vs_writes (vm_space h p)" for p using j by (auto simp: ml_inv_def)
  show ?thesis using ml_invD [OF i] k U by simp
qed

definition demo_vm :: vm_state where
  "demo_vm = \<lparr>vm_space = (\<lambda>p. \<lparr>vs_id = int p, vs_refs = 1, vs_reads = 0, vs_writes = 0\<rparr>), vm_log = []\<rparr>"

theorem multi_locker_balanced_witness:
  "\<exists>l h'. multi_run (\<lambda>_ _. 0) [MAddArea True 3 False, MAddArea True 5 True] MultiAddressSpaceLocker demo_vm = Some (l, h')
     \<and> vs_refs (vm_space h' 5) = 2 \<and> vs_refs (vm_space (snd (multi_Unset l h')) 5) = 1"
proof -
  obtain l h' where r: "multi_run (\<lambda>_ _. 0) [MAddArea True 3 False, MAddArea True 5 True] MultiAddressSpaceLocker demo_vm = Some (l, h')"
    and i: "ml_items l = [(3, False), (5, True)]"
    by (simp add: AddArea_def AddAddressSpace_def ResizeIfNeeded_def MultiAddressSpaceLocker_def)
  have z: "\<And>w q. 0 \<le> (\<lambda>_ _. 0 :: int) w q" by simp
  from multi_locker_balanced [OF z r] have b: "vs_refs (vm_space h' 5) = vs_refs (vm_space demo_vm 5) + of_bool (5 \<in> fst ` set (ml_items l))"
    "vs_refs (vm_space (snd (multi_Unset l h')) 5) = vs_refs (vm_space demo_vm 5)" by blast+
  have "vs_refs (vm_space h' 5) = 2" "vs_refs (vm_space (snd (multi_Unset l h')) 5) = 1"
    using b unfolding i by (simp_all add: demo_vm_def)
  then show ?thesis using r by blast
qed

text \<open>
  C9: \<open>MultiAddressSpaceLocker::Lock\<close> takes the locks in the one global order, by descending ID with the kernel's
  address space last, whatever the order in which the spaces were added: so two threads cannot wait for each other's
  spaces. It is all or nothing: when all locks are granted they have been acquired in this order and the locker is
  locked; when one fails, the locks before it are released in reverse order, the address spaces are as before, and its
  error is returned.
\<close>
theorem multi_locker_order:
  assumes "\<not> ml_locked l" "distinct (map fst (ml_items l))" "inj_on (\<lambda>p. vs_id (vm_space h p)) (fst ` set (ml_items l))"
  shows "\<exists>xs. mset xs = mset (ml_items l) \<and> sorted_wrt (\<lambda>a b. vs_id (vm_space h (fst b)) < vs_id (vm_space h (fst a))) xs
    \<and> (if \<forall>(p, w)\<in>set xs. 0 \<le> st w p
       then \<exists>h'. multi_Lock st l h = Some (V_OK, l\<lparr>ml_items := xs, ml_locked := True\<rparr>, h')
         \<and> vm_log h' = vm_log h @ map (\<lambda>(p, w). Acquire w p) xs
       else \<exists>us p w vs h'. xs = us @ (p, w) # vs \<and> (\<forall>(p, w)\<in>set us. 0 \<le> st w p) \<and> st w p < 0
         \<and> multi_Lock st l h = Some (V_LOCK (st w p), l\<lparr>ml_items := xs\<rparr>, h') \<and> vm_space h' = vm_space h
         \<and> vm_log h' = vm_log h @ map (\<lambda>(p, w). Acquire w p) us @ map (\<lambda>(p, w). Release w p) (rev us))"
proof -
  define xs where "xs = qsort (CompareItems (vm_space h)) (ml_items l) (length (ml_items l))"
  note s = multi_sorted [OF assms(2,3), folded xs_def]
  show ?thesis
  proof (cases "\<forall>(p, w)\<in>set xs. 0 \<le> st w p")
    case True
    have "\<exists>h'. multi_Lock st l h = Some (V_OK, l\<lparr>ml_items := xs, ml_locked := True\<rparr>, h') \<and> vm_log h' = vm_log h @ map (\<lambda>(p, w). Acquire w p) xs"
      using multi_Lock_ok [OF assms(1) xs_def True] acquire_items_effect(5) by blast
    with True s show ?thesis by (intro exI [of _ xs]) simp
  next
    case False
    from first_failure [OF this] obtain us p w vs where x: "xs = us @ (p, w) # vs" "\<forall>(p, w)\<in>set us. 0 \<le> st w p" "st w p < 0" by blast
    have "multi_Lock st l h = Some (V_LOCK (st w p), l\<lparr>ml_items := xs\<rparr>, unlock_items (rev us) (acquire_items us h))"
      using multi_Lock_fail [OF assms(1) _ x(2,3), of vs h] x(1) xs_def by simp
    with x unlock_back [of us h] have "\<exists>us p w vs h'. xs = us @ (p, w) # vs \<and> (\<forall>(p, w)\<in>set us. 0 \<le> st w p) \<and> st w p < 0
         \<and> multi_Lock st l h = Some (V_LOCK (st w p), l\<lparr>ml_items := xs\<rparr>, h') \<and> vm_space h' = vm_space h
         \<and> vm_log h' = vm_log h @ map (\<lambda>(p, w). Acquire w p) us @ map (\<lambda>(p, w). Release w p) (rev us)" by blast
    with False s show ?thesis by (intro exI [of _ xs]) (simp only: if_False simp_thms)
  qed
qed

theorem multi_locker_order_witness:
  "\<exists>xs h'. mset xs = {#(3, False), (5, True)#}
     \<and> multi_Lock (\<lambda>_ _. 0) \<lparr>ml_items = [(3, False), (5, True)], ml_capacity = 4, ml_locked = False\<rparr> demo_vm
         = Some (V_OK, \<lparr>ml_items = xs, ml_capacity = 4, ml_locked = True\<rparr>, h')
     \<and> vm_log h' = map (\<lambda>(p, w). Acquire w p) xs"
proof -
  let ?l = "\<lparr>ml_items = [(3, False), (5, True)], ml_capacity = 4, ml_locked = False\<rparr>"
  have "\<not> ml_locked ?l" "distinct (map fst (ml_items ?l))" "inj_on (\<lambda>p. vs_id (vm_space demo_vm p)) (fst ` set (ml_items ?l))"
    by (simp_all add: demo_vm_def)
  from multi_locker_order [OF this, of "\<lambda>_ _. 0"] show ?thesis by (auto simp: demo_vm_def)
qed

end
