(* ===== verification/Cache_BlockWriter.thy ===== *)
theory Cache_BlockWriter
  imports Libroot_Sort
begin

text \<open>
  The write-back of the block cache (\<open>src/src/system/kernel/cache/block_cache.cpp\<close>): \<open>BlockWriter\<close> with its queue of
  blocks, the grouping of consecutive blocks into single writes, and what a write does to the blocks, their
  transactions and the counts of the cache. \<open>writev_pos\<close> and the allocator are parameters (\<open>io\<close>, \<open>alloc\<close>): any
  answers are allowed. The lock of the cache is held throughout here; with \<open>canUnlock\<close> it is released during the
  I/O, when the mark \<open>busy_writing\<close> keeps other threads from the blocks. The sort is the \<open>qsort\<close> of
  \<open>Libroot_Sort\<close>, whose locale \<open>comparator\<close> is interpreted with \<open>_CompareBlocks\<close>. The array loop is shown equal to a
  loop over runs of consecutive blocks (\<open>write_loop_runs\<close>), from which the properties follow.
\<close>

subsection \<open>Data\<close>

text \<open>Blocks and transactions are known by their addresses, buffers by numbers.\<close>

type_synonym block_ptr = nat
type_synonym transaction_ptr = nat

record cached_block =
  cb_number :: int
  cb_current :: nat
  cb_original :: "nat option"
  cb_parent :: "nat option"
  cb_ref_count :: int
  cb_busy_reading :: bool
  cb_busy_writing :: bool
  cb_is_writing :: bool
  cb_is_dirty :: bool
  cb_unused :: bool
  cb_waiters :: bool
  cb_transaction :: "transaction_ptr option"
  cb_previous :: "transaction_ptr option"

record cache_transaction =
  ct_num_blocks :: int
  ct_blocks :: "block_ptr list"
  ct_busy_writing_count :: int

text \<open>\<open>bc_notified\<close> counts the calls of \<open>NotifyAll\<close>, \<open>bc_written\<close> lists the transactions whose listeners got
  \<open>TRANSACTION_WRITTEN\<close>, \<open>bc_freed\<close> the buffers given back, \<open>bc_deleted\<close> the deleted transactions.\<close>

record block_cache =
  bc_block :: "block_ptr \<Rightarrow> cached_block"
  bc_tx :: "transaction_ptr \<Rightarrow> cache_transaction"
  bc_block_size :: nat
  bc_hash :: "transaction_ptr set"
  bc_last_transaction :: "transaction_ptr option"
  bc_unused :: "block_ptr list"
  bc_unused_count :: int
  bc_busy_writing_count :: int
  bc_waiters :: bool
  bc_num_dirty :: nat
  bc_freed :: "nat list"
  bc_written :: "transaction_ptr list"
  bc_deleted :: "transaction_ptr list"
  bc_notified :: nat

record block_writer =
  bw_blocks :: "block_ptr list"
  bw_total :: nat
  bw_capacity :: nat
  bw_max :: nat
  bw_heap :: bool
  bw_status :: int
  bw_deleted :: bool

text \<open>The calls of \<open>writev_pos\<close> so far (position and buffers), and what the next one gives: the number of bytes, and
  \<open>errno\<close>.\<close>

type_synonym wlog = "(int \<times> nat list) list"
type_synonym device_io = "wlog \<Rightarrow> int \<Rightarrow> nat list \<Rightarrow> int \<times> int"

definition IOV_MAX :: nat where "IOV_MAX = 1024"
definition kBufferSize :: nat where "kBufferSize = 64"
definition B_IO_ERROR_CODE :: int where "B_IO_ERROR_CODE = - 2147483648 + 1"

definition CanBeWritten :: "cached_block \<Rightarrow> bool" where
  "CanBeWritten b \<longleftrightarrow> \<not> cb_busy_writing b \<and> \<not> cb_busy_reading b
     \<and> (cb_previous b \<noteq> None \<or> cb_transaction b = None \<and> cb_is_dirty b \<and> \<not> cb_is_writing b)"

definition BlockWriter :: "nat \<Rightarrow> block_writer" where
  "BlockWriter mx = \<lparr>bw_blocks = [], bw_total = 0, bw_capacity = kBufferSize, bw_max = mx, bw_heap = False, bw_status = 0, bw_deleted = False\<rparr>"

abbreviation number :: "block_cache \<Rightarrow> block_ptr \<Rightarrow> int" where "number c b \<equiv> cb_number (bc_block c b)"

definition block_Data :: "cached_block \<Rightarrow> nat" where
  "block_Data b = (if cb_previous b \<noteq> None \<and> cb_original b \<noteq> None then the (cb_original b) else cb_current b)"

definition CompareBlocks :: "(block_ptr \<Rightarrow> cached_block) \<Rightarrow> block_ptr \<Rightarrow> block_ptr \<Rightarrow> int" where
  "CompareBlocks bl a b =
     (let diff = cb_number (bl a) - cb_number (bl b) in if 0 < diff then 1 else if diff < 0 then - 1 else 0)"

subsection \<open>Marks\<close>

abbreviation upd_block :: "block_ptr \<Rightarrow> (cached_block \<Rightarrow> cached_block) \<Rightarrow> block_cache \<Rightarrow> block_cache" where
  "upd_block b f c \<equiv> c\<lparr>bc_block := (bc_block c)(b := f (bc_block c b))\<rparr>"

abbreviation upd_tx :: "transaction_ptr \<Rightarrow> (cache_transaction \<Rightarrow> cache_transaction) \<Rightarrow> block_cache \<Rightarrow> block_cache" where
  "upd_tx t f c \<equiv> c\<lparr>bc_tx := (bc_tx c)(t := f (bc_tx c t))\<rparr>"

definition tx_busy :: "int \<Rightarrow> transaction_ptr option \<Rightarrow> block_cache \<Rightarrow> block_cache" where
  "tx_busy d prev c =
     (case prev of None \<Rightarrow> c | Some t \<Rightarrow> upd_tx t (\<lambda>x. x\<lparr>ct_busy_writing_count := ct_busy_writing_count x + d\<rparr>) c)"

definition UnmarkWriting :: "block_ptr \<Rightarrow> block_cache \<Rightarrow> block_cache" where
  "UnmarkWriting b c =
     (let c = upd_block b (\<lambda>x. x\<lparr>cb_busy_writing := False\<rparr>) c;
          c = tx_busy (-1) (cb_previous (bc_block c b)) c;
          c = c\<lparr>bc_busy_writing_count := bc_busy_writing_count c - 1\<rparr>
      in if bc_waiters c \<and> bc_busy_writing_count c = 0 \<or> cb_waiters (bc_block c b)
         then (upd_block b (\<lambda>x. x\<lparr>cb_waiters := False\<rparr>) c)\<lparr>bc_waiters := False, bc_notified := bc_notified c + 1\<rparr>
         else c)"

text \<open>\<open>notify_transaction_listeners\<close> with \<open>TRANSACTION_WRITTEN\<close>, the removal from the hash table, and
  \<open>delete_transaction\<close>.\<close>

definition finish_transaction :: "transaction_ptr option \<Rightarrow> transaction_ptr \<Rightarrow> block_cache \<Rightarrow> block_cache" where
  "finish_transaction tx prev c =
     c\<lparr>bc_written := bc_written c @ [prev],
       bc_hash := bc_hash c - {case tx of Some t \<Rightarrow> t | None \<Rightarrow> prev},
       bc_last_transaction := (if bc_last_transaction c = Some prev then None else bc_last_transaction c),
       bc_deleted := bc_deleted c @ [prev]\<rparr>"

text \<open>The part of \<open>_BlockDone\<close> for a block with a previous transaction: whether that transaction is deleted, and the
  cache.\<close>

definition release_previous :: "block_ptr \<Rightarrow> transaction_ptr option \<Rightarrow> transaction_ptr \<Rightarrow> block_cache \<Rightarrow> bool \<times> block_cache" where
  "release_previous b tx prev c =
     (let c = upd_tx prev (\<lambda>x. x\<lparr>ct_blocks := remove1 b (ct_blocks x)\<rparr>) c;
          c = upd_block b (\<lambda>x. x\<lparr>cb_previous := None\<rparr>) c;
          c = (if cb_original (bc_block c b) \<noteq> None \<and> cb_transaction (bc_block c b) = None
               then upd_block b (\<lambda>x. x\<lparr>cb_original := None\<rparr>)
                      (c\<lparr>bc_freed := bc_freed c @ [the (cb_original (bc_block c b))]\<rparr>)
               else c);
          c = upd_tx prev (\<lambda>x. x\<lparr>ct_num_blocks := ct_num_blocks x - 1\<rparr>) c
      in if ct_num_blocks (bc_tx c prev) = 0 then (True, finish_transaction tx prev c) else (False, c))"

text \<open>The end of \<open>_BlockDone\<close>. Its \<open>ASSERT\<close>, like the others of the class, is empty in the release build; when it holds is
  shown in \<open>mark_unused_assertion\<close>.\<close>

definition mark_unused :: "block_ptr \<Rightarrow> block_cache \<Rightarrow> block_cache" where
  "mark_unused b c =
     (if cb_transaction (bc_block c b) = None \<and> cb_ref_count (bc_block c b) = 0 \<and> \<not> cb_unused (bc_block c b)
      then (upd_block b (\<lambda>x. x\<lparr>cb_unused := True\<rparr>) c)
             \<lparr>bc_unused := bc_unused c @ [b], bc_unused_count := bc_unused_count c + 1\<rparr>
      else c)"

definition BlockDone :: "block_ptr option \<Rightarrow> transaction_ptr option \<Rightarrow> block_cache \<Rightarrow> bool \<times> block_cache" where
  "BlockDone ob tx c =
     (case ob of None \<Rightarrow> (False, c)
      | Some b \<Rightarrow>
          let c = (if 0 < bc_num_dirty c then c\<lparr>bc_num_dirty := bc_num_dirty c - 1\<rparr> else c);
              c = (if block_Data (bc_block c b) = cb_current (bc_block c b)
                   then upd_block b (\<lambda>x. x\<lparr>cb_is_dirty := False\<rparr>) c else c);
              c = UnmarkWriting b c;
              (del, c) = (case cb_previous (bc_block c b) of None \<Rightarrow> (False, c) | Some prev \<Rightarrow> release_previous b tx prev c)
          in (del, mark_unused b c))"

subsection \<open>Writing\<close>

text \<open>The length of the run of consecutive blocks at index \<open>i\<close>.\<close>

function run_length :: "(block_ptr \<Rightarrow> int) \<Rightarrow> block_ptr option list \<Rightarrow> nat \<Rightarrow> nat \<Rightarrow> nat" where
  "run_length num fs i blocks =
     (if i + blocks < length fs \<and> blocks < IOV_MAX
      then if num (the (fs ! (i + blocks))) \<noteq> num (the (fs ! (i + blocks - 1))) + 1 then blocks
           else run_length num fs i (Suc blocks)
      else blocks)"
  by pat_completeness auto
termination by (relation "measure (\<lambda>(num, fs, i, k). length fs - (i + k))") auto

declare run_length.simps [simp del]

lemma run_length_ge: "k \<le> run_length num fs i k"
proof (induction num fs i k rule: run_length.induct)
  case (1 num fs i k)
  show ?case
  proof (cases "i + k < length fs \<and> k < IOV_MAX \<and> num (the (fs ! (i + k))) = num (the (fs ! (i + k - 1))) + 1")
    case True
    then have "Suc k \<le> run_length num fs i (Suc k)" using 1 by blast
    then show ?thesis using True run_length.simps [of num fs i k] by simp
  next
    case False
    then have "run_length num fs i k = k" using run_length.simps [of num fs i k] by auto
    then show ?thesis by simp
  qed
qed

text \<open>\<open>_WriteBlocks\<close>. The position is a product of \<open>off_t\<close> and \<open>size_t\<close>, which has no overflow for blocks on the device: the
  offsets of a device fit into \<open>off_t\<close>.\<close>

definition WriteBlocks :: "device_io \<Rightarrow> block_cache \<Rightarrow> block_ptr list \<Rightarrow> wlog \<Rightarrow> int \<times> wlog" where
  "WriteBlocks io c bs log =
     (let blockSize = bc_block_size c;
          vecs = map (\<lambda>b. block_Data (bc_block c b)) bs;
          pos = number c (hd bs) * int blockSize;
          (written, error) = io log pos vecs
      in (if written \<noteq> int (blockSize * length bs)
          then if written < 0 \<and> error \<noteq> 0 then error else B_IO_ERROR_CODE
          else 0,
          log @ [(pos, vecs)]))"

text \<open>The loop over the blocks of a failed write.\<close>

fun unmark_run :: "nat \<Rightarrow> nat \<Rightarrow> block_ptr option list \<Rightarrow> block_cache \<Rightarrow> block_ptr option list \<times> block_cache" where
  "unmark_run j 0 fs c = (fs, c)"
| "unmark_run j (Suc n) fs c = unmark_run (Suc j) n (fs[j := None]) (UnmarkWriting (the (fs ! j)) c)"

lemma length_unmark_run [simp]: "length (fst (unmark_run j n fs c)) = length fs"
  by (induction j n fs c rule: unmark_run.induct) auto

function write_loop :: "device_io \<Rightarrow> nat \<Rightarrow> block_ptr option list \<Rightarrow> int \<Rightarrow> wlog \<Rightarrow> block_cache \<Rightarrow>
    block_ptr option list \<times> int \<times> wlog \<times> block_cache" where
  "write_loop io i fs st log c =
     (if i < length fs
      then
        let blocks = run_length (number c) fs i 1;
            (status, log) = WriteBlocks io c (map the (take blocks (drop i fs))) log;
            (fs', c') = (if status \<noteq> 0 then unmark_run i blocks fs c else (fs, c));
            st' = (if status \<noteq> 0 \<and> st = 0 then status else st)
        in write_loop io (i + blocks) fs' st' log c'
      else (fs, st, log, c))"
  by pat_completeness auto
termination
proof (relation "measure (\<lambda>(io, i, fs, st, log, c). length fs - i)", goal_cases)
  case (2 io i fs st log c blocks x status log' y fs' c' st')
  have "1 \<le> blocks" using run_length_ge [of 1 "number c" fs i] 2(2) by simp
  moreover have "fst (fs', c') = fst (if status \<noteq> 0 then unmark_run i blocks fs c else (fs, c))" using 2(5,6) by (simp only:)
  then have "length fs' = length fs" by (simp split: if_splits)
  ultimately show ?case using 2(1) by simp
qed simp

declare write_loop.simps [simp del]

fun done_loop :: "transaction_ptr option \<Rightarrow> block_ptr option list \<Rightarrow> bool \<Rightarrow> block_cache \<Rightarrow> bool \<times> block_cache" where
  "done_loop tx [] del c = (del, c)"
| "done_loop tx (ob # fs) del c = (let (d, c) = BlockDone ob tx c in done_loop tx fs (del \<or> d) c)"

definition block_Write :: "device_io \<Rightarrow> transaction_ptr option \<Rightarrow> block_writer \<Rightarrow> wlog \<Rightarrow> block_cache \<Rightarrow>
    int \<times> block_writer \<times> wlog \<times> block_cache" where
  "block_Write io tx w log c =
     (if bw_blocks w = [] then (0, w, log, c)
      else
        let bs = qsort (CompareBlocks (bc_block c)) (bw_blocks w) (length (bw_blocks w));
            (fs, st, log, c) = write_loop io 0 (map Some bs) (bw_status w) log c;
            (del, c) = done_loop tx fs False c
        in (st, w\<lparr>bw_blocks := [], bw_status := st, bw_deleted := del\<rparr>, log, c))"

text \<open>\<open>Add\<close>: \<open>alloc\<close> says whether the allocation of the larger array succeeds, should it be needed.\<close>

definition block_Add :: "device_io \<Rightarrow> bool \<Rightarrow> block_ptr \<Rightarrow> transaction_ptr option \<Rightarrow> block_writer \<Rightarrow> wlog \<Rightarrow> block_cache \<Rightarrow>
    bool \<times> block_writer \<times> wlog \<times> block_cache" where
  "block_Add io alloc b tx w log c =
     (if bw_total w = bw_max w then (False, w, log, c)
      else
        let (w, log, c) =
              (if bw_capacity w \<le> length (bw_blocks w)
               then if alloc then (w\<lparr>bw_capacity := max 256 (bw_capacity w * 2), bw_heap := True\<rparr>, log, c)
                    else snd (block_Write io tx w log c)
               else (w, log, c));
            w = w\<lparr>bw_blocks := bw_blocks w @ [b], bw_total := bw_total w + 1\<rparr>;
            c = upd_block b (\<lambda>x. x\<lparr>cb_busy_writing := True\<rparr>) c;
            c = c\<lparr>bc_busy_writing_count := bc_busy_writing_count c + 1\<rparr>;
            c = tx_busy 1 (cb_previous (bc_block c b)) c
        in (True, w, log, c))"

fun add_loop :: "device_io \<Rightarrow> bool list \<Rightarrow> block_ptr list \<Rightarrow> transaction_ptr \<Rightarrow> bool \<Rightarrow> block_writer \<Rightarrow> wlog \<Rightarrow> block_cache \<Rightarrow>
    bool \<times> bool \<times> block_writer \<times> wlog \<times> block_cache" where
  "add_loop io as [] t left w log c = (True, left, w, log, c)"
| "add_loop io as (b # bs) t left w log c =
     (if \<not> CanBeWritten (bc_block c b) then add_loop io as bs t True w log c
      else
        let (ok, w, log, c) = block_Add io (as \<noteq> [] \<and> hd as) b (Some t) w log c
        in if \<not> ok then (False, left, w, log, c)
           else if bw_deleted w then (True, left, w, log, c)
           else add_loop io (tl as) bs t left w log c)"

text \<open>\<open>Add\<close> of a closed transaction: the result, \<open>hasLeftOvers\<close>, and the state. \<open>as\<close> are the results of the
  allocations.\<close>

definition block_Add_transaction :: "device_io \<Rightarrow> bool list \<Rightarrow> transaction_ptr \<Rightarrow> block_writer \<Rightarrow> wlog \<Rightarrow> block_cache \<Rightarrow>
    bool \<times> bool \<times> block_writer \<times> wlog \<times> block_cache" where
  "block_Add_transaction io as t w log c =
     (if ct_busy_writing_count (bc_tx c t) \<noteq> 0 then (True, True, w, log, c)
      else add_loop io as (ct_blocks (bc_tx c t)) t False w log c)"

definition WriteBlock :: "device_io \<Rightarrow> bool \<Rightarrow> block_ptr \<Rightarrow> wlog \<Rightarrow> block_cache \<Rightarrow> int \<times> block_writer \<times> wlog \<times> block_cache" where
  "WriteBlock io alloc b log c =
     (let (_, w, log, c) = block_Add io alloc b None (BlockWriter (2 ^ 64 - 1)) log c in block_Write io None w log c)"

subsection \<open>Runs of consecutive blocks\<close>

interpretation bw: comparator "CompareBlocks bl" for bl
  by unfold_locales (auto simp: total_preorder_def CompareBlocks_def Let_def)

lemma qsort_blocks:
  "sorted_wrt (\<lambda>a b. cb_number (bl a) \<le> cb_number (bl b)) (qsort (CompareBlocks bl) bs (length bs))
     \<and> mset (qsort (CompareBlocks bl) bs (length bs)) = mset bs"
proof -
  have "CompareBlocks bl a b \<le> 0 \<longleftrightarrow> cb_number (bl a) \<le> cb_number (bl b)" for a b by (simp add: CompareBlocks_def Let_def)
  then show ?thesis using bw.qsort_correct [of bl bs] by simp
qed

lemma run_length_cong:
  "length fs - i = length gs - i' \<Longrightarrow> 0 < k \<Longrightarrow> (\<And>j. i + j < length fs \<Longrightarrow> fs ! (i + j) = gs ! (i' + j)) \<Longrightarrow> i \<le> length fs \<Longrightarrow> i' \<le> length gs \<Longrightarrow>
     run_length num fs i k = run_length num gs i' k"
proof (induction num fs i k rule: run_length.induct)
  case (1 num fs i k)
  have "i + k < length fs \<longleftrightarrow> i' + k < length gs" using "1.prems"(1,4,5) by linarith
  moreover have "fs ! (i + k) = gs ! (i' + k)" "fs ! (i + k - 1) = gs ! (i' + k - 1)" if "i + k < length fs"
    using "1.prems"(3) [of k] "1.prems"(3) [of "k - 1"] "1.prems"(2) that by simp_all
  moreover have "run_length num fs i (Suc k) = run_length num gs i' (Suc k)"
    if "i + k < length fs \<and> k < IOV_MAX" "\<not> num (the (fs ! (i + k))) \<noteq> num (the (fs ! (i + k - 1))) + 1"
    using "1.IH" [OF that "1.prems"(1) _ "1.prems"(3,4,5)] by simp
  ultimately show ?case unfolding run_length.simps [of num fs i k] run_length.simps [of num gs i' k] by simp
qed

lemma run_length_run:
  "0 < k \<Longrightarrow> k \<le> length bs \<Longrightarrow> k \<le> IOV_MAX \<Longrightarrow> m = run_length num (map Some bs) 0 k \<Longrightarrow>
     k \<le> m \<and> m \<le> length bs \<and> m \<le> IOV_MAX \<and> (\<forall>j. k \<le> j \<and> j < m \<longrightarrow> num (bs ! j) = num (bs ! (j - 1)) + 1)
     \<and> (m < length bs \<and> m < IOV_MAX \<longrightarrow> num (bs ! m) \<noteq> num (bs ! (m - 1)) + 1)"
proof (induction num "map Some bs" "0 :: nat" k rule: run_length.induct)
  case (1 num k)
  note e = run_length.simps [of num "map Some bs" 0 k]
  have n: "map Some bs ! (k - 1) = Some (bs ! (k - 1))" using "1.prems"(1,2) by simp
  show ?case
  proof (cases "k < length bs \<and> k < IOV_MAX \<and> num (bs ! k) = num (bs ! (k - 1)) + 1")
    case True
    then have m: "m = run_length num (map Some bs) 0 (Suc k)" using "1.prems"(1,4) e n by simp
    have "Suc k \<le> m \<and> m \<le> length bs \<and> m \<le> IOV_MAX \<and> (\<forall>j. Suc k \<le> j \<and> j < m \<longrightarrow> num (bs ! j) = num (bs ! (j - 1)) + 1)
     \<and> (m < length bs \<and> m < IOV_MAX \<longrightarrow> num (bs ! m) \<noteq> num (bs ! (m - 1)) + 1)"
      using "1.hyps" [OF _ _ _ _ _ m] True "1.prems"(1) by simp
    then show ?thesis using True by (metis Suc_leD Suc_leI le_neq_implies_less)
  next
    case False
    then have "m = k" using "1.prems" e n by (auto split: if_splits)
    then show ?thesis using False "1.prems" by auto
  qed
qed

text \<open>The reference: a list of blocks cut into runs.\<close>

function split_runs :: "(block_ptr \<Rightarrow> int) \<Rightarrow> block_ptr list \<Rightarrow> block_ptr list list" where
  "split_runs num bs =
     (if bs = [] then []
      else let k = run_length num (map Some bs) 0 1 in take k bs # split_runs num (drop k bs))"
  by pat_completeness auto
termination
proof (relation "measure (\<lambda>(num, bs). length bs)", goal_cases)
  case (2 num bs k)
  then show ?case using run_length_ge [of 1 num "map Some bs" 0] by (cases bs) auto
qed simp

declare split_runs.simps [simp del]

definition is_run :: "(block_ptr \<Rightarrow> int) \<Rightarrow> block_ptr list \<Rightarrow> bool" where
  "is_run num r \<longleftrightarrow> r \<noteq> [] \<and> length r \<le> IOV_MAX \<and> (\<forall>j<length r. num (r ! j) = num (hd r) + int j)"

lemma consecutive:
  assumes "\<And>j. 1 \<le> j \<and> j < length r \<longrightarrow> num (r ! j) = num (r ! (j - 1)) + (1 :: int)" "j < length r"
  shows "num (r ! j) = num (hd r) + int j"
  using assms(2)
proof (induction j)
  case 0
  then show ?case by (simp add: hd_conv_nth)
next
  case (Suc j)
  then show ?case using assms(1) [of "Suc j"] by simp
qed

lemma split_runs_correct: "concat (split_runs num bs) = bs \<and> (\<forall>r\<in>set (split_runs num bs). is_run num r)"
proof (induction num bs rule: split_runs.induct)
  case (1 num bs)
  show ?case
  proof (cases "bs = []")
    case True
    then show ?thesis by (simp add: split_runs.simps)
  next
    case False
    define k where "k = run_length num (map Some bs) 0 1"
    have r: "1 \<le> k" "k \<le> length bs" "k \<le> IOV_MAX" "\<And>j. 1 \<le> j \<and> j < k \<longrightarrow> num (bs ! j) = num (bs ! (j - 1)) + 1"
      using run_length_run [OF _ _ _ k_def] False by (simp_all add: IOV_MAX_def Suc_le_eq)
    have "num (take k bs ! j) = num (hd (take k bs)) + int j" if "j < length (take k bs)" for j
      using r that by (intro consecutive) auto
    then have "is_run num (take k bs)" unfolding is_run_def using r False by auto
    moreover have "split_runs num bs = take k bs # split_runs num (drop k bs)"
      using False k_def split_runs.simps [of num bs] by (simp add: Let_def)
    ultimately show ?thesis using 1 [OF False k_def] by simp
  qed
qed

subsection \<open>Effects on the blocks\<close>

definition unmarked :: "cached_block \<Rightarrow> cached_block" where
  "unmarked x = x\<lparr>cb_busy_writing := False, cb_waiters := False\<rparr>"

text \<open>A block that has been written.\<close>

definition finished :: "cached_block \<Rightarrow> cached_block" where
  "finished x =
     (let y = unmarked x\<lparr>cb_is_dirty := cb_is_dirty x \<and> block_Data x \<noteq> cb_current x, cb_previous := None,
            cb_original := (if cb_previous x \<noteq> None \<and> cb_transaction x = None then None else cb_original x)\<rparr>
      in y\<lparr>cb_unused := cb_unused x \<or> cb_transaction x = None \<and> cb_ref_count x = 0\<rparr>)"

lemma unmark_waiters: "\<not> cb_waiters x \<Longrightarrow> x\<lparr>cb_busy_writing := False\<rparr> = unmarked x"
  by (simp add: unmarked_def)

lemma UnmarkWriting_block: "bc_block (UnmarkWriting b c) = (bc_block c)(b := unmarked (bc_block c b))"
  by (auto simp: UnmarkWriting_def Let_def tx_busy_def unmarked_def fun_eq_iff split: option.splits)

lemma UnmarkWriting_frame [simp]:
  "bc_busy_writing_count (UnmarkWriting b c) = bc_busy_writing_count c - 1" "bc_block_size (UnmarkWriting b c) = bc_block_size c"
  "bc_num_dirty (UnmarkWriting b c) = bc_num_dirty c"
  "bc_hash (UnmarkWriting b c) = bc_hash c" "bc_deleted (UnmarkWriting b c) = bc_deleted c"
  by (auto simp: UnmarkWriting_def Let_def tx_busy_def split: option.splits)

lemma UnmarkWriting_tx:
  "ct_busy_writing_count (bc_tx (UnmarkWriting b c) t) =
     ct_busy_writing_count (bc_tx c t) - of_bool (cb_previous (bc_block c b) = Some t)"
  "ct_num_blocks (bc_tx (UnmarkWriting b c) t) = ct_num_blocks (bc_tx c t)"
  by (auto simp: UnmarkWriting_def Let_def tx_busy_def split: option.splits)

lemma unmarked_simps [simp]:
  "cb_number (unmarked x) = cb_number x" "block_Data (unmarked x) = block_Data x" "cb_previous (unmarked x) = cb_previous x"
  "cb_busy_writing (unmarked x) = False" "cb_transaction (unmarked x) = cb_transaction x"
  "cb_ref_count (unmarked x) = cb_ref_count x" "cb_unused (unmarked x) = cb_unused x" "cb_is_dirty (unmarked x) = cb_is_dirty x"
  by (simp_all add: unmarked_def block_Data_def)

lemma release_previous_effect:
  "bc_block (snd (release_previous b tx prev c)) = (bc_block c)(b := (bc_block c b)\<lparr>cb_previous := None,
     cb_original := (if cb_transaction (bc_block c b) = None then None else cb_original (bc_block c b))\<rparr>)"
  "bc_busy_writing_count (snd (release_previous b tx prev c)) = bc_busy_writing_count c"
  "ct_busy_writing_count (bc_tx (snd (release_previous b tx prev c)) t) = ct_busy_writing_count (bc_tx c t)"
  by (auto simp: release_previous_def finish_transaction_def Let_def fun_eq_iff)

lemma mark_unused_effect:
  "bc_block (mark_unused b c) = (bc_block c)(b := (bc_block c b)\<lparr>cb_unused := cb_unused (bc_block c b)
     \<or> cb_transaction (bc_block c b) = None \<and> cb_ref_count (bc_block c b) = 0\<rparr>)"
  "bc_busy_writing_count (mark_unused b c) = bc_busy_writing_count c" "bc_tx (mark_unused b c) = bc_tx c"
  by (auto simp: mark_unused_def fun_eq_iff)

text \<open>The assertion of \<open>_BlockDone\<close> holds when a block that is not in an open transaction has no parent data, and
  original data only for its previous transaction.\<close>

lemma mark_unused_assertion:
  assumes "cb_transaction (bc_block c b) = None \<longrightarrow> cb_parent (bc_block c b) = None"
    "d = snd (release_previous b tx prev c)" "cb_transaction (bc_block d b) = None"
  shows "cb_original (bc_block d b) = None \<and> cb_parent (bc_block d b) = None"
  using assms by (simp add: release_previous_effect)

text \<open>\<open>_BlockDone\<close> up to the unmarking.\<close>

definition done_start :: "block_ptr \<Rightarrow> block_cache \<Rightarrow> block_cache" where
  "done_start b c =
     (let c = (if 0 < bc_num_dirty c then c\<lparr>bc_num_dirty := bc_num_dirty c - 1\<rparr> else c);
          c = (if block_Data (bc_block c b) = cb_current (bc_block c b)
               then upd_block b (\<lambda>x. x\<lparr>cb_is_dirty := False\<rparr>) c else c)
      in UnmarkWriting b c)"

lemma done_start_effect:
  fixes b c
  defines "x \<equiv> bc_block c b"
  shows "bc_block (done_start b c) = (bc_block c)(b := unmarked (x\<lparr>cb_is_dirty := cb_is_dirty x \<and> block_Data x \<noteq> cb_current x\<rparr>))"
    and "bc_busy_writing_count (done_start b c) = bc_busy_writing_count c - 1"
    and "ct_busy_writing_count (bc_tx (done_start b c) t) = ct_busy_writing_count (bc_tx c t) - of_bool (cb_previous x = Some t)"
  by (auto simp: done_start_def Let_def UnmarkWriting_block UnmarkWriting_tx x_def)

lemma BlockDone_def':
  "BlockDone (Some b) tx c =
     (let (del, d) = (case cb_previous (bc_block c b) of None \<Rightarrow> (False, done_start b c)
                      | Some prev \<Rightarrow> release_previous b tx prev (done_start b c))
      in (del, mark_unused b d))"
proof -
  have "cb_previous (bc_block (done_start b c) b) = cb_previous (bc_block c b)" by (simp add: done_start_effect)
  then show ?thesis by (simp only: BlockDone_def option.case done_start_def Let_def)
qed

lemma BlockDone_Some:
  shows "bc_block (snd (BlockDone (Some b) tx c)) = (bc_block c)(b := finished (bc_block c b))"
    and "bc_busy_writing_count (snd (BlockDone (Some b) tx c)) = bc_busy_writing_count c - 1"
    and "ct_busy_writing_count (bc_tx (snd (BlockDone (Some b) tx c)) t) =
     ct_busy_writing_count (bc_tx c t) - of_bool (cb_previous (bc_block c b) = Some t)"
proof -
  define d where "d = (case cb_previous (bc_block c b) of None \<Rightarrow> done_start b c
                      | Some prev \<Rightarrow> snd (release_previous b tx prev (done_start b c)))"
  have e: "snd (BlockDone (Some b) tx c) = mark_unused b d"
    unfolding BlockDone_def' d_def by (auto split: option.splits prod.splits)
  have d: "bc_block d = (bc_block c)(b := (unmarked (bc_block c b))\<lparr>cb_is_dirty := cb_is_dirty (bc_block c b) \<and> block_Data (bc_block c b) \<noteq> cb_current (bc_block c b),
      cb_previous := None, cb_original := (if cb_previous (bc_block c b) \<noteq> None \<and> cb_transaction (bc_block c b) = None then None else cb_original (bc_block c b))\<rparr>)"
    "bc_busy_writing_count d = bc_busy_writing_count c - 1"
    "ct_busy_writing_count (bc_tx d t) = ct_busy_writing_count (bc_tx c t) - of_bool (cb_previous (bc_block c b) = Some t)"
    by (auto simp: d_def release_previous_effect done_start_effect unmarked_def split: option.splits)
  show "bc_block (snd (BlockDone (Some b) tx c)) = (bc_block c)(b := finished (bc_block c b))"
    unfolding e mark_unused_effect d by (simp add: finished_def unmarked_def Let_def)
  show "bc_busy_writing_count (snd (BlockDone (Some b) tx c)) = bc_busy_writing_count c - 1"
    unfolding e mark_unused_effect d ..
  show "ct_busy_writing_count (bc_tx (snd (BlockDone (Some b) tx c)) t) =
     ct_busy_writing_count (bc_tx c t) - of_bool (cb_previous (bc_block c b) = Some t)"
    unfolding e mark_unused_effect d ..
qed

lemma BlockDone_None [simp]: "BlockDone None tx c = (False, c)"
  by (simp add: BlockDone_def)

subsection \<open>The loop over the array as a loop over runs\<close>

fun write_runs :: "device_io \<Rightarrow> block_ptr list list \<Rightarrow> int \<Rightarrow> wlog \<Rightarrow> block_cache \<Rightarrow> block_ptr option list \<times> int \<times> wlog \<times> block_cache" where
  "write_runs io [] st log c = ([], st, log, c)"
| "write_runs io (r # rs) st log c =
     (let (status, log) = WriteBlocks io c r log;
          c = (if status \<noteq> 0 then fold UnmarkWriting r c else c);
          (fs, st, log, c) = write_runs io rs (if status \<noteq> 0 \<and> st = 0 then status else st) log c
      in ((if status \<noteq> 0 then map (\<lambda>_. None) r else map Some r) @ fs, st, log, c))"

lemma unmark_run_eq:
  "i + k \<le> length fs \<Longrightarrow> unmark_run i k fs c =
     (take i fs @ replicate k None @ drop (i + k) fs, fold UnmarkWriting (map the (take k (drop i fs))) c)"
proof (induction k arbitrary: i fs c)
  case (Suc k)
  have d: "drop i fs = fs ! i # drop (Suc i) fs" using Suc.prems by (simp add: Cons_nth_drop_Suc)
  have "take (Suc i) (fs[i := None]) = take i fs @ [None]" using Suc.prems by (simp add: take_Suc_conv_app_nth)
  then show ?case using Suc.prems by (subst unmark_run.simps, subst Suc.IH) (simp_all add: d)
qed simp

lemma fold_unmark_number: "number (fold UnmarkWriting r c) = number c"
  by (induction r arbitrary: c) (auto simp: UnmarkWriting_block)

lemma write_loop_runs:
  "length fs = length bs \<Longrightarrow> drop i fs = map Some (drop i bs) \<Longrightarrow> i \<le> length bs \<Longrightarrow>
     write_loop io i fs st log c =
       (case write_runs io (split_runs (number c) (drop i bs)) st log c of (gs, r) \<Rightarrow> (take i fs @ gs, r))"
proof (induction io i fs st log c rule: write_loop.induct)
  case (1 io i fs st log c)
  show ?case
  proof (cases "i < length fs")
    case False
    then have "write_loop io i fs st log c = (fs, st, log, c)" by (simp add: write_loop.simps [of io i fs st log c])
    then show ?thesis using "1.prems" False by (simp add: split_runs.simps)
  next
    case True
    define k where "k = run_length (number c) fs i 1"
    have ne: "drop i bs \<noteq> []" using True "1.prems"(1) by simp
    have nth: "fs ! (i + j) = map Some (drop i bs) ! (0 + j)" if "i + j < length fs" for j
      using that "1.prems"(2) by (metis add_0 nth_drop "1.prems"(1,3))
    have k: "k = run_length (number c) (map Some (drop i bs)) 0 1"
      unfolding k_def using nth "1.prems"(1,3) by (intro run_length_cong) auto
    have kb: "1 \<le> k" "k \<le> length (drop i bs)" using run_length_run [OF _ _ _ k] ne by (simp_all add: IOV_MAX_def Suc_le_eq)
    have sp: "split_runs (number c) (drop i bs) = take k (drop i bs) # split_runs (number c) (drop (i + k) bs)"
      using ne k by (subst split_runs.simps) (simp add: Let_def add.commute)
    have tk: "map the (take k (drop i fs)) = take k (drop i bs)" using "1.prems"(2) by (simp add: take_map)
    obtain status log1 where W: "WriteBlocks io c (take k (drop i bs)) log = (status, log1)" by fastforce
    define fs1 where "fs1 = (if status \<noteq> 0 then take i fs @ replicate k None @ drop (i + k) fs else fs)"
    define c1 where "c1 = (if status \<noteq> 0 then fold UnmarkWriting (take k (drop i bs)) c else c)"
    define st1 where "st1 = (if status \<noteq> 0 \<and> st = 0 then status else st)"
    have ik: "i + k \<le> length fs" using kb(2) "1.prems"(1,3) by simp
    have pair: "(if status \<noteq> 0 then unmark_run i k fs c else (fs, c)) = (fs1, c1)"
      using unmark_run_eq [OF ik] tk by (simp add: fs1_def c1_def)
    have L: "write_loop io i fs st log c = write_loop io (i + k) fs1 st1 log1 c1"
      unfolding write_loop.simps [of io i fs st log c] Let_def k_def [symmetric] tk W prod.case pair st1_def [symmetric] using True by simp
    have d: "drop (i + k) fs1 = map Some (drop (i + k) bs)" "length fs1 = length bs"
    proof -
      have "drop k (drop i fs) = drop k (map Some (drop i bs))" using "1.prems"(2) by simp
      then have "drop (i + k) fs = map Some (drop (i + k) bs)" by (simp add: drop_map add.commute)
      then show "drop (i + k) fs1 = map Some (drop (i + k) bs)" using ik by (simp add: fs1_def)
      show "length fs1 = length bs" using "1.prems"(1) ik by (simp add: fs1_def)
    qed
    have IH: "write_loop io (i + k) fs1 st1 log1 c1 =
       (case write_runs io (split_runs (number c1) (drop (i + k) bs)) st1 log1 c1 of (gs, r) \<Rightarrow> (take (i + k) fs1 @ gs, r))"
      using "1.IH" [OF True k_def _ _ pair [symmetric] refl st1_def] W tk d kb(2) "1.prems"(1,3) by simp
    have n: "number c1 = number c" using fold_unmark_number by (simp add: c1_def)
    have t: "take (i + k) fs1 = take i fs @ (if status \<noteq> 0 then map (\<lambda>_. None) (take k (drop i bs)) else map Some (take k (drop i bs)))"
      using ik kb(2) "1.prems"(2) by (auto simp: fs1_def map_replicate_const take_add simp flip: take_map)
    show ?thesis unfolding L IH n sp t using W
      by (simp add: c1_def st1_def Let_def split: prod.splits)
  qed
qed

subsection \<open>What a write does\<close>

lemma fold_unmark_stable [simp]:
  "bc_block_size (fold UnmarkWriting r c) = bc_block_size c"
  "block_Data (bc_block (fold UnmarkWriting r c) b) = block_Data (bc_block c b)"
  "cb_previous (bc_block (fold UnmarkWriting r c) b) = cb_previous (bc_block c b)"
  "cb_number (bc_block (fold UnmarkWriting r c) b) = cb_number (bc_block c b)"
  by (induction r arbitrary: c) (auto simp: UnmarkWriting_block)

lemma fold_unmark_effect:
  "distinct r \<Longrightarrow> bc_block (fold UnmarkWriting r c) b = (if b \<in> set r then unmarked (bc_block c b) else bc_block c b)"
  "bc_busy_writing_count (fold UnmarkWriting r c) = bc_busy_writing_count c - int (length r)"
  "ct_busy_writing_count (bc_tx (fold UnmarkWriting r c) t) =
     ct_busy_writing_count (bc_tx c t) - int (length (filter (\<lambda>b. cb_previous (bc_block c b) = Some t) r))"
proof -
  show "distinct r \<Longrightarrow> bc_block (fold UnmarkWriting r c) b = (if b \<in> set r then unmarked (bc_block c b) else bc_block c b)"
    by (induction r arbitrary: c) (auto simp: UnmarkWriting_block)
  show "bc_busy_writing_count (fold UnmarkWriting r c) = bc_busy_writing_count c - int (length r)"
    by (induction r arbitrary: c) auto
  show "ct_busy_writing_count (bc_tx (fold UnmarkWriting r c) t) =
     ct_busy_writing_count (bc_tx c t) - int (length (filter (\<lambda>b. cb_previous (bc_block c b) = Some t) r))"
  proof (induction r arbitrary: c)
    case (Cons a r)
    have "(\<lambda>b. cb_previous (bc_block (UnmarkWriting a c) b) = Some t) = (\<lambda>b. cb_previous (bc_block c b) = Some t)"
      by (auto simp: UnmarkWriting_block fun_eq_iff)
    then show ?case by (simp add: Cons.IH UnmarkWriting_tx)
  qed simp
qed

text \<open>The blocks of the array that were not set to \<open>NULL\<close>.\<close>

fun kept :: "'a option list \<Rightarrow> 'a list" where
  "kept [] = []"
| "kept (None # gs) = kept gs"
| "kept (Some b # gs) = b # kept gs"

lemma done_loop_effect:
  "distinct (kept gs) \<Longrightarrow>
     (\<forall>b. bc_block (snd (done_loop tx gs del c)) b = (if b \<in> set (kept gs) then finished (bc_block c b) else bc_block c b))
     \<and> bc_busy_writing_count (snd (done_loop tx gs del c)) = bc_busy_writing_count c - int (length (kept gs))
     \<and> (\<forall>t. ct_busy_writing_count (bc_tx (snd (done_loop tx gs del c)) t) = ct_busy_writing_count (bc_tx c t)
         - int (length (filter (\<lambda>b. cb_previous (bc_block c b) = Some t) (kept gs))))"
proof (induction gs arbitrary: del c)
  case Nil
  then show ?case by simp
next
  case (Cons g gs)
  show ?case
  proof (cases g)
    case None
    then show ?thesis using Cons by simp
  next
    case (Some a)
    obtain d c' where B: "BlockDone (Some a) tx c = (d, c')" by fastforce
    then have c': "c' = snd (BlockDone (Some a) tx c)" by simp
    have dist: "a \<notin> set (kept gs)" "distinct (kept gs)" using Cons.prems Some by simp_all
    have blk: "bc_block c' = (bc_block c)(a := finished (bc_block c a))" unfolding c' by (rule BlockDone_Some(1))
    have flt: "filter (\<lambda>b. cb_previous (bc_block c' b) = Some t) (kept gs) = filter (\<lambda>b. cb_previous (bc_block c b) = Some t) (kept gs)" for t
    proof (rule filter_cong [OF refl])
      fix b assume "b \<in> set (kept gs)"
      then have "b \<noteq> a" using dist(1) by blast
      then show "(cb_previous (bc_block c' b) = Some t) = (cb_previous (bc_block c b) = Some t)" by (simp add: blk)
    qed
    have step: "done_loop tx (g # gs) del c = done_loop tx gs (del \<or> d) c'" using B Some by simp
    note IH = Cons.IH [OF dist(2), of "del \<or> d" c']
    have k: "kept (g # gs) = a # kept gs" using Some by simp
    have 1: "bc_block (snd (done_loop tx gs (del \<or> d) c')) b = (if b \<in> set (a # kept gs) then finished (bc_block c b) else bc_block c b)" for b
      using IH dist(1) by (cases "b = a") (simp_all add: blk)
    have 2: "bc_busy_writing_count (snd (done_loop tx gs (del \<or> d) c')) = bc_busy_writing_count c - int (length (a # kept gs))"
      using IH BlockDone_Some(2) [of a tx c] by (simp add: c')
    have 3: "ct_busy_writing_count (bc_tx (snd (done_loop tx gs (del \<or> d) c')) t) = ct_busy_writing_count (bc_tx c t)
         - int (length (filter (\<lambda>b. cb_previous (bc_block c b) = Some t) (a # kept gs)))" for t
    proof -
      have "ct_busy_writing_count (bc_tx c' t) = ct_busy_writing_count (bc_tx c t) - of_bool (cb_previous (bc_block c a) = Some t)"
        unfolding c' by (rule BlockDone_Some(3))
      then show ?thesis using IH flt [of t] by simp
    qed
    show ?thesis unfolding step k using 1 2 3 by blast
  qed
qed

lemma WriteBlocks_log: "snd (WriteBlocks io c r log) =
    log @ [(number c (hd r) * int (bc_block_size c), map (\<lambda>b. block_Data (bc_block c b)) r)]"
  by (simp add: WriteBlocks_def Let_def split: prod.splits)

lemma write_runs_log:
  "fst (snd (snd (write_runs io rs st log c))) =
     log @ map (\<lambda>r. (number c (hd r) * int (bc_block_size c), map (\<lambda>b. block_Data (bc_block c b)) r)) rs"
proof (induction rs arbitrary: st log c)
  case (Cons r rs)
  then show ?case by (simp add: Let_def split_beta WriteBlocks_log)
qed simp

text \<open>What the device did in the call number \<open>k\<close> of the log: whether it wrote the whole run, and the error that is
  made of its answer otherwise.\<close>

definition wrote :: "device_io \<Rightarrow> nat \<Rightarrow> wlog \<Rightarrow> nat \<Rightarrow> bool" where
  "wrote io bsz log k = (case log ! k of (pos, vecs) \<Rightarrow> fst (io (take k log) pos vecs) = int (bsz * length vecs))"

definition write_error :: "device_io \<Rightarrow> wlog \<Rightarrow> nat \<Rightarrow> int" where
  "write_error io log k =
     (case log ! k of (pos, vecs) \<Rightarrow> case io (take k log) pos vecs of (written, error) \<Rightarrow>
        if written < 0 \<and> error \<noteq> 0 then error else B_IO_ERROR_CODE)"

definition first_error :: "device_io \<Rightarrow> nat \<Rightarrow> wlog \<Rightarrow> nat \<Rightarrow> int" where
  "first_error io bsz log n =
     (case find (\<lambda>k. \<not> wrote io bsz log k) [n..<length log] of None \<Rightarrow> 0 | Some k \<Rightarrow> write_error io log k)"

lemma write_error_nonzero: "write_error io log k \<noteq> 0"
  by (simp add: write_error_def B_IO_ERROR_CODE_def split: prod.splits)

lemma first_error_zero: "first_error io bsz log n = 0 \<longleftrightarrow> (\<forall>k. n \<le> k \<and> k < length log \<longrightarrow> wrote io bsz log k)"
  by (auto simp: first_error_def write_error_nonzero find_None_iff split: option.split) (metis find_Some_iff length_upt nth_mem set_upt atLeastLessThan_iff)

text \<open>The blocks of the runs that were written.\<close>

definition on_disk :: "device_io \<Rightarrow> nat \<Rightarrow> wlog \<Rightarrow> nat \<Rightarrow> block_ptr list list \<Rightarrow> block_ptr set" where
  "on_disk io bsz log n runs = {b. \<exists>k<length runs. wrote io bsz log (n + k) \<and> b \<in> set (runs ! k)}"

lemma on_disk_Cons:
  "on_disk io bsz log n (r # rs) = (if wrote io bsz log n then set r else {}) \<union> on_disk io bsz log (Suc n) rs"
  by (auto simp: on_disk_def Ex_less_Suc2)

lemma on_disk_blocks:
  assumes "b \<in> on_disk io bsz log n runs" "mset (concat runs) = mset bs"
  shows "b \<in> set bs"
proof -
  have "b \<in> set (concat runs)" using assms(1) by (auto simp: on_disk_def)
  then show ?thesis by (metis assms(2) set_mset_mset)
qed

lemma WriteBlocks_status:
  assumes "WriteBlocks io c r log = (status, log1)" "log' = log1 @ rest"
  shows "status = (if wrote io (bc_block_size c) log' (length log) then 0 else write_error io log' (length log))"
  using assms by (auto simp: WriteBlocks_def wrote_def write_error_def Let_def split: prod.splits if_splits)

lemma write_runs_split:
  "write_runs io rs st log c = (gs, st', log', c') \<Longrightarrow>
     \<exists>fl. c' = fold UnmarkWriting fl c \<and> mset fl + mset (kept gs) = mset (concat rs)
       \<and> set (kept gs) = on_disk io (bc_block_size c) log' (length log) rs
       \<and> st' = (if st \<noteq> 0 then st else first_error io (bc_block_size c) log' (length log))"
proof (induction rs arbitrary: st log c gs)
  case Nil
  then show ?case by (intro exI [of _ "[]"]) (auto simp: on_disk_def first_error_def)
next
  case (Cons r rs)
  obtain status log1 where W: "WriteBlocks io c r log = (status, log1)" by fastforce
  define c1 where "c1 = (if status \<noteq> 0 then fold UnmarkWriting r c else c)"
  define st1 where "st1 = (if status \<noteq> 0 \<and> st = 0 then status else st)"
  obtain fs where R: "write_runs io rs st1 log1 c1 = (fs, st', log', c')"
    and g: "gs = (if status \<noteq> 0 then map (\<lambda>_. None) r else map Some r) @ fs"
    using Cons.prems W by (auto simp: c1_def st1_def Let_def split: prod.splits if_splits)
  have sz: "bc_block_size c1 = bc_block_size c" by (simp add: c1_def)
  have len: "length log1 = Suc (length log)" using WriteBlocks_log [of io c r log] W by simp
  from Cons.IH [OF R] obtain fl where
    fl: "c' = fold UnmarkWriting fl c1" "mset fl + mset (kept fs) = mset (concat rs)"
      "set (kept fs) = on_disk io (bc_block_size c) log' (Suc (length log)) rs"
      "st' = (if st1 \<noteq> 0 then st1 else first_error io (bc_block_size c) log' (Suc (length log)))"
    unfolding sz len by blast
  obtain rest where rest: "log' = log1 @ rest" using write_runs_log [of io rs st1 log1 c1] R by auto
  note status = WriteBlocks_status [OF W rest]
  have "length log < length log'" using rest len by simp
  then have fe: "first_error io (bc_block_size c) log' (length log) = (if status = 0
      then first_error io (bc_block_size c) log' (Suc (length log)) else status)"
    using status by (simp add: first_error_def upt_conv_Cons write_error_nonzero)
  have mf: "kept (map Some r @ fs) = r @ kept fs" "kept (map (\<lambda>_. None) r @ fs) = kept fs" by (induction r) simp_all
  have st': "st' = (if st \<noteq> 0 then st else first_error io (bc_block_size c) log' (length log))"
    using fl(4) by (simp add: fe st1_def)
  have "wrote io (bc_block_size c) log' (length log) \<longleftrightarrow> status = 0" using status by (simp add: write_error_nonzero)
  then show ?case using fl(1-3) g mf st' on_disk_Cons [of io "bc_block_size c" log' "length log" r rs]
    by (intro exI [of _ "if status = 0 then fl else r @ fl"]) (auto simp: c1_def ac_simps)
qed

text \<open>\<open>Write\<close> on a writer with blocks.\<close>

lemma block_Write_runs:
  fixes c :: block_cache and w :: block_writer
  assumes "bw_blocks w \<noteq> []"
  defines "bs \<equiv> qsort (CompareBlocks (bc_block c)) (bw_blocks w) (length (bw_blocks w))"
  shows "block_Write io tx w log c =
     (case write_runs io (split_runs (number c) bs) (bw_status w) log c of (gs, st, log, c) \<Rightarrow>
        (st, w\<lparr>bw_blocks := [], bw_status := st, bw_deleted := fst (done_loop tx gs False c)\<rparr>, log, snd (done_loop tx gs False c)))"
  using assms(1) write_loop_runs [of "map Some bs" bs 0 io "bw_status w" log c]
  by (simp add: block_Write_def bs_def [symmetric] Let_def split: prod.splits)

text \<open>
  C6: \<open>BlockWriter::Write\<close> writes every queued block exactly once, in the order of the block numbers: the calls of
  \<open>writev_pos\<close> it makes are those for a division of the sorted queue into runs, each of at least one and at most
  \<open>IOV_MAX\<close> blocks with consecutive numbers, placed at the position of its first block and with the data of its
  blocks, whatever the calls return.
\<close>
theorem block_writer_runs:
  "\<exists>runs. mset (concat runs) = mset (bw_blocks w) \<and> sorted_wrt (\<lambda>a b. number c a \<le> number c b) (concat runs)
     \<and> list_all (is_run (number c)) runs
     \<and> fst (snd (snd (block_Write io tx w log c))) =
         log @ map (\<lambda>r. (number c (hd r) * int (bc_block_size c), map (\<lambda>b. block_Data (bc_block c b)) r)) runs"
proof (cases "bw_blocks w = []")
  case True
  then show ?thesis by (intro exI [of _ "[]"]) (simp add: block_Write_def)
next
  case False
  define bs where "bs = qsort (CompareBlocks (bc_block c)) (bw_blocks w) (length (bw_blocks w))"
  note s = split_runs_correct [of "number c" bs]
  have "fst (snd (snd (block_Write io tx w log c))) = fst (snd (snd (write_runs io (split_runs (number c) bs) (bw_status w) log c)))"
    unfolding block_Write_runs [OF False] bs_def by (simp split: prod.splits)
  then show ?thesis using s qsort_blocks [of "bc_block c" "bw_blocks w"] unfolding write_runs_log
    by (intro exI [of _ "split_runs (number c) bs"]) (simp add: bs_def list_all_iff)
qed

text \<open>The effect of a write, where \<open>runs\<close> are the runs it is divided into.\<close>

definition write_outcome :: "device_io \<Rightarrow> block_writer \<Rightarrow> wlog \<Rightarrow> block_cache \<Rightarrow> block_ptr list list \<Rightarrow> wlog \<Rightarrow> block_cache \<Rightarrow> bool" where
  "write_outcome io w log c runs log' c' \<longleftrightarrow>
     mset (concat runs) = mset (bw_blocks w) \<and> list_all (is_run (number c)) runs
     \<and> log' = log @ map (\<lambda>r. (number c (hd r) * int (bc_block_size c), map (\<lambda>b. block_Data (bc_block c b)) r)) runs
     \<and> (\<forall>b. bc_block c' b = (if b \<in> on_disk io (bc_block_size c) log' (length log) runs then finished (bc_block c b)
          else if b \<in> set (bw_blocks w) then unmarked (bc_block c b) else bc_block c b))
     \<and> bc_busy_writing_count c' = bc_busy_writing_count c - int (length (bw_blocks w))
     \<and> (\<forall>t. ct_busy_writing_count (bc_tx c' t) =
          ct_busy_writing_count (bc_tx c t) - int (length (filter (\<lambda>b. cb_previous (bc_block c b) = Some t) (bw_blocks w))))"

lemma block_Write_effect:
  assumes ne: "bw_blocks w \<noteq> []" and d: "distinct (bw_blocks w)" and W: "block_Write io tx w log c = (st, w', log', c')"
  shows "\<exists>runs. write_outcome io w log c runs log' c' \<and> bw_blocks w' = [] \<and> bw_status w' = st
    \<and> st = (if bw_status w \<noteq> 0 then bw_status w else first_error io (bc_block_size c) log' (length log))"
proof -
  define bs where "bs = qsort (CompareBlocks (bc_block c)) (bw_blocks w) (length (bw_blocks w))"
  define runs where "runs = split_runs (number c) bs"
  have m: "mset bs = mset (bw_blocks w)" using qsort_blocks by (simp add: bs_def)
  have s: "concat runs = bs" "list_all (is_run (number c)) runs"
    using split_runs_correct [of "number c" bs] by (simp_all add: runs_def list_all_iff)
  obtain gs st1 log1 c1 where R: "write_runs io runs (bw_status w) log c = (gs, st1, log1, c1)" by (metis prod_cases4)
  have e: "st = st1" "w' = w\<lparr>bw_blocks := [], bw_status := st1, bw_deleted := fst (done_loop tx gs False c1)\<rparr>"
    "c' = snd (done_loop tx gs False c1)" "log' = log1" using W R unfolding block_Write_runs [OF ne] runs_def bs_def by auto
  have l: "log' = log @ map (\<lambda>r. (number c (hd r) * int (bc_block_size c), map (\<lambda>b. block_Data (bc_block c b)) r)) runs"
    using write_runs_log [of io runs "bw_status w" log c] R e(4) by simp
  from write_runs_split [OF R] obtain fl where
    fl: "c1 = fold UnmarkWriting fl c" "mset fl + mset (kept gs) = mset (bw_blocks w)"
      "set (kept gs) = on_disk io (bc_block_size c) log' (length log) runs"
      "st1 = (if bw_status w \<noteq> 0 then bw_status w else first_error io (bc_block_size c) log' (length log))"
    using m s(1) e(4) by auto
  define ok where "ok = kept gs"
  have dd: "distinct (fl @ ok)" using d fl(2) mset_eq_imp_distinct_iff [of "fl @ ok" "bw_blocks w"] by (simp add: ok_def)
  have st: "set (bw_blocks w) = set fl \<union> set ok" using fl(2) by (metis mset_append ok_def set_append set_mset_mset)
  have len: "length (bw_blocks w) = length fl + length ok" using fl(2) by (metis length_append mset_append ok_def size_mset)
  have flt: "length (filter P (bw_blocks w)) = length (filter P fl) + length (filter P ok)" for P
  proof -
    have "mset (filter P (bw_blocks w)) = mset (filter P (fl @ ok))" using fl(2) by (simp add: ok_def mset_filter flip: filter_union_mset)
    then show ?thesis by (metis filter_append length_append size_mset)
  qed
  note D = done_loop_effect [of gs tx False c1, folded ok_def e(3)]
  have blk: "bc_block c' b = (if b \<in> set ok then finished (bc_block c b) else if b \<in> set (bw_blocks w) then unmarked (bc_block c b) else bc_block c b)" for b
    using D dd st fold_unmark_effect(1) [of fl c b] by (auto simp: fl(1))
  have cnt: "bc_busy_writing_count c' = bc_busy_writing_count c - int (length (bw_blocks w))"
    using D dd len by (simp add: fl(1) fold_unmark_effect(2))
  have tx: "ct_busy_writing_count (bc_tx c' t) =
         ct_busy_writing_count (bc_tx c t) - int (length (filter (\<lambda>b. cb_previous (bc_block c b) = Some t) (bw_blocks w)))" for t
    using D dd flt by (simp add: fl(1) fold_unmark_effect(3))
  have "write_outcome io w log c runs log' c'"
    unfolding write_outcome_def fl(3) [symmetric] ok_def [symmetric]
    using m s l blk cnt tx by (intro conjI allI) simp_all
  then show ?thesis using e(1,2) fl(4) by auto
qed

text \<open>
  C22: What \<open>Write\<close> leaves of its blocks. The queue is divided into runs of consecutive blocks, and \<open>writev_pos\<close> is
  called once for each, in this order. All blocks of a run of which the device wrote every byte (\<open>on_disk\<close>), and no
  others, are done: such a block is no longer busy and no longer belongs to its previous transaction; it is clean when
  its current data were written, its original data are given back when no transaction needs them, and it becomes
  unused when nothing refers to it (\<open>finished\<close>). All blocks of the other runs are only unmarked and stay dirty, so that
  a later writer takes them up again. The result is an earlier error of the writer, or else the error of the first run
  that the device did not write, or else \<open>B_OK\<close>. The counts of busy blocks of the cache and of every transaction go
  down by the number of their queued blocks, other blocks are untouched, and the queue is empty.
\<close>
theorem block_writer_outcome:
  assumes "bw_blocks w \<noteq> []" "distinct (bw_blocks w)" "block_Write io tx w log c = (st, w', log', c')"
  shows "\<exists>runs. mset (concat runs) = mset (bw_blocks w) \<and> list_all (is_run (number c)) runs
    \<and> log' = log @ map (\<lambda>r. (number c (hd r) * int (bc_block_size c), map (\<lambda>b. block_Data (bc_block c b)) r)) runs
    \<and> (\<forall>b. bc_block c' b = (if b \<in> on_disk io (bc_block_size c) log' (length log) runs then finished (bc_block c b)
         else if b \<in> set (bw_blocks w) then unmarked (bc_block c b) else bc_block c b))
    \<and> st = (if bw_status w \<noteq> 0 then bw_status w else first_error io (bc_block_size c) log' (length log)) \<and> bw_blocks w' = []
    \<and> bc_busy_writing_count c' = bc_busy_writing_count c - int (length (bw_blocks w))
    \<and> (\<forall>t. ct_busy_writing_count (bc_tx c' t) =
         ct_busy_writing_count (bc_tx c t) - int (length (filter (\<lambda>b. cb_previous (bc_block c b) = Some t) (bw_blocks w))))"
  using block_Write_effect [OF assms] unfolding write_outcome_def by blast

definition demo_cache :: block_cache where
  "demo_cache = \<lparr>bc_block = (\<lambda>b. \<lparr>cb_number = int b, cb_current = b, cb_original = None, cb_parent = None, cb_ref_count = 0, cb_busy_reading = False,
       cb_busy_writing = True, cb_is_writing = False, cb_is_dirty = True, cb_unused = False, cb_waiters = False,
       cb_transaction = None, cb_previous = Some 1\<rparr>),
     bc_tx = (\<lambda>_. \<lparr>ct_num_blocks = 1, ct_blocks = [7], ct_busy_writing_count = 1\<rparr>), bc_block_size = 512, bc_hash = {1, 2},
     bc_last_transaction = None, bc_unused = [], bc_unused_count = 0, bc_busy_writing_count = 1, bc_waiters = False, bc_num_dirty = 1,
     bc_freed = [], bc_written = [], bc_deleted = [], bc_notified = 0\<rparr>"

text \<open>A device on which every write succeeds, for blocks of 512 bytes.\<close>

definition demo_io :: device_io where "demo_io log pos vecs = (512 * int (length vecs), 0)"

text \<open>A device that writes only the first run it is given, in blocks of 512 bytes, and fails afterwards.\<close>

definition flaky_io :: device_io where
  "flaky_io log pos vecs = (if log = [] then (512 * int (length vecs), 0) else (-1, 5))"

theorem block_writer_outcome_witness:
  "\<exists>st w' log' c'. block_Write flaky_io None (BlockWriter 9\<lparr>bw_blocks := [7]\<rparr>) [(0, [])] demo_cache = (st, w', log', c')
    \<and> st = 5 \<and> bc_block c' 7 = unmarked (bc_block demo_cache 7) \<and> bc_busy_writing_count c' = 0"
proof -
  let ?w = "BlockWriter 9\<lparr>bw_blocks := [7]\<rparr>"
  obtain st w' log' c' where W: "block_Write flaky_io None ?w [(0, [])] demo_cache = (st, w', log', c')" by (metis prod_cases4)
  have q: "bw_blocks ?w = [7]" "bw_status ?w = 0" "bw_blocks ?w \<noteq> []" "distinct (bw_blocks ?w)" by (simp_all add: BlockWriter_def)
  from block_writer_outcome [OF q(3,4) W] obtain runs where
    r: "mset (concat runs) = mset (bw_blocks ?w)" "list_all (is_run (number demo_cache)) runs"
      "log' = [(0, [])] @ map (\<lambda>r. (number demo_cache (hd r) * int (bc_block_size demo_cache), map (\<lambda>b. block_Data (bc_block demo_cache b)) r)) runs"
      "\<forall>b. bc_block c' b = (if b \<in> on_disk flaky_io (bc_block_size demo_cache) log' (length [(0 :: int, [] :: nat list)]) runs then finished (bc_block demo_cache b)
         else if b \<in> set (bw_blocks ?w) then unmarked (bc_block demo_cache b) else bc_block demo_cache b)"
      "st = (if bw_status ?w \<noteq> 0 then bw_status ?w else first_error flaky_io (bc_block_size demo_cache) log' (length [(0 :: int, [] :: nat list)]))"
      "bc_busy_writing_count c' = bc_busy_writing_count demo_cache - int (length (bw_blocks ?w))"
    by (elim exE conjE) (rule that)
  have "runs = [[7]]"
  proof (cases runs)
    case (Cons x xs)
    have "mset (x @ concat xs) = {#7#}" using r(1) q(1) Cons by simp
    then have "x @ concat xs = [7]" by (simp only: mset_single_iff)
    moreover have "x \<noteq> []" "\<forall>y\<in>set xs. y \<noteq> []" using r(2) Cons by (auto simp: is_run_def list_all_iff)
    ultimately have "x \<noteq> []" "\<forall>y\<in>set xs. y \<noteq> []" "x @ concat xs = [7]" by blast+
    then show ?thesis using Cons by (cases x; cases xs) auto
  qed (use r(1) q in simp)
  then have l: "log' = [(0, []), (3584, [7])]" using r(3) by (simp add: demo_cache_def block_Data_def)
  have nw: "\<not> wrote flaky_io 512 log' (Suc 0)" by (simp add: l wrote_def flaky_io_def)
  then have "st = 5" using r(5) q(2) by (simp add: first_error_def l demo_cache_def write_error_def flaky_io_def)
  moreover have "bc_block c' 7 = unmarked (bc_block demo_cache 7)"
    using spec [OF r(4), of 7] nw q(1) \<open>runs = [[7]]\<close> by (simp add: on_disk_def demo_cache_def)
  moreover have "bc_busy_writing_count c' = 0" using r(6) unfolding q by (simp add: demo_cache_def)
  ultimately show ?thesis using W by blast
qed

subsection \<open>A writer over its life\<close>

text \<open>The calls a client makes on a writer. A call of \<open>Add\<close> for a block that cannot be written fails an assertion: the
  run stops with \<open>None\<close>.\<close>

datatype wop = OAdd block_ptr bool "transaction_ptr option" | OWrite "transaction_ptr option"

fun writer_op :: "device_io \<Rightarrow> wop \<Rightarrow> block_writer \<times> wlog \<times> block_cache \<Rightarrow> (block_writer \<times> wlog \<times> block_cache) option" where
  "writer_op io (OAdd b alloc tx) (w, log, c) =
     (if CanBeWritten (bc_block c b) then Some (snd (block_Add io alloc b tx w log c)) else None)"
| "writer_op io (OWrite tx) (w, log, c) = Some (snd (block_Write io tx w log c))"

fun writer_run :: "device_io \<Rightarrow> wop list \<Rightarrow> block_writer \<times> wlog \<times> block_cache \<Rightarrow> (block_writer \<times> wlog \<times> block_cache) option" where
  "writer_run io [] s = Some s"
| "writer_run io (p # ps) s = Option.bind (writer_op io p s) (writer_run io ps)"

definition queued_of :: "transaction_ptr \<Rightarrow> block_writer \<Rightarrow> block_cache \<Rightarrow> int" where
  "queued_of t w c = int (length (filter (\<lambda>b. cb_previous (bc_block c b) = Some t) (bw_blocks w)))"

definition writer_inv :: "nat \<Rightarrow> int \<Rightarrow> (transaction_ptr \<Rightarrow> int) \<Rightarrow> block_writer \<times> wlog \<times> block_cache \<Rightarrow> bool" where
  "writer_inv mx n N = (\<lambda>(w, log, c).
     distinct (bw_blocks w) \<and> (\<forall>b\<in>set (bw_blocks w). cb_busy_writing (bc_block c b))
     \<and> length (bw_blocks w) \<le> bw_capacity w \<and> kBufferSize \<le> bw_capacity w \<and> bw_max w = mx \<and> bw_total w \<le> mx
     \<and> bc_busy_writing_count c = n + int (length (bw_blocks w))
     \<and> (\<forall>t. ct_busy_writing_count (bc_tx c t) = N t + queued_of t w c))"

lemma block_Write_frame:
  "block_Write io tx w log c = (st, w', log', c') \<Longrightarrow>
     bw_capacity w' = bw_capacity w \<and> bw_total w' = bw_total w \<and> bw_max w' = bw_max w \<and> bw_blocks w' = []"
  by (auto simp: block_Write_def Let_def split: if_splits prod.splits)

lemma writer_inv_Write:
  assumes inv: "writer_inv mx n N (w, log, c)" and W: "block_Write io tx w log c = (st, w', log', c')"
  shows "writer_inv mx n N (w', log', c') \<and> (\<forall>b. b \<notin> set (bw_blocks w) \<longrightarrow> bc_block c' b = bc_block c b)"
proof (cases "bw_blocks w = []")
  case True
  then show ?thesis using W inv by (simp add: block_Write_def)
next
  case False
  have d: "distinct (bw_blocks w)" using inv by (simp add: writer_inv_def)
  from block_Write_effect [OF False d W] inv block_Write_frame [OF W] show ?thesis
    by (auto simp: writer_inv_def queued_of_def write_outcome_def dest: on_disk_blocks)
qed

lemma writer_inv_push:
  assumes inv: "writer_inv mx n N (w, log, c)" and b: "\<not> cb_busy_writing (bc_block c b)"
    and cap: "length (bw_blocks w) < bw_capacity w" "bw_total w < bw_max w"
    and w': "w' = w\<lparr>bw_blocks := bw_blocks w @ [b], bw_total := bw_total w + 1\<rparr>"
    and c': "c' = tx_busy 1 (cb_previous (bc_block c b)) ((upd_block b (\<lambda>x. x\<lparr>cb_busy_writing := True\<rparr>) c)
      \<lparr>bc_busy_writing_count := bc_busy_writing_count c + 1\<rparr>)"
  shows "writer_inv mx n N (w', log, c')"
proof -
  have blk: "bc_block c' = (bc_block c)(b := (bc_block c b)\<lparr>cb_busy_writing := True\<rparr>)"
    and cnt: "bc_busy_writing_count c' = bc_busy_writing_count c + 1"
    and tx: "ct_busy_writing_count (bc_tx c' t) = ct_busy_writing_count (bc_tx c t) + of_bool (cb_previous (bc_block c b) = Some t)" for t
    by (auto simp: c' tx_busy_def split: option.splits)
  have nin: "b \<notin> set (bw_blocks w)" using inv b by (auto simp: writer_inv_def)
  have prev: "cb_previous (bc_block c' x) = cb_previous (bc_block c x)" for x by (simp add: blk)
  have "queued_of t w' c' = queued_of t w c + of_bool (cb_previous (bc_block c b) = Some t)" for t
    by (simp add: queued_of_def prev w')
  then show ?thesis using inv nin cap cnt tx by (auto simp: writer_inv_def w' blk)
qed

lemma writer_inv_Add:
  assumes inv: "writer_inv mx n N (w, log, c)" and b: "CanBeWritten (bc_block c b)"
  shows "writer_inv mx n N (snd (block_Add io alloc b tx w log c))"
proof (cases "bw_total w = bw_max w")
  case True
  then show ?thesis using inv by (simp add: block_Add_def)
next
  case False
  have tot: "bw_total w < bw_max w" using inv False by (simp add: writer_inv_def)
  have nb: "\<not> cb_busy_writing (bc_block c b)" using b by (simp add: CanBeWritten_def)
  then have nin: "b \<notin> set (bw_blocks w)" using inv by (auto simp: writer_inv_def)
  obtain w1 log1 c1 where s: "(w1, log1, c1) = (if bw_capacity w \<le> length (bw_blocks w)
      then if alloc then (w\<lparr>bw_capacity := max 256 (bw_capacity w * 2), bw_heap := True\<rparr>, log, c) else snd (block_Write io tx w log c)
      else (w, log, c))" by (metis prod_cases3)
  have "writer_inv mx n N (w1, log1, c1) \<and> length (bw_blocks w1) < bw_capacity w1 \<and> bw_total w1 < bw_max w1 \<and> bc_block c1 b = bc_block c b"
  proof (cases "bw_capacity w \<le> length (bw_blocks w) \<and> \<not> alloc")
    case True
    obtain st where W: "block_Write io tx w log c = (st, w1, log1, c1)" using s True by (metis prod.collapse)
    show ?thesis using writer_inv_Write [OF inv W] block_Write_frame [OF W] tot nin inv
      by (auto simp: writer_inv_def kBufferSize_def)
  next
    case F: False
    then show ?thesis using s inv tot by (auto simp: writer_inv_def queued_of_def kBufferSize_def split: if_splits)
  qed
  then have i: "writer_inv mx n N (w1, log1, c1)" "length (bw_blocks w1) < bw_capacity w1" "bw_total w1 < bw_max w1" "bc_block c1 b = bc_block c b"
    by blast+
  have e: "snd (block_Add io alloc b tx w log c) = (w1\<lparr>bw_blocks := bw_blocks w1 @ [b], bw_total := bw_total w1 + 1\<rparr>, log1,
      tx_busy 1 (cb_previous (bc_block c1 b)) ((upd_block b (\<lambda>x. x\<lparr>cb_busy_writing := True\<rparr>) c1)\<lparr>bc_busy_writing_count := bc_busy_writing_count c1 + 1\<rparr>))"
    unfolding block_Add_def s [symmetric] using False by (simp add: Let_def)
  show ?thesis unfolding e by (rule writer_inv_push [OF i(1) _ i(2,3) refl refl]) (use nb i(4) in simp)
qed

lemma writer_run_inv: "writer_inv mx n N s \<Longrightarrow> writer_run io ps s = Some s' \<Longrightarrow> writer_inv mx n N s'"
proof (induction ps arbitrary: s)
  case (Cons p ps)
  obtain w log c where s: "s = (w, log, c)" by (cases s)
  from Cons.prems(2) obtain s1 where p: "writer_op io p s = Some s1" "writer_run io ps s1 = Some s'" by (auto split: bind_splits)
  have "writer_inv mx n N s1"
  proof (cases p)
    case (OAdd b alloc tx)
    then show ?thesis using p(1) writer_inv_Add Cons.prems(1) by (auto simp: s split: if_splits)
  next
    case (OWrite tx)
    obtain st w' log' c' where W: "block_Write io tx w log c = (st, w', log', c')" by (metis prod_cases4)
    then show ?thesis using p(1) writer_inv_Write [OF _ W] Cons.prems(1) OWrite by (auto simp: s)
  qed
  then show ?case using Cons.IH p(2) by blast
qed simp

text \<open>
  C23: Over every sequence of calls of \<open>Add\<close> and \<open>Write\<close> on a fresh writer, with any results of the allocations and of
  the device: no block is queued twice, every queued block is marked busy, the array is never written past its
  capacity, the limit of the writer is kept, and the counts of busy blocks of the cache and of each transaction are
  those of before plus the blocks that are queued at the moment. After a \<open>Write\<close> the counts are back where they were.
\<close>
theorem block_writer_balanced:
  assumes "writer_run io ps (BlockWriter mx, log, c) = Some (w, log', c')"
  shows "distinct (bw_blocks w) \<and> (\<forall>b\<in>set (bw_blocks w). cb_busy_writing (bc_block c' b))
     \<and> length (bw_blocks w) \<le> bw_capacity w \<and> bw_total w \<le> mx
     \<and> bc_busy_writing_count c' = bc_busy_writing_count c + int (length (bw_blocks w))
     \<and> (\<forall>t. ct_busy_writing_count (bc_tx c' t) = ct_busy_writing_count (bc_tx c t) + queued_of t w c')
     \<and> bc_busy_writing_count (snd (snd (snd (block_Write io tx w log' c')))) = bc_busy_writing_count c"
proof -
  have "writer_inv mx (bc_busy_writing_count c) (\<lambda>t. ct_busy_writing_count (bc_tx c t)) (BlockWriter mx, log, c)"
    by (simp add: writer_inv_def BlockWriter_def queued_of_def)
  from writer_run_inv [OF this assms] have inv: "writer_inv mx (bc_busy_writing_count c) (\<lambda>t. ct_busy_writing_count (bc_tx c t)) (w, log', c')" .
  obtain st w2 log2 c2 where W: "block_Write io tx w log' c' = (st, w2, log2, c2)" by (metis prod_cases4)
  have "bc_busy_writing_count c2 = bc_busy_writing_count c"
    using writer_inv_Write [OF inv W] block_Write_frame [OF W] by (simp add: writer_inv_def)
  then show ?thesis using inv W by (simp add: writer_inv_def)
qed


theorem block_writer_balanced_witness:
  "\<exists>w log' c'. writer_run demo_io [OAdd 7 True None] (BlockWriter 9, [], demo_cache\<lparr>bc_block := (\<lambda>b. unmarked (bc_block demo_cache b)), bc_busy_writing_count := 0\<rparr>)
      = Some (w, log', c') \<and> bw_blocks w = [7] \<and> bc_busy_writing_count c' = 1
      \<and> bc_busy_writing_count (snd (snd (snd (block_Write demo_io None w log' c')))) = 0"
proof -
  let ?c = "demo_cache\<lparr>bc_block := (\<lambda>b. unmarked (bc_block demo_cache b)), bc_busy_writing_count := 0\<rparr>"
  have cw: "CanBeWritten (bc_block ?c 7)" by (simp add: CanBeWritten_def demo_cache_def unmarked_def)
  obtain w log' c' where r: "snd (block_Add demo_io True 7 None (BlockWriter 9) [] ?c) = (w, log', c')" by (metis prod_cases3)
  then have b: "bw_blocks w = [7]" by (auto simp: block_Add_def BlockWriter_def kBufferSize_def Let_def)
  have run: "writer_run demo_io [OAdd 7 True None] (BlockWriter 9, [], ?c) = Some (w, log', c')" using cw r by simp
  from block_writer_balanced [OF run, of None] b have "bc_busy_writing_count c' = 1"
    "bc_busy_writing_count (snd (snd (snd (block_Write demo_io None w log' c')))) = 0" by simp_all
  with run b show ?thesis by blast
qed

subsection \<open>A synchronous write during an addition\<close>

text \<open>\<open>Add\<close> of a transaction whose blocks fit into the array only queues them.\<close>

lemma block_Add_fits:
  assumes "bw_total w \<noteq> bw_max w" "length (bw_blocks w) < bw_capacity w"
  shows "block_Add io alloc b tx w log c = (True, w\<lparr>bw_blocks := bw_blocks w @ [b], bw_total := bw_total w + 1\<rparr>, log,
    tx_busy 1 (cb_previous (bc_block c b)) ((upd_block b (\<lambda>x. x\<lparr>cb_busy_writing := True\<rparr>) c)\<lparr>bc_busy_writing_count := bc_busy_writing_count c + 1\<rparr>))"
  using assms by (simp add: block_Add_def Let_def)

lemma tx_busy_frame [simp]:
  "bc_block (tx_busy d p c) = bc_block c" "bc_hash (tx_busy d p c) = bc_hash c" "bc_deleted (tx_busy d p c) = bc_deleted c"
  "bc_block_size (tx_busy d p c) = bc_block_size c" "ct_num_blocks (bc_tx (tx_busy d p c) t) = ct_num_blocks (bc_tx c t)"
  "ct_blocks (bc_tx (tx_busy d p c) t) = ct_blocks (bc_tx c t)"
  "p \<noteq> Some t \<Longrightarrow> bc_tx (tx_busy d p c) t = bc_tx c t"
  by (auto simp: tx_busy_def split: option.splits)

lemma add_loop_fits:
  "distinct bs \<Longrightarrow> \<forall>b\<in>set bs. CanBeWritten (bc_block c b) \<and> cb_previous (bc_block c b) = Some p \<Longrightarrow> \<not> bw_deleted w \<Longrightarrow>
   length (bw_blocks w) + length bs \<le> bw_capacity w \<Longrightarrow> bw_total w + length bs < bw_max w \<Longrightarrow>
   \<exists>c'. add_loop io as bs q left w log c = (True, left, w\<lparr>bw_blocks := bw_blocks w @ bs, bw_total := bw_total w + length bs\<rparr>, log, c')
     \<and> (\<forall>b. bc_block c' b = (if b \<in> set bs then (bc_block c b)\<lparr>cb_busy_writing := True\<rparr> else bc_block c b))
     \<and> bc_hash c' = bc_hash c \<and> bc_deleted c' = bc_deleted c \<and> bc_block_size c' = bc_block_size c
     \<and> (\<forall>t. ct_num_blocks (bc_tx c' t) = ct_num_blocks (bc_tx c t)) \<and> (\<forall>t. t \<noteq> p \<longrightarrow> bc_tx c' t = bc_tx c t)"
proof (induction bs arbitrary: as w c)
  case Nil
  then show ?case by (intro exI [of _ c]) simp
next
  case (Cons b bs)
  define w1 where "w1 = w\<lparr>bw_blocks := bw_blocks w @ [b], bw_total := bw_total w + 1\<rparr>"
  define c1 where "c1 = tx_busy 1 (cb_previous (bc_block c b)) ((upd_block b (\<lambda>x. x\<lparr>cb_busy_writing := True\<rparr>) c)
      \<lparr>bc_busy_writing_count := bc_busy_writing_count c + 1\<rparr>)"
  have A: "block_Add io (as \<noteq> [] \<and> hd as) b (Some q) w log c = (True, w1, log, c1)"
    using Cons.prems block_Add_fits [of w io "as \<noteq> [] \<and> hd as" b "Some q" log c] by (simp add: w1_def c1_def)
  have blk: "bc_block c1 = (bc_block c)(b := (bc_block c b)\<lparr>cb_busy_writing := True\<rparr>)" by (simp add: c1_def)
  have "\<forall>x\<in>set bs. CanBeWritten (bc_block c1 x) \<and> cb_previous (bc_block c1 x) = Some p"
  proof
    fix x assume x: "x \<in> set bs"
    then have "x \<noteq> b" using Cons.prems(1) by auto
    then show "CanBeWritten (bc_block c1 x) \<and> cb_previous (bc_block c1 x) = Some p" using Cons.prems(2) x by (simp add: blk)
  qed
  then obtain c' where c': "add_loop io (tl as) bs q left w1 log c1 = (True, left, w1\<lparr>bw_blocks := bw_blocks w1 @ bs, bw_total := bw_total w1 + length bs\<rparr>, log, c')"
    "\<forall>x. bc_block c' x = (if x \<in> set bs then (bc_block c1 x)\<lparr>cb_busy_writing := True\<rparr> else bc_block c1 x)"
    "bc_hash c' = bc_hash c1" "bc_deleted c' = bc_deleted c1" "bc_block_size c' = bc_block_size c1"
    "\<forall>t. ct_num_blocks (bc_tx c' t) = ct_num_blocks (bc_tx c1 t)" "\<forall>t. t \<noteq> p \<longrightarrow> bc_tx c' t = bc_tx c1 t"
    using Cons.IH [of c1 w1 "tl as"] Cons.prems by (auto simp: w1_def)
  have L: "add_loop io as (b # bs) q left w log c = add_loop io (tl as) bs q left w1 log c1"
    using A Cons.prems(2,3) by (simp add: w1_def)
  show ?case unfolding L c'(1) using c'(2-) Cons.prems(1,2) by (intro exI [of _ c']) (auto simp: w1_def blk c1_def)
qed

text \<open>On a device that writes everything, \<open>Write\<close> is done with all its blocks.\<close>

lemma write_runs_all:
  assumes "\<And>log pos vecs. fst (io log pos vecs) = int (bc_block_size c * length vecs)"
  shows "\<exists>log'. write_runs io rs st log c = (map Some (concat rs), st, log', c)"
proof (induction rs arbitrary: log)
  case (Cons r rs)
  have "fst (WriteBlocks io c r log) = 0" using assms by (auto simp: WriteBlocks_def Let_def split: prod.splits) (metis fst_conv length_map)+
  then obtain log1 where "WriteBlocks io c r log = (0, log1)" by (metis prod.collapse)
  then show ?case using Cons.IH [of log1] by (auto simp: Let_def)
qed simp

text \<open>The last block of its previous transaction finishes it.\<close>

lemma release_previous_count:
  "bc_hash (snd (release_previous b tx prev c)) =
     (if ct_num_blocks (bc_tx c prev) = 1 then bc_hash c - {case tx of Some t \<Rightarrow> t | None \<Rightarrow> prev} else bc_hash c)"
  "bc_deleted (snd (release_previous b tx prev c)) = bc_deleted c @ (if ct_num_blocks (bc_tx c prev) = 1 then [prev] else [])"
  "fst (release_previous b tx prev c) \<longleftrightarrow> ct_num_blocks (bc_tx c prev) = 1"
  "ct_num_blocks (bc_tx (snd (release_previous b tx prev c)) prev) = ct_num_blocks (bc_tx c prev) - 1"
  by (auto simp: release_previous_def finish_transaction_def Let_def)

lemma BlockDone_count:
  assumes "cb_previous (bc_block c b) = Some prev"
  shows "bc_hash (snd (BlockDone (Some b) tx c)) =
     (if ct_num_blocks (bc_tx c prev) = 1 then bc_hash c - {case tx of Some t \<Rightarrow> t | None \<Rightarrow> prev} else bc_hash c)"
    "bc_deleted (snd (BlockDone (Some b) tx c)) = bc_deleted c @ (if ct_num_blocks (bc_tx c prev) = 1 then [prev] else [])"
    "fst (BlockDone (Some b) tx c) \<longleftrightarrow> ct_num_blocks (bc_tx c prev) = 1"
    "ct_num_blocks (bc_tx (snd (BlockDone (Some b) tx c)) prev) = ct_num_blocks (bc_tx c prev) - 1"
proof -
  have d: "ct_num_blocks (bc_tx (done_start b c) prev) = ct_num_blocks (bc_tx c prev)" "bc_hash (done_start b c) = bc_hash c"
    "bc_deleted (done_start b c) = bc_deleted c" by (auto simp: done_start_def Let_def UnmarkWriting_tx)
  have m: "bc_hash (mark_unused b x) = bc_hash x" "bc_deleted (mark_unused b x) = bc_deleted x" "bc_tx (mark_unused b x) = bc_tx x" for x
    by (simp_all add: mark_unused_def)
  note r = release_previous_count [where c = "done_start b c" and b = b and tx = tx and prev = prev, unfolded d]
  show "bc_hash (snd (BlockDone (Some b) tx c)) =
     (if ct_num_blocks (bc_tx c prev) = 1 then bc_hash c - {case tx of Some t \<Rightarrow> t | None \<Rightarrow> prev} else bc_hash c)"
    using r(1) by (simp add: BlockDone_def' assms m split_beta)
  show "bc_deleted (snd (BlockDone (Some b) tx c)) = bc_deleted c @ (if ct_num_blocks (bc_tx c prev) = 1 then [prev] else [])"
    using r(2) by (simp add: BlockDone_def' assms m split_beta)
  show "fst (BlockDone (Some b) tx c) \<longleftrightarrow> ct_num_blocks (bc_tx c prev) = 1"
    using r(3) by (simp add: BlockDone_def' assms split_beta)
  show "ct_num_blocks (bc_tx (snd (BlockDone (Some b) tx c)) prev) = ct_num_blocks (bc_tx c prev) - 1"
    using r(4) by (simp add: BlockDone_def' assms m split_beta)
qed

lemma done_loop_last:
  "distinct bs \<Longrightarrow> bs \<noteq> [] \<Longrightarrow> \<forall>b\<in>set bs. cb_previous (bc_block c b) = Some prev \<Longrightarrow> ct_num_blocks (bc_tx c prev) = int (length bs) \<Longrightarrow>
   fst (done_loop (Some t) (map Some bs) del c) \<and> bc_hash (snd (done_loop (Some t) (map Some bs) del c)) = bc_hash c - {t}
     \<and> prev \<in> set (bc_deleted (snd (done_loop (Some t) (map Some bs) del c)))"
proof (induction bs arbitrary: del c)
  case (Cons b bs)
  obtain d c1 where B: "BlockDone (Some b) (Some t) c = (d, c1)" by fastforce
  have p: "cb_previous (bc_block c b) = Some prev" using Cons.prems(3) by simp
  note r = BlockDone_count [OF p, of "Some t", unfolded B, simplified]
  have L: "done_loop (Some t) (map Some (b # bs)) del c = done_loop (Some t) (map Some bs) (del \<or> d) c1" using B by simp
  show ?case
  proof (cases "bs = []")
    case True
    then show ?thesis unfolding L using r Cons.prems(4) by simp
  next
    case False
    have "bc_block c1 = (bc_block c)(b := finished (bc_block c b))" using BlockDone_Some(1) [of b "Some t" c] B by simp
    then have "\<forall>x\<in>set bs. cb_previous (bc_block c1 x) = Some prev" using Cons.prems(1,3) by auto
    moreover have "ct_num_blocks (bc_tx c1 prev) = int (length bs)" using r(4) Cons.prems(4) by simp
    moreover have "bc_hash c1 = bc_hash c" using r(1) False Cons.prems(4) by simp
    ultimately show ?thesis unfolding L using Cons.IH [of c1 "del \<or> d"] False Cons.prems(1) by simp
  qed
qed simp

lemma block_Write_last:
  assumes io: "\<And>log pos vecs. fst (io log pos vecs) = int (bc_block_size c * length vecs)"
    and bs: "distinct (bw_blocks w)" "bw_blocks w \<noteq> []" "\<forall>b\<in>set (bw_blocks w). cb_previous (bc_block c b) = Some prev"
      "ct_num_blocks (bc_tx c prev) = int (length (bw_blocks w))"
  shows "\<exists>log' c'. block_Write io (Some t) w log c = (bw_status w, w\<lparr>bw_blocks := [], bw_deleted := True\<rparr>, log', c')
    \<and> bc_hash c' = bc_hash c - {t} \<and> prev \<in> set (bc_deleted c')"
proof -
  define qs where "qs = qsort (CompareBlocks (bc_block c)) (bw_blocks w) (length (bw_blocks w))"
  have m: "mset qs = mset (bw_blocks w)" using qsort_blocks by (simp add: qs_def)
  have q: "distinct qs" "qs \<noteq> []" "set qs = set (bw_blocks w)" "length qs = length (bw_blocks w)"
    using m bs(1,2) mset_eq_imp_distinct_iff [OF m] mset_eq_setD [OF m] mset_eq_length [OF m] by auto
  have cc: "concat (split_runs (number c) qs) = qs" using split_runs_correct by blast
  have "\<exists>log'. write_runs io (split_runs (number c) qs) (bw_status w) log c
      = (map Some (concat (split_runs (number c) qs)), bw_status w, log', c)" by (rule write_runs_all) (rule io)
  then obtain log' where R: "write_runs io (split_runs (number c) qs) (bw_status w) log c = (map Some qs, bw_status w, log', c)"
    unfolding cc by (rule exE)
  have "block_Write io (Some t) w log c = (bw_status w, w\<lparr>bw_blocks := [], bw_deleted := fst (done_loop (Some t) (map Some qs) False c)\<rparr>, log',
      snd (done_loop (Some t) (map Some qs) False c))"
    unfolding block_Write_runs [OF bs(2)] qs_def [symmetric] R by simp
  moreover note done_loop_last [of qs c prev t False]
  ultimately show ?thesis using q bs(3,4) by simp
qed

text \<open>
  C40: A writer takes the wrong transaction out of the hash table. A fresh writer adds a closed transaction \<open>p\<close> whose
  blocks just fill its array, and then another one \<open>t\<close>; the array cannot be enlarged, so that \<open>Add\<close> writes back what
  is queued, on a device that writes everything. This finishes \<open>p\<close>, which is deleted, and stays in the hash table;
  \<open>t\<close>, whose block has just been queued, is lost from it.
\<close>
theorem block_add_wrong_transaction:
  assumes p: "ct_busy_writing_count (bc_tx c p) = 0" "ct_num_blocks (bc_tx c p) = int kBufferSize"
      "distinct (ct_blocks (bc_tx c p))" "length (ct_blocks (bc_tx c p)) = kBufferSize"
      "\<forall>x\<in>set (ct_blocks (bc_tx c p)). CanBeWritten (bc_block c x) \<and> cb_previous (bc_block c x) = Some p"
    and t: "t \<noteq> p" "ct_busy_writing_count (bc_tx c t) = 0" "ct_blocks (bc_tx c t) = b # bs"
      "b \<notin> set (ct_blocks (bc_tx c p))" "CanBeWritten (bc_block c b)"
    and h: "p \<in> bc_hash c" "kBufferSize < mx"
    and io: "\<forall>log pos vecs. fst (io log pos vecs) = int (bc_block_size c * length vecs)"
  shows "\<exists>w1 log1 c1 w2 log2 c2. block_Add_transaction io [] p (BlockWriter mx) log c = (True, False, w1, log1, c1)
    \<and> block_Add_transaction io [False] t w1 log1 c1 = (True, False, w2, log2, c2)
    \<and> bw_blocks w2 = [b] \<and> p \<in> set (bc_deleted c2) \<and> p \<in> bc_hash c2 \<and> t \<notin> bc_hash c2"
proof -
  define ps where "ps = ct_blocks (bc_tx c p)"
  define w1 where "w1 = (BlockWriter mx)\<lparr>bw_blocks := ps, bw_total := kBufferSize\<rparr>"
  obtain c1 where c1: "add_loop io [] ps p False (BlockWriter mx) log c = (True, False, w1, log, c1)"
    "\<forall>x. bc_block c1 x = (if x \<in> set ps then (bc_block c x)\<lparr>cb_busy_writing := True\<rparr> else bc_block c x)"
    "bc_hash c1 = bc_hash c" "bc_block_size c1 = bc_block_size c"
    "\<forall>t. ct_num_blocks (bc_tx c1 t) = ct_num_blocks (bc_tx c t)" "bc_tx c1 t = bc_tx c t"
    using add_loop_fits [of ps c p "BlockWriter mx" io "[]" p False log] p h(2) t(1)
    by (auto simp: ps_def BlockWriter_def w1_def)
  have 1: "block_Add_transaction io [] p (BlockWriter mx) log c = (True, False, w1, log, c1)"
    using c1(1) p(1) by (simp add: block_Add_transaction_def ps_def)
  have "ps \<noteq> []" using p(4) by (auto simp: ps_def kBufferSize_def)
  then obtain log2 c2 where W: "block_Write io (Some t) w1 log c1 = (bw_status w1, w1\<lparr>bw_blocks := [], bw_deleted := True\<rparr>, log2, c2)"
    "bc_hash c2 = bc_hash c - {t}" "p \<in> set (bc_deleted c2)"
    using block_Write_last [of io c1 w1 p t log] io c1(2-5) p by (auto simp: w1_def ps_def)
  define c3 where "c3 = tx_busy 1 (cb_previous (bc_block c2 b)) ((upd_block b (\<lambda>x. x\<lparr>cb_busy_writing := True\<rparr>) c2)
      \<lparr>bc_busy_writing_count := bc_busy_writing_count c2 + 1\<rparr>)"
  define w2 where "w2 = w1\<lparr>bw_blocks := [b], bw_deleted := True, bw_total := bw_total w1 + 1\<rparr>"
  have full: "bw_capacity w1 \<le> length (bw_blocks w1)" "bw_total w1 \<noteq> bw_max w1"
    using p(4) h(2) by (simp_all add: w1_def BlockWriter_def ps_def)
  have A: "block_Add io False b (Some t) w1 log c1 = (True, w2, log2, c3)"
    using full W(1) by (simp add: block_Add_def Let_def w2_def c3_def)
  have "CanBeWritten (bc_block c1 b)" using c1(2) t(4,5) by (simp add: ps_def)
  then have 2: "block_Add_transaction io [False] t w1 log c1 = (True, False, w2, log2, c3)"
    using t(2,3) c1(6) A by (simp add: block_Add_transaction_def w2_def)
  have "bw_blocks w2 = [b]" "p \<in> set (bc_deleted c3)" "p \<in> bc_hash c3" "t \<notin> bc_hash c3"
    using W(2,3) h(1) t(1) by (simp_all add: w2_def c3_def)
  with 1 2 show ?thesis by blast
qed

text \<open>A cache of two transactions: the blocks 0 to 63 are dirty and belong to the first, block 64 to the second.\<close>

definition two_transactions :: block_cache where
  "two_transactions = demo_cache\<lparr>
     bc_block := (\<lambda>b. (bc_block demo_cache b)\<lparr>cb_busy_writing := False, cb_previous := Some (if b < 64 then 1 else 2)\<rparr>),
     bc_tx := (\<lambda>t. if t = 1 then \<lparr>ct_num_blocks = 64, ct_blocks = [0..<64], ct_busy_writing_count = 0\<rparr>
                 else \<lparr>ct_num_blocks = 1, ct_blocks = [64], ct_busy_writing_count = 0\<rparr>)\<rparr>"

theorem block_add_wrong_transaction_witness:
  "\<exists>w1 log1 c1 w2 log2 c2. block_Add_transaction demo_io [] 1 (BlockWriter 99) [] two_transactions = (True, False, w1, log1, c1)
    \<and> block_Add_transaction demo_io [False] 2 w1 log1 c1 = (True, False, w2, log2, c2)
    \<and> bw_blocks w2 = [64] \<and> 1 \<in> set (bc_deleted c2) \<and> 1 \<in> bc_hash c2 \<and> 2 \<notin> bc_hash c2 \<and> 2 \<in> bc_hash two_transactions"
proof -
  have "2 \<in> bc_hash two_transactions" by (simp add: two_transactions_def demo_cache_def)
  moreover have "\<exists>w1 log1 c1 w2 log2 c2. block_Add_transaction demo_io [] 1 (BlockWriter 99) [] two_transactions = (True, False, w1, log1, c1)
    \<and> block_Add_transaction demo_io [False] 2 w1 log1 c1 = (True, False, w2, log2, c2)
    \<and> bw_blocks w2 = [64] \<and> 1 \<in> set (bc_deleted c2) \<and> 1 \<in> bc_hash c2 \<and> 2 \<notin> bc_hash c2"
    by (rule block_add_wrong_transaction [of two_transactions 1 2 64 "[]" 99 demo_io])
      (simp_all add: two_transactions_def demo_cache_def demo_io_def kBufferSize_def CanBeWritten_def)
  ultimately show ?thesis by blast
qed

end
