(* ===== verification/Kernel_Waiters.thy ===== *)
theory Kernel_Waiters
  imports Prelude
begin

text \<open>
  The waiter queues of the kernel locks, \<open>src/system/kernel/locks/lock.cpp\<close>. A blocked thread queues a
  structure on its own stack, so a waiter is named by its thread. The structures are linked through \<open>next\<close>; the
  field \<open>last\<close> is only kept for the first structure of a queue and points at the last one. \<open>mutex_waiter\<close> and
  \<open>rw_lock_waiter\<close> are linked by the same statements, but a timed out waiter is taken out by two different loops:
  that of the mutex stops at the end of the list, that of the rw lock does not. The locale \<open>waiter_queue\<close> is what
  the locks rely on; it is interpreted for both.
\<close>

type_synonym thread_id = nat

record waiter =
  w_next :: "thread_id option"
  w_last :: "thread_id option"

record waitq =
  wq_first :: "thread_id option"
  wq_node :: "thread_id \<Rightarrow> waiter"

definition wq_init :: waitq where
  "wq_init = \<lparr>wq_first = None, wq_node = (\<lambda>_. \<lparr>w_next = None, w_last = None\<rparr>)\<rparr>"

definition set_next :: "waitq \<Rightarrow> thread_id \<Rightarrow> thread_id option \<Rightarrow> waitq" where
  "set_next q t p = q\<lparr>wq_node := (wq_node q)(t := (wq_node q t)\<lparr>w_next := p\<rparr>)\<rparr>"

definition set_last :: "waitq \<Rightarrow> thread_id \<Rightarrow> thread_id option \<Rightarrow> waitq" where
  "set_last q t p = q\<lparr>wq_node := (wq_node q)(t := (wq_node q t)\<lparr>w_last := p\<rparr>)\<rparr>"

abbreviation nxt :: "waitq \<Rightarrow> thread_id \<Rightarrow> thread_id option" where "nxt q t \<equiv> w_next (wq_node q t)"
abbreviation lst :: "waitq \<Rightarrow> thread_id \<Rightarrow> thread_id option" where "lst q t \<equiv> w_last (wq_node q t)"

text \<open>Appending a waiter.\<close>

definition wq_enqueue :: "thread_id \<Rightarrow> waitq \<Rightarrow> waitq" where
  "wq_enqueue t q =
     (let q = set_next q t None;
          q = (case wq_first q of
                 Some f \<Rightarrow> set_next q (the (lst q f)) (Some t)
               | None \<Rightarrow> q\<lparr>wq_first := Some t\<rparr>)
      in set_last q (the (wq_first q)) (Some t))"

text \<open>Taking out the first waiter.\<close>

definition wq_dequeue :: "waitq \<Rightarrow> thread_id option \<times> waitq" where
  "wq_dequeue q =
     (case wq_first q of
        None \<Rightarrow> (None, q)
      | Some w \<Rightarrow>
          let q = q\<lparr>wq_first := nxt q w\<rparr>
          in (Some w, case wq_first q of None \<Rightarrow> q | Some f \<Rightarrow> set_last q f (lst q w)))"

text \<open>The search of \<open>_mutex_lock_with_timeout\<close>: it stops at the waiter or at the end of the list.\<close>

partial_function (option) mutex_find ::
  "waitq \<Rightarrow> thread_id \<Rightarrow> thread_id option \<Rightarrow> thread_id option \<Rightarrow> (thread_id option \<times> thread_id option) option" where
  "mutex_find q t prev other =
     (if other = None \<or> other = Some t then Some (prev, other)
      else mutex_find q t other (nxt q (the other)))"

text \<open>The result is \<open>None\<close> where the search does not end, else whether the waiter was still queued, and the queue.\<close>

definition mutex_dequeue_waiter :: "thread_id \<Rightarrow> waitq \<Rightarrow> (bool \<times> waitq) option" where
  "mutex_dequeue_waiter t q =
     (case mutex_find q t None (wq_first q) of
        None \<Rightarrow> None
      | Some (prev, other) \<Rightarrow>
          if other = Some t
          then
            if wq_first q = Some t
            then
              let q = (case nxt q t of None \<Rightarrow> q | Some n \<Rightarrow> set_last q n (lst q t))
              in Some (True, q\<lparr>wq_first := nxt q t\<rparr>)
            else
              let q = (if nxt q t = None then set_last q (the (wq_first q)) prev else q)
              in Some (True, set_next q (the prev) (nxt q t))
          else Some (False, q))"

text \<open>
  The search of \<open>_rw_lock_read_lock_with_timeout\<close>, which follows \<open>next\<close> without a test for the end of the
  list: \<open>Some None\<close> is the access through the null pointer.
\<close>

partial_function (option) rw_find ::
  "waitq \<Rightarrow> thread_id \<Rightarrow> thread_id option \<Rightarrow> thread_id option \<Rightarrow> thread_id option option option" where
  "rw_find q t prev other =
     (if other = Some t then Some (Some prev)
      else if other = None then Some None
      else rw_find q t other (nxt q (the other)))"

definition rw_dequeue_waiter :: "thread_id \<Rightarrow> waitq \<Rightarrow> waitq option option" where
  "rw_dequeue_waiter t q =
     (case rw_find q t None (wq_first q) of
        None \<Rightarrow> None
      | Some None \<Rightarrow> Some None
      | Some (Some None) \<Rightarrow>
          let q = q\<lparr>wq_first := nxt q t\<rparr>
          in Some (Some (case wq_first q of None \<Rightarrow> q | Some f \<Rightarrow> set_last q f (lst q t)))
      | Some (Some (Some prev)) \<Rightarrow>
          let q = set_next q prev (nxt q t)
          in Some (Some (if lst q (the (wq_first q)) = Some t then set_last q (the (wq_first q)) (Some prev) else q)))"

subsection \<open>Queues as lists\<close>

fun wchain :: "waitq \<Rightarrow> thread_id option \<Rightarrow> thread_id list \<Rightarrow> bool" where
  "wchain q p [] \<longleftrightarrow> p = None"
| "wchain q p (x # xs) \<longleftrightarrow> p = Some x \<and> wchain q (nxt q x) xs"

definition wq_list :: "waitq \<Rightarrow> thread_id list \<Rightarrow> bool" where
  "wq_list q xs \<longleftrightarrow> distinct xs \<and> wchain q (wq_first q) xs \<and> (xs \<noteq> [] \<longrightarrow> lst q (hd xs) = Some (last xs))"

lemma set_next_simps [simp]:
  "wq_first (set_next q t p) = wq_first q" "nxt (set_next q t p) u = (if u = t then p else nxt q u)"
  "lst (set_next q t p) u = lst q u"
  by (simp_all add: set_next_def)

lemma set_last_simps [simp]:
  "wq_first (set_last q t p) = wq_first q" "lst (set_last q t p) u = (if u = t then p else lst q u)"
  "nxt (set_last q t p) u = nxt q u"
  by (simp_all add: set_last_def)

lemma chain_cong: "(\<And>x. x \<in> set xs \<Longrightarrow> nxt q x = nxt q' x) \<Longrightarrow> wchain q p xs = wchain q' p xs"
  by (induction xs arbitrary: p) auto

lemma chain_set_last [simp]: "wchain (set_last q t p) r xs = wchain q r xs"
  by (rule chain_cong) simp

lemma chain_first [simp]: "wchain (q\<lparr>wq_first := p\<rparr>) r xs = wchain q r xs"
  by (rule chain_cong) simp

lemma wchain_snoc:
  "distinct xs \<Longrightarrow> t \<notin> set xs \<Longrightarrow> xs \<noteq> [] \<Longrightarrow> wchain q p xs \<Longrightarrow> nxt q t = None \<Longrightarrow>
     wchain (set_next q (last xs) (Some t)) p (xs @ [t])"
proof (induction xs arbitrary: p)
  case (Cons x xs)
  show ?case
  proof (cases "xs = []")
    case True
    with Cons.prems show ?thesis by simp
  next
    case False
    then have "x \<noteq> last xs" using Cons.prems(1) by auto
    moreover have "wchain (set_next q (last xs) (Some t)) (nxt q x) (xs @ [t])"
      using Cons.prems False by (intro Cons.IH) auto
    ultimately show ?thesis using Cons.prems(4) False by simp
  qed
qed simp

text \<open>A wchain up to an element and from there on.\<close>

lemma chain_split:
  "wchain q p (xs @ y # ys) \<Longrightarrow>
     (if xs = [] then p = Some y else nxt q (last xs) = Some y) \<and> wchain q (nxt q y) ys"
proof (induction xs arbitrary: p)
  case (Cons x xs)
  have 1: "p = Some x" "wchain q (nxt q x) (xs @ y # ys)" using Cons.prems by simp_all
  show ?case
  proof (cases "xs = []")
    case True
    then show ?thesis using 1 by simp
  next
    case False
    then show ?thesis using Cons.IH [OF 1(2)] by simp
  qed
qed simp

lemma chain_unlink:
  "distinct (xs @ y # ys) \<Longrightarrow> xs \<noteq> [] \<Longrightarrow> wchain q p (xs @ y # ys) \<Longrightarrow>
     wchain (set_next q (last xs) (nxt q y)) p (xs @ ys)"
proof (induction xs arbitrary: p)
  case (Cons x xs)
  show ?case
  proof (cases "xs = []")
    case True
    with Cons.prems have "wchain q (nxt q y) ys" "x \<notin> set ys" "p = Some x" by auto
    moreover from this have "wchain (set_next q x (nxt q y)) (nxt q y) ys"
      by (subst chain_cong [of _ _ q]) auto
    ultimately show ?thesis using True by simp
  next
    case False
    then have "x \<noteq> last xs" using Cons.prems(1) by auto
    moreover have "wchain (set_next q (last xs) (nxt q y)) (nxt q x) (xs @ ys)"
      using Cons.prems False by (intro Cons.IH) auto
    ultimately show ?thesis using Cons.prems(3) False by simp
  qed
qed simp

lemma wq_list_init: "wq_list wq_init []"
  by (simp add: wq_list_def wq_init_def)

lemma wq_list_first: "wq_list q xs \<Longrightarrow> wq_first q = (case xs of [] \<Rightarrow> None | x # _ \<Rightarrow> Some x)"
  by (cases xs) (auto simp: wq_list_def)

lemma wchain_unique: "wchain q p xs \<Longrightarrow> wchain q p ys \<Longrightarrow> xs = ys"
proof (induction xs arbitrary: p ys)
  case Nil
  then show ?case by (cases ys) auto
next
  case (Cons x xs)
  then obtain zs where "ys = x # zs" "wchain q (nxt q x) zs" by (cases ys) auto
  with Cons show ?case by auto
qed

lemma wq_list_unique: "wq_list q xs \<Longrightarrow> wq_list q ys \<Longrightarrow> xs = ys"
  unfolding wq_list_def using wchain_unique by blast

lemma wq_list_distinct: "wq_list q xs \<Longrightarrow> distinct xs"
  by (simp add: wq_list_def)

lemma wq_enqueue_list:
  assumes "wq_list q xs" "t \<notin> set xs"
  shows "wq_list (wq_enqueue t q) (xs @ [t])"
proof (cases xs)
  case Nil
  with assms show ?thesis by (auto simp: wq_list_def wq_enqueue_def Let_def)
next
  case (Cons x ys)
  then have f: "wq_first q = Some x" "lst q x = Some (last xs)" using assms by (auto simp: wq_list_def)
  have "wchain (set_next q t None) (Some x) xs"
    using assms f by (subst chain_cong [of _ _ q]) (auto simp: wq_list_def)
  with assms Cons have "wchain (set_next (set_next q t None) (last xs) (Some t)) (Some x) (xs @ [t])"
    by (intro wchain_snoc) (auto simp: wq_list_def)
  with assms f Cons show ?thesis by (auto simp: wq_list_def wq_enqueue_def Let_def)
qed

lemma wq_dequeue_list:
  assumes "wq_list q (x # xs)"
  shows "fst (wq_dequeue q) = Some x" "wq_list (snd (wq_dequeue q)) xs"
proof -
  have q: "wq_first q = Some x" "wchain q (nxt q x) xs" "lst q x = Some (last (x # xs))" "distinct xs" "x \<notin> set xs"
    using assms by (auto simp: wq_list_def)
  then show "fst (wq_dequeue q) = Some x" by (simp add: wq_dequeue_def Let_def)
  show "wq_list (snd (wq_dequeue q)) xs"
    using q by (cases xs) (auto simp: wq_dequeue_def wq_list_def Let_def)
qed

lemma wq_dequeue_empty: "wq_list q [] \<Longrightarrow> wq_dequeue q = (None, q)"
  by (simp add: wq_list_def wq_dequeue_def)

text \<open>Both searches reach the waiter, with the structure before it.\<close>

lemma mutex_find_found:
  "distinct (xs @ t # ys) \<Longrightarrow> wchain q p (xs @ t # ys) \<Longrightarrow>
     mutex_find q t prev p = Some (if xs = [] then prev else Some (last xs), Some t)"
  by (induction xs arbitrary: p prev) (auto simp: mutex_find.simps)

lemma mutex_find_absent:
  "t \<notin> set xs \<Longrightarrow> wchain q p xs \<Longrightarrow> \<exists>prev'. mutex_find q t prev p = Some (prev', None)"
  by (induction xs arbitrary: p prev) (auto simp: mutex_find.simps)

lemma rw_find_found:
  "distinct (xs @ t # ys) \<Longrightarrow> wchain q p (xs @ t # ys) \<Longrightarrow>
     rw_find q t prev p = Some (Some (if xs = [] then prev else Some (last xs)))"
  by (induction xs arbitrary: p prev) (auto simp: rw_find.simps)

lemma rw_find_absent: "t \<notin> set xs \<Longrightarrow> wchain q p xs \<Longrightarrow> rw_find q t prev p = Some None"
  by (induction xs arbitrary: p prev) (auto simp: rw_find.simps)

lemma remove1_split: "t \<notin> set xs \<Longrightarrow> remove1 t (xs @ t # ys) = xs @ ys"
  by (simp add: remove1_append)

lemma mutex_dequeue_waiter_list:
  assumes "wq_list q xs" "t \<in> set xs"
  shows "\<exists>q'. mutex_dequeue_waiter t q = Some (True, q') \<and> wq_list q' (remove1 t xs)"
proof -
  obtain us vs where s: "xs = us @ t # vs" "t \<notin> set us" using assms(2) by (metis split_list_first)
  have q: "distinct (us @ t # vs)" "wchain q (wq_first q) (us @ t # vs)" "lst q (hd xs) = Some (last xs)"
    using assms s by (auto simp: wq_list_def)
  note f = mutex_find_found [OF q(1,2), of None]
  have c: "wchain q (nxt q t) vs" using chain_split [OF q(2)] by blast
  show ?thesis
  proof (cases us)
    case Nil
    then show ?thesis using f q s c by (cases vs) (auto simp: mutex_dequeue_waiter_def wq_list_def Let_def)
  next
    case (Cons u us')
    have fst: "wq_first q = Some u" "u \<noteq> t" using q Cons s by auto
    have "wchain (set_next q (last us) (nxt q t)) (Some u) (us @ vs)"
      using chain_unlink [OF q(1) _ q(2)] fst Cons by simp
    moreover have "nxt q t = None \<longleftrightarrow> vs = []" using c by (cases vs) auto
    ultimately show ?thesis
      using f q s Cons fst remove1_split [OF s(2), of vs]
      by (cases "vs = []") (auto simp: mutex_dequeue_waiter_def wq_list_def Let_def chain_cong [of _ "set_next (set_last q a b) c d" "set_next q c d" for a b c d])
  qed
qed

lemma mutex_dequeue_waiter_absent:
  assumes "wq_list q xs" "t \<notin> set xs"
  shows "mutex_dequeue_waiter t q = Some (False, q)"
  using mutex_find_absent [OF assms(2), of q "wq_first q" None] assms(1)
  by (auto simp: mutex_dequeue_waiter_def wq_list_def)

lemma rw_dequeue_waiter_list:
  assumes "wq_list q xs" "t \<in> set xs"
  shows "\<exists>q'. rw_dequeue_waiter t q = Some (Some q') \<and> wq_list q' (remove1 t xs)"
proof -
  obtain us vs where s: "xs = us @ t # vs" "t \<notin> set us" using assms(2) by (metis split_list_first)
  have q: "distinct (us @ t # vs)" "wchain q (wq_first q) (us @ t # vs)" "lst q (hd xs) = Some (last xs)"
    using assms s by (auto simp: wq_list_def)
  note f = rw_find_found [OF q(1,2), of None]
  have c: "wchain q (nxt q t) vs" using chain_split [OF q(2)] by blast
  show ?thesis
  proof (cases us)
    case Nil
    then show ?thesis using f q s c by (cases vs) (auto simp: rw_dequeue_waiter_def wq_list_def Let_def)
  next
    case (Cons u us')
    have fst: "wq_first q = Some u" "u \<noteq> t" using q Cons s by auto
    have "wchain (set_next q (last us) (nxt q t)) (Some u) (us @ vs)"
      using chain_unlink [OF q(1) _ q(2)] fst Cons by simp
    moreover have "last vs \<noteq> t" if "vs \<noteq> []" using q(1) that by auto
    ultimately show ?thesis
      using f q s Cons fst remove1_split [OF s(2), of vs]
      by (cases "vs = []") (auto simp: rw_dequeue_waiter_def wq_list_def Let_def)
  qed
qed

lemma rw_dequeue_waiter_absent:
  assumes "wq_list q xs" "t \<notin> set xs"
  shows "rw_dequeue_waiter t q = Some None"
  using rw_find_absent [OF assms(2), of q "wq_first q" None] assms(1) by (simp add: rw_dequeue_waiter_def wq_list_def)

subsection \<open>The contract of a waiter queue\<close>

text \<open>Runs of queue operations, on the structures and on lists; the second refuses what no lock does.\<close>

datatype wq_op = Enqueue thread_id | Dequeue | Remove thread_id

fun queue_run ::
  "(thread_id \<Rightarrow> 'q \<Rightarrow> 'q) \<Rightarrow> ('q \<Rightarrow> thread_id option \<times> 'q) \<Rightarrow> (thread_id \<Rightarrow> 'q \<Rightarrow> 'q option) \<Rightarrow> wq_op list \<Rightarrow> 'q
     \<Rightarrow> (thread_id option list \<times> 'q) option" where
  "queue_run enq deq rem [] q = Some ([], q)"
| "queue_run enq deq rem (Enqueue t # ops) q = queue_run enq deq rem ops (enq t q)"
| "queue_run enq deq rem (Dequeue # ops) q =
     map_option (\<lambda>(outs, r). (fst (deq q) # outs, r)) (queue_run enq deq rem ops (snd (deq q)))"
| "queue_run enq deq rem (Remove t # ops) q = Option.bind (rem t q) (queue_run enq deq rem ops)"

fun list_run :: "wq_op list \<Rightarrow> thread_id list \<Rightarrow> (thread_id option list \<times> thread_id list) option" where
  "list_run [] xs = Some ([], xs)"
| "list_run (Enqueue t # ops) xs = (if t \<in> set xs then None else list_run ops (xs @ [t]))"
| "list_run (Dequeue # ops) [] = map_option (\<lambda>(outs, r). (None # outs, r)) (list_run ops [])"
| "list_run (Dequeue # ops) (x # xs) = map_option (\<lambda>(outs, r). (Some x # outs, r)) (list_run ops xs)"
| "list_run (Remove t # ops) xs = (if t \<in> set xs then list_run ops (remove1 t xs) else None)"

locale waiter_queue =
  fixes empty :: 'q
    and enq :: "thread_id \<Rightarrow> 'q \<Rightarrow> 'q"
    and deq :: "'q \<Rightarrow> thread_id option \<times> 'q"
    and rem :: "thread_id \<Rightarrow> 'q \<Rightarrow> 'q option"
    and repr :: "'q \<Rightarrow> thread_id list \<Rightarrow> bool"
  assumes repr_empty: "repr empty []"
    and repr_distinct: "repr q xs \<Longrightarrow> distinct xs"
    and repr_enq: "repr q xs \<Longrightarrow> t \<notin> set xs \<Longrightarrow> repr (enq t q) (xs @ [t])"
    and repr_deq: "repr q (x # xs) \<Longrightarrow> fst (deq q) = Some x \<and> repr (snd (deq q)) xs"
    and deq_empty: "repr q [] \<Longrightarrow> deq q = (None, q)"
    and repr_rem: "repr q xs \<Longrightarrow> t \<in> set xs \<Longrightarrow> \<exists>q'. rem t q = Some q' \<and> repr q' (remove1 t xs)"
begin

lemma run_refines:
  "repr q xs \<Longrightarrow> list_run ops xs = Some (outs, ys) \<Longrightarrow>
     \<exists>r. queue_run enq deq rem ops q = Some (outs, r) \<and> repr r ys"
proof (induction ops xs arbitrary: q outs rule: list_run.induct)
  case (2 t ops xs)
  then show ?case using repr_enq by (auto split: if_splits)
next
  case (3 ops)
  then show ?case using deq_empty [OF "3.prems"(1)] by fastforce
next
  case (4 ops x xs)
  then show ?case using repr_deq [OF "4.prems"(1)] by fastforce
next
  case (5 t ops xs)
  then obtain q' where "rem t q = Some q'" "repr q' (remove1 t xs)" using repr_rem by (auto split: if_splits)
  with 5 show ?case by (auto split: if_splits)
qed simp

end

abbreviation mutex_rem :: "thread_id \<Rightarrow> waitq \<Rightarrow> waitq option" where
  "mutex_rem t q \<equiv> map_option snd (mutex_dequeue_waiter t q)"

abbreviation rw_rem :: "thread_id \<Rightarrow> waitq \<Rightarrow> waitq option" where
  "rw_rem t q \<equiv> Option.bind (rw_dequeue_waiter t q) id"

interpretation mq: waiter_queue wq_init wq_enqueue wq_dequeue mutex_rem wq_list
proof
  show "\<exists>q'. mutex_rem t q = Some q' \<and> wq_list q' (remove1 t xs)" if "wq_list q xs" "t \<in> set xs" for q xs t
    using mutex_dequeue_waiter_list [OF that] by auto
qed (auto simp: wq_list_init wq_list_distinct wq_enqueue_list wq_dequeue_empty dest: wq_dequeue_list)

interpretation rq: waiter_queue wq_init wq_enqueue wq_dequeue rw_rem wq_list
proof
  show "\<exists>q'. rw_rem t q = Some q' \<and> wq_list q' (remove1 t xs)" if "wq_list q xs" "t \<in> set xs" for q xs t
    using rw_dequeue_waiter_list [OF that] by auto
qed (auto simp: wq_list_init wq_list_distinct wq_enqueue_list wq_dequeue_empty dest: wq_dequeue_list)

text \<open>
  C24: The linked waiter structures of mutexes and rw locks behave as a first-in first-out list of threads under
  every sequence of enqueue, dequeue and removal by a timed out waiter, as long as no thread queues twice and only a
  queued waiter is removed; all loops end.
\<close>

theorem waiter_queue_refines:
  assumes "list_run ops [] = Some (outs, ys)"
  shows "(\<exists>r. queue_run wq_enqueue wq_dequeue mutex_rem ops wq_init = Some (outs, r) \<and> wq_list r ys)
    \<and> (\<exists>r. queue_run wq_enqueue wq_dequeue rw_rem ops wq_init = Some (outs, r) \<and> wq_list r ys)"
  using mq.run_refines [OF wq_list_init assms] rq.run_refines [OF wq_list_init assms] by blast

theorem waiter_queue_refines_witness:
  "\<exists>r. queue_run wq_enqueue wq_dequeue mutex_rem [Enqueue 4, Enqueue 7, Enqueue 9, Remove 9, Enqueue 2, Dequeue, Dequeue, Dequeue]
     wq_init = Some ([Some 4, Some 7, Some 2], r) \<and> wq_list r []"
proof -
  have "list_run [Enqueue 4, Enqueue 7, Enqueue 9, Remove 9, Enqueue 2, Dequeue, Dequeue, Dequeue] []
    = Some ([Some 4, Some 7, Some 2], [])" by simp
  from waiter_queue_refines [OF this] show ?thesis by blast
qed

end
