(* ===== verification/Kernel_Mutex.thy ===== *)
theory Kernel_Mutex
  imports Kernel_Waiters
begin

text \<open>
  The kernel mutex, \<open>src/system/kernel/locks/lock.cpp\<close> and \<open>headers/private/kernel/lock.h\<close>, in both builds: the
  release build with its lock-free counter and the released flag, and the \<open>KDEBUG\<close> build with a recorded holder.
  The operations are functions on the mutex; the threads that call them are a step relation in which every atomic
  operation on the counter and every section under the spinlock is one step, so that all interleavings of any number
  of threads are covered. Names, tracing and the listeners for wait objects are left out.
\<close>


subsection \<open>Counting threads by state\<close>

definition census :: "('t \<Rightarrow> 'p) \<Rightarrow> 'p set \<Rightarrow> nat" where
  "census pc P = card {t. pc t \<in> P}"

lemma census_upd:
  assumes "finite {t. pc t \<in> P}"
  shows "census (pc(t := x)) P + (if pc t \<in> P then 1 else 0) = census pc P + (if x \<in> P then 1 else 0)"
proof -
  have e: "{u. (pc(t := x)) u \<in> P} = (if x \<in> P then insert t ({u. pc u \<in> P} - {t}) else {u. pc u \<in> P} - {t})" by auto
  have "card {u. pc u \<in> P} = card ({u. pc u \<in> P} - {t}) + (if pc t \<in> P then 1 else 0)"
    using assms card_Suc_Diff1 [of "{u. pc u \<in> P}" t] by auto
  moreover have "card (insert t ({u. pc u \<in> P} - {t})) = Suc (card ({u. pc u \<in> P} - {t}))"
    using assms by (intro card_insert_disjoint) auto
  ultimately show ?thesis unfolding census_def e by simp
qed

lemma census_pos: "finite {t. pc t \<in> P} \<Longrightarrow> pc t \<in> P \<Longrightarrow> 0 < census pc P"
  unfolding census_def by (auto simp: card_gt_0_iff)

lemma census_one:
  assumes "census pc P = 1" "pc t \<in> P" "pc u \<in> P"
  shows "t = u"
proof -
  obtain v where "{t. pc t \<in> P} = {v}" using assms(1) by (auto simp: census_def card_1_singleton_iff)
  with assms show ?thesis by (metis mem_Collect_eq singletonD)
qed

lemma census_le_one:
  "finite {t. pc t \<in> P} \<Longrightarrow> census pc P \<le> 1 \<Longrightarrow> pc t \<in> P \<Longrightarrow> pc u \<in> P \<Longrightarrow> t = u"
  using census_one [of pc P t u] census_pos [of pc P t] by simp

subsection \<open>The release build\<close>

text \<open>\<open>count\<close> is an \<open>int32\<close> that never wraps, since it is bounded by the number of threads.\<close>

definition MUTEX_FLAG_CLONE_NAME :: uint8 where "MUTEX_FLAG_CLONE_NAME = 1"
definition MUTEX_FLAG_RELEASED :: uint8 where "MUTEX_FLAG_RELEASED = 2"

record mutex =
  m_waiters :: waitq
  m_count :: int
  m_flags :: uint8

definition mutex_init_etc :: "uint8 \<Rightarrow> mutex" where
  "mutex_init_etc flags = \<lparr>m_waiters = wq_init, m_count = 0, m_flags = flags AND MUTEX_FLAG_CLONE_NAME\<rparr>"

text \<open>The inline parts: the first result says whether the slow part has to be called.\<close>

definition mutex_lock_inline :: "mutex \<Rightarrow> bool \<times> mutex" where
  "mutex_lock_inline m = (m_count m < 0, m\<lparr>m_count := m_count m - 1\<rparr>)"

definition mutex_unlock_inline :: "mutex \<Rightarrow> bool \<times> mutex" where
  "mutex_unlock_inline m = (m_count m < -1, m\<lparr>m_count := m_count m + 1\<rparr>)"

definition mutex_trylock_inline :: "mutex \<Rightarrow> bool \<times> mutex" where
  "mutex_trylock_inline m = (if m_count m = 0 then (True, m\<lparr>m_count := -1\<rparr>) else (False, m))"

text \<open>\<open>_mutex_lock\<close> up to the call of \<open>thread_block\<close>: \<open>True\<close> where the lock was released meanwhile, \<open>False\<close>
  where the thread blocks. \<open>_mutex_lock_with_timeout\<close> begins the same way.\<close>

definition mutex_lock_slow :: "thread_id \<Rightarrow> mutex \<Rightarrow> bool \<times> mutex" where
  "mutex_lock_slow t m =
     (if m_flags m AND MUTEX_FLAG_RELEASED \<noteq> 0
      then (True, m\<lparr>m_flags := m_flags m AND NOT MUTEX_FLAG_RELEASED\<rparr>)
      else (False, m\<lparr>m_waiters := wq_enqueue t (m_waiters m)\<rparr>))"

text \<open>\<open>_mutex_unlock\<close>: the thread to unblock, if any.\<close>

definition mutex_unlock_slow :: "mutex \<Rightarrow> thread_id option \<times> mutex" where
  "mutex_unlock_slow m =
     (case wq_first (m_waiters m) of
        Some _ \<Rightarrow> (let (w, q) = wq_dequeue (m_waiters m) in (w, m\<lparr>m_waiters := q\<rparr>))
      | None \<Rightarrow> (None, m\<lparr>m_flags := m_flags m OR MUTEX_FLAG_RELEASED\<rparr>))"

definition mutex_lock_threads_locked :: "thread_id \<Rightarrow> mutex \<Rightarrow> bool \<times> mutex" where
  "mutex_lock_threads_locked t m =
     (let (slow, m) = mutex_lock_inline m in if slow then mutex_lock_slow t m else (True, m))"

text \<open>The end of \<open>_mutex_lock_with_timeout\<close> after \<open>thread_block_with_timeout\<close> failed: \<open>True\<close> where the thread
  owns the lock nevertheless.\<close>

definition mutex_timed_out :: "thread_id \<Rightarrow> mutex \<Rightarrow> (bool \<times> mutex) option" where
  "mutex_timed_out t m =
     (case mutex_dequeue_waiter t (m_waiters m) of
        None \<Rightarrow> None
      | Some (queued, q) \<Rightarrow>
          if queued then Some (False, m\<lparr>m_waiters := q, m_count := m_count m + 1\<rparr>) else Some (True, m))"

text \<open>\<open>mutex_destroy\<close>: the waiters that are unblocked with \<open>B_ERROR\<close>, in this order.\<close>

partial_function (option) mutex_destroy_loop :: "waitq \<Rightarrow> (thread_id list \<times> waitq) option" where
  "mutex_destroy_loop q =
     (if wq_first q = None then Some ([], q)
      else Option.bind (mutex_destroy_loop (q\<lparr>wq_first := nxt q (the (wq_first q))\<rparr>))
             (\<lambda>(ts, r). Some (the (wq_first q) # ts, r)))"

definition mutex_destroy :: "mutex \<Rightarrow> (thread_id list \<times> mutex) option" where
  "mutex_destroy m =
     Option.bind (mutex_destroy_loop (m_waiters m))
       (\<lambda>(ts, q). Some (ts, \<lparr>m_waiters = q, m_count = - (2 ^ 15), m_flags = 0\<rparr>))"

lemma mutex_destroy_loop_all: "wchain q (wq_first q) ws \<Longrightarrow> \<exists>r. mutex_destroy_loop q = Some (ws, r) \<and> wq_first r = None"
proof (induction ws arbitrary: q)
  case Nil
  then show ?case by (simp add: mutex_destroy_loop.simps)
next
  case (Cons w ws)
  have f: "wq_first q = Some w" "wchain (q\<lparr>wq_first := nxt q w\<rparr>) (wq_first (q\<lparr>wq_first := nxt q w\<rparr>)) ws"
    using Cons.prems by simp_all
  from Cons.IH [OF f(2)] obtain r where "mutex_destroy_loop (q\<lparr>wq_first := nxt q w\<rparr>) = Some (ws, r)" "wq_first r = None"
    by blast
  with f(1) show ?case by (simp add: mutex_destroy_loop.simps [of q])
qed

lemma mutex_destroy_wakes_all:
  "wq_list (m_waiters m) ws \<Longrightarrow> \<exists>m'. mutex_destroy m = Some (ws, m') \<and> wq_first (m_waiters m') = None \<and> m_count m' < 0"
  using mutex_destroy_loop_all [of "m_waiters m" ws] by (auto simp: mutex_destroy_def wq_list_def)

subsection \<open>Threads\<close>

text \<open>
  Where a thread is: outside; between the inline part and the slow part of a lock call (with or without a
  timeout); blocked; back from a block that timed out; holding the lock; between the inline part and the slow part
  of an unlock call. Every atomic operation on \<open>count\<close> and every section under the spinlock is one step.
\<close>

datatype mpc = Idle | LockSlow bool | Blocked bool | TimedOut | Holding | UnlockSlow

record msys =
  s_mutex :: mutex
  s_pc :: "thread_id \<Rightarrow> mpc"

text \<open>\<open>thread_unblock\<close> has an effect on a blocked thread only.\<close>

fun unblock :: "thread_id option \<Rightarrow> (thread_id \<Rightarrow> mpc) \<Rightarrow> thread_id \<Rightarrow> mpc" where
  "unblock None pc = pc"
| "unblock (Some w) pc = (case pc w of Blocked _ \<Rightarrow> pc(w := Holding) | _ \<Rightarrow> pc)"

inductive mutex_step :: "bool \<Rightarrow> msys \<Rightarrow> msys \<Rightarrow> bool" for T where
  lock: "s_pc s t = Idle \<Longrightarrow> mutex_lock_inline (s_mutex s) = (slow, m) \<Longrightarrow> timed \<longrightarrow> T \<Longrightarrow>
    mutex_step T s \<lparr>s_mutex = m, s_pc = (s_pc s)(t := if slow then LockSlow timed else Holding)\<rparr>"
| trylock: "s_pc s t = Idle \<Longrightarrow> mutex_trylock_inline (s_mutex s) = (ok, m) \<Longrightarrow>
    mutex_step T s \<lparr>s_mutex = m, s_pc = (s_pc s)(t := if ok then Holding else Idle)\<rparr>"
| switch_lock: "s_pc s t = Idle \<Longrightarrow> mutex_lock_threads_locked t (s_mutex s) = (got, m) \<Longrightarrow>
    mutex_step T s \<lparr>s_mutex = m, s_pc = (s_pc s)(t := if got then Holding else Blocked False)\<rparr>"
| lock_slow: "s_pc s t = LockSlow timed \<Longrightarrow> mutex_lock_slow t (s_mutex s) = (got, m) \<Longrightarrow>
    mutex_step T s \<lparr>s_mutex = m, s_pc = (s_pc s)(t := if got then Holding else Blocked timed)\<rparr>"
| timeout: "s_pc s t = Blocked True \<Longrightarrow> mutex_step T s (s\<lparr>s_pc := (s_pc s)(t := TimedOut)\<rparr>)"
| timed_out: "s_pc s t = TimedOut \<Longrightarrow> mutex_timed_out t (s_mutex s) = Some (got, m) \<Longrightarrow>
    mutex_step T s \<lparr>s_mutex = m, s_pc = (s_pc s)(t := if got then Holding else Idle)\<rparr>"
| unlock: "s_pc s t = Holding \<Longrightarrow> mutex_unlock_inline (s_mutex s) = (slow, m) \<Longrightarrow>
    mutex_step T s \<lparr>s_mutex = m, s_pc = (s_pc s)(t := if slow then UnlockSlow else Idle)\<rparr>"
| unlock_slow: "s_pc s t = UnlockSlow \<Longrightarrow> mutex_unlock_slow (s_mutex s) = (w, m) \<Longrightarrow>
    mutex_step T s \<lparr>s_mutex = m, s_pc = unblock w ((s_pc s)(t := Idle))\<rparr>"

definition mutex_start :: "uint8 \<Rightarrow> msys" where
  "mutex_start flags = \<lparr>s_mutex = mutex_init_etc flags, s_pc = (\<lambda>_. Idle)\<rparr>"

subsection \<open>The invariant\<close>

abbreviation slow_states :: "mpc set" where "slow_states \<equiv> {LockSlow False, LockSlow True}"

definition mutex_inv :: "thread_id list \<Rightarrow> msys \<Rightarrow> bool" where
  "mutex_inv ws s \<longleftrightarrow>
     wq_list (m_waiters (s_mutex s)) ws \<and> (\<forall>t. t \<in> set ws \<longleftrightarrow> s_pc s t = Blocked False)
     \<and> (\<forall>t. s_pc s t \<notin> {LockSlow True, Blocked True, TimedOut}) \<and> finite {t. s_pc s t \<noteq> Idle}
     \<and> m_count (s_mutex s) = - int (census (s_pc s) {Holding} + census (s_pc s) {LockSlow False} + length ws)
     \<and> census (s_pc s) {Holding} + census (s_pc s) {UnlockSlow} + of_bool (m_flags (s_mutex s) AND MUTEX_FLAG_RELEASED \<noteq> 0)
         = of_bool (m_count (s_mutex s) \<noteq> 0)
     \<and> (ws \<noteq> [] \<longrightarrow> m_flags (s_mutex s) AND MUTEX_FLAG_RELEASED = 0)"

lemma released_flags [simp]:
  "(f OR MUTEX_FLAG_RELEASED) AND MUTEX_FLAG_RELEASED \<noteq> 0"
  "(f AND NOT MUTEX_FLAG_RELEASED) AND MUTEX_FLAG_RELEASED = 0"
  "(f AND MUTEX_FLAG_CLONE_NAME) AND MUTEX_FLAG_RELEASED = 0"
proof -
  have "bit ((f OR MUTEX_FLAG_RELEASED) AND MUTEX_FLAG_RELEASED) 1" by (simp add: MUTEX_FLAG_RELEASED_def bit_simps)
  then show "(f OR MUTEX_FLAG_RELEASED) AND MUTEX_FLAG_RELEASED \<noteq> 0" by (metis bit_0_eq bot_apply bot_bool_def)
  show "(f AND NOT MUTEX_FLAG_RELEASED) AND MUTEX_FLAG_RELEASED = 0" by (simp add: and.assoc)
  show "(f AND MUTEX_FLAG_CLONE_NAME) AND MUTEX_FLAG_RELEASED = 0"
    by (simp add: MUTEX_FLAG_RELEASED_def MUTEX_FLAG_CLONE_NAME_def and.assoc)
qed

lemma mutex_inv_start: "mutex_inv [] (mutex_start flags)"
  by (simp add: mutex_inv_def mutex_start_def mutex_init_etc_def wq_list_init census_def)


lemma census_upds:
  assumes "finite {t. pc t \<noteq> Idle}"
  shows "census (pc(t := x)) {Holding} + of_bool (pc t = Holding) = census pc {Holding} + of_bool (x = Holding)"
    "census (pc(t := x)) {LockSlow False} + of_bool (pc t = LockSlow False)
       = census pc {LockSlow False} + of_bool (x = LockSlow False)"
    "census (pc(t := x)) {UnlockSlow} + of_bool (pc t = UnlockSlow) = census pc {UnlockSlow} + of_bool (x = UnlockSlow)"
proof -
  have f: "finite {t. pc t \<in> {p}}" if "p \<noteq> Idle" for p using that by (intro finite_subset [OF _ assms]) auto
  show "census (pc(t := x)) {Holding} + of_bool (pc t = Holding) = census pc {Holding} + of_bool (x = Holding)"
    using census_upd [OF f [of Holding], of t x, unfolded singleton_iff] unfolding of_bool_def by blast
  show "census (pc(t := x)) {LockSlow False} + of_bool (pc t = LockSlow False)
       = census pc {LockSlow False} + of_bool (x = LockSlow False)"
    using census_upd [OF f [of "LockSlow False"], of t x, unfolded singleton_iff] unfolding of_bool_def by blast
  show "census (pc(t := x)) {UnlockSlow} + of_bool (pc t = UnlockSlow) = census pc {UnlockSlow} + of_bool (x = UnlockSlow)"
    using census_upd [OF f [of UnlockSlow], of t x, unfolded singleton_iff] unfolding of_bool_def by blast
qed

lemma finite_upd: "finite {t. pc t \<noteq> Idle} \<Longrightarrow> finite {u. (pc(t := x)) u \<noteq> Idle}"
  by (rule finite_subset [of _ "insert t {t. pc t \<noteq> Idle}"]) auto

lemma mutex_invD:
  assumes "mutex_inv ws s"
  shows "wq_list (m_waiters (s_mutex s)) ws" "\<forall>t. t \<in> set ws \<longleftrightarrow> s_pc s t = Blocked False"
    "\<forall>t. s_pc s t \<notin> {LockSlow True, Blocked True, TimedOut}" "finite {t. s_pc s t \<noteq> Idle}"
    "m_count (s_mutex s) = - int (census (s_pc s) {Holding} + census (s_pc s) {LockSlow False} + length ws)"
    "census (s_pc s) {Holding} + census (s_pc s) {UnlockSlow} + of_bool (m_flags (s_mutex s) AND MUTEX_FLAG_RELEASED \<noteq> 0)
       = of_bool (m_count (s_mutex s) \<noteq> 0)"
    "ws \<noteq> [] \<Longrightarrow> m_flags (s_mutex s) AND MUTEX_FLAG_RELEASED = 0"
  using assms unfolding mutex_inv_def by blast+

text \<open>A thread moves between states that do not queue it.\<close>

lemma mutex_inv_move:
  assumes inv: "mutex_inv ws s"
    and p: "s_pc s t \<noteq> Blocked False" "x \<noteq> Blocked False" "x \<notin> {LockSlow True, Blocked True, TimedOut}"
    and q: "m_waiters m = m_waiters (s_mutex s)"
    and c: "m_count m = m_count (s_mutex s) - (of_bool (x = Holding) + of_bool (x = LockSlow False))
      + (of_bool (s_pc s t = Holding) + of_bool (s_pc s t = LockSlow False))"
    and k: "of_bool (x = Holding) + of_bool (x = UnlockSlow) + of_bool (m_flags m AND MUTEX_FLAG_RELEASED \<noteq> 0) + of_bool (m_count (s_mutex s) \<noteq> 0)
      = of_bool (s_pc s t = Holding) + of_bool (s_pc s t = UnlockSlow) + of_bool (m_flags (s_mutex s) AND MUTEX_FLAG_RELEASED \<noteq> 0)
        + (of_bool (m_count m \<noteq> 0) :: nat)"
    and e: "ws \<noteq> [] \<longrightarrow> m_flags m AND MUTEX_FLAG_RELEASED = 0"
  shows "mutex_inv ws \<lparr>s_mutex = m, s_pc = (s_pc s)(t := x)\<rparr>"
proof -
  note i = inv [unfolded mutex_inv_def]
  have fin: "finite {t. s_pc s t \<noteq> Idle}" using i by blast
  note u = census_upds [OF fin, of t x]
  have cnt: "m_count (s_mutex s) = - int (census (s_pc s) {Holding} + census (s_pc s) {LockSlow False} + length ws)"
    using i by blast
  have tok: "census (s_pc s) {Holding} + census (s_pc s) {UnlockSlow} + of_bool (m_flags (s_mutex s) AND MUTEX_FLAG_RELEASED \<noteq> 0)
         = of_bool (m_count (s_mutex s) \<noteq> 0)" using i by blast
  have "m_count m = - int (census ((s_pc s)(t := x)) {Holding} + census ((s_pc s)(t := x)) {LockSlow False} + length ws)"
    using c cnt u(1,2) by (simp add: of_bool_def split: if_splits)
  moreover have "census ((s_pc s)(t := x)) {Holding} + census ((s_pc s)(t := x)) {UnlockSlow}
      + of_bool (m_flags m AND MUTEX_FLAG_RELEASED \<noteq> 0) = of_bool (m_count m \<noteq> 0)"
    using k tok u(1,3) by linarith
  ultimately show ?thesis
    using i p q e finite_upd [OF fin, of t x] unfolding mutex_inv_def by auto
qed

text \<open>A thread blocks, and a queued thread is handed the lock.\<close>

lemma mutex_inv_enqueue:
  assumes inv: "mutex_inv ws s" and p: "s_pc s t \<in> {Idle, LockSlow False}"
    and r: "m_flags (s_mutex s) AND MUTEX_FLAG_RELEASED = 0" "m_count (s_mutex s) < 0"
    and m: "m = (s_mutex s)\<lparr>m_waiters := wq_enqueue t (m_waiters (s_mutex s)),
      m_count := m_count (s_mutex s) - of_bool (s_pc s t = Idle)\<rparr>"
  shows "mutex_inv (ws @ [t]) \<lparr>s_mutex = m, s_pc = (s_pc s)(t := Blocked False)\<rparr>"
proof -
  note i = inv [unfolded mutex_inv_def]
  have fin: "finite {t. s_pc s t \<noteq> Idle}" using i by blast
  note u = census_upds [OF fin, of t "Blocked False"]
  have t: "t \<notin> set ws" using i p by auto
  have "wq_list (m_waiters m) (ws @ [t])" using i t m wq_enqueue_list by simp
  moreover have "m_count m = - int (census ((s_pc s)(t := Blocked False)) {Holding}
      + census ((s_pc s)(t := Blocked False)) {LockSlow False} + length (ws @ [t]))"
    using u(1,2) i p m by auto
  moreover have "census ((s_pc s)(t := Blocked False)) {Holding} + census ((s_pc s)(t := Blocked False)) {UnlockSlow}
      + of_bool (m_flags m AND MUTEX_FLAG_RELEASED \<noteq> 0) = of_bool (m_count m \<noteq> 0)"
    using u(1,3) i p r m by auto
  ultimately show ?thesis
    using i p r m finite_upd [OF fin, of t "Blocked False"] unfolding mutex_inv_def by auto
qed

lemma mutex_inv_handoff:
  assumes inv: "mutex_inv (w # ws) s" and p: "s_pc s t = UnlockSlow"
  shows "mutex_unlock_slow (s_mutex s) = (Some w, snd (mutex_unlock_slow (s_mutex s)))"
    "mutex_inv ws \<lparr>s_mutex = snd (mutex_unlock_slow (s_mutex s)), s_pc = (s_pc s)(t := Idle, w := Holding)\<rparr>"
    "unblock (Some w) ((s_pc s)(t := Idle)) = (s_pc s)(t := Idle, w := Holding)"
proof -
  note i = inv [unfolded mutex_inv_def]
  have "w \<in> set (w # ws)" by simp
  then have w: "s_pc s w = Blocked False" using i by blast
  then have wt: "w \<noteq> t" using p by auto
  have q: "wq_list (m_waiters (s_mutex s)) (w # ws)" using i by blast
  note d = wq_dequeue_list [OF q]
  have m: "mutex_unlock_slow (s_mutex s) = (Some w, (s_mutex s)\<lparr>m_waiters := snd (wq_dequeue (m_waiters (s_mutex s)))\<rparr>)"
    using d(1) wq_list_first [OF q] by (auto simp: mutex_unlock_slow_def split: prod.split)
  then show "mutex_unlock_slow (s_mutex s) = (Some w, snd (mutex_unlock_slow (s_mutex s)))" by simp
  have fin: "finite {t. s_pc s t \<noteq> Idle}" using i by blast
  note fin2 = finite_upd [OF fin, of t Idle]
  note u = census_upds [OF fin, of t Idle] census_upds [where pc = "(s_pc s)(t := Idle)", OF fin2, of w Holding]
  have ws: "\<forall>x. x \<in> set ws \<longleftrightarrow> ((s_pc s)(t := Idle, w := Holding)) x = Blocked False"
    using i p w wt by (auto simp: wq_list_def)
  let ?pc = "(s_pc s)(t := Idle, w := Holding)"
  have ms: "m_waiters (snd (mutex_unlock_slow (s_mutex s))) = snd (wq_dequeue (m_waiters (s_mutex s)))"
    "m_count (snd (mutex_unlock_slow (s_mutex s))) = m_count (s_mutex s)"
    "m_flags (snd (mutex_unlock_slow (s_mutex s))) = m_flags (s_mutex s)" by (simp_all add: m)
  have fin3: "finite {u. ?pc u \<noteq> Idle}" by (rule finite_subset [of _ "insert w {u. s_pc s u \<noteq> Idle}"]) (use fin in auto)
  have cs: "census ?pc {Holding} = census (s_pc s) {Holding} + 1" "census ?pc {LockSlow False} = census (s_pc s) {LockSlow False}"
    "census ?pc {UnlockSlow} + 1 = census (s_pc s) {UnlockSlow}"
    using u p w wt by simp_all
  have "m_count (s_mutex s) = - int (census ?pc {Holding} + census ?pc {LockSlow False} + length ws)"
    unfolding cs using mutex_invD(5) [OF inv] by simp
  moreover have "census ?pc {Holding} + census ?pc {UnlockSlow} + of_bool (m_flags (s_mutex s) AND MUTEX_FLAG_RELEASED \<noteq> 0)
       = of_bool (m_count (s_mutex s) \<noteq> 0)" using mutex_invD(6) [OF inv] cs(1,3) by linarith
  moreover have "\<forall>t. ?pc t \<notin> {LockSlow True, Blocked True, TimedOut}" using mutex_invD(3) [OF inv] by simp
  ultimately show "mutex_inv ws \<lparr>s_mutex = snd (mutex_unlock_slow (s_mutex s)), s_pc = ?pc\<rparr>"
    using d(2) ws mutex_invD(7) [OF inv] fin3 unfolding mutex_inv_def msys.select_convs ms by blast
  show "unblock (Some w) ((s_pc s)(t := Idle)) = (s_pc s)(t := Idle, w := Holding)" using w wt by auto
qed

lemma mutex_inv_facts:
  assumes "mutex_inv ws s"
  shows "m_count (s_mutex s) \<le> 0" "s_pc s t = Holding \<Longrightarrow> m_count (s_mutex s) < 0"
    "s_pc s t = LockSlow False \<Longrightarrow> m_count (s_mutex s) < 0"
    "s_pc s t = UnlockSlow \<Longrightarrow> m_count (s_mutex s) < 0 \<and> m_flags (s_mutex s) AND MUTEX_FLAG_RELEASED = 0"
    "s_pc s t = Holding \<Longrightarrow> m_flags (s_mutex s) AND MUTEX_FLAG_RELEASED = 0"
    "m_count (s_mutex s) = 0 \<Longrightarrow> m_flags (s_mutex s) AND MUTEX_FLAG_RELEASED = 0"
proof -
  note i = mutex_invD [OF assms]
  have fin: "finite {t. s_pc s t \<in> {p}}" if "p \<noteq> Idle" for p using that by (intro finite_subset [OF _ i(4)]) auto
  have c: "0 < census (s_pc s) {p}" if "s_pc s t = p" "p \<noteq> Idle" for p using census_pos [OF fin, of p t] that by simp
  have le: "m_count (s_mutex s) \<le> 0" using i(5) by linarith
  then show "m_count (s_mutex s) \<le> 0" .
  show "m_count (s_mutex s) < 0" if "s_pc s t = Holding" using c [OF that] i(5) by simp
  show "m_count (s_mutex s) < 0" if "s_pc s t = LockSlow False" using c [OF that] i(5) by simp
  show "m_count (s_mutex s) < 0 \<and> m_flags (s_mutex s) AND MUTEX_FLAG_RELEASED = 0" if "s_pc s t = UnlockSlow"
    using c [OF that] i(6) le by (cases "m_flags (s_mutex s) AND MUTEX_FLAG_RELEASED = 0"; cases "m_count (s_mutex s) = 0") simp_all
  show "m_flags (s_mutex s) AND MUTEX_FLAG_RELEASED = 0" if "s_pc s t = Holding"
    using c [OF that] i(6) by (cases "m_flags (s_mutex s) AND MUTEX_FLAG_RELEASED = 0"; cases "m_count (s_mutex s) = 0") simp_all
  show "m_flags (s_mutex s) AND MUTEX_FLAG_RELEASED = 0" if "m_count (s_mutex s) = 0"
    using that i(6) by (cases "m_flags (s_mutex s) AND MUTEX_FLAG_RELEASED = 0") simp_all
qed

lemma released_nonzero [simp]: "MUTEX_FLAG_RELEASED \<noteq> 0"
  by (simp add: MUTEX_FLAG_RELEASED_def)

lemma mutex_inv_untimed: "mutex_inv ws s \<Longrightarrow> s_pc s t \<noteq> LockSlow True \<and> s_pc s t \<noteq> Blocked True \<and> s_pc s t \<noteq> TimedOut"
  by (simp add: mutex_inv_def)

lemma mutex_inv_blocked: "mutex_inv ws s \<Longrightarrow> t \<in> set ws \<longleftrightarrow> s_pc s t = Blocked False"
  by (simp add: mutex_inv_def)

lemma mutex_inv_only_waiter:
  assumes "mutex_inv [] s" "s_pc s t = UnlockSlow"
  shows "mutex_unlock_slow (s_mutex s) = (None, (s_mutex s)\<lparr>m_flags := m_flags (s_mutex s) OR MUTEX_FLAG_RELEASED\<rparr>)"
  using wq_list_first [of "m_waiters (s_mutex s)" "[]"] assms(1) by (simp add: mutex_unlock_slow_def mutex_inv_def)

text \<open>Every step without timeouts keeps the invariant.\<close>

lemma mutex_step_inv:
  assumes "mutex_step False s s'" "mutex_inv ws s"
  shows "\<exists>ws'. mutex_inv ws' s'"
  using assms
proof (cases rule: mutex_step.cases)
  case (lock t slow m timed)
  have "mutex_inv ws s'" unfolding lock(1)
    using mutex_inv_facts [OF assms(2)] lock by (intro mutex_inv_move [OF assms(2)]) (auto simp: mutex_lock_inline_def mutex_invD(7) [OF assms(2)])
  then show ?thesis ..
next
  case (trylock t ok m)
  show ?thesis
  proof (cases "m_count (s_mutex s) = 0")
    case True
    have "mutex_inv ws s'" unfolding trylock(1)
      using mutex_inv_facts [OF assms(2)] trylock True
      by (intro mutex_inv_move [OF assms(2)]) (auto simp: mutex_trylock_inline_def mutex_invD(7) [OF assms(2)])
    then show ?thesis ..
  next
    case False
    with trylock have "s' = s" by (auto simp: mutex_trylock_inline_def fun_upd_idem)
    with assms(2) show ?thesis by blast
  qed
next
  case (switch_lock t got m)
  show ?thesis
  proof (cases "m_count (s_mutex s) < 0 \<and> m_flags (s_mutex s) AND MUTEX_FLAG_RELEASED = 0")
    case True
    then have "\<not> got" "m = (s_mutex s)\<lparr>m_waiters := wq_enqueue t (m_waiters (s_mutex s)), m_count := m_count (s_mutex s) - 1\<rparr>"
      using switch_lock(3) by (auto simp: mutex_lock_threads_locked_def mutex_lock_inline_def mutex_lock_slow_def)
    then have "mutex_inv (ws @ [t]) s'" unfolding switch_lock(1)
      using True switch_lock mutex_inv_enqueue [OF assms(2), of t m] by simp
    then show ?thesis ..
  next
    case False
    have "mutex_inv ws s'" unfolding switch_lock(1)
      using mutex_inv_facts [OF assms(2)] switch_lock False
      by (intro mutex_inv_move [OF assms(2)])
        (auto simp: mutex_lock_threads_locked_def mutex_lock_inline_def mutex_lock_slow_def mutex_invD(7) [OF assms(2)] split: if_splits)
    then show ?thesis ..
  qed
next
  case (lock_slow t timed got m)
  then have t: "s_pc s t = LockSlow False" "timed = False" using mutex_inv_untimed [OF assms(2), of t] by (cases timed; simp)+
  show ?thesis
  proof (cases "m_flags (s_mutex s) AND MUTEX_FLAG_RELEASED = 0")
    case True
    then have "\<not> got" "m = (s_mutex s)\<lparr>m_waiters := wq_enqueue t (m_waiters (s_mutex s))\<rparr>"
      using lock_slow by (auto simp: mutex_lock_slow_def)
    then have "mutex_inv (ws @ [t]) s'" unfolding lock_slow(1)
      using True t mutex_inv_facts [OF assms(2)] mutex_inv_enqueue [OF assms(2), of t m] by simp
    then show ?thesis ..
  next
    case False
    have "mutex_inv ws s'" unfolding lock_slow(1)
      using mutex_inv_facts [OF assms(2)] lock_slow False t
      by (intro mutex_inv_move [OF assms(2)]) (auto simp: mutex_lock_slow_def mutex_invD(7) [OF assms(2)])
    then show ?thesis ..
  qed
next
  case (timeout t)
  then show ?thesis using mutex_inv_untimed [OF assms(2), of t] by simp
next
  case (timed_out t got m)
  then show ?thesis using mutex_inv_untimed [OF assms(2), of t] by simp
next
  case (unlock t slow m)
  have "mutex_inv ws s'" unfolding unlock(1)
    using mutex_inv_facts [OF assms(2)] unlock
    by (intro mutex_inv_move [OF assms(2)]) (auto simp: mutex_unlock_inline_def)
  then show ?thesis ..
next
  case (unlock_slow t w m)
  show ?thesis
  proof (cases ws)
    case Nil
    have "mutex_inv ws s'" unfolding unlock_slow(1)
      using mutex_inv_facts [OF assms(2)] unlock_slow mutex_inv_only_waiter [of s t] assms(2) Nil
      by (auto intro!: mutex_inv_move)
    then show ?thesis ..
  next
    case (Cons v vs)
    from mutex_inv_handoff [OF assms(2) [unfolded Cons] unlock_slow(2)] unlock_slow(1,3)
    have "mutex_inv vs s'" by auto
    then show ?thesis ..
  qed
qed

lemma mutex_reachable_inv: "(mutex_step False)\<^sup>*\<^sup>* (mutex_start flags) s \<Longrightarrow> \<exists>ws. mutex_inv ws s"
proof (induction rule: rtranclp_induct)
  case base
  show ?case using mutex_inv_start by blast
next
  case (step s s')
  then show ?case using mutex_step_inv by blast
qed


subsection \<open>Schedules\<close>

text \<open>The same steps as a function of an explicit schedule.\<close>

datatype mevent = ELock thread_id bool | ETrylock thread_id | ESwitch thread_id | ELockSlow thread_id
  | ETimeout thread_id | ETimedOut thread_id | EUnlock thread_id | EUnlockSlow thread_id

fun mutex_exec1 :: "bool \<Rightarrow> mevent \<Rightarrow> msys \<Rightarrow> msys option" where
  "mutex_exec1 T (ELock t timed) s =
     (if s_pc s t = Idle \<and> (timed \<longrightarrow> T)
      then let (slow, m) = mutex_lock_inline (s_mutex s)
        in Some \<lparr>s_mutex = m, s_pc = (s_pc s)(t := if slow then LockSlow timed else Holding)\<rparr>
      else None)"
| "mutex_exec1 T (ETrylock t) s =
     (if s_pc s t = Idle
      then let (ok, m) = mutex_trylock_inline (s_mutex s)
        in Some \<lparr>s_mutex = m, s_pc = (s_pc s)(t := if ok then Holding else Idle)\<rparr>
      else None)"
| "mutex_exec1 T (ESwitch t) s =
     (if s_pc s t = Idle
      then let (got, m) = mutex_lock_threads_locked t (s_mutex s)
        in Some \<lparr>s_mutex = m, s_pc = (s_pc s)(t := if got then Holding else Blocked False)\<rparr>
      else None)"
| "mutex_exec1 T (ELockSlow t) s =
     (case s_pc s t of
        LockSlow timed \<Rightarrow> (let (got, m) = mutex_lock_slow t (s_mutex s)
          in Some \<lparr>s_mutex = m, s_pc = (s_pc s)(t := if got then Holding else Blocked timed)\<rparr>)
      | _ \<Rightarrow> None)"
| "mutex_exec1 T (ETimeout t) s =
     (if s_pc s t = Blocked True then Some (s\<lparr>s_pc := (s_pc s)(t := TimedOut)\<rparr>) else None)"
| "mutex_exec1 T (ETimedOut t) s =
     (if s_pc s t = TimedOut
      then map_option (\<lambda>(got, m). \<lparr>s_mutex = m, s_pc = (s_pc s)(t := if got then Holding else Idle)\<rparr>)
        (mutex_timed_out t (s_mutex s))
      else None)"
| "mutex_exec1 T (EUnlock t) s =
     (if s_pc s t = Holding
      then let (slow, m) = mutex_unlock_inline (s_mutex s)
        in Some \<lparr>s_mutex = m, s_pc = (s_pc s)(t := if slow then UnlockSlow else Idle)\<rparr>
      else None)"
| "mutex_exec1 T (EUnlockSlow t) s =
     (if s_pc s t = UnlockSlow
      then let (w, m) = mutex_unlock_slow (s_mutex s)
        in Some \<lparr>s_mutex = m, s_pc = unblock w ((s_pc s)(t := Idle))\<rparr>
      else None)"

fun mutex_exec :: "bool \<Rightarrow> mevent list \<Rightarrow> msys \<Rightarrow> msys option" where
  "mutex_exec T [] s = Some s"
| "mutex_exec T (e # es) s = Option.bind (mutex_exec1 T e s) (mutex_exec T es)"

lemma mutex_exec1_step: "mutex_exec1 T e s = Some s' \<Longrightarrow> mutex_step T s s'"
proof -
  assume that: "mutex_exec1 T e s = Some s'"
  show ?thesis
  proof (cases e)
  case (ELock t timed)
  obtain r m where "mutex_lock_inline (s_mutex s) = (r, m)" by fastforce
  with that ELock show ?thesis using mutex_step.lock [of s t r m timed T] by (simp split: if_splits)
  next
  case (ETrylock t)
  obtain r m where "mutex_trylock_inline (s_mutex s) = (r, m)" by fastforce
  with that ETrylock show ?thesis using mutex_step.trylock [of s t r m T] by (simp split: if_splits)
  next
  case (ESwitch t)
  obtain r m where "mutex_lock_threads_locked t (s_mutex s) = (r, m)" by fastforce
  with that ESwitch show ?thesis using mutex_step.switch_lock [of s t r m T] by (simp split: if_splits)
  next
  case (EUnlock t)
  obtain r m where "mutex_unlock_inline (s_mutex s) = (r, m)" by fastforce
  with that EUnlock show ?thesis using mutex_step.unlock [of s t r m T] by (simp split: if_splits)
  next
  case (EUnlockSlow t)
  obtain r m where "mutex_unlock_slow (s_mutex s) = (r, m)" by fastforce
  with that EUnlockSlow show ?thesis using mutex_step.unlock_slow [of s t r m T] by (simp split: if_splits)
  next
  case (ELockSlow t)
  obtain r m where "mutex_lock_slow t (s_mutex s) = (r, m)" by fastforce
  with that ELockSlow show ?thesis using mutex_step.lock_slow [of s t _ r m T] by (auto split: mpc.splits)
  next
  case (ETimeout t)
  with that show ?thesis using mutex_step.timeout [of s t T] by (simp split: if_splits)
  next
  case (ETimedOut t)
  with that obtain r m where "mutex_timed_out t (s_mutex s) = Some (r, m)" "s_pc s t = TimedOut" by (auto split: if_splits)
  with that ETimedOut show ?thesis using mutex_step.timed_out [of s t r m T] by simp
  qed
qed

lemma mutex_exec_steps: "mutex_exec T es s = Some s' \<Longrightarrow> (mutex_step T)\<^sup>*\<^sup>* s s'"
proof (induction es arbitrary: s)
  case (Cons e es)
  then obtain s1 where "mutex_exec1 T e s = Some s1" "mutex_exec T es s1 = Some s'" by (auto split: bind_splits)
  with mutex_exec1_step [of T e s s1] Cons.IH [of s1] show ?case by (meson converse_rtranclp_into_rtranclp)
qed simp

subsection \<open>Progress of the queue\<close>

text \<open>The calls of \<open>mutex_unlock\<close> that release a mutex with waiters.\<close>

definition handoff :: "thread_id \<Rightarrow> mevent list" where
  "handoff h = [EUnlock h, EUnlockSlow h]"

lemma mutex_inv_token:
  assumes inv: "mutex_inv (w # ws) s"
  shows "\<exists>h. s_pc s h \<in> {Holding, UnlockSlow} \<and> (\<forall>t. s_pc s t \<in> {Holding, UnlockSlow} \<longrightarrow> t = h)"
proof -
  note i = mutex_invD [OF inv]
  have tok: "census (s_pc s) {Holding} + census (s_pc s) {UnlockSlow} = 1" using i(5,6,7) by simp
  have fin: "finite {t. s_pc s t \<in> {p}}" if "p \<noteq> Idle" for p using that by (intro finite_subset [OF _ i(4)]) auto
  have pos: "0 < census (s_pc s) {p}" if "s_pc s t = p" "p \<noteq> Idle" for p t using census_pos [OF fin, of p t] that by simp
  have uniq: "t = u" if "s_pc s t = p" "s_pc s u = p" "p \<in> {Holding, UnlockSlow}" for p t u
    using census_le_one [OF fin, of p t u] tok that by auto
  have "0 < census (s_pc s) {Holding} \<or> 0 < census (s_pc s) {UnlockSlow}" using tok by linarith
  then obtain h where h: "s_pc s h \<in> {Holding, UnlockSlow}" by (auto simp: census_def card_gt_0_iff)
  have "t = h" if "s_pc s t \<in> {Holding, UnlockSlow}" for t
    using uniq [of t "s_pc s h" h] pos [of t] pos [of h] h that tok by fastforce
  with h show ?thesis by blast
qed

text \<open>From a state with waiters, at most an unlock and its slow part hand the lock to the first waiter.\<close>

lemma mutex_serve_slow:
  assumes inv: "mutex_inv (w # ws) s" and h: "s_pc s h = UnlockSlow"
  shows "\<exists>s'. mutex_exec1 False (EUnlockSlow h) s = Some s' \<and> mutex_inv ws s' \<and> s_pc s' = (s_pc s)(h := Idle, w := Holding)"
  using mutex_inv_handoff [OF inv h] h by (auto split: prod.split)

lemma mutex_serve:
  assumes inv: "mutex_inv (w # ws) s" and h: "s_pc s h = Holding"
  shows "\<exists>s'. mutex_exec False (handoff h) s = Some s' \<and> mutex_inv ws s' \<and> s_pc s' = (s_pc s)(h := Idle, w := Holding)"
proof -
  note i = mutex_invD [OF inv]
  have fin: "finite {t. s_pc s t \<in> {Holding}}" by (intro finite_subset [OF _ i(4)]) auto
  have c: "m_count (s_mutex s) < -1" using census_pos [OF fin, of h] i(5) h by simp
  let ?s = "\<lparr>s_mutex = (s_mutex s)\<lparr>m_count := m_count (s_mutex s) + 1\<rparr>, s_pc = (s_pc s)(h := UnlockSlow)\<rparr>"
  have e: "mutex_exec1 False (EUnlock h) s = Some ?s" using h c by (simp add: mutex_unlock_inline_def)
  have "mutex_inv (w # ws) ?s" using mutex_inv_facts [OF inv] h c by (intro mutex_inv_move [OF inv]) (auto simp: i(7))
  from mutex_serve_slow [OF this, of h] e show ?thesis by (auto simp: handoff_def)
qed

lemma mutex_exec_append: "mutex_exec T (es @ fs) s = Option.bind (mutex_exec T es s) (mutex_exec T fs)"
  by (induction es arbitrary: s) (auto split: Option.bind_split)

lemma mutex_serve_all:
  "mutex_inv (xs @ t # ys) s \<Longrightarrow> s_pc s h = Holding \<Longrightarrow>
   \<exists>s'. mutex_exec False (concat (map handoff (h # xs))) s = Some s' \<and> mutex_inv ys s' \<and> s_pc s' t = Holding
     \<and> (\<forall>z. s_pc s' z = (if z = t then Holding else if z \<in> set (h # xs) then Idle else s_pc s z))"
proof (induction xs arbitrary: s h)
  case Nil
  then show ?case using mutex_serve [of t ys s h] by auto
next
  case (Cons x xs)
  then obtain s1 where s1: "mutex_exec False (handoff h) s = Some s1" "mutex_inv (xs @ t # ys) s1"
    "s_pc s1 = (s_pc s)(h := Idle, x := Holding)" using mutex_serve [of x "xs @ t # ys" s h] by auto
  from Cons.IH [OF s1(2), of x] s1(3) obtain s' where s': "mutex_exec False (concat (map handoff (x # xs))) s1 = Some s'"
    "mutex_inv ys s'" "s_pc s' t = Holding"
    "\<forall>z. s_pc s' z = (if z = t then Holding else if z \<in> set (x # xs) then Idle else s_pc s1 z)" by auto
  have "mutex_exec False (concat (map handoff (h # x # xs))) s = Some s'"
    using s1(1) s'(1) by (simp only: list.map concat.simps(2) [of "handoff h"] mutex_exec_append) simp
  moreover have "s_pc s' z = (if z = t then Holding else if z \<in> set (h # x # xs) then Idle else s_pc s z)" for z
    using s'(4) s1(3) by auto
  ultimately show ?case using s'(2,3) by blast
qed

text \<open>While there is a queue, a step either leaves it as it is, but for a new thread at its end, and nobody gets the
  mutex, or hands the mutex to the first waiter.\<close>

lemma mutex_step_queue:
  assumes "mutex_step False s s'" and inv: "mutex_inv (w # ws) s"
  shows "(\<exists>zs. length zs \<le> 1 \<and> mutex_inv (w # ws @ zs) s' \<and> (\<forall>u. s_pc s' u = Holding \<longrightarrow> s_pc s u = Holding))
    \<or> (mutex_inv ws s' \<and> s_pc s' w = Holding \<and> (\<forall>u. s_pc s' u = Holding \<longrightarrow> u = w))"
proof -
  note i = mutex_invD [OF inv]
  have c: "m_count (s_mutex s) < 0" and f: "m_flags (s_mutex s) AND MUTEX_FLAG_RELEASED = 0" using i(5,7) by simp_all
  have stay: ?thesis if "mutex_inv (w # ws) s'" "\<And>u. s_pc s' u = Holding \<Longrightarrow> s_pc s u = Holding"
    using that by (intro disjI1 exI [of _ "[]"]) simp
  have behind: ?thesis if "mutex_inv ((w # ws) @ [t]) s'" "\<And>u. s_pc s' u = Holding \<Longrightarrow> s_pc s u = Holding" for t
    using that by (intro disjI1 exI [of _ "[t]"]) simp
  show ?thesis using assms(1)
  proof (cases rule: mutex_step.cases)
    case (lock t slow m timed)
    have "mutex_inv (w # ws) s'" unfolding lock(1)
      using mutex_inv_facts [OF inv] lock c by (intro mutex_inv_move [OF inv]) (auto simp: mutex_lock_inline_def f)
    then show ?thesis by (rule stay) (use lock c in \<open>auto simp: mutex_lock_inline_def split: if_splits\<close>)
  next
    case (trylock t ok m)
    then have "s' = s" using c by (auto simp: mutex_trylock_inline_def fun_upd_idem)
    with inv show ?thesis by (intro stay) simp_all
  next
    case (switch_lock t got m)
    then have g: "\<not> got" "m = (s_mutex s)\<lparr>m_waiters := wq_enqueue t (m_waiters (s_mutex s)), m_count := m_count (s_mutex s) - 1\<rparr>"
      using c f by (auto simp: mutex_lock_threads_locked_def mutex_lock_inline_def mutex_lock_slow_def)
    then have "mutex_inv ((w # ws) @ [t]) s'" unfolding switch_lock(1)
      using c f switch_lock mutex_inv_enqueue [OF inv, of t m] by simp
    then show ?thesis by (rule behind) (use g switch_lock in \<open>auto split: if_splits\<close>)
  next
    case (lock_slow t timed got m)
    then have t: "s_pc s t = LockSlow False" "timed = False" using mutex_inv_untimed [OF inv, of t] by (cases timed; simp)+
    have g: "\<not> got" "m = (s_mutex s)\<lparr>m_waiters := wq_enqueue t (m_waiters (s_mutex s))\<rparr>"
      using f lock_slow by (auto simp: mutex_lock_slow_def)
    then have "mutex_inv ((w # ws) @ [t]) s'" unfolding lock_slow(1)
      using c f t mutex_inv_enqueue [OF inv, of t m] by simp
    then show ?thesis by (rule behind) (use g lock_slow in \<open>auto split: if_splits\<close>)
  next
    case (timeout t)
    then show ?thesis using mutex_inv_untimed [OF inv, of t] by simp
  next
    case (timed_out t got m)
    then show ?thesis using mutex_inv_untimed [OF inv, of t] by simp
  next
    case (unlock t slow m)
    have "mutex_inv (w # ws) s'" unfolding unlock(1)
      using mutex_inv_facts [OF inv] unlock by (intro mutex_inv_move [OF inv]) (auto simp: mutex_unlock_inline_def)
    then show ?thesis by (rule stay) (use unlock in \<open>auto split: if_splits\<close>)
  next
    case (unlock_slow t v m)
    from mutex_inv_handoff [OF inv unlock_slow(2)] unlock_slow(1,3)
    have "mutex_inv ws s'" "s_pc s' = (s_pc s)(t := Idle, w := Holding)" by auto
    moreover have "u = t" if "s_pc s u = Holding" for u
      using mutex_inv_token [OF inv] that unlock_slow(2) by (metis insertCI)
    ultimately show ?thesis by auto
  qed
qed

lemma mutex_reachable_facts:
  assumes "(mutex_step False)\<^sup>*\<^sup>* (mutex_start flags) s"
  shows "s_pc s t = Holding \<and> s_pc s u = Holding \<longrightarrow> t = u"
    and "s_pc s t = Blocked b \<longrightarrow> (\<exists>u. s_pc s u \<in> {Holding, UnlockSlow})"
    and "m_count (s_mutex s) = 0 \<longleftrightarrow> (\<forall>t. s_pc s t = Idle)"
proof -
  obtain ws where inv: "mutex_inv ws s" using mutex_reachable_inv [OF assms] by blast
  note i = mutex_invD [OF inv]
  have fin: "finite {t. s_pc s t \<in> {Holding}}" by (intro finite_subset [OF _ i(4)]) auto
  have "census (s_pc s) {Holding} \<le> 1" using i(6) by (cases "m_count (s_mutex s) = 0") auto
  then show "s_pc s t = Holding \<and> s_pc s u = Holding \<longrightarrow> t = u" using census_le_one [OF fin, of t u] by simp
  show "s_pc s t = Blocked b \<longrightarrow> (\<exists>u. s_pc s u \<in> {Holding, UnlockSlow})"
  proof
    assume "s_pc s t = Blocked b"
    then have "s_pc s t = Blocked False" using i(3) by (cases b) auto
    then obtain w ws' where "ws = w # ws'" using i(2) by (cases ws) auto
    with mutex_inv_token [of w ws' s] inv show "\<exists>u. s_pc s u \<in> {Holding, UnlockSlow}" by blast
  qed
  show "m_count (s_mutex s) = 0 \<longleftrightarrow> (\<forall>t. s_pc s t = Idle)"
  proof
    assume z: "m_count (s_mutex s) = 0"
    have "s_pc s t = Idle" for t
    proof (cases "s_pc s t")
      case (LockSlow b)
      then show ?thesis using mutex_inv_facts(3) [OF inv, of t] i(3) z by (cases b) auto
    next
      case (Blocked b)
      then have "t \<in> set ws" using i(2,3) by (cases b) auto
      then have "0 < length ws" by (cases ws) auto
      then show ?thesis using i(5) z by linarith
    next
      case TimedOut
      then show ?thesis using i(3) by auto
    next
      case Holding
      then show ?thesis using mutex_inv_facts(2) [OF inv, of t] z by simp
    next
      case UnlockSlow
      then show ?thesis using mutex_inv_facts(4) [OF inv, of t] z by simp
    qed
    then show "\<forall>t. s_pc s t = Idle" ..
  next
    assume a: "\<forall>t. s_pc s t = Idle"
    then have "ws = []" using i(2) by (cases ws) auto
    with a i(5) show "m_count (s_mutex s) = 0" by (simp add: census_def)
  qed
qed

text \<open>
  C4: In the release build, as long as no lock call has a timeout, the mutex excludes: in every reachable state at
  most one thread holds it. A thread that is blocked on it is always backed by a thread that holds the mutex or is
  just releasing it, so no wakeup is lost, and the counter is 0 exactly when nobody holds the mutex, waits for it or
  is about to.
\<close>

theorem mutex_exclusion:
  assumes "(mutex_step False)\<^sup>*\<^sup>* (mutex_start flags) s"
  shows "(\<forall>t u. s_pc s t = Holding \<and> s_pc s u = Holding \<longrightarrow> t = u)
    \<and> (\<forall>t b. s_pc s t = Blocked b \<longrightarrow> (\<exists>u. s_pc s u \<in> {Holding, UnlockSlow}))
    \<and> (m_count (s_mutex s) = 0 \<longleftrightarrow> (\<forall>t. s_pc s t = Idle))"
  using mutex_reachable_facts [OF assms] by blast

theorem mutex_exclusion_witness:
  "\<exists>s. mutex_exec False [ELock 1 False, ELock 2 False, ELockSlow 2] (mutex_start 0) = Some s
    \<and> s_pc s 1 = Holding \<and> s_pc s 2 = Blocked False \<and> (\<forall>u. s_pc s u = Holding \<longrightarrow> u = 1)"
proof -
  obtain s where s: "mutex_exec False [ELock 1 False, ELock 2 False, ELockSlow 2] (mutex_start 0) = Some s"
    "s_pc s 1 = Holding" "s_pc s 2 = Blocked False"
    by (simp add: mutex_start_def mutex_init_etc_def mutex_lock_inline_def mutex_lock_slow_def)
  from mutex_exclusion [OF mutex_exec_steps [OF s(1)]] s show ?thesis by blast
qed

text \<open>
  C13: A mutex is granted in the order of its queue, and nobody in the queue can be stranded. In every reachable state
  of the release build without timeouts in which a thread \<open>t\<close> is queued behind the threads \<open>xs\<close> (\<open>ys\<close> behind it), there
  is a thread \<open>h\<close> that holds the mutex or is releasing it, and the unlock calls of \<open>h\<close> and then of the threads of
  \<open>xs\<close>, in the order of the queue and with no other call in between, are all possible and leave \<open>t\<close> with the mutex,
  \<open>ys\<close> queued, \<open>h\<close> and \<open>xs\<close> outside and every other thread where it was. And nobody overtakes: any step of any thread
  either hands the mutex to the first of the queue and to nobody else, or leaves the queue, with at most one new thread
  at its end, and gives the mutex to nobody.
\<close>

theorem mutex_queue_served:
  assumes "(mutex_step False)\<^sup>*\<^sup>* (mutex_start flags) s" "wq_list (m_waiters (s_mutex s)) (xs @ t # ys)"
  shows "(\<exists>h s'. (s_pc s h = Holding \<and> mutex_exec False (concat (map handoff (h # xs))) s = Some s'
        \<or> s_pc s h = UnlockSlow \<and> mutex_exec False (EUnlockSlow h # concat (map handoff xs)) s = Some s')
      \<and> (\<forall>z. s_pc s' z = (if z = t then Holding else if z \<in> set (h # xs) then Idle else s_pc s z))
      \<and> wq_list (m_waiters (s_mutex s')) ys)
    \<and> (\<forall>s'. mutex_step False s s' \<longrightarrow>
        (\<exists>zs. length zs \<le> 1 \<and> wq_list (m_waiters (s_mutex s')) (xs @ t # ys @ zs) \<and> (\<forall>u. s_pc s' u = Holding \<longrightarrow> s_pc s u = Holding))
        \<or> (wq_list (m_waiters (s_mutex s')) (tl (xs @ t # ys)) \<and> (\<forall>u. s_pc s' u = Holding \<longleftrightarrow> u = hd (xs @ t # ys))))"
    (is "?serve \<and> ?fair")
proof
  obtain ws where "mutex_inv ws s" using mutex_reachable_inv [OF assms(1)] by blast
  with wq_list_unique [OF mutex_invD(1) [OF this] assms(2)] have inv: "mutex_inv (xs @ t # ys) s" by simp
  then obtain w ws where ws: "xs @ t # ys = w # ws" by (cases xs) auto
  with inv have winv: "mutex_inv (w # ws) s" by simp
  obtain h where "s_pc s h = Holding \<or> s_pc s h = UnlockSlow" using mutex_inv_token [OF winv] by blast
  then show ?serve
  proof
    assume "s_pc s h = Holding"
    with mutex_serve_all [OF inv this] show ?serve by (blast dest: mutex_invD(1))
  next
    assume h: "s_pc s h = UnlockSlow"
    from mutex_serve_slow [OF winv h] obtain s1 where s1: "mutex_exec1 False (EUnlockSlow h) s = Some s1"
      "mutex_inv ws s1" "s_pc s1 = (s_pc s)(h := Idle, w := Holding)" by blast
    show ?serve
    proof (cases xs)
      case Nil
      with ws s1 h show ?thesis by (intro exI [of _ h] exI [of _ s1]) (auto dest: mutex_invD(1))
    next
      case (Cons x xs')
      with ws s1(2,3) have "mutex_inv (xs' @ t # ys) s1" "s_pc s1 x = Holding" by auto
      from mutex_serve_all [OF this] obtain s' where s': "mutex_exec False (concat (map handoff xs)) s1 = Some s'" "mutex_inv ys s'"
        "\<forall>z. s_pc s' z = (if z = t then Holding else if z \<in> set xs then Idle else s_pc s1 z)" using Cons by auto
      have "mutex_exec False (EUnlockSlow h # concat (map handoff xs)) s = Some s'" using s1(1) s'(1) by simp
      with h s'(2,3) s1(3) ws Cons show ?thesis by (intro exI [of _ h] exI [of _ s']) (auto dest: mutex_invD(1))
    qed
  qed
  show ?fair using mutex_step_queue [OF _ winv] unfolding ws append_assoc [symmetric] append_Cons [symmetric]
    by (metis (no_types, lifting) append_Cons list.sel(1,3) mutex_invD(1) append_assoc ws)
qed

theorem mutex_queue_served_witness:
  "\<exists>s s'. mutex_exec False [ELock 1 False, ELock 2 False, ELockSlow 2, ELock 3 False, ELockSlow 3] (mutex_start 0) = Some s
    \<and> mutex_exec False (concat (map handoff [1, 2])) s = Some s' \<and> s_pc s' 3 = Holding \<and> s_pc s' 2 = Idle"
proof -
  obtain s where s: "mutex_exec False [ELock 1 False, ELock 2 False, ELockSlow 2, ELock 3 False, ELockSlow 3] (mutex_start 0) = Some s"
    "wq_list (m_waiters (s_mutex s)) ([2] @ 3 # [])" "s_pc s = (\<lambda>_. Idle)(1 := Holding, 2 := Blocked False, 3 := Blocked False)"
    by (simp add: mutex_start_def mutex_init_etc_def mutex_lock_inline_def mutex_lock_slow_def wq_enqueue_def wq_init_def
        wq_list_def Let_def)
  obtain h s' where s': "s_pc s h = Holding \<and> mutex_exec False (concat (map handoff (h # [2]))) s = Some s'
      \<or> s_pc s h = UnlockSlow \<and> mutex_exec False (EUnlockSlow h # concat (map handoff [2])) s = Some s'"
    "\<forall>z. s_pc s' z = (if z = 3 then Holding else if z \<in> set (h # [2]) then Idle else s_pc s z)"
    using conjunct1 [OF mutex_queue_served [OF mutex_exec_steps [OF s(1)] s(2)]] by blast
  from s'(1) s(3) have "h = 1" by (auto split: if_splits)
  with s' s(1,3) show ?thesis by auto
qed

text \<open>
  C38: With timeouts the release build does not exclude: thread 1 holds the mutex and thread 2 waits with a timeout.
  Thread 1 begins to release and finds that it has to wake a waiter; before it gets the spinlock, thread 2 times out,
  leaves the queue and takes back its count. Thread 1 then finds no waiter and sets the released flag on a mutex whose
  count is already 0. The next thread takes the mutex through the count, and the one after it through the flag.
\<close>

theorem mutex_timeout_breaks_exclusion:
  "\<exists>s. (mutex_step True)\<^sup>*\<^sup>* (mutex_start 0) s \<and> s_pc s 3 = Holding \<and> s_pc s 4 = Holding"
proof -
  have "\<exists>s. mutex_exec True [ELock 1 False, ELock 2 True, ELockSlow 2, EUnlock 1, ETimeout 2, ETimedOut 2, EUnlockSlow 1,
      ELock 3 False, ELock 4 False, ELockSlow 4] (mutex_start 0) = Some s \<and> s_pc s 3 = Holding \<and> s_pc s 4 = Holding"
    by (simp add: mutex_start_def mutex_init_etc_def mutex_lock_inline_def mutex_lock_slow_def wq_enqueue_def wq_init_def
        mutex_unlock_inline_def mutex_timed_out_def mutex_dequeue_waiter_def mutex_find.simps mutex_unlock_slow_def Let_def)
  then show ?thesis using mutex_exec_steps by blast
qed


subsection \<open>The debug build\<close>

text \<open>
  With \<open>KDEBUG\<close> there is no count: all operations work under the spinlock and record the \<open>holder\<close>, which is -1
  for a free mutex and 0 for one that is not initialized. A \<open>panic\<close> or a failed \<open>ASSERT\<close> is a result of its own.
\<close>

record kmutex =
  k_waiters :: waitq
  k_holder :: int

datatype kres = Got | Block | WouldBlock | Failed | Panic

definition kmutex_init :: kmutex where
  "kmutex_init = \<lparr>k_waiters = wq_init, k_holder = -1\<rparr>"

definition kmutex_lock :: "thread_id \<Rightarrow> kmutex \<Rightarrow> kres \<times> kmutex" where
  "kmutex_lock t m =
     (if k_holder m < 0 then (Got, m\<lparr>k_holder := int t\<rparr>)
      else if k_holder m = int t \<or> k_holder m = 0 then (Panic, m)
      else (Block, m\<lparr>k_waiters := wq_enqueue t (k_waiters m)\<rparr>))"

definition kmutex_trylock :: "thread_id \<Rightarrow> kmutex \<Rightarrow> kres \<times> kmutex" where
  "kmutex_trylock t m =
     (if k_holder m < 0 then (Got, m\<lparr>k_holder := int t\<rparr>)
      else if k_holder m = 0 then (Panic, m)
      else (WouldBlock, m))"

definition kmutex_unlock :: "thread_id \<Rightarrow> kmutex \<Rightarrow> kres \<times> thread_id option \<times> kmutex" where
  "kmutex_unlock t m =
     (if int t \<noteq> k_holder m then (Panic, None, m)
      else
        case wq_first (k_waiters m) of
          Some _ \<Rightarrow>
            (let (w, q) = wq_dequeue (k_waiters m)
             in (Got, w, m\<lparr>k_waiters := q, k_holder := int (the w)\<rparr>))
        | None \<Rightarrow> (Got, None, m\<lparr>k_holder := -1\<rparr>))"

definition kmutex_timed_out :: "thread_id \<Rightarrow> kmutex \<Rightarrow> (kres \<times> kmutex) option" where
  "kmutex_timed_out t m =
     (case mutex_dequeue_waiter t (k_waiters m) of
        None \<Rightarrow> None
      | Some (queued, q) \<Rightarrow>
          if queued then Some (Failed, m\<lparr>k_waiters := q\<rparr>)
          else if k_holder m = int t then Some (Got, m) else Some (Panic, m))"

definition mutex_transfer_lock :: "thread_id \<Rightarrow> thread_id \<Rightarrow> kmutex \<Rightarrow> kres \<times> kmutex" where
  "mutex_transfer_lock t thread m = (if int t \<noteq> k_holder m then (Panic, m) else (Got, m\<lparr>k_holder := int thread\<rparr>))"

record ksys =
  ks_mutex :: kmutex
  ks_pc :: "thread_id \<Rightarrow> mpc"

fun lock_result :: "kres \<Rightarrow> bool \<Rightarrow> mpc" where
  "lock_result Got timed = Holding"
| "lock_result Block timed = Blocked timed"
| "lock_result _ timed = Idle"

text \<open>Thread identifiers are positive. A panic stops the machine: no step leaves it.\<close>

inductive kmutex_step :: "ksys \<Rightarrow> ksys \<Rightarrow> bool" where
  lock: "0 < t \<Longrightarrow> ks_pc s t = Idle \<Longrightarrow> kmutex_lock t (ks_mutex s) = (r, m) \<Longrightarrow> r \<noteq> Panic \<Longrightarrow>
    kmutex_step s \<lparr>ks_mutex = m, ks_pc = (ks_pc s)(t := lock_result r timed)\<rparr>"
| trylock: "0 < t \<Longrightarrow> ks_pc s t = Idle \<Longrightarrow> kmutex_trylock t (ks_mutex s) = (r, m) \<Longrightarrow> r \<noteq> Panic \<Longrightarrow>
    kmutex_step s \<lparr>ks_mutex = m, ks_pc = (ks_pc s)(t := lock_result r False)\<rparr>"
| timeout: "ks_pc s t = Blocked True \<Longrightarrow> kmutex_step s (s\<lparr>ks_pc := (ks_pc s)(t := TimedOut)\<rparr>)"
| timed_out: "ks_pc s t = TimedOut \<Longrightarrow> kmutex_timed_out t (ks_mutex s) = Some (r, m) \<Longrightarrow> r \<noteq> Panic \<Longrightarrow>
    kmutex_step s \<lparr>ks_mutex = m, ks_pc = (ks_pc s)(t := lock_result r False)\<rparr>"
| unlock: "ks_pc s t = Holding \<Longrightarrow> kmutex_unlock t (ks_mutex s) = (r, w, m) \<Longrightarrow> r \<noteq> Panic \<Longrightarrow>
    kmutex_step s \<lparr>ks_mutex = m, ks_pc = unblock w ((ks_pc s)(t := Idle))\<rparr>"
| transfer: "0 < u \<Longrightarrow> ks_pc s t = Holding \<Longrightarrow> ks_pc s u = Idle \<Longrightarrow> mutex_transfer_lock t u (ks_mutex s) = (r, m) \<Longrightarrow> r \<noteq> Panic \<Longrightarrow>
    kmutex_step s \<lparr>ks_mutex = m, ks_pc = (ks_pc s)(t := Idle, u := Holding)\<rparr>"

definition kmutex_start :: ksys where
  "kmutex_start = \<lparr>ks_mutex = kmutex_init, ks_pc = (\<lambda>_. Idle)\<rparr>"

text \<open>The owner is the holding thread, or a timed out one that was handed the mutex before it noticed.\<close>

definition kowner :: "thread_id list \<Rightarrow> ksys \<Rightarrow> thread_id \<Rightarrow> bool" where
  "kowner ws s t \<longleftrightarrow> ks_pc s t = Holding \<or> ks_pc s t = TimedOut \<and> t \<notin> set ws"

definition kmutex_inv :: "thread_id list \<Rightarrow> ksys \<Rightarrow> bool" where
  "kmutex_inv ws s \<longleftrightarrow>
     wq_list (k_waiters (ks_mutex s)) ws
     \<and> (\<forall>t\<in>set ws. 0 < t \<and> (ks_pc s t = TimedOut \<or> (\<exists>b. ks_pc s t = Blocked b)))
     \<and> (\<forall>t b. ks_pc s t = Blocked b \<longrightarrow> t \<in> set ws)
     \<and> (\<forall>t b. ks_pc s t \<noteq> LockSlow b \<and> ks_pc s t \<noteq> UnlockSlow)
     \<and> (if k_holder (ks_mutex s) < 0 then ws = [] \<and> (\<forall>t. \<not> kowner ws s t)
        else \<exists>h>0. k_holder (ks_mutex s) = int h \<and> kowner ws s h \<and> (\<forall>t. kowner ws s t \<longrightarrow> t = h))"

lemma kmutex_invD:
  assumes "kmutex_inv ws s"
  shows "wq_list (k_waiters (ks_mutex s)) ws" "t \<in> set ws \<Longrightarrow> 0 < t \<and> (ks_pc s t = TimedOut \<or> (\<exists>b. ks_pc s t = Blocked b))"
    "ks_pc s t = Blocked b \<Longrightarrow> t \<in> set ws" "ks_pc s t \<noteq> LockSlow b" "ks_pc s t \<noteq> UnlockSlow"
    "k_holder (ks_mutex s) < 0 \<Longrightarrow> ws = [] \<and> \<not> kowner ws s t"
    "0 \<le> k_holder (ks_mutex s) \<Longrightarrow> \<exists>h>0. k_holder (ks_mutex s) = int h \<and> kowner ws s h \<and> (\<forall>t. kowner ws s t \<longrightarrow> t = h)"
    "kowner ws s t \<Longrightarrow> k_holder (ks_mutex s) = int t"
proof -
  note i = assms [unfolded kmutex_inv_def]
  show "wq_list (k_waiters (ks_mutex s)) ws" "t \<in> set ws \<Longrightarrow> 0 < t \<and> (ks_pc s t = TimedOut \<or> (\<exists>b. ks_pc s t = Blocked b))"
    "ks_pc s t = Blocked b \<Longrightarrow> t \<in> set ws" "ks_pc s t \<noteq> LockSlow b" "ks_pc s t \<noteq> UnlockSlow" using i by blast+
  show "k_holder (ks_mutex s) < 0 \<Longrightarrow> ws = [] \<and> \<not> kowner ws s t" using i by metis
  show h: "0 \<le> k_holder (ks_mutex s) \<Longrightarrow> \<exists>h>0. k_holder (ks_mutex s) = int h \<and> kowner ws s h \<and> (\<forall>t. kowner ws s t \<longrightarrow> t = h)"
    using i by (metis not_less)
  show "kowner ws s t \<Longrightarrow> k_holder (ks_mutex s) = int t" using i h by (metis not_less)
qed


lemma kmutex_inv_start: "kmutex_inv [] kmutex_start"
  by (simp add: kmutex_inv_def kmutex_start_def kmutex_init_def wq_list_init kowner_def)

lemma kmutex_invI:
  assumes "wq_list (k_waiters m) ws" "\<And>t. t \<in> set ws \<Longrightarrow> 0 < t \<and> (pc t = TimedOut \<or> (\<exists>b. pc t = Blocked b))"
    "\<And>t b. pc t = Blocked b \<Longrightarrow> t \<in> set ws" "\<And>t b. pc t \<noteq> LockSlow b" "\<And>t. pc t \<noteq> UnlockSlow"
    "k_holder m = int h" "0 < h" "\<And>t. kowner ws \<lparr>ks_mutex = m, ks_pc = pc\<rparr> t \<longleftrightarrow> t = h"
  shows "kmutex_inv ws \<lparr>ks_mutex = m, ks_pc = pc\<rparr>"
proof -
  have "\<exists>h'>0. int h = int h' \<and> h' = h \<and> (\<forall>t. t = h \<longrightarrow> t = h')" using assms(7) by blast
  then show ?thesis unfolding kmutex_inv_def using assms by simp
qed

text \<open>A free mutex is taken.\<close>

lemma kmutex_inv_take:
  assumes inv: "kmutex_inv ws s" and h: "k_holder (ks_mutex s) < 0" and t: "0 < t" "ks_pc s t = Idle"
  shows "kmutex_inv ws \<lparr>ks_mutex = (ks_mutex s)\<lparr>k_holder := int t\<rparr>, ks_pc = (ks_pc s)(t := Holding)\<rparr>"
proof -
  note i = kmutex_invD [OF inv]
  have e: "ws = []" using i(6) [OF h, of t] by blast
  have n: "ks_pc s u \<noteq> Holding \<and> ks_pc s u \<noteq> TimedOut" for u using i(6) [OF h, of u] e by (auto simp: kowner_def)
  show ?thesis unfolding kmutex_inv_def kowner_def using i(1,3-5) e n t by (auto intro!: exI [of _ t])
qed

lemma kmutex_inv_block:
  assumes inv: "kmutex_inv ws s" and h: "0 \<le> k_holder (ks_mutex s)" and t: "0 < t" "ks_pc s t = Idle"
  shows "kmutex_inv (ws @ [t]) \<lparr>ks_mutex = (ks_mutex s)\<lparr>k_waiters := wq_enqueue t (k_waiters (ks_mutex s))\<rparr>,
    ks_pc = (ks_pc s)(t := Blocked b)\<rparr>"
proof -
  note i = kmutex_invD [OF inv]
  have tw: "t \<notin> set ws" using i(2) [of t] t by auto
  obtain v where v: "v > 0" "k_holder (ks_mutex s) = int v" "kowner ws s v" "\<forall>t. kowner ws s t \<longrightarrow> t = v" using i(7) [OF h] by blast
  have own: "u = v \<longleftrightarrow> kowner ws s u" for u using v(3,4) by blast
  show ?thesis
  proof (rule kmutex_invI [where h = v])
    show "kowner (ws @ [t]) \<lparr>ks_mutex = (ks_mutex s)\<lparr>k_waiters := wq_enqueue t (k_waiters (ks_mutex s))\<rparr>,
      ks_pc = (ks_pc s)(t := Blocked b)\<rparr> u \<longleftrightarrow> u = v" for u
      unfolding own using t tw by (simp add: kowner_def)
    show "0 < u \<and> (((ks_pc s)(t := Blocked b)) u = TimedOut \<or> (\<exists>c. ((ks_pc s)(t := Blocked b)) u = Blocked c))"
      if "u \<in> set (ws @ [t])" for u using that i(2) [of u] t by auto
    show "u \<in> set (ws @ [t])" if "((ks_pc s)(t := Blocked b)) u = Blocked c" for u c
      using that i(3) [of u c] by (simp split: if_splits)
  qed (use wq_enqueue_list [OF i(1) tw] v(1,2) i(4,5) in \<open>simp_all\<close>)
qed

lemma kmutex_inv_timeout:
  assumes inv: "kmutex_inv ws s" and t: "ks_pc s t = Blocked True"
  shows "kmutex_inv ws (s\<lparr>ks_pc := (ks_pc s)(t := TimedOut)\<rparr>)"
proof -
  note i = kmutex_invD [OF inv]
  have ko: "kowner ws (s\<lparr>ks_pc := (ks_pc s)(t := TimedOut)\<rparr>) u \<longleftrightarrow> kowner ws s u" for u
    using t i(3) [OF t] by (auto simp: kowner_def)
  show ?thesis using inv t i(3) [OF t] unfolding kmutex_inv_def ko by auto
qed

lemma kmutex_inv_leave:
  assumes inv: "kmutex_inv ws s" and t: "ks_pc s t = TimedOut" "t \<in> set ws" and q: "wq_list q (remove1 t ws)"
  shows "kmutex_inv (remove1 t ws) \<lparr>ks_mutex = (ks_mutex s)\<lparr>k_waiters := q\<rparr>, ks_pc = (ks_pc s)(t := Idle)\<rparr>"
proof -
  note i = kmutex_invD [OF inv]
  have d: "distinct ws" using wq_list_distinct [OF i(1)] .
  have "\<not> k_holder (ks_mutex s) < 0" using i(6) t(2) by fastforce
  then obtain v where v: "v > 0" "k_holder (ks_mutex s) = int v" "kowner ws s v" "\<forall>t. kowner ws s t \<longrightarrow> t = v"
    using i(7) by (metis not_less)
  have own: "u = v \<longleftrightarrow> kowner ws s u" for u using v(3,4) by blast
  show ?thesis
  proof (rule kmutex_invI [where h = v])
    show "kowner (remove1 t ws) \<lparr>ks_mutex = (ks_mutex s)\<lparr>k_waiters := q\<rparr>, ks_pc = (ks_pc s)(t := Idle)\<rparr> u \<longleftrightarrow> u = v" for u
      unfolding own using t d by (simp add: kowner_def)
    show "0 < u \<and> (((ks_pc s)(t := Idle)) u = TimedOut \<or> (\<exists>c. ((ks_pc s)(t := Idle)) u = Blocked c))"
      if "u \<in> set (remove1 t ws)" for u using that i(2) [of u] d by simp
    show "u \<in> set (remove1 t ws)" if "((ks_pc s)(t := Idle)) u = Blocked c" for u c
      using that i(3) [of u c] d by (simp split: if_splits)
  qed (use q v(1,2) i(4,5) in \<open>simp_all\<close>)
qed

lemma kmutex_inv_late:
  assumes inv: "kmutex_inv ws s" and t: "ks_pc s t = TimedOut" "t \<notin> set ws"
  shows "k_holder (ks_mutex s) = int t" "kmutex_inv ws \<lparr>ks_mutex = ks_mutex s, ks_pc = (ks_pc s)(t := Holding)\<rparr>"
proof -
  note i = kmutex_invD [OF inv]
  have k: "kowner ws s t" using t by (simp add: kowner_def)
  then show "k_holder (ks_mutex s) = int t" by (rule i(8))
  have ko: "kowner ws \<lparr>ks_mutex = ks_mutex s, ks_pc = (ks_pc s)(t := Holding)\<rparr> u \<longleftrightarrow> kowner ws s u" for u
    using t by (auto simp: kowner_def)
  show "kmutex_inv ws \<lparr>ks_mutex = ks_mutex s, ks_pc = (ks_pc s)(t := Holding)\<rparr>"
    using inv t(2) unfolding kmutex_inv_def ko by auto
qed

lemma kmutex_inv_release:
  assumes inv: "kmutex_inv [] s" and t: "ks_pc s t = Holding"
  shows "kmutex_inv [] \<lparr>ks_mutex = (ks_mutex s)\<lparr>k_holder := -1\<rparr>, ks_pc = (ks_pc s)(t := Idle)\<rparr>"
proof -
  note i = kmutex_invD [OF inv]
  have k: "kowner [] s t" using t by (simp add: kowner_def)
  have "u = t" if "kowner [] s u" for u using i(8) [OF that] i(8) [OF k] by simp
  then have "\<not> kowner [] \<lparr>ks_mutex = (ks_mutex s)\<lparr>k_holder := -1\<rparr>, ks_pc = (ks_pc s)(t := Idle)\<rparr> u" for u
    by (auto simp: kowner_def)
  then show ?thesis using i(1,3-5) unfolding kmutex_inv_def by auto
qed

lemma kmutex_inv_handoff:
  assumes inv: "kmutex_inv (w # ws) s" and t: "ks_pc s t = Holding" and q: "wq_list q ws"
  shows "kmutex_inv ws \<lparr>ks_mutex = (ks_mutex s)\<lparr>k_waiters := q, k_holder := int w\<rparr>,
    ks_pc = unblock (Some w) ((ks_pc s)(t := Idle))\<rparr>"
proof -
  note i = kmutex_invD [OF inv]
  have k: "kowner (w # ws) s t" using t by (simp add: kowner_def)
  have own: "u = t" if "kowner (w # ws) s u" for u using i(8) [OF that] i(8) [OF k] by simp
  have w: "0 < w" "w \<noteq> t" "w \<notin> set ws" "ks_pc s w = TimedOut \<or> (\<exists>b. ks_pc s w = Blocked b)"
    using i(2) [of w] t wq_list_distinct [OF i(1)] by auto
  define pc' where "pc' = unblock (Some w) ((ks_pc s)(t := Idle))"
  have pc: "pc' u = (if u = t then Idle else if u = w \<and> ks_pc s w \<noteq> TimedOut then Holding else ks_pc s u)" for u
    using w by (auto simp: pc'_def)
  let ?s = "\<lparr>ks_mutex = (ks_mutex s)\<lparr>k_waiters := q, k_holder := int w\<rparr>, ks_pc = pc'\<rparr>"
  have ko: "kowner ws ?s u \<longleftrightarrow> u = w" for u
  proof (cases "u = t \<or> u = w")
    case False
    then have "\<not> kowner (w # ws) s u" using own by blast
    with False show ?thesis by (simp add: kowner_def pc)
  qed (use w in \<open>auto simp: kowner_def pc\<close>)
  show ?thesis unfolding pc'_def [symmetric]
  proof (rule kmutex_invI [where h = w])
    show "0 < u \<and> (pc' u = TimedOut \<or> (\<exists>c. pc' u = Blocked c))" if "u \<in> set ws" for u
      using i(2) [of u] that w t by (auto simp: pc)
    show "u \<in> set ws" if "pc' u = Blocked c" for u c using i(3) [of u c] that w by (auto simp: pc split: if_splits)
  qed (use q w i(4,5) in \<open>simp_all add: pc ko\<close>)
qed

lemma kmutex_inv_transfer:
  assumes inv: "kmutex_inv ws s" and t: "ks_pc s t = Holding" and u: "0 < u" "ks_pc s u = Idle"
  shows "kmutex_inv ws \<lparr>ks_mutex = (ks_mutex s)\<lparr>k_holder := int u\<rparr>, ks_pc = (ks_pc s)(t := Idle, u := Holding)\<rparr>"
proof -
  note i = kmutex_invD [OF inv]
  have k: "kowner ws s t" using t by (simp add: kowner_def)
  have own: "v = t" if "kowner ws s v" for v using i(8) [OF that] i(8) [OF k] by simp
  define pc' where "pc' = (ks_pc s)(t := Idle, u := Holding)"
  have pc: "pc' v = (if v = u then Holding else if v = t then Idle else ks_pc s v)" for v by (simp add: pc'_def)
  have tu: "t \<noteq> u" using t u by auto
  have tw: "t \<notin> set ws" "u \<notin> set ws" using i(2) [of t] i(2) [of u] t u by auto
  have ko: "kowner ws \<lparr>ks_mutex = (ks_mutex s)\<lparr>k_holder := int u\<rparr>, ks_pc = pc'\<rparr> v \<longleftrightarrow> v = u" for v
  proof (cases "v = t \<or> v = u")
    case False
    then have "\<not> kowner ws s v" using own by blast
    with False show ?thesis by (simp add: kowner_def pc)
  qed (use tu in \<open>auto simp: kowner_def pc\<close>)
  show ?thesis unfolding pc'_def [symmetric]
  proof (rule kmutex_invI [where h = u])
    show "0 < v \<and> (pc' v = TimedOut \<or> (\<exists>c. pc' v = Blocked c))" if "v \<in> set ws" for v
    proof -
      have "v \<noteq> t" "v \<noteq> u" using that tw by auto
      then show ?thesis using i(2) [OF that] by (simp add: pc)
    qed
    show "v \<in> set ws" if "pc' v = Blocked c" for v c using i(3) [of v c] that by (simp add: pc split: if_splits)
  qed (use u i(1,4,5) in \<open>simp_all add: pc ko\<close>)
qed

lemma kmutex_step_inv:
  assumes "kmutex_step s s'" "kmutex_inv ws s"
  shows "\<exists>ws'. kmutex_inv ws' s'"
  using assms
proof (cases rule: kmutex_step.cases)
  case (lock t r m timed)
  show ?thesis
  proof (cases "k_holder (ks_mutex s) < 0")
    case True
    with lock kmutex_inv_take [OF assms(2)] show ?thesis by (auto simp: kmutex_lock_def)
  next
    case False
    with lock kmutex_inv_block [OF assms(2), of t timed] show ?thesis by (auto simp: kmutex_lock_def split: if_splits)
  qed
next
  case (trylock t r m)
  show ?thesis
  proof (cases "k_holder (ks_mutex s) < 0")
    case True
    with trylock kmutex_inv_take [OF assms(2)] show ?thesis by (auto simp: kmutex_trylock_def)
  next
    case False
    with trylock have "s' = s" by (auto simp: kmutex_trylock_def fun_upd_idem split: if_splits)
    with assms(2) show ?thesis by blast
  qed
next
  case (timeout t)
  with kmutex_inv_timeout [OF assms(2)] show ?thesis by blast
next
  case (timed_out t r m)
  note w = kmutex_invD(1) [OF assms(2)]
  show ?thesis
  proof (cases "t \<in> set ws")
    case True
    with mutex_dequeue_waiter_list [OF w] obtain q where "mutex_dequeue_waiter t (k_waiters (ks_mutex s)) = Some (True, q)"
      "wq_list q (remove1 t ws)" by blast
    with timed_out kmutex_inv_leave [OF assms(2) _ True] show ?thesis by (auto simp: kmutex_timed_out_def)
  next
    case False
    with timed_out kmutex_inv_late [OF assms(2) _ False] mutex_dequeue_waiter_absent [OF w False]
    show ?thesis by (auto simp: kmutex_timed_out_def)
  qed
next
  case (unlock t r w m)
  have h: "k_holder (ks_mutex s) = int t" using kmutex_invD(8) [OF assms(2), of t] unlock by (simp add: kowner_def)
  note q = kmutex_invD(1) [OF assms(2)]
  show ?thesis
  proof (cases ws)
    case Nil
    with unlock h kmutex_inv_release [of s t] assms(2) wq_list_first [OF q]
    show ?thesis by (auto simp: kmutex_unlock_def)
  next
    case (Cons v vs)
    note d = wq_dequeue_list [OF q [unfolded Cons]]
    from unlock h d(1) wq_list_first [OF q] Cons
    have "w = Some v" "m = (ks_mutex s)\<lparr>k_waiters := snd (wq_dequeue (k_waiters (ks_mutex s))), k_holder := int v\<rparr>"
      by (auto simp: kmutex_unlock_def split: prod.splits)
    with unlock kmutex_inv_handoff [OF assms(2) [unfolded Cons] _ d(2)] show ?thesis by blast
  qed
next
  case (transfer u t r m)
  with kmutex_inv_transfer [OF assms(2)] show ?thesis by (auto simp: mutex_transfer_lock_def split: if_splits)
qed

lemma kmutex_reachable_inv: "kmutex_step\<^sup>*\<^sup>* kmutex_start s \<Longrightarrow> \<exists>ws. kmutex_inv ws s"
proof (induction rule: rtranclp_induct)
  case base
  show ?case using kmutex_inv_start by blast
qed (use kmutex_step_inv in blast)

text \<open>
  C12: In the debug build the mutex excludes with timeouts and transfers of the holder too, and no panic or failed
  assertion of the mutex code can be reached by threads that only unlock and transfer what they hold and do not lock
  it twice: at most one thread holds the mutex, the holder can unlock, every other thread can lock, and a waiter that
  timed out leaves with an error or, where it was handed the mutex meanwhile, as its recorded holder.
\<close>

theorem kdebug_mutex_safe:
  assumes "kmutex_step\<^sup>*\<^sup>* kmutex_start s"
  shows "(\<forall>t u. ks_pc s t = Holding \<and> ks_pc s u = Holding \<longrightarrow> t = u)
    \<and> (\<forall>t. ks_pc s t = Holding \<longrightarrow> fst (kmutex_unlock t (ks_mutex s)) = Got)
    \<and> (\<forall>t>0. ks_pc s t = Idle \<longrightarrow> fst (kmutex_lock t (ks_mutex s)) \<in> {Got, Block})
    \<and> (\<forall>t. ks_pc s t = TimedOut \<longrightarrow> (\<exists>r m. kmutex_timed_out t (ks_mutex s) = Some (r, m) \<and> r \<in> {Got, Failed}))"
proof -
  obtain ws where inv: "kmutex_inv ws s" using kmutex_reachable_inv [OF assms] by blast
  note i = kmutex_invD [OF inv]
  have h: "k_holder (ks_mutex s) = int t" if "ks_pc s t = Holding" for t using i(8) [of t] that by (simp add: kowner_def)
  have "fst (kmutex_unlock t (ks_mutex s)) = Got" if "ks_pc s t = Holding" for t
    using h [OF that] by (simp add: kmutex_unlock_def split: option.split prod.split)
  moreover have "fst (kmutex_lock t (ks_mutex s)) \<in> {Got, Block}" if "0 < t" "ks_pc s t = Idle" for t
  proof (cases "k_holder (ks_mutex s) < 0")
    case False
    then obtain v where "v > 0" "k_holder (ks_mutex s) = int v" "kowner ws s v" using i(7) by (metis not_less)
    with that show ?thesis by (auto simp: kmutex_lock_def kowner_def)
  qed (simp add: kmutex_lock_def)
  moreover have "\<exists>r m. kmutex_timed_out t (ks_mutex s) = Some (r, m) \<and> r \<in> {Got, Failed}" if "ks_pc s t = TimedOut" for t
  proof (cases "t \<in> set ws")
    case True
    from mutex_dequeue_waiter_list [OF i(1) True] show ?thesis by (auto simp: kmutex_timed_out_def)
  next
    case False
    from mutex_dequeue_waiter_absent [OF i(1) False] kmutex_inv_late(1) [OF inv that False]
    show ?thesis by (simp add: kmutex_timed_out_def)
  qed
  ultimately show ?thesis using h by (metis of_nat_eq_iff)
qed

theorem kdebug_mutex_safe_witness:
  "fst (kmutex_unlock 1 \<lparr>k_waiters = wq_init, k_holder = 1\<rparr>) = Got
    \<and> fst (kmutex_lock 2 \<lparr>k_waiters = wq_init, k_holder = 1\<rparr>) \<in> {Got, Block}"
proof -
  let ?s = "\<lparr>ks_mutex = \<lparr>k_waiters = wq_init, k_holder = 1\<rparr>, ks_pc = (\<lambda>_. Idle)(1 := Holding)\<rparr>"
  have "kmutex_step kmutex_start ?s"
    using kmutex_step.lock [of 1 kmutex_start Got "\<lparr>k_waiters = wq_init, k_holder = 1\<rparr>" False]
    by (simp add: kmutex_start_def kmutex_init_def kmutex_lock_def)
  then have "kmutex_step\<^sup>*\<^sup>* kmutex_start ?s" by blast
  from kdebug_mutex_safe [OF this] show ?thesis by (auto elim!: allE [of _ "1 :: nat"] allE [of _ "2 :: nat"])
qed

end
