(* ===== verification/Kernel_RwLock.thy ===== *)
theory Kernel_RwLock
  imports Kernel_Mutex
begin

text \<open>
  The reader/writer lock of the kernel (\<open>src/src/system/kernel/locks/lock.cpp\<close>, with the inline entry points of
  \<open>src/headers/private/kernel/lock.h\<close>), release build: \<open>rw_lock\<close> is the structure, one function models each piece of
  an operation that runs under the spinlock or is one atomic instruction, and \<open>rw_step\<close> interleaves the pieces of
  all threads. The counters wrap around at their widths, and the runs are those that stay within them. The invariant relates the fields of the lock to sums over the threads (how many are writers, readers
  in the critical section, readers on the way to the spinlock, queued readers, readers on the way out). The
  properties: mutual exclusion and absence of panics, no lost wakeup, and the crash of a timed read lock.
\<close>

subsection \<open>The lock\<close>

definition RW_LOCK_WRITER_COUNT_BASE :: int where "RW_LOCK_WRITER_COUNT_BASE = 65536"

abbreviation BASE :: int where "BASE \<equiv> RW_LOCK_WRITER_COUNT_BASE"

text \<open>The fields \<open>active_readers\<close> and \<open>pending_readers\<close> are 16 bits wide, \<open>count\<close> and \<open>owner_count\<close> 32 bits, all of them signed:
  what is stored in them wraps around.\<close>

definition int16 :: "int \<Rightarrow> int" where "int16 x = (x + 2 ^ 15) mod 2 ^ 16 - 2 ^ 15"
definition int32 :: "int \<Rightarrow> int" where "int32 x = (x + 2 ^ 31) mod 2 ^ 32 - 2 ^ 31"

lemma int16_id: "- (2 ^ 15) \<le> x \<Longrightarrow> x < 2 ^ 15 \<Longrightarrow> int16 x = x"
  by (simp add: int16_def)

lemma int32_id: "- (2 ^ 31) \<le> x \<Longrightarrow> x < 2 ^ 31 \<Longrightarrow> int32 x = x"
  by (simp add: int32_def)

text \<open>\<open>rw_writer\<close> is the field \<open>writer\<close> of the waiter structures.\<close>

record rw_lock =
  rw_waiters :: waitq
  rw_writer :: "thread_id \<Rightarrow> bool"
  rw_holder :: int
  rw_count :: int
  rw_owner_count :: int
  rw_active_readers :: int
  rw_pending_readers :: int

datatype rres = RGot | RBlock | RPanic

definition rw_lock_init :: rw_lock where
  "rw_lock_init = \<lparr>rw_waiters = wq_init, rw_writer = (\<lambda>_. False), rw_holder = -1, rw_count = 0, rw_owner_count = 0,
     rw_active_readers = 0, rw_pending_readers = 0\<rparr>"

text \<open>The part of \<open>rw_lock_wait\<close> before the thread blocks.\<close>

definition rw_lock_wait :: "thread_id \<Rightarrow> bool \<Rightarrow> rw_lock \<Rightarrow> rw_lock" where
  "rw_lock_wait t writer r =
     r\<lparr>rw_waiters := wq_enqueue t (rw_waiters r), rw_writer := (rw_writer r)(t := writer)\<rparr>"

text \<open>The loop of \<open>rw_lock_unblock\<close> that wakes the readers at the head of the queue.\<close>

partial_function (option) wake_readers :: "(thread_id \<Rightarrow> bool) \<Rightarrow> waitq \<Rightarrow> (thread_id list \<times> waitq) option" where
  "wake_readers writer q =
     (if wq_first q = None \<or> writer (the (wq_first q)) then Some ([], q)
      else Option.bind (wake_readers writer (snd (wq_dequeue q)))
             (\<lambda>(ts, p). Some (the (wq_first q) # ts, p)))"

text \<open>\<open>rw_lock_unblock\<close>: the result of the function, the threads it unblocks, and the lock. \<open>None\<close> where its loop
  does not end.\<close>

definition rw_lock_unblock :: "rw_lock \<Rightarrow> (int \<times> thread_id list \<times> rw_lock) option" where
  "rw_lock_unblock r =
     (case wq_first (rw_waiters r) of
        None \<Rightarrow> Some (0, [], r)
      | Some w \<Rightarrow>
          if 0 \<le> rw_holder r then Some (0, [], r)
          else if rw_writer r w
          then
            if 0 < rw_active_readers r \<or> 0 < rw_pending_readers r then Some (0, [], r)
            else Some (BASE, [w], r\<lparr>rw_waiters := snd (wq_dequeue (rw_waiters r)), rw_holder := int w\<rparr>)
          else
            case wake_readers (rw_writer r) (rw_waiters r) of
              None \<Rightarrow> None
            | Some (ts, q) \<Rightarrow>
                Some (int (length ts), ts,
                  r\<lparr>rw_waiters := q,
                    rw_active_readers := (if BASE \<le> rw_count r then int16 (rw_active_readers r + int (length ts))
                                          else rw_active_readers r)\<rparr>))"

definition rw_lock_read_lock_inline :: "rw_lock \<Rightarrow> bool \<times> rw_lock" where
  "rw_lock_read_lock_inline r = (BASE \<le> rw_count r, r\<lparr>rw_count := int32 (rw_count r + 1)\<rparr>)"

definition rw_lock_read_unlock_inline :: "rw_lock \<Rightarrow> bool \<times> rw_lock" where
  "rw_lock_read_unlock_inline r = (BASE \<le> rw_count r, r\<lparr>rw_count := int32 (rw_count r - 1)\<rparr>)"

text \<open>\<open>_rw_lock_read_lock\<close> before the thread blocks; \<open>_rw_lock_read_lock_with_timeout\<close> begins the same way.\<close>

definition rw_lock_read_lock_slow :: "thread_id \<Rightarrow> rw_lock \<Rightarrow> rres \<times> rw_lock" where
  "rw_lock_read_lock_slow t r =
     (if rw_holder r = int t then (RGot, r\<lparr>rw_owner_count := int32 (rw_owner_count r + 1)\<rparr>)
      else if 0 < rw_pending_readers r
      then (RGot, r\<lparr>rw_pending_readers := int16 (rw_pending_readers r - 1),
                    rw_active_readers := (if BASE \<le> rw_count r then int16 (rw_active_readers r + 1) else rw_active_readers r)\<rparr>)
      else if rw_count r < BASE then (RPanic, r)
      else (RBlock, rw_lock_wait t False r))"

text \<open>The end of \<open>_rw_lock_read_lock_with_timeout\<close> under the spinlock: \<open>Some None\<close> is the access through the null
  pointer.\<close>

definition rw_lock_read_give_up :: "thread_id \<Rightarrow> rw_lock \<Rightarrow> rw_lock option option" where
  "rw_lock_read_give_up t r =
     map_option (map_option (\<lambda>q. r\<lparr>rw_waiters := q, rw_count := int32 (rw_count r - 1)\<rparr>)) (rw_dequeue_waiter t (rw_waiters r))"

definition rw_lock_read_unlock_slow :: "thread_id \<Rightarrow> rw_lock \<Rightarrow> (rres \<times> thread_id list \<times> rw_lock) option" where
  "rw_lock_read_unlock_slow t r =
     (if rw_holder r = int t
      then
        if 0 < rw_owner_count r mod BASE then Some (RGot, [], r\<lparr>rw_owner_count := int32 (rw_owner_count r - 1)\<rparr>)
        else Some (RPanic, [], r)
      else
        let r = r\<lparr>rw_active_readers := int16 (rw_active_readers r - 1)\<rparr>
        in if 0 < rw_active_readers r then Some (RGot, [], r)
           else if rw_active_readers r < 0 then Some (RPanic, [], r\<lparr>rw_active_readers := 0\<rparr>)
           else map_option (\<lambda>(_, ts, r). (RGot, ts, r)) (rw_lock_unblock r))"

definition rw_lock_write_lock :: "thread_id \<Rightarrow> rw_lock \<Rightarrow> rres \<times> rw_lock" where
  "rw_lock_write_lock t r =
     (if rw_holder r = int t then (RGot, r\<lparr>rw_owner_count := int32 (rw_owner_count r + BASE)\<rparr>)
      else
        let oldCount = rw_count r;
            r = r\<lparr>rw_count := int32 (rw_count r + BASE)\<rparr>
        in if oldCount = 0 then (RGot, r\<lparr>rw_holder := int t, rw_owner_count := BASE\<rparr>)
           else
             let r = (if oldCount < BASE then r\<lparr>rw_active_readers := int16 (oldCount - rw_pending_readers r)\<rparr> else r)
             in (RBlock, rw_lock_wait t True r))"

text \<open>The end of \<open>rw_lock_write_lock\<close> after the thread was unblocked.\<close>

definition rw_lock_write_woken :: "thread_id \<Rightarrow> rw_lock \<Rightarrow> rw_lock" where
  "rw_lock_write_woken t r = r\<lparr>rw_holder := int t, rw_owner_count := BASE\<rparr>"

definition rw_lock_write_unlock :: "thread_id \<Rightarrow> rw_lock \<Rightarrow> (rres \<times> thread_id list \<times> rw_lock) option" where
  "rw_lock_write_unlock t r =
     (if int t \<noteq> rw_holder r then Some (RPanic, [], r)
      else if rw_owner_count r < BASE then Some (RPanic, [], r)
      else
        let r = r\<lparr>rw_owner_count := int32 (rw_owner_count r - BASE)\<rparr>
        in if BASE \<le> rw_owner_count r then Some (RGot, [], r)
           else
             let readerCount = rw_owner_count r;
                 oldCount = int32 (rw_count r - BASE);
                 r = r\<lparr>rw_holder := -1, rw_owner_count := 0, rw_count := int32 (rw_count r - BASE)\<rparr>
             in if oldCount = 0 then Some (RGot, [], r)
                else if BASE \<le> oldCount
                then map_option (\<lambda>(_, ts, r). (RGot, ts, r)) (rw_lock_unblock (r\<lparr>rw_active_readers := int16 readerCount\<rparr>))
                else map_option (\<lambda>(n, ts, r). (RGot, ts, r\<lparr>rw_pending_readers := int16 (oldCount - readerCount - n)\<rparr>))
                       (rw_lock_unblock r))"

text \<open>\<open>rw_lock_destroy\<close>: the waiters that are unblocked with \<open>B_ERROR\<close>, in this order. Its loop is the one of
  \<open>mutex_destroy\<close>.\<close>

definition rw_lock_destroy :: "rw_lock \<Rightarrow> (thread_id list \<times> rw_lock) option" where
  "rw_lock_destroy r =
     Option.bind (mutex_destroy_loop (rw_waiters r)) (\<lambda>(ts, q). Some (ts, r\<lparr>rw_waiters := q\<rparr>))"

lemma rw_lock_destroy_wakes_all:
  "wq_list (rw_waiters r) ws \<Longrightarrow> \<exists>r'. rw_lock_destroy r = Some (ws, r') \<and> wq_first (rw_waiters r') = None"
  using mutex_destroy_loop_all [of "rw_waiters r" ws] by (auto simp: rw_lock_destroy_def wq_list_def)

subsection \<open>Threads\<close>

text \<open>
  The states of a thread. The number of a reader is that of the read locks it holds (a writer that releases its
  last write lock keeps the read locks it has nested in it); the numbers of a writer are its nested write and read
  locks. \<open>RdUnlockSlow\<close> and \<open>WrRdUnlockSlow\<close> give the read locks that remain. The flag of \<open>RdTimedOut\<close> (back from
  the block with an error) and \<open>RdGiveUp\<close> (\<open>waiter.thread\<close> was not \<open>NULL\<close>) says that \<open>waiter.thread\<close> has been
  set to \<open>NULL\<close> by now.
\<close>

datatype rpc = Out | RdSlow bool | RdBlocked bool | RdTimedOut bool | RdGiveUp bool | Reading nat | RdUnlockSlow nat
  | WrBlocked | WrWoken | Writing nat nat | WrRdSlow nat nat | WrRdUnlockSlow nat nat

record rsys =
  r_lock :: rw_lock
  r_pc :: "thread_id \<Rightarrow> rpc"

text \<open>\<open>thread_unblock\<close> and \<open>waiter->thread = NULL\<close> for one dequeued waiter.\<close>

fun woken :: "rpc \<Rightarrow> rpc" where
  "woken (RdBlocked b) = Reading 1"
| "woken (RdTimedOut _) = RdTimedOut True"
| "woken (RdGiveUp _) = RdGiveUp True"
| "woken WrBlocked = WrWoken"
| "woken p = p"

fun wake :: "thread_id list \<Rightarrow> (thread_id \<Rightarrow> rpc) \<Rightarrow> thread_id \<Rightarrow> rpc" where
  "wake [] pc = pc"
| "wake (t # ts) pc = wake ts (pc(t := woken (pc t)))"

fun reader_state :: "nat \<Rightarrow> rpc" where
  "reader_state 0 = Out"
| "reader_state (Suc n) = Reading (Suc n)"

text \<open>
  Why the runs below stay within \<open>2\<^sup>1\<^sup>5 - 1\<close> read locks: the low half of \<open>count\<close> has room for twice as many, but with
  more than \<open>2\<^sup>1\<^sup>5\<close> of them the first writer that waits stores a negative number of active readers, and the next reader
  that leaves panics.
\<close>

lemma rw_lock_readers_overflow:
  assumes "rw_holder r = -1" "rw_pending_readers r = 0" "rw_count r = n" "2 ^ 15 < n" "n < BASE" "t \<noteq> u"
  shows "\<exists>r'. rw_lock_write_lock t r = (RBlock, r') \<and> rw_active_readers r' = n - 2 ^ 16
    \<and> map_option fst (rw_lock_read_unlock_slow u r') = Some RPanic"
proof -
  have b: "2 ^ 15 < n" "n < 2 ^ 16" using assms(4,5) by (simp_all add: RW_LOCK_WRITER_COUNT_BASE_def)
  have "(n - 2 ^ 15 + 2 ^ 16) mod 2 ^ 16 = n - 2 ^ 15" using b by (simp only: mod_add_self2) simp
  then have a: "int16 n = n - 2 ^ 16" "int16 (n - 2 ^ 16 - 1) = n - 2 ^ 16 - 1"
    using b int16_id [of "n - 2 ^ 16 - 1"] by (simp_all add: int16_def add.commute)
  obtain r' where r': "rw_lock_write_lock t r = (RBlock, r')" "rw_active_readers r' = n - 2 ^ 16" "rw_holder r' = -1"
    using assms(1-5) a(1) by (simp add: rw_lock_write_lock_def rw_lock_wait_def Let_def)
  moreover have "n - 2 ^ 16 - 1 < 0" using b by simp
  ultimately have "map_option fst (rw_lock_read_unlock_slow u r') = Some RPanic"
    using a(2) by (simp add: rw_lock_read_unlock_slow_def Let_def)
  with r' show ?thesis by blast
qed

text \<open>
  The steps of a thread. The fields have room for \<open>2\<^sup>1\<^sup>5 - 1\<close> read locks, as many threads that hold or wait for the write lock,
  and as many nested write locks; the code does not check this, and a step that would exceed it is left out. A panic and
  an access through a null pointer end the run: they have no step.
\<close>

inductive rw_step :: "rsys \<Rightarrow> rsys \<Rightarrow> bool" where
  read_lock: "r_pc s t = Out \<Longrightarrow> rw_count (r_lock s) mod BASE < 2 ^ 15 - 1 \<Longrightarrow> rw_lock_read_lock_inline (r_lock s) = (slow, r) \<Longrightarrow>
    rw_step s \<lparr>r_lock = r, r_pc = (r_pc s)(t := if slow then RdSlow timed else Reading 1)\<rparr>"
| read_lock_slow: "r_pc s t = RdSlow timed \<Longrightarrow> rw_lock_read_lock_slow t (r_lock s) = (res, r) \<Longrightarrow> res \<noteq> RPanic \<Longrightarrow>
    rw_step s \<lparr>r_lock = r, r_pc = (r_pc s)(t := if res = RGot then Reading 1 else RdBlocked timed)\<rparr>"
| timeout: "r_pc s t = RdBlocked True \<Longrightarrow> rw_step s (s\<lparr>r_pc := (r_pc s)(t := RdTimedOut False)\<rparr>)"
| timed_out: "r_pc s t = RdTimedOut gone \<Longrightarrow>
    rw_step s (s\<lparr>r_pc := (r_pc s)(t := if gone then Reading 1 else RdGiveUp False)\<rparr>)"
| give_up: "r_pc s t = RdGiveUp gone \<Longrightarrow> rw_lock_read_give_up t (r_lock s) = Some (Some r) \<Longrightarrow>
    rw_step s \<lparr>r_lock = r, r_pc = (r_pc s)(t := Out)\<rparr>"
| read_unlock: "r_pc s t = Reading (Suc n) \<Longrightarrow> rw_lock_read_unlock_inline (r_lock s) = (slow, r) \<Longrightarrow>
    rw_step s \<lparr>r_lock = r, r_pc = (r_pc s)(t := if slow then RdUnlockSlow n else reader_state n)\<rparr>"
| read_unlock_slow: "r_pc s t = RdUnlockSlow n \<Longrightarrow> rw_lock_read_unlock_slow t (r_lock s) = Some (RGot, ts, r) \<Longrightarrow>
    rw_step s \<lparr>r_lock = r, r_pc = wake ts ((r_pc s)(t := reader_state n))\<rparr>"
| write_lock: "r_pc s t = Out \<Longrightarrow> rw_count (r_lock s) < 2 ^ 31 - BASE \<Longrightarrow> rw_lock_write_lock t (r_lock s) = (res, r) \<Longrightarrow> res \<noteq> RPanic \<Longrightarrow>
    rw_step s \<lparr>r_lock = r, r_pc = (r_pc s)(t := if res = RGot then Writing 1 0 else WrBlocked)\<rparr>"
| write_woken: "r_pc s t = WrWoken \<Longrightarrow>
    rw_step s \<lparr>r_lock = rw_lock_write_woken t (r_lock s), r_pc = (r_pc s)(t := Writing 1 0)\<rparr>"
| write_again: "r_pc s t = Writing w n \<Longrightarrow> rw_owner_count (r_lock s) < 2 ^ 31 - BASE \<Longrightarrow> rw_lock_write_lock t (r_lock s) = (res, r) \<Longrightarrow> res \<noteq> RPanic \<Longrightarrow>
    rw_step s \<lparr>r_lock = r, r_pc = (r_pc s)(t := if res = RGot then Writing (Suc w) n else WrBlocked)\<rparr>"
| write_read_lock: "r_pc s t = Writing w n \<Longrightarrow> rw_count (r_lock s) mod BASE < 2 ^ 15 - 1 \<Longrightarrow>
    rw_lock_read_lock_inline (r_lock s) = (slow, r) \<Longrightarrow>
    rw_step s \<lparr>r_lock = r, r_pc = (r_pc s)(t := if slow then WrRdSlow w n else Writing w (Suc n))\<rparr>"
| write_read_lock_slow: "r_pc s t = WrRdSlow w n \<Longrightarrow> rw_lock_read_lock_slow t (r_lock s) = (res, r) \<Longrightarrow> res \<noteq> RPanic \<Longrightarrow>
    rw_step s \<lparr>r_lock = r, r_pc = (r_pc s)(t := if res = RGot then Writing w (Suc n) else RdBlocked False)\<rparr>"
| write_read_unlock: "r_pc s t = Writing w (Suc n) \<Longrightarrow> rw_lock_read_unlock_inline (r_lock s) = (slow, r) \<Longrightarrow>
    rw_step s \<lparr>r_lock = r, r_pc = (r_pc s)(t := if slow then WrRdUnlockSlow w n else Writing w n)\<rparr>"
| write_read_unlock_slow: "r_pc s t = WrRdUnlockSlow w n \<Longrightarrow> rw_lock_read_unlock_slow t (r_lock s) = Some (RGot, ts, r) \<Longrightarrow>
    rw_step s \<lparr>r_lock = r, r_pc = wake ts ((r_pc s)(t := Writing w n))\<rparr>"
| write_unlock: "r_pc s t = Writing (Suc w) n \<Longrightarrow> rw_lock_write_unlock t (r_lock s) = Some (RGot, ts, r) \<Longrightarrow>
    rw_step s \<lparr>r_lock = r, r_pc = wake ts ((r_pc s)(t := if w = 0 then reader_state n else Writing w n))\<rparr>"

definition rw_start :: rsys where
  "rw_start = \<lparr>r_lock = rw_lock_init, r_pc = (\<lambda>_. Out)\<rparr>"

subsection \<open>Sums over the threads\<close>

definition wsum :: "(rpc \<Rightarrow> int) \<Rightarrow> (thread_id \<Rightarrow> rpc) \<Rightarrow> int" where
  "wsum f pc = (\<Sum>t | pc t \<noteq> Out. f (pc t))"

lemma wsum_upd:
  assumes "finite {t. pc t \<noteq> Out}" "f Out = 0"
  shows "wsum f (pc(t := x)) = wsum f pc - f (pc t) + f x"
proof -
  let ?A = "{u. pc u \<noteq> Out} - {t}"
  have "wsum f (pc(t := x)) = (\<Sum>u\<in>insert t ?A. f ((pc(t := x)) u))"
    unfolding wsum_def using assms by (intro sum.mono_neutral_left) auto
  also have "\<dots> = f x + (\<Sum>u\<in>?A. f ((pc(t := x)) u))" using assms(1) by (subst sum.insert) auto
  also have "(\<Sum>u\<in>?A. f ((pc(t := x)) u)) = (\<Sum>u\<in>?A. f (pc u))" by (intro sum.cong) auto
  finally have 1: "wsum f (pc(t := x)) = f x + (\<Sum>u\<in>?A. f (pc u))" .
  have "wsum f pc = (\<Sum>u\<in>insert t ?A. f (pc u))"
    unfolding wsum_def using assms by (intro sum.mono_neutral_left) auto
  also have "\<dots> = f (pc t) + (\<Sum>u\<in>?A. f (pc u))" using assms(1) by (subst sum.insert) auto
  finally show ?thesis using 1 by simp
qed

lemma finite_out_upd: "finite {t. pc t \<noteq> Out} \<Longrightarrow> finite {u. (pc(t := x)) u \<noteq> Out}"
  by (rule finite_subset [of _ "insert t {t. pc t \<noteq> Out}"]) auto

lemma wsum_ge:
  assumes "finite {t. pc t \<noteq> Out}" "f Out = 0" "\<And>p. 0 \<le> f p"
  shows "f (pc t) \<le> wsum f pc"
proof (cases "pc t = Out")
  case True
  then show ?thesis using assms unfolding wsum_def by (auto intro: sum_nonneg)
next
  case False
  then show ?thesis using assms member_le_sum [of t "{t. pc t \<noteq> Out}" "\<lambda>u. f (pc u)"] by (simp add: wsum_def)
qed

lemma wsum_nonneg: "(\<And>p. 0 \<le> f p) \<Longrightarrow> 0 \<le> wsum f pc"
  by (simp add: wsum_def sum_nonneg)

lemma wsum_pos: "0 < wsum f pc \<Longrightarrow> \<exists>t. 0 < f (pc t)"
  unfolding wsum_def by (metis (no_types, lifting) not_le sum_nonpos)

lemma wsum_zero: "(\<And>t. f (pc t) = 0) \<Longrightarrow> wsum f pc = 0"
  by (simp add: wsum_def)

lemma wsum_cong: "(\<And>p. f p = g p) \<Longrightarrow> wsum f pc = wsum g pc"
  by (simp add: wsum_def)

lemma wsum_add: "wsum (\<lambda>p. f p + g p) pc = wsum f pc + wsum g pc"
  by (simp add: wsum_def sum.distrib)

lemma wsum_diff: "wsum (\<lambda>p. f p - g p) pc = wsum f pc - wsum g pc"
  by (simp add: wsum_def sum_subtractf)

text \<open>What a thread adds: to the reader part of \<open>count\<close>, to the readers in the critical section, to the readers
  about to take the spinlock, to the queued readers, to the readers about to leave, and to the writers.\<close>

fun rd_n :: "rpc \<Rightarrow> int" where
  "rd_n (RdSlow _) = 1" | "rd_n (RdBlocked _) = 1" | "rd_n (RdTimedOut _) = 1" | "rd_n (RdGiveUp _) = 1"
| "rd_n (Reading k) = int k" | "rd_n (RdUnlockSlow k) = int k" | "rd_n (Writing w n) = int n"
| "rd_n (WrRdSlow w n) = int n + 1" | "rd_n (WrRdUnlockSlow w n) = int n" | "rd_n _ = 0"

fun rd_a :: "rpc \<Rightarrow> int" where
  "rd_a (RdTimedOut gone) = of_bool gone" | "rd_a (RdGiveUp gone) = of_bool gone"
| "rd_a (Reading k) = int k" | "rd_a (RdUnlockSlow k) = int k + 1" | "rd_a _ = 0"

fun rd_s :: "rpc \<Rightarrow> int" where "rd_s (RdSlow _) = 1" | "rd_s _ = 0"

fun rd_q :: "rpc \<Rightarrow> int" where
  "rd_q (RdBlocked _) = 1" | "rd_q (RdTimedOut gone) = of_bool (\<not> gone)" | "rd_q (RdGiveUp gone) = of_bool (\<not> gone)" | "rd_q _ = 0"

fun rd_u :: "rpc \<Rightarrow> int" where "rd_u (RdUnlockSlow _) = 1" | "rd_u _ = 0"

fun rd_o :: "rpc \<Rightarrow> int" where
  "rd_o (Writing w n) = int n" | "rd_o (WrRdSlow w n) = int n + 1" | "rd_o (WrRdUnlockSlow w n) = int n" | "rd_o _ = 0"

fun owner :: "rpc \<Rightarrow> bool" where
  "owner WrWoken = True" | "owner (Writing _ _) = True" | "owner (WrRdSlow _ _) = True" | "owner (WrRdUnlockSlow _ _) = True"
| "owner _ = False"

definition wr_c :: "rpc \<Rightarrow> int" where "wr_c p = of_bool (p = WrBlocked \<or> owner p)"

definition queued :: "rpc \<Rightarrow> bool" where "queued p \<longleftrightarrow> p = WrBlocked \<or> rd_q p = 1"

lemma contrib_nonneg [simp]:
  "0 \<le> rd_n p" "0 \<le> rd_a p" "0 \<le> rd_s p" "0 \<le> rd_q p" "0 \<le> rd_u p" "0 \<le> rd_o p" "0 \<le> wr_c p" "wr_c Out = 0"
  by (cases p; simp add: wr_c_def)+

lemma wr_c_owner: "owner p \<Longrightarrow> wr_c p = 1" "p = WrBlocked \<Longrightarrow> wr_c p = 1"
  by (simp_all add: wr_c_def)

lemma wr_c_simps [simp]:
  "wr_c (RdSlow b) = 0" "wr_c (RdBlocked b) = 0" "wr_c (RdTimedOut b) = 0" "wr_c (RdGiveUp b) = 0" "wr_c (Reading k) = 0"
  "wr_c (RdUnlockSlow k) = 0" "wr_c WrBlocked = 1" "wr_c WrWoken = 1" "wr_c (Writing w n) = 1" "wr_c (WrRdSlow w n) = 1"
  "wr_c (WrRdUnlockSlow w n) = 1"
  by (simp_all add: wr_c_def)

lemma queued_simps [simp]:
  "\<not> queued Out" "\<not> queued (RdSlow b)" "queued (RdBlocked b)" "queued (RdTimedOut g) \<longleftrightarrow> \<not> g" "queued (RdGiveUp g) \<longleftrightarrow> \<not> g"
  "\<not> queued (Reading k)" "\<not> queued (RdUnlockSlow k)" "queued WrBlocked" "\<not> queued WrWoken" "\<not> queued (Writing w n)"
  "\<not> queued (WrRdSlow w n)" "\<not> queued (WrRdUnlockSlow w n)"
  by (simp_all add: queued_def)

lemma rd_n_split: "rd_n p = rd_a p - rd_u p + rd_s p + rd_q p + rd_o p"
  by (cases p) auto

lemma wsum_n_split: "wsum rd_n pc = wsum rd_a pc - wsum rd_u pc + wsum rd_s pc + wsum rd_q pc + wsum rd_o pc"
proof -
  have "wsum rd_n pc = wsum (\<lambda>p. rd_a p - rd_u p + rd_s p + rd_q p + rd_o p) pc" by (rule wsum_cong) (rule rd_n_split)
  then show ?thesis by (simp add: wsum_add wsum_diff)
qed

lemma rd_q_01: "rd_q p = 0 \<or> rd_q p = 1"
  by (cases p) auto

lemma wsum_q_length:
  assumes "finite {t. pc t \<noteq> Out}" "distinct ws" "\<And>t. t \<in> set ws \<longleftrightarrow> rd_q (pc t) = 1"
  shows "wsum rd_q pc = int (length ws)"
proof -
  have "set ws \<subseteq> {t. pc t \<noteq> Out}" using assms(3) by fastforce
  then have "wsum rd_q pc = (\<Sum>t\<in>set ws. rd_q (pc t))"
    unfolding wsum_def using assms(1,3) rd_q_01 by (intro sum.mono_neutral_right) auto
  also have "\<dots> = (\<Sum>t\<in>set ws. 1)" using assms(3) by (intro sum.cong) auto
  finally show ?thesis using distinct_card [OF assms(2)] by simp
qed

text \<open>What remains of the lock count of the holder.\<close>

fun owner_ok :: "int \<Rightarrow> rpc \<Rightarrow> bool" where
  "owner_ok c (Writing w n) \<longleftrightarrow> 0 < w \<and> w < 2 ^ 15 \<and> c = BASE * int w + int n"
| "owner_ok c (WrRdSlow w n) \<longleftrightarrow> 0 < w \<and> w < 2 ^ 15 \<and> c = BASE * int w + int n"
| "owner_ok c (WrRdUnlockSlow w n) \<longleftrightarrow> 0 < w \<and> w < 2 ^ 15 \<and> int n + 1 < BASE \<and> c = BASE * int w + int n + 1"
| "owner_ok c (Reading k) \<longleftrightarrow> 0 < k"
| "owner_ok c _ \<longleftrightarrow> True"

subsection \<open>The invariant\<close>

definition rw_inv :: "thread_id list \<Rightarrow> rw_lock \<Rightarrow> (thread_id \<Rightarrow> rpc) \<Rightarrow> bool" where
  "rw_inv ws r pc \<longleftrightarrow>
     finite {t. pc t \<noteq> Out} \<and> wq_list (rw_waiters r) ws \<and> (\<forall>t. t \<in> set ws \<longleftrightarrow> queued (pc t))
     \<and> (\<forall>t\<in>set ws. rw_writer r t \<longleftrightarrow> pc t = WrBlocked)
     \<and> rw_count r = BASE * wsum wr_c pc + wsum rd_n pc \<and> wsum rd_n pc < 2 ^ 15 \<and> wsum wr_c pc < 2 ^ 15
     \<and> (\<forall>t. owner_ok (rw_owner_count r) (pc t))
     \<and> (if rw_holder r < 0 then \<forall>t. \<not> owner (pc t)
        else \<exists>h. rw_holder r = int h \<and> owner (pc h) \<and> (\<forall>t. owner (pc t) \<longrightarrow> t = h))
     \<and> (0 \<le> rw_holder r \<longrightarrow> wsum rd_a pc = 0 \<and> rw_pending_readers r = 0)
     \<and> (wsum wr_c pc = 0 \<longrightarrow> rw_pending_readers r = wsum rd_s pc \<and> wsum rd_u pc = 0)
     \<and> (0 < wsum wr_c pc \<and> rw_holder r < 0 \<longrightarrow>
          rw_active_readers r = wsum rd_a pc \<and> 0 \<le> rw_pending_readers r \<and> rw_pending_readers r \<le> wsum rd_s pc
          \<and> rw_active_readers r + rw_pending_readers r < 2 ^ 15 \<and> (0 < rw_active_readers r \<or> 0 < rw_pending_readers r) \<and> ws \<noteq> [] \<and> pc (hd ws) = WrBlocked)
     \<and> (wsum wr_c pc = 0 \<longrightarrow> ws = [])"

lemma rw_invD:
  assumes "rw_inv ws r pc"
  shows "finite {t. pc t \<noteq> Out}" "wq_list (rw_waiters r) ws" "t \<in> set ws \<longleftrightarrow> queued (pc t)"
    "t \<in> set ws \<Longrightarrow> rw_writer r t \<longleftrightarrow> pc t = WrBlocked"
    "rw_count r = BASE * wsum wr_c pc + wsum rd_n pc" "wsum rd_n pc < 2 ^ 15 \<and> wsum wr_c pc < 2 ^ 15" "owner_ok (rw_owner_count r) (pc t)"
    "rw_holder r < 0 \<Longrightarrow> \<not> owner (pc t)"
    "0 \<le> rw_holder r \<Longrightarrow> \<exists>h. rw_holder r = int h \<and> owner (pc h) \<and> (\<forall>t. owner (pc t) \<longrightarrow> t = h)"
    "0 \<le> rw_holder r \<Longrightarrow> wsum rd_a pc = 0 \<and> rw_pending_readers r = 0"
    "wsum wr_c pc = 0 \<Longrightarrow> rw_pending_readers r = wsum rd_s pc \<and> wsum rd_u pc = 0 \<and> ws = []"
    "0 < wsum wr_c pc \<Longrightarrow> rw_holder r < 0 \<Longrightarrow>
          rw_active_readers r = wsum rd_a pc \<and> 0 \<le> rw_pending_readers r \<and> rw_pending_readers r \<le> wsum rd_s pc
          \<and> rw_active_readers r + rw_pending_readers r < 2 ^ 15 \<and> (0 < rw_active_readers r \<or> 0 < rw_pending_readers r) \<and> ws \<noteq> [] \<and> pc (hd ws) = WrBlocked"
  using assms unfolding rw_inv_def by (blast | metis not_less)+

lemma rw_invI:
  assumes "finite {t. pc t \<noteq> Out}" "wq_list (rw_waiters r) ws" "\<And>t. t \<in> set ws \<longleftrightarrow> queued (pc t)"
    "\<And>t. t \<in> set ws \<Longrightarrow> rw_writer r t \<longleftrightarrow> pc t = WrBlocked"
    "rw_count r = BASE * wsum wr_c pc + wsum rd_n pc" "wsum rd_n pc < 2 ^ 15 \<and> wsum wr_c pc < 2 ^ 15" "\<And>t. owner_ok (rw_owner_count r) (pc t)"
    "\<And>t. rw_holder r < 0 \<Longrightarrow> \<not> owner (pc t)"
    "0 \<le> rw_holder r \<Longrightarrow> \<exists>h. rw_holder r = int h \<and> owner (pc h) \<and> (\<forall>t. owner (pc t) \<longrightarrow> t = h)"
    "0 \<le> rw_holder r \<Longrightarrow> wsum rd_a pc = 0 \<and> rw_pending_readers r = 0"
    "wsum wr_c pc = 0 \<Longrightarrow> rw_pending_readers r = wsum rd_s pc \<and> wsum rd_u pc = 0 \<and> ws = []"
    "0 < wsum wr_c pc \<Longrightarrow> rw_holder r < 0 \<Longrightarrow>
          rw_active_readers r = wsum rd_a pc \<and> 0 \<le> rw_pending_readers r \<and> rw_pending_readers r \<le> wsum rd_s pc
          \<and> rw_active_readers r + rw_pending_readers r < 2 ^ 15 \<and> (0 < rw_active_readers r \<or> 0 < rw_pending_readers r) \<and> ws \<noteq> [] \<and> pc (hd ws) = WrBlocked"
  shows "rw_inv ws r pc"
proof -
  have "if rw_holder r < 0 then \<forall>t. \<not> owner (pc t)
        else \<exists>h. rw_holder r = int h \<and> owner (pc h) \<and> (\<forall>t. owner (pc t) \<longrightarrow> t = h)" using assms(8,9) by (simp add: not_less)
  then show ?thesis unfolding rw_inv_def using assms(1-7,10-12) by blast
qed

lemma BASE_pos [simp]: "0 < BASE" "0 \<le> BASE" "1 < BASE" by (simp_all add: RW_LOCK_WRITER_COUNT_BASE_def)

text \<open>The two readings of \<open>count\<close>.\<close>

lemma rw_inv_count:
  assumes "rw_inv ws r pc"
  shows "BASE \<le> rw_count r \<longleftrightarrow> 0 < wsum wr_c pc" "rw_count r mod BASE = wsum rd_n pc"
    "0 \<le> wsum wr_c pc" "0 \<le> wsum rd_n pc"
proof -
  show nn: "0 \<le> wsum wr_c pc" "0 \<le> wsum rd_n pc" by (simp_all add: wsum_nonneg)
  note c = rw_invD(5,6) [OF assms]
  show "rw_count r mod BASE = wsum rd_n pc" unfolding c(1) using c(2) nn(2) by (simp add: RW_LOCK_WRITER_COUNT_BASE_def)
  show "BASE \<le> rw_count r \<longleftrightarrow> 0 < wsum wr_c pc"
  proof (cases "wsum wr_c pc = 0")
    case False
    with nn(1) have "1 \<le> wsum wr_c pc" by simp
    then have "BASE * 1 \<le> BASE * wsum wr_c pc" by (intro mult_left_mono) auto
    then have "BASE \<le> rw_count r" unfolding c(1) using nn by linarith
    with nn False show ?thesis by simp
  qed (use c in \<open>simp add: RW_LOCK_WRITER_COUNT_BASE_def\<close>)
qed

text \<open>The counts are in the range of their types with room for one more.\<close>

lemma rw_inv_range:
  assumes "rw_inv ws r pc"
  shows "0 \<le> rw_count r" "rw_count r < 2 ^ 31 - 1"
  using rw_invD(5,6) [OF assms] rw_inv_count(3,4) [OF assms] by (simp_all add: RW_LOCK_WRITER_COUNT_BASE_def)

lemma rw_inv_count_bound:
  assumes "rw_inv ws r pc" "rw_count r < 2 ^ 31 - BASE"
  shows "wsum wr_c pc + 1 < 2 ^ 15"
  using rw_invD(5) [OF assms(1)] rw_inv_count(4) [OF assms(1)] assms(2) by (simp add: RW_LOCK_WRITER_COUNT_BASE_def)

lemma rw_inv_start: "rw_inv [] (r_lock rw_start) (r_pc rw_start)"
  by (rule rw_invI) (simp_all add: rw_start_def rw_lock_init_def wq_list_init wsum_def queued_def)

text \<open>The owner and the holder.\<close>

lemma rw_inv_owner:
  assumes "rw_inv ws r pc" "owner (pc t)"
  shows "rw_holder r = int t" "wsum rd_a pc = 0" "rw_pending_readers r = 0" "0 < wsum wr_c pc"
proof -
  have "\<not> rw_holder r < 0" using rw_invD(8) [OF assms(1)] assms(2) by blast
  then have h: "0 \<le> rw_holder r" by simp
  then show "rw_holder r = int t" using rw_invD(9) [OF assms(1) h] assms(2) by blast
  show "wsum rd_a pc = 0" "rw_pending_readers r = 0" using rw_invD(10) [OF assms(1) h] by auto
  show "0 < wsum wr_c pc" using wsum_ge [OF rw_invD(1) [OF assms(1)], of wr_c t] wr_c_owner(1) [OF assms(2)] by simp
qed

lemma rw_inv_not_holder:
  assumes "rw_inv ws r pc" "\<not> owner (pc t)"
  shows "rw_holder r \<noteq> int t"
proof
  assume h: "rw_holder r = int t"
  then obtain v where "rw_holder r = int v" "owner (pc v)" using rw_invD(9) [OF assms(1)] by force
  with h assms(2) show False by simp
qed

lemma wsum_upds:
  assumes "finite {t. pc t \<noteq> Out}"
  shows "wsum rd_n (pc(t := x)) = wsum rd_n pc - rd_n (pc t) + rd_n x"
    "wsum rd_a (pc(t := x)) = wsum rd_a pc - rd_a (pc t) + rd_a x"
    "wsum rd_s (pc(t := x)) = wsum rd_s pc - rd_s (pc t) + rd_s x"
    "wsum rd_u (pc(t := x)) = wsum rd_u pc - rd_u (pc t) + rd_u x"
    "wsum wr_c (pc(t := x)) = wsum wr_c pc - wr_c (pc t) + wr_c x"
  by (simp_all add: wsum_upd [OF assms])

lemma wsum_ges:
  assumes "finite {t. pc t \<noteq> Out}"
  shows "rd_n (pc t) \<le> wsum rd_n pc" "rd_a (pc t) \<le> wsum rd_a pc" "rd_s (pc t) \<le> wsum rd_s pc"
    "rd_u (pc t) \<le> wsum rd_u pc" "wr_c (pc t) \<le> wsum wr_c pc"
  by (simp_all add: wsum_ge [OF assms])

lemma rw_inv_hd: "rw_inv ws r pc \<Longrightarrow> ws \<noteq> [] \<Longrightarrow> 0 < wsum wr_c pc"
  using rw_invD(11) [of ws r pc] rw_inv_count(3) [of ws r pc] by force

text \<open>Steps of one thread that is and stays outside the queue and does not own the lock: the sums decide.\<close>

lemma rw_inv_move:
  assumes inv: "rw_inv ws r pc" and t: "\<not> owner (pc t)" "\<not> owner x" "queued x \<longleftrightarrow> queued (pc t)" "x \<noteq> WrBlocked" "pc t \<noteq> WrBlocked"
    and ok: "owner_ok (rw_owner_count r) x"
    and same: "rw_waiters r' = rw_waiters r" "rw_writer r' = rw_writer r" "rw_holder r' = rw_holder r" "rw_owner_count r' = rw_owner_count r"
    and n: "rw_count r' = rw_count r - rd_n (pc t) + rd_n x" "wsum rd_n pc - rd_n (pc t) + rd_n x < 2 ^ 15"
    and a: "0 \<le> rw_holder r \<Longrightarrow> rd_a x = rd_a (pc t) \<and> rw_pending_readers r' = rw_pending_readers r"
    and z: "wsum wr_c pc = 0 \<Longrightarrow> rw_pending_readers r' = rw_pending_readers r - rd_s (pc t) + rd_s x \<and> rd_u x = 0"
    and w: "0 < wsum wr_c pc \<Longrightarrow> rw_holder r < 0 \<Longrightarrow>
      rw_active_readers r' = rw_active_readers r - rd_a (pc t) + rd_a x \<and> 0 \<le> rw_pending_readers r'
      \<and> rw_pending_readers r' \<le> wsum rd_s pc - rd_s (pc t) + rd_s x \<and> rw_active_readers r' + rw_pending_readers r' < 2 ^ 15 \<and> (0 < rw_active_readers r' \<or> 0 < rw_pending_readers r')"
  shows "rw_inv ws r' (pc(t := x))"
proof -
  note i = rw_invD [OF inv]
  note u = wsum_upds [OF i(1), of t x]
  have c: "wr_c (pc t) = 0" "wr_c x = 0" using t by (auto simp: wr_c_def)
  have uu: "wsum rd_u pc = 0 \<Longrightarrow> rd_u (pc t) = 0" using wsum_ges(4) [OF i(1), of t] contrib_nonneg(5) [of "pc t"] by linarith
  have C: "wsum wr_c (pc(t := x)) = wsum wr_c pc" using u(5) c by simp
  have own: "owner ((pc(t := x)) v) \<longleftrightarrow> owner (pc v)" for v using t by simp
  show ?thesis
  proof (rule rw_invI)
    show "finite {u. (pc(t := x)) u \<noteq> Out}" using finite_out_upd [OF i(1)] .
    show "v \<in> set ws \<longleftrightarrow> queued ((pc(t := x)) v)" for v using i(3) [of v] t(3) by simp
    show "rw_writer r' v \<longleftrightarrow> (pc(t := x)) v = WrBlocked" if "v \<in> set ws" for v using i(4) [OF that] t same by simp
    show "rw_count r' = BASE * wsum wr_c (pc(t := x)) + wsum rd_n (pc(t := x))" unfolding C u(1) n(1) i(5) by simp
    show "owner_ok (rw_owner_count r') ((pc(t := x)) v)" for v using i(7) [of v] ok same by simp
    show "\<not> owner ((pc(t := x)) v)" if "rw_holder r' < 0" for v unfolding own using i(8) that same by simp
    show "\<exists>h. rw_holder r' = int h \<and> owner ((pc(t := x)) h) \<and> (\<forall>v. owner ((pc(t := x)) v) \<longrightarrow> v = h)" if "0 \<le> rw_holder r'"
      unfolding own using i(9) that same by simp
    show "wsum rd_a (pc(t := x)) = 0 \<and> rw_pending_readers r' = 0" if "0 \<le> rw_holder r'"
      using i(10) a u(2) that same by simp
    show "rw_pending_readers r' = wsum rd_s (pc(t := x)) \<and> wsum rd_u (pc(t := x)) = 0 \<and> ws = []" if "wsum wr_c (pc(t := x)) = 0"
      using i(11) z u(3,4) uu that unfolding C by simp
    show "rw_active_readers r' = wsum rd_a (pc(t := x)) \<and> 0 \<le> rw_pending_readers r' \<and> rw_pending_readers r' \<le> wsum rd_s (pc(t := x))
      \<and> rw_active_readers r' + rw_pending_readers r' < 2 ^ 15 \<and> (0 < rw_active_readers r' \<or> 0 < rw_pending_readers r') \<and> ws \<noteq> [] \<and> (pc(t := x)) (hd ws) = WrBlocked"
      if "0 < wsum wr_c (pc(t := x))" "rw_holder r' < 0"
    proof -
      have h: "0 < wsum wr_c pc" "rw_holder r < 0" using that same unfolding C by auto
      have "pc (hd ws) = WrBlocked" using i(12) [OF h] by blast
      then have "hd ws \<noteq> t" using t(5) by auto
      then show ?thesis using i(12) [OF h] w [OF h] unfolding u(2,3) by auto
    qed
  qed (use i(2,6) n(2) u(1) C same in simp_all)
qed

subsection \<open>Queueing\<close>

lemma rw_lock_wait_simps [simp]:
  "rw_waiters (rw_lock_wait t w r) = wq_enqueue t (rw_waiters r)" "rw_writer (rw_lock_wait t w r) = (rw_writer r)(t := w)"
  "rw_holder (rw_lock_wait t w r) = rw_holder r" "rw_count (rw_lock_wait t w r) = rw_count r"
  "rw_owner_count (rw_lock_wait t w r) = rw_owner_count r" "rw_active_readers (rw_lock_wait t w r) = rw_active_readers r"
  "rw_pending_readers (rw_lock_wait t w r) = rw_pending_readers r"
  by (simp_all add: rw_lock_wait_def)

lemma rw_inv_block_reader:
  assumes inv: "rw_inv ws r pc" and t: "pc t = RdSlow b" and p: "rw_pending_readers r = 0" and c: "0 < wsum wr_c pc"
  shows "rw_inv (ws @ [t]) (rw_lock_wait t False r) (pc(t := RdBlocked b'))"
proof -
  note i = rw_invD [OF inv]
  note u = wsum_upds [OF i(1), of t "RdBlocked b'"]
  have tw: "t \<notin> set ws" using i(3) [of t] t by simp
  have C: "wsum wr_c (pc(t := RdBlocked b')) = wsum wr_c pc" using u(5) t by simp
  have s1: "1 \<le> wsum rd_s pc" using wsum_ges(3) [OF i(1), of t] t by simp
  have own: "owner ((pc(t := RdBlocked b')) v) \<longleftrightarrow> owner (pc v)" for v using t by simp
  show ?thesis
  proof (rule rw_invI)
    show "finite {u. (pc(t := RdBlocked b')) u \<noteq> Out}" using finite_out_upd [OF i(1)] .
    show "wq_list (rw_waiters (rw_lock_wait t False r)) (ws @ [t])" using wq_enqueue_list [OF i(2) tw] by simp
    show "v \<in> set (ws @ [t]) \<longleftrightarrow> queued ((pc(t := RdBlocked b')) v)" for v using i(3) [of v] by simp
    show "rw_writer (rw_lock_wait t False r) v \<longleftrightarrow> (pc(t := RdBlocked b')) v = WrBlocked" if "v \<in> set (ws @ [t])" for v
      using i(4) [of v] that by auto
    show "owner_ok (rw_owner_count (rw_lock_wait t False r)) ((pc(t := RdBlocked b')) v)" for v using i(7) [of v] by simp
    show "\<not> owner ((pc(t := RdBlocked b')) v)" if "rw_holder (rw_lock_wait t False r) < 0" for v unfolding own using i(8) that by simp
    show "\<exists>h. rw_holder (rw_lock_wait t False r) = int h \<and> owner ((pc(t := RdBlocked b')) h)
      \<and> (\<forall>v. owner ((pc(t := RdBlocked b')) v) \<longrightarrow> v = h)" if "0 \<le> rw_holder (rw_lock_wait t False r)"
      unfolding own using i(9) that by simp
    show "wsum rd_a (pc(t := RdBlocked b')) = 0 \<and> rw_pending_readers (rw_lock_wait t False r) = 0"
      if "0 \<le> rw_holder (rw_lock_wait t False r)" using i(10) u(2) that t by simp
    show "rw_active_readers (rw_lock_wait t False r) = wsum rd_a (pc(t := RdBlocked b'))
      \<and> 0 \<le> rw_pending_readers (rw_lock_wait t False r) \<and> rw_pending_readers (rw_lock_wait t False r) \<le> wsum rd_s (pc(t := RdBlocked b'))
      \<and> rw_active_readers (rw_lock_wait t False r) + rw_pending_readers (rw_lock_wait t False r) < 2 ^ 15 \<and> (0 < rw_active_readers (rw_lock_wait t False r) \<or> 0 < rw_pending_readers (rw_lock_wait t False r)) \<and> ws @ [t] \<noteq> []
      \<and> (pc(t := RdBlocked b')) (hd (ws @ [t])) = WrBlocked" if "rw_holder (rw_lock_wait t False r) < 0"
    proof -
      have h: "rw_holder r < 0" using that by simp
      note j = i(12) [OF c h]
      have "hd ws \<noteq> t" using j t by auto
      then show ?thesis using j p s1 u(2,3) t by simp
    qed
  qed (use u i(5,6) t C c in simp_all)
qed

lemma rw_inv_block_writer:
  assumes inv: "rw_inv ws r pc" and t: "pc t = Out" and c: "rw_count r \<noteq> 0" and lim: "rw_count r < 2 ^ 31 - BASE"
    and r': "r' = r\<lparr>rw_count := rw_count r + BASE,
      rw_active_readers := (if rw_count r < BASE then rw_count r - rw_pending_readers r else rw_active_readers r)\<rparr>"
  shows "rw_inv (ws @ [t]) (rw_lock_wait t True r') (pc(t := WrBlocked))"
proof -
  note i = rw_invD [OF inv]
  note u = wsum_upds [OF i(1), of t WrBlocked]
  have tw: "t \<notin> set ws" using i(3) [of t] t by simp
  have C: "wsum wr_c (pc(t := WrBlocked)) = wsum wr_c pc + 1" using u(5) t by simp
  have s: "wsum rd_n (pc(t := WrBlocked)) = wsum rd_n pc" "wsum rd_a (pc(t := WrBlocked)) = wsum rd_a pc"
    "wsum rd_s (pc(t := WrBlocked)) = wsum rd_s pc" using u t by simp_all
  have own: "owner ((pc(t := WrBlocked)) v) \<longleftrightarrow> owner (pc v)" for v using t by simp
  have cnt: "rw_count r < BASE \<longleftrightarrow> wsum wr_c pc = 0" using rw_inv_count(1,3) [OF inv] by linarith
  show ?thesis
  proof (rule rw_invI)
    show "finite {u. (pc(t := WrBlocked)) u \<noteq> Out}" using finite_out_upd [OF i(1)] .
    show "wq_list (rw_waiters (rw_lock_wait t True r')) (ws @ [t])" using wq_enqueue_list [OF i(2) tw] by (simp add: r')
    show "v \<in> set (ws @ [t]) \<longleftrightarrow> queued ((pc(t := WrBlocked)) v)" for v using i(3) [of v] by simp
    show "rw_writer (rw_lock_wait t True r') v \<longleftrightarrow> (pc(t := WrBlocked)) v = WrBlocked" if "v \<in> set (ws @ [t])" for v
      using i(4) [of v] that by (auto simp: r')
    show "rw_count (rw_lock_wait t True r') = BASE * wsum wr_c (pc(t := WrBlocked)) + wsum rd_n (pc(t := WrBlocked))"
      unfolding C s using i(5) by (simp add: r' algebra_simps)
    show "owner_ok (rw_owner_count (rw_lock_wait t True r')) ((pc(t := WrBlocked)) v)" for v using i(7) [of v] by (simp add: r')
    show "\<not> owner ((pc(t := WrBlocked)) v)" if "rw_holder (rw_lock_wait t True r') < 0" for v
      unfolding own using i(8) that by (simp add: r')
    show "\<exists>h. rw_holder (rw_lock_wait t True r') = int h \<and> owner ((pc(t := WrBlocked)) h)
      \<and> (\<forall>v. owner ((pc(t := WrBlocked)) v) \<longrightarrow> v = h)" if "0 \<le> rw_holder (rw_lock_wait t True r')"
      unfolding own using i(9) that by (simp add: r')
    show "wsum rd_a (pc(t := WrBlocked)) = 0 \<and> rw_pending_readers (rw_lock_wait t True r') = 0"
      if "0 \<le> rw_holder (rw_lock_wait t True r')" using i(10) s that by (simp add: r')
    show "rw_active_readers (rw_lock_wait t True r') = wsum rd_a (pc(t := WrBlocked))
      \<and> 0 \<le> rw_pending_readers (rw_lock_wait t True r') \<and> rw_pending_readers (rw_lock_wait t True r') \<le> wsum rd_s (pc(t := WrBlocked))
      \<and> rw_active_readers (rw_lock_wait t True r') + rw_pending_readers (rw_lock_wait t True r') < 2 ^ 15 \<and> (0 < rw_active_readers (rw_lock_wait t True r') \<or> 0 < rw_pending_readers (rw_lock_wait t True r')) \<and> ws @ [t] \<noteq> []
      \<and> (pc(t := WrBlocked)) (hd (ws @ [t])) = WrBlocked" if "rw_holder (rw_lock_wait t True r') < 0"
    proof -
      have h: "rw_holder r < 0" using that by (simp add: r')
      show ?thesis
      proof (cases "wsum wr_c pc = 0")
        case True
        note j = i(11) [OF True]
        have "\<And>v. \<not> queued (pc v)" using i(3) j by simp
        then have "wsum rd_q pc = 0" using rd_q_01 by (intro wsum_zero) (auto simp: queued_def)
        moreover have "wsum rd_o pc = 0"
        proof (rule wsum_zero)
          show "rd_o (pc v) = 0" for v using i(8) [OF h, of v] by (cases "pc v") auto
        qed
        ultimately have "rw_count r = wsum rd_a pc + wsum rd_s pc" using i(5) True j wsum_n_split [of pc] by simp
        moreover have "0 \<le> wsum rd_s pc" "0 \<le> wsum rd_a pc" by (simp_all add: wsum_nonneg)
        ultimately show ?thesis using j True cnt c i(5,6) unfolding s by (auto simp: r')
      next
        case False
        then have C: "0 < wsum wr_c pc" using rw_inv_count(3) [OF inv] by simp
        note j = i(12) [OF C h]
        then show ?thesis using False cnt unfolding s by (auto simp: r')
      qed
    qed
    show "wsum wr_c (pc(t := WrBlocked)) = 0 \<Longrightarrow> rw_pending_readers (rw_lock_wait t True r') = wsum rd_s (pc(t := WrBlocked))
      \<and> wsum rd_u (pc(t := WrBlocked)) = 0 \<and> ws @ [t] = []" using C rw_inv_count(3) [OF inv] by simp
  qed (use i(6) s C rw_inv_count_bound [OF inv lim] in simp)
qed

lemma rw_inv_leave:
  assumes inv: "rw_inv ws r pc" and t: "pc t = RdGiveUp False" and q: "wq_list q (remove1 t ws)"
  shows "rw_inv (remove1 t ws) (r\<lparr>rw_waiters := q, rw_count := rw_count r - 1\<rparr>) (pc(t := Out))"
proof -
  note i = rw_invD [OF inv]
  note u = wsum_upds [OF i(1), of t Out]
  have d: "distinct ws" using wq_list_distinct [OF i(2)] .
  have tw: "t \<in> set ws" using i(3) [of t] t by simp
  have c: "0 < wsum wr_c pc" using rw_inv_hd [OF inv] tw by fastforce
  have own: "owner ((pc(t := Out)) v) \<longleftrightarrow> owner (pc v)" for v using t by simp
  let ?r = "r\<lparr>rw_waiters := q, rw_count := rw_count r - 1\<rparr>"
  show ?thesis
  proof (rule rw_invI)
    show "finite {u. (pc(t := Out)) u \<noteq> Out}" using finite_out_upd [OF i(1)] .
    show "v \<in> set (remove1 t ws) \<longleftrightarrow> queued ((pc(t := Out)) v)" for v using i(3) [of v] d by auto
    show "rw_writer ?r v \<longleftrightarrow> (pc(t := Out)) v = WrBlocked" if "v \<in> set (remove1 t ws)" for v
      using i(4) [of v] that d by auto
    show "owner_ok (rw_owner_count ?r) ((pc(t := Out)) v)" for v using i(7) [of v] by simp
    show "\<not> owner ((pc(t := Out)) v)" if "rw_holder ?r < 0" for v unfolding own using i(8) that by simp
    show "\<exists>h. rw_holder ?r = int h \<and> owner ((pc(t := Out)) h) \<and> (\<forall>v. owner ((pc(t := Out)) v) \<longrightarrow> v = h)" if "0 \<le> rw_holder ?r"
      unfolding own using i(9) that by simp
    show "wsum rd_a (pc(t := Out)) = 0 \<and> rw_pending_readers ?r = 0" if "0 \<le> rw_holder ?r" using i(10) u(2) that t by simp
    show "rw_active_readers ?r = wsum rd_a (pc(t := Out)) \<and> 0 \<le> rw_pending_readers ?r \<and> rw_pending_readers ?r \<le> wsum rd_s (pc(t := Out))
      \<and> rw_active_readers ?r + rw_pending_readers ?r < 2 ^ 15 \<and> (0 < rw_active_readers ?r \<or> 0 < rw_pending_readers ?r) \<and> remove1 t ws \<noteq> [] \<and> (pc(t := Out)) (hd (remove1 t ws)) = WrBlocked"
      if "rw_holder ?r < 0"
    proof -
      have h: "rw_holder r < 0" using that by simp
      note j = i(12) [OF c h]
      obtain x xs where w: "ws = x # xs" using j by (cases ws) auto
      have "x \<noteq> t" using j t w by auto
      then show ?thesis using j u(2,3) t w by auto
    qed
  qed (use u i(5,6) t c q in simp_all)
qed

lemma rw_inv_take:
  assumes inv: "rw_inv ws r pc" and t: "pc t = Out" and c: "rw_count r = 0"
  shows "rw_inv ws (r\<lparr>rw_count := BASE, rw_holder := int t, rw_owner_count := BASE\<rparr>) (pc(t := Writing 1 0))"
proof -
  note i = rw_invD [OF inv]
  note u = wsum_upds [OF i(1), of t "Writing 1 0"]
  have z: "wsum wr_c pc = 0" using rw_inv_count(1,3) [OF inv] c by (metis BASE_pos(1) linorder_not_le order_le_less)
  then have n: "wsum rd_n pc = 0" using i(5) c by simp
  note j = i(11) [OF z]
  have s: "0 \<le> wsum rd_s pc" "0 \<le> wsum rd_a pc" "0 \<le> wsum rd_q pc" "0 \<le> wsum rd_o pc" by (simp_all add: wsum_nonneg)
  then have a: "wsum rd_a pc = 0" "wsum rd_s pc = 0" using wsum_n_split [of pc] n j by linarith+
  have nc: "wr_c (pc v) \<le> 0" for v using wsum_ges(5) [OF i(1), of v] z by simp
  have own: "\<not> owner (pc v)" for v
  proof
    assume "owner (pc v)"
    from wr_c_owner(1) [OF this] nc [of v] show False by simp
  qed
  have rd: "rd_n (pc v) = 0" for v using wsum_ges(1) [OF i(1), of v] n contrib_nonneg(1) [of "pc v"] by linarith
  have ok: "owner_ok BASE ((pc(t := Writing 1 0)) v)" for v using own [of v] i(7) [of v] by (cases "pc v") auto
  let ?r = "r\<lparr>rw_count := BASE, rw_holder := int t, rw_owner_count := BASE\<rparr>"
  show ?thesis
  proof (rule rw_invI)
    show "finite {u. (pc(t := Writing 1 0)) u \<noteq> Out}" using finite_out_upd [OF i(1)] .
    show "v \<in> set ws \<longleftrightarrow> queued ((pc(t := Writing 1 0)) v)" for v using i(3) [of v] j t by auto
    show "rw_writer ?r v \<longleftrightarrow> (pc(t := Writing 1 0)) v = WrBlocked" if "v \<in> set ws" for v using that j by simp
    show "\<exists>h. rw_holder ?r = int h \<and> owner ((pc(t := Writing 1 0)) h) \<and> (\<forall>v. owner ((pc(t := Writing 1 0)) v) \<longrightarrow> v = h)"
      using own by (intro exI [of _ t]) auto
  qed (use u i(2) j a n z t ok in simp_all)
qed

subsection \<open>Steps of the owner\<close>

lemma rw_inv_own:
  assumes inv: "rw_inv ws r pc" and t: "owner (pc t)" "owner x"
    and ok: "owner_ok c x" and n: "k = rd_n x - rd_n (pc t)" "wsum rd_n pc + k < 2 ^ 15"
  shows "rw_inv ws (r\<lparr>rw_owner_count := c, rw_count := rw_count r + k\<rparr>) (pc(t := x))"
proof -
  note i = rw_invD [OF inv]
  note o = rw_inv_owner [OF inv t(1)]
  note u = wsum_upds [OF i(1), of t x]
  have ax: "rd_a p = 0 \<and> rd_s p = 0 \<and> rd_u p = 0 \<and> \<not> queued p \<and> p \<noteq> WrBlocked" if "owner p" for p using that by (cases p) auto
  have C: "wsum wr_c (pc(t := x)) = wsum wr_c pc" using u(5) t by (simp add: wr_c_owner)
  have only: "v = t" if "owner (pc v)" for v using rw_inv_owner(1) [OF inv that] o(1) by simp
  have ok': "owner_ok c (pc v)" if "v \<noteq> t" for v using only [of v] that i(7) [of v] by (cases "pc v") auto
  let ?r = "r\<lparr>rw_owner_count := c, rw_count := rw_count r + k\<rparr>"
  show ?thesis
  proof (rule rw_invI)
    show "finite {u. (pc(t := x)) u \<noteq> Out}" using finite_out_upd [OF i(1)] .
    show "v \<in> set ws \<longleftrightarrow> queued ((pc(t := x)) v)" for v using i(3) [of v] ax [OF t(1)] ax [OF t(2)] by auto
    show "rw_writer ?r v \<longleftrightarrow> (pc(t := x)) v = WrBlocked" if "v \<in> set ws" for v
      using i(4) [OF that] ax [OF t(1)] ax [OF t(2)] by auto
    show "owner_ok (rw_owner_count ?r) ((pc(t := x)) v)" for v using ok ok' [of v] by simp
    show "\<exists>h. rw_holder ?r = int h \<and> owner ((pc(t := x)) h) \<and> (\<forall>v. owner ((pc(t := x)) v) \<longrightarrow> v = h)"
    proof (intro exI [of _ t] conjI allI impI)
      fix v assume "owner ((pc(t := x)) v)"
      then show "v = t" using only [of v] by (cases "v = t") simp_all
    qed (use o(1) t in simp_all)
    show "wsum rd_a (pc(t := x)) = 0 \<and> rw_pending_readers ?r = 0" using u(2) o ax [OF t(1)] ax [OF t(2)] by simp
  qed (use u(1) i(2,5,6) n C o in simp_all)
qed

lemma owner_n: "owner p \<Longrightarrow> rd_n p = rd_o p"
  by (cases p) auto

subsection \<open>Unblocking\<close>

lemma wake_nth: "distinct ts \<Longrightarrow> wake ts pc u = (if u \<in> set ts then woken (pc u) else pc u)"
proof (induction ts arbitrary: pc)
  case (Cons t ts)
  then show ?case by (cases "u = t") auto
qed simp

lemma wsum_wake:
  "finite {t. pc t \<noteq> Out} \<Longrightarrow> f Out = 0 \<Longrightarrow> distinct ts \<Longrightarrow> (\<And>t. t \<in> set ts \<Longrightarrow> f (woken (pc t)) = f (pc t) + d) \<Longrightarrow>
     wsum f (wake ts pc) = wsum f pc + d * int (length ts)"
proof (induction ts arbitrary: pc)
  case (Cons t ts)
  have "wsum f (wake ts (pc(t := woken (pc t)))) = wsum f (pc(t := woken (pc t))) + d * int (length ts)"
    using Cons.prems by (intro Cons.IH finite_out_upd) auto
  moreover have "wsum f (pc(t := woken (pc t))) = wsum f pc + d" using wsum_upd [of pc f, OF Cons.prems(1,2)] Cons.prems(4) [of t] by simp
  ultimately show ?case by (simp add: algebra_simps)
qed simp

lemma finite_wake: "finite {t. pc t \<noteq> Out} \<Longrightarrow> finite {t. wake ts pc t \<noteq> Out}"
proof (induction ts arbitrary: pc)
  case (Cons t ts)
  then show ?case using finite_out_upd [of pc t "woken (pc t)"] by simp
qed simp

lemma woken_reader:
  assumes "rd_q p = 1"
  shows "rd_a (woken p) = rd_a p + 1" "rd_n (woken p) = rd_n p" "rd_s (woken p) = rd_s p" "rd_u (woken p) = rd_u p"
    "wr_c (woken p) = wr_c p" "\<not> queued (woken p)" "\<not> owner (woken p)" "owner_ok c (woken p)" "p \<noteq> WrBlocked" "\<not> owner p"
    "woken p \<noteq> Out"
  using assms by (cases p; auto)+

lemma wake_readers_list:
  "wq_list q ws \<Longrightarrow> \<exists>q'. wake_readers writer q = Some (takeWhile (\<lambda>t. \<not> writer t) ws, q')
     \<and> wq_list q' (dropWhile (\<lambda>t. \<not> writer t) ws)"
proof (induction ws arbitrary: q)
  case Nil
  then show ?case using wq_list_first [OF Nil] by (simp add: wake_readers.simps)
next
  case (Cons w ws)
  note f = wq_list_first [OF Cons.prems]
  show ?case
  proof (cases "writer w")
    case True
    then show ?thesis using f Cons.prems by (simp add: wake_readers.simps)
  next
    case False
    from Cons.IH [OF wq_dequeue_list(2) [OF Cons.prems]] obtain q' where
      "wake_readers writer (snd (wq_dequeue q)) = Some (takeWhile (\<lambda>t. \<not> writer t) ws, q')"
      "wq_list q' (dropWhile (\<lambda>t. \<not> writer t) ws)" by blast
    then show ?thesis using f False by (simp add: wake_readers.simps [of writer q])
  qed
qed

text \<open>A lock nobody holds with a queue that may be due: the invariant but for the condition on the head.\<close>

definition rw_due :: "thread_id list \<Rightarrow> rw_lock \<Rightarrow> (thread_id \<Rightarrow> rpc) \<Rightarrow> bool" where
  "rw_due ws r pc \<longleftrightarrow>
     finite {t. pc t \<noteq> Out} \<and> wq_list (rw_waiters r) ws \<and> (\<forall>t. t \<in> set ws \<longleftrightarrow> queued (pc t))
     \<and> (\<forall>t\<in>set ws. rw_writer r t \<longleftrightarrow> pc t = WrBlocked)
     \<and> rw_count r = BASE * wsum wr_c pc + wsum rd_n pc \<and> wsum rd_n pc < 2 ^ 15 \<and> wsum wr_c pc < 2 ^ 15
     \<and> (\<forall>t. owner_ok (rw_owner_count r) (pc t)) \<and> rw_holder r < 0 \<and> (\<forall>t. \<not> owner (pc t)) \<and> 0 < wsum wr_c pc
     \<and> rw_active_readers r = wsum rd_a pc \<and> 0 \<le> rw_pending_readers r \<and> rw_pending_readers r \<le> wsum rd_s pc
     \<and> rw_active_readers r + rw_pending_readers r < 2 ^ 15 \<and> (wsum rd_u pc = 0 \<or> pc (hd ws) = WrBlocked)"

lemma rw_dueD:
  assumes "rw_due ws r pc"
  shows "finite {t. pc t \<noteq> Out}" "wq_list (rw_waiters r) ws" "t \<in> set ws \<longleftrightarrow> queued (pc t)"
    "t \<in> set ws \<Longrightarrow> rw_writer r t \<longleftrightarrow> pc t = WrBlocked"
    "rw_count r = BASE * wsum wr_c pc + wsum rd_n pc" "wsum rd_n pc < 2 ^ 15 \<and> wsum wr_c pc < 2 ^ 15" "owner_ok (rw_owner_count r) (pc t)"
    "rw_holder r < 0" "\<not> owner (pc t)" "0 < wsum wr_c pc" "rw_active_readers r = wsum rd_a pc" "0 \<le> rw_pending_readers r"
    "rw_pending_readers r \<le> wsum rd_s pc" "rw_active_readers r + rw_pending_readers r < 2 ^ 15" "wsum rd_u pc = 0 \<or> pc (hd ws) = WrBlocked"
  using assms unfolding rw_due_def by blast+

lemma rw_due_inv:
  assumes "rw_due ws r pc" "ws \<noteq> []" "pc (hd ws) = WrBlocked" "0 < rw_active_readers r \<or> 0 < rw_pending_readers r"
  shows "rw_inv ws r pc"
  using rw_dueD [OF assms(1)] assms(2-) by (intro rw_invI) auto

lemma rw_due_writer:
  assumes "rw_due ws r pc"
  shows "\<exists>t\<in>set ws. pc t = WrBlocked"
proof -
  note d = rw_dueD [OF assms]
  obtain t where "0 < wr_c (pc t)" using wsum_pos [OF d(10)] by blast
  then have "pc t = WrBlocked" using d(9) [of t] by (auto simp: wr_c_def split: if_splits)
  then show ?thesis using d(3) [of t] by (intro bexI [of _ t]) auto
qed

lemma rw_due_grant:
  assumes due: "rw_due (w # ws) r pc" and w: "pc w = WrBlocked" and z: "rw_active_readers r = 0" "rw_pending_readers r = 0"
  shows "rw_inv ws (r\<lparr>rw_waiters := snd (wq_dequeue (rw_waiters r)), rw_holder := int w\<rparr>) (pc(w := WrWoken))"
proof -
  note d = rw_dueD [OF due]
  note u = wsum_upds [OF d(1), of w WrWoken]
  have dist: "w \<notin> set ws" using wq_list_distinct [OF d(2)] by simp
  let ?r = "r\<lparr>rw_waiters := snd (wq_dequeue (rw_waiters r)), rw_holder := int w\<rparr>"
  show ?thesis
  proof (rule rw_invI)
    show "finite {u. (pc(w := WrWoken)) u \<noteq> Out}" using finite_out_upd [OF d(1)] .
    show "wq_list (rw_waiters ?r) ws" using wq_dequeue_list(2) [OF d(2)] by simp
    show "v \<in> set ws \<longleftrightarrow> queued ((pc(w := WrWoken)) v)" for v using d(3) [of v] dist by auto
    show "rw_writer ?r v \<longleftrightarrow> (pc(w := WrWoken)) v = WrBlocked" if "v \<in> set ws" for v using d(4) [of v] that dist by auto
    show "owner_ok (rw_owner_count ?r) ((pc(w := WrWoken)) v)" for v using d(7) [of v] by simp
    show "\<exists>h. rw_holder ?r = int h \<and> owner ((pc(w := WrWoken)) h) \<and> (\<forall>v. owner ((pc(w := WrWoken)) v) \<longrightarrow> v = h)"
      using d(9) by (intro exI [of _ w]) simp
  qed (use u d(5,6,10,11) w z in simp_all)
qed

lemma rw_due_readers:
  assumes due: "rw_due ws r pc" and ts: "ts = takeWhile (\<lambda>t. \<not> rw_writer r t) ws" and t: "t \<in> set ts"
  shows "rd_q (pc t) = 1"
proof -
  note d = rw_dueD [OF due]
  have "t \<in> set ws" "\<not> rw_writer r t" using t ts set_takeWhileD by fastforce+
  then show ?thesis using d(3) [of t] d(4) [of t] by (auto simp: queued_def)
qed

lemma rw_due_room:
  assumes due: "rw_due ws r pc" and ts: "ts = takeWhile (\<lambda>t. \<not> rw_writer r t) ws" "ts \<noteq> []"
  shows "rw_active_readers r + int (length ts) + wsum rd_s pc < 2 ^ 15"
proof -
  note d = rw_dueD [OF due]
  note rd = rw_due_readers [OF due ts(1)]
  have dist: "distinct ts" unfolding ts(1) by (intro distinct_takeWhile wq_list_distinct [OF d(2)])
  have sums: "wsum rd_a (wake ts pc) = wsum rd_a pc + int (length ts)" "wsum rd_n (wake ts pc) = wsum rd_n pc"
    "wsum rd_s (wake ts pc) = wsum rd_s pc" "wsum rd_u (wake ts pc) = wsum rd_u pc"
    using wsum_wake [OF d(1) _ dist, of rd_a 1] wsum_wake [OF d(1) _ dist, of rd_n 0]
      wsum_wake [OF d(1) _ dist, of rd_s 0] wsum_wake [OF d(1) _ dist, of rd_u 0] woken_reader [OF rd] by simp_all
  have "hd ws = hd ts" using ts by (cases ws) auto
  then have "rd_q (pc (hd ws)) = 1" using rd [of "hd ws"] ts(2) by simp
  then have "wsum rd_u pc = 0" using d(15) by auto
  then show ?thesis
    using wsum_n_split [of "wake ts pc"] sums d(6,11) wsum_nonneg [of rd_q "wake ts pc"] wsum_nonneg [of rd_o "wake ts pc"] by simp
qed

lemma rw_due_wake:
  assumes due: "rw_due ws r pc"
    and ts: "ts = takeWhile (\<lambda>t. \<not> rw_writer r t) ws" "us = dropWhile (\<lambda>t. \<not> rw_writer r t) ws" "ts \<noteq> []"
    and q: "wq_list q us"
  shows "rw_inv us (r\<lparr>rw_waiters := q, rw_active_readers := rw_active_readers r + int (length ts)\<rparr>) (wake ts pc)"
proof -
  note d = rw_dueD [OF due]
  have ws: "ws = ts @ us" using ts by simp
  have dist: "distinct ts" "set ts \<inter> set us = {}" using wq_list_distinct [OF d(2)] ws by auto
  note rd = rw_due_readers [OF due ts(1)]
  have sums: "wsum rd_a (wake ts pc) = wsum rd_a pc + int (length ts)" "wsum rd_n (wake ts pc) = wsum rd_n pc"
    "wsum rd_s (wake ts pc) = wsum rd_s pc" "wsum wr_c (wake ts pc) = wsum wr_c pc"
    using wsum_wake [OF d(1) _ dist(1), of rd_a 1] wsum_wake [OF d(1) _ dist(1), of rd_n 0]
      wsum_wake [OF d(1) _ dist(1), of rd_s 0] wsum_wake [OF d(1) _ dist(1), of wr_c 0] woken_reader [OF rd] by simp_all
  note nth = wake_nth [OF dist(1)]
  have us: "us \<noteq> []" "rw_writer r (hd us)"
  proof -
    obtain t where t: "t \<in> set ws" "pc t = WrBlocked" using rw_due_writer [OF due] by blast
    then have "t \<notin> set ts" using rd [of t] by auto
    then show "us \<noteq> []" using t ws by auto
    then show "rw_writer r (hd us)" using hd_dropWhile ts(2) by blast
  qed
  have hd: "hd us \<in> set us" using us(1) by simp
  note room = rw_due_room [OF due ts(1,3)]
  have own: "\<not> owner (wake ts pc v)" for v unfolding nth using d(9) [of v] woken_reader(7) [OF rd, of v] by simp
  let ?r = "r\<lparr>rw_waiters := q, rw_active_readers := rw_active_readers r + int (length ts)\<rparr>"
  show ?thesis
  proof (rule rw_invI)
    show "finite {t. wake ts pc t \<noteq> Out}" using finite_wake [OF d(1)] .
    show "v \<in> set us \<longleftrightarrow> queued (wake ts pc v)" for v
      unfolding nth using d(3) [of v] woken_reader(6) [OF rd, of v] dist(2) ws by auto
    show "rw_writer ?r v \<longleftrightarrow> wake ts pc v = WrBlocked" if "v \<in> set us" for v
      unfolding nth using d(4) [of v] that dist(2) ws by auto
    show "owner_ok (rw_owner_count ?r) (wake ts pc v)" for v
      unfolding nth using d(7) [of v] woken_reader(8) [OF rd, of v] by simp
    show "rw_active_readers ?r = wsum rd_a (wake ts pc) \<and> 0 \<le> rw_pending_readers ?r \<and> rw_pending_readers ?r \<le> wsum rd_s (wake ts pc)
      \<and> rw_active_readers ?r + rw_pending_readers ?r < 2 ^ 15 \<and> (0 < rw_active_readers ?r \<or> 0 < rw_pending_readers ?r) \<and> us \<noteq> [] \<and> wake ts pc (hd us) = WrBlocked"
    proof -
      have "hd us \<notin> set ts" using hd dist(2) by blast
      then have "wake ts pc (hd us) = WrBlocked" unfolding nth using d(4) [of "hd us"] us(2) hd ws by simp
      moreover have "0 \<le> wsum rd_a pc" "0 < int (length ts)" using ts(3) by (simp_all add: wsum_nonneg)
      then have "0 < wsum rd_a pc + int (length ts)" by linarith
      ultimately show ?thesis using sums d(11-13) us(1) room by simp
    qed
  qed (use own q d(5,6,8,10) sums in simp_all)
qed

lemma rw_unblock_inv:
  assumes due: "rw_due ws r pc"
  shows "\<exists>n ts r' ws'. rw_lock_unblock r = Some (n, ts, r') \<and> rw_inv ws' r' (wake ts pc)"
proof -
  note d = rw_dueD [OF due]
  obtain w xs where ws: "ws = w # xs" using rw_due_writer [OF due] by (cases ws) auto
  have f: "wq_first (rw_waiters r) = Some w" using wq_list_first [OF d(2)] ws by simp
  have h: "\<not> 0 \<le> rw_holder r" using d(8) by simp
  show ?thesis
  proof (cases "rw_writer r w")
    case True
    then have pw: "pc w = WrBlocked" using d(4) [of w] ws by simp
    show ?thesis
    proof (cases "0 < rw_active_readers r \<or> 0 < rw_pending_readers r")
      case T: True
      then have "rw_lock_unblock r = Some (0, [], r)" using f h True by (simp add: rw_lock_unblock_def)
      moreover have "rw_inv ws r (wake [] pc)" using rw_due_inv [OF due] ws pw T by simp
      ultimately show ?thesis by blast
    next
      case F: False
      have "0 \<le> wsum rd_a pc" by (simp add: wsum_nonneg)
      then have z: "rw_active_readers r = 0" "rw_pending_readers r = 0" using F d(11,12) by auto
      have "rw_lock_unblock r = Some (BASE, [w], r\<lparr>rw_waiters := snd (wq_dequeue (rw_waiters r)), rw_holder := int w\<rparr>)"
        using f h True F by (simp add: rw_lock_unblock_def)
      moreover have "wake [w] pc = pc(w := WrWoken)" using pw by simp
      ultimately show ?thesis using rw_due_grant [OF due [unfolded ws] pw z] by metis
    qed
  next
    case False
    from wake_readers_list [OF d(2), of "rw_writer r"] obtain q where
      q: "wake_readers (rw_writer r) (rw_waiters r) = Some (takeWhile (\<lambda>t. \<not> rw_writer r t) ws, q)"
        "wq_list q (dropWhile (\<lambda>t. \<not> rw_writer r t) ws)" by blast
    let ?ts = "takeWhile (\<lambda>t. \<not> rw_writer r t) ws"
    have "BASE * 1 \<le> BASE * wsum wr_c pc" using d(10) by (intro mult_left_mono) auto
    moreover have "0 \<le> wsum rd_n pc" by (simp add: wsum_nonneg)
    ultimately have "BASE \<le> rw_count r" unfolding d(5) by linarith
    moreover have ne: "?ts \<noteq> []" using ws False by simp
    have "0 \<le> wsum rd_s pc" "0 \<le> wsum rd_a pc" by (simp_all add: wsum_nonneg)
    then have "int16 (rw_active_readers r + int (length ?ts)) = rw_active_readers r + int (length ?ts)"
      using rw_due_room [OF due refl ne] d(11) by (intro int16_id) linarith+
    ultimately have "rw_lock_unblock r = Some (int (length ?ts), ?ts,
        r\<lparr>rw_waiters := q, rw_active_readers := rw_active_readers r + int (length ?ts)\<rparr>)"
      using f h False q(1) by (simp add: rw_lock_unblock_def)
    moreover note ne
    ultimately show ?thesis using rw_due_wake [OF due refl refl _ q(2)] by blast
  qed
qed

subsection \<open>The last write unlock\<close>

lemma rw_inv_free:
  assumes "finite {t. pc t \<noteq> Out}" "wq_list (rw_waiters r) []" "\<And>t. \<not> queued (pc t)" "rw_count r = wsum rd_n pc" "wsum rd_n pc < 2 ^ 15 \<and> wsum wr_c pc < 2 ^ 15"
    "\<And>t. owner_ok (rw_owner_count r) (pc t)" "rw_holder r < 0" "\<And>t. \<not> owner (pc t)" "rw_pending_readers r = wsum rd_s pc"
    "wsum rd_u pc = 0" "wsum wr_c pc = 0"
  shows "rw_inv [] r pc"
  using assms by (intro rw_invI) simp_all

lemma wsum_u_le_a: "wsum rd_u pc \<le> wsum rd_a pc"
proof -
  have "rd_u p \<le> rd_a p" for p by (cases p) auto
  then show ?thesis unfolding wsum_def by (intro sum_mono) auto
qed

text \<open>The state after the holder \<open>t\<close> has given up its last write lock and before anybody is unblocked.\<close>

lemma rw_released:
  assumes inv: "rw_inv ws r pc" and t: "pc t = Writing w n"
    and r0: "r0 = r\<lparr>rw_holder := -1, rw_owner_count := 0, rw_count := rw_count r - BASE\<rparr>" and pc0: "pc0 = pc(t := reader_state n)"
  shows "finite {t. pc0 t \<noteq> Out}" "\<And>v. v \<in> set ws \<longleftrightarrow> queued (pc0 v)" "\<And>v. v \<in> set ws \<Longrightarrow> rw_writer r0 v \<longleftrightarrow> pc0 v = WrBlocked"
    "rw_count r0 = BASE * wsum wr_c pc0 + wsum rd_n pc0" "wsum rd_n pc0 < 2 ^ 15 \<and> wsum wr_c pc0 < 2 ^ 15" "\<And>v. owner_ok 0 (pc0 v)" "\<And>v. \<not> owner (pc0 v)"
    "wsum rd_a pc0 = int n" "wsum rd_u pc0 = 0" "rw_pending_readers r0 = 0" "wsum rd_s pc0 = wsum rd_s pc" "int n \<le> wsum rd_n pc0"
proof -
  note i = rw_invD [OF inv]
  have ot: "owner (pc t)" using t by simp
  note o = rw_inv_owner [OF inv ot]
  note u = wsum_upds [OF i(1), of t "reader_state n"]
  have rs: "rd_n (reader_state n) = int n" "rd_a (reader_state n) = int n" "rd_s (reader_state n) = 0" "rd_u (reader_state n) = 0"
    "wr_c (reader_state n) = 0" "\<not> queued (reader_state n)" "reader_state n \<noteq> WrBlocked" "\<not> owner (reader_state n)"
    "owner_ok 0 (reader_state n)" by (cases n; simp)+
  have only: "v = t" if "owner (pc v)" for v using rw_inv_owner(1) [OF inv that] o(1) by simp
  show "finite {t. pc0 t \<noteq> Out}" using finite_out_upd [OF i(1)] pc0 by simp
  show "v \<in> set ws \<longleftrightarrow> queued (pc0 v)" for v using i(3) [of v] t rs by (auto simp: pc0)
  show "rw_writer r0 v \<longleftrightarrow> pc0 v = WrBlocked" if "v \<in> set ws" for v using i(4) [OF that] t rs by (auto simp: pc0 r0)
  have "wsum wr_c pc = wsum wr_c pc0 + 1" "wsum rd_n pc = wsum rd_n pc0" using u(1,5) t rs by (simp_all add: pc0)
  then show "rw_count r0 = BASE * wsum wr_c pc0 + wsum rd_n pc0" using i(5) by (simp add: r0 distrib_left)
  show "wsum rd_n pc0 < 2 ^ 15 \<and> wsum wr_c pc0 < 2 ^ 15" using i(6) u(1,5) t rs by (simp add: pc0)
  show no: "\<not> owner (pc0 v)" for v
  proof (cases "v = t")
    case False
    then show ?thesis using only [of v] by (auto simp: pc0)
  qed (use rs in \<open>simp add: pc0\<close>)
  show "owner_ok 0 (pc0 v)" for v
  proof (cases "v = t")
    case False
    then show ?thesis using no [of v] i(7) [of v] by (cases "pc v") (auto simp: pc0)
  qed (use rs in \<open>simp add: pc0\<close>)
  show "wsum rd_a pc0 = int n" using u(2) o(2) t rs by (simp add: pc0)
  have "wsum rd_u pc = 0" using wsum_u_le_a [of pc] o(2) wsum_nonneg [of rd_u pc] by simp
  then show "wsum rd_u pc0 = 0" using u(4) t rs by (simp add: pc0)
  show "rw_pending_readers r0 = 0" using o(3) by (simp add: r0)
  show "wsum rd_s pc0 = wsum rd_s pc" using u(3) t rs by (simp add: pc0)
  show "int n \<le> wsum rd_n pc0" using u(1) wsum_ges(1) [OF i(1), of t] t rs by (simp add: pc0)
qed

lemma rw_write_unlock_inv:
  assumes inv: "rw_inv ws r pc" and t: "pc t = Writing (Suc w) n"
  shows "\<exists>ts r' ws'. rw_lock_write_unlock t r = Some (RGot, ts, r')
    \<and> rw_inv ws' r' (wake ts (pc(t := if w = 0 then reader_state n else Writing w n)))"
proof -
  note i = rw_invD [OF inv]
  have ot: "owner (pc t)" using t by simp
  note o = rw_inv_owner [OF inv ot]
  have oc: "rw_owner_count r = BASE * int (Suc w) + int n" using i(7) [of t] t by simp
  have nb: "int n < 2 ^ 15" using wsum_ges(1) [OF i(1), of t] i(6) t by simp
  have w15: "int w + 1 < 2 ^ 15" using i(7) [of t] t by simp
  have narrow: "int32 (rw_owner_count r - BASE) = rw_owner_count r - BASE" "int32 (rw_count r - BASE) = rw_count r - BASE" "int16 (int n) = int n"
    using rw_inv_range [OF inv] oc nb w15 by (auto simp: RW_LOCK_WRITER_COUNT_BASE_def intro!: int32_id int16_id)
  have ge: "BASE * 1 \<le> BASE * int (Suc w)" by (intro mult_left_mono) auto
  have panic: "\<not> rw_owner_count r < BASE" unfolding oc using ge by linarith
  show ?thesis
  proof (cases "w = 0")
    case False
    then have "BASE * 1 \<le> BASE * int w" by (intro mult_left_mono) auto
    moreover have e: "rw_owner_count r - BASE = BASE * int w + int n" unfolding oc by (simp add: algebra_simps)
    ultimately have "BASE \<le> rw_owner_count r - BASE" by linarith
    then have "rw_lock_write_unlock t r = Some (RGot, [], r\<lparr>rw_owner_count := rw_owner_count r - BASE\<rparr>)"
      using o(1) panic narrow by (simp add: rw_lock_write_unlock_def Let_def)
    moreover have "rw_inv ws (r\<lparr>rw_owner_count := rw_owner_count r - BASE, rw_count := rw_count r + 0\<rparr>) (pc(t := Writing w n))"
      using rw_inv_own [OF inv ot, of "Writing w n" "rw_owner_count r - BASE" 0] e t False i(6) w15 by simp
    ultimately show ?thesis using False by (intro exI) auto
  next
    case True
    define r0 where "r0 = r\<lparr>rw_holder := -1, rw_owner_count := 0, rw_count := rw_count r - BASE\<rparr>"
    define pc0 where "pc0 = pc(t := reader_state n)"
    note z = rw_released [OF inv t r0_def pc0_def]
    have n0: "rw_owner_count r - BASE = int n" unfolding oc using True by simp
    have nn: "0 \<le> wsum wr_c pc0" "0 \<le> wsum rd_n pc0" by (simp_all add: wsum_nonneg)
    have cnt: "rw_count r - BASE = rw_count r0" by (simp add: r0_def)
    have w0: "wq_list (rw_waiters r0) ws" "rw_holder r0 = -1" "rw_owner_count r0 = 0" using i(2) by (simp_all add: r0_def)
    have U: "rw_lock_write_unlock t r =
       (if rw_count r0 = 0 then Some (RGot, [], r0)
        else if BASE \<le> rw_count r0
        then map_option (\<lambda>(_, ts, r). (RGot, ts, r)) (rw_lock_unblock (r0\<lparr>rw_active_readers := int n\<rparr>))
        else map_option (\<lambda>(m, ts, r). (RGot, ts, r\<lparr>rw_pending_readers := int16 (rw_count r0 - int n - m)\<rparr>)) (rw_lock_unblock r0))"
      using o(1) panic nb n0 narrow by (simp add: rw_lock_write_unlock_def Let_def r0_def RW_LOCK_WRITER_COUNT_BASE_def)
    show ?thesis
    proof (cases "wsum wr_c pc0 = 0")
      case False
      then have c1: "0 < wsum wr_c pc0" using nn by simp
      then have "BASE * 1 \<le> BASE * wsum wr_c pc0" by (intro mult_left_mono) auto
      then have big: "BASE \<le> rw_count r0" unfolding z(4) using nn by linarith
      then have "rw_count r0 \<noteq> 0" using BASE_pos(1) by linarith
      have "rw_due ws (r0\<lparr>rw_active_readers := int n\<rparr>) pc0"
        unfolding rw_due_def using z c1 w0 nb wsum_nonneg [of rd_s pc0] by simp
      from rw_unblock_inv [OF this] big \<open>rw_count r0 \<noteq> 0\<close> show ?thesis unfolding U using True by (auto simp: pc0_def)
    next
      case c0: True
      have wr: "\<not> rw_writer r0 v" if "v \<in> set ws" for v
      proof -
        have "wr_c (pc0 v) \<le> 0" using wsum_ges(5) [OF z(1), of v] c0 by simp
        then have "pc0 v \<noteq> WrBlocked" by auto
        then show ?thesis using z(3) [OF that] by simp
      qed
      have q1: "v \<in> set ws \<longleftrightarrow> rd_q (pc0 v) = 1" for v using z(2) [of v] wr [of v] z(3) [of v] by (auto simp: queued_def)
      have Q: "wsum rd_q pc0 = int (length ws)" using wsum_q_length [OF z(1) wq_list_distinct [OF w0(1)] q1] .
      have O: "wsum rd_o pc0 = 0"
      proof (rule wsum_zero)
        show "rd_o (pc0 v) = 0" for v using z(7) [of v] by (cases "pc0 v") auto
      qed
      have N: "rw_count r0 = int n + wsum rd_s pc0 + int (length ws)" using z(4,8,9) c0 Q O wsum_n_split [of pc0] by simp
      have sp: "0 \<le> wsum rd_s pc0" by (simp add: wsum_nonneg)
      have narrow0: "int16 (rw_count r0 - int n - int (length ws)) = rw_count r0 - int n - int (length ws)"
        using N sp z(4,5) c0 by (intro int16_id) auto
      show ?thesis
      proof (cases "rw_count r0 = 0")
        case zero: True
        then have "int (length ws) = 0" and s0: "wsum rd_s pc0 = 0" using N sp by linarith+
        then have e: "ws = []" "wsum rd_s pc0 = 0" by simp_all
        have "rw_inv [] r0 pc0" using z w0 e c0 by (intro rw_inv_free) simp_all
        then show ?thesis unfolding U using zero True by (auto simp: pc0_def)
      next
        case nonzero: False
        have small: "\<not> BASE \<le> rw_count r0" using z(4,5) c0 by (simp add: RW_LOCK_WRITER_COUNT_BASE_def)
        show ?thesis
        proof (cases ws)
          case Nil
          then have "rw_lock_unblock r0 = Some (0, [], r0)" using wq_list_first [OF w0(1)] by (simp add: rw_lock_unblock_def)
          moreover have "rw_inv [] (r0\<lparr>rw_pending_readers := rw_count r0 - int n\<rparr>) pc0"
            using z w0 Nil c0 N by (intro rw_inv_free) simp_all
          ultimately show ?thesis unfolding U using nonzero small True narrow0 Nil by (auto simp: pc0_def)
        next
          case (Cons x xs)
          have tw: "takeWhile (\<lambda>t. \<not> rw_writer r0 t) ws = ws" "dropWhile (\<lambda>t. \<not> rw_writer r0 t) ws = []"
            using wr by (simp_all add: takeWhile_eq_all_conv dropWhile_eq_Nil_conv)
          from wake_readers_list [OF w0(1), of "rw_writer r0"] obtain q where
            q: "wake_readers (rw_writer r0) (rw_waiters r0) = Some (ws, q)" "wq_list q []" unfolding tw by blast
          have ub: "rw_lock_unblock r0 = Some (int (length ws), ws, r0\<lparr>rw_waiters := q\<rparr>)"
            using wq_list_first [OF w0(1)] Cons w0(2) wr [of x] q(1) small by (simp add: rw_lock_unblock_def)
          have d: "distinct ws" using wq_list_distinct [OF w0(1)] .
          have rd: "rd_q (pc0 v) = 1" if "v \<in> set ws" for v using q1 that by blast
          note nth = wake_nth [OF d]
          have sums: "wsum rd_n (wake ws pc0) = wsum rd_n pc0" "wsum rd_s (wake ws pc0) = wsum rd_s pc0"
            "wsum wr_c (wake ws pc0) = wsum wr_c pc0" "wsum rd_u (wake ws pc0) = wsum rd_u pc0"
            using wsum_wake [OF z(1) _ d, of rd_n 0] wsum_wake [OF z(1) _ d, of rd_s 0] wsum_wake [OF z(1) _ d, of wr_c 0]
              wsum_wake [OF z(1) _ d, of rd_u 0] woken_reader [OF rd] by simp_all
          have "rw_inv [] (r0\<lparr>rw_waiters := q, rw_pending_readers := rw_count r0 - int n - int (length ws)\<rparr>) (wake ws pc0)"
          proof (rule rw_inv_free)
            show "finite {t. wake ws pc0 t \<noteq> Out}" using finite_wake [OF z(1)] .
            show "\<not> queued (wake ws pc0 v)" for v unfolding nth using z(2) [of v] woken_reader(6) [OF rd, of v] by simp
            show "\<not> owner (wake ws pc0 v)" for v unfolding nth using z(7) [of v] woken_reader(7) [OF rd, of v] by simp
            show "owner_ok (rw_owner_count (r0\<lparr>rw_waiters := q, rw_pending_readers := rw_count r0 - int n - int (length ws)\<rparr>)) (wake ws pc0 v)" for v
              unfolding nth using z(6) [of v] woken_reader(8) [OF rd, of v] w0 by simp
          qed (use q(2) z w0 c0 N sums in simp_all)
          then show ?thesis unfolding U using ub nonzero small True narrow0 by (auto simp: pc0_def)
        qed
      qed
    qed
  qed
qed

subsection \<open>Every step keeps the invariant\<close>

lemma reader_state_simps [simp]:
  "rd_n (reader_state n) = int n" "rd_a (reader_state n) = int n" "rd_s (reader_state n) = 0" "rd_u (reader_state n) = 0"
  "wr_c (reader_state n) = 0" "\<not> queued (reader_state n)" "reader_state n \<noteq> WrBlocked" "\<not> owner (reader_state n)"
  "owner_ok c (reader_state n)"
  by (cases n; simp)+

lemma rw_read_lock_inv:
  assumes inv: "rw_inv ws r pc" and t: "pc t = Out" and b: "rw_count r mod BASE < 2 ^ 15 - 1"
    and f: "rw_lock_read_lock_inline r = (slow, r')"
  shows "rw_inv ws r' (pc(t := if slow then RdSlow b' else Reading 1))"
proof -
  note i = rw_invD [OF inv] and c = rw_inv_count [OF inv]
  have s: "slow \<longleftrightarrow> 0 < wsum wr_c pc" and r': "r' = r\<lparr>rw_count := rw_count r + 1\<rparr>"
    using f c(1) rw_inv_range [OF inv] by (auto simp: rw_lock_read_lock_inline_def int32_id)
  show ?thesis
  proof (cases slow)
    case True
    then have "rw_inv ws r' (pc(t := RdSlow b'))"
      using i(12) b c s t by (intro rw_inv_move [OF inv]) (auto simp: r')
    then show ?thesis using True by simp
  next
    case False
    then have z: "wsum wr_c pc = 0" using s c by simp
    then have "rw_holder r < 0" using rw_inv_owner(4) [OF inv] i(9) by (metis less_irrefl not_less)
    then have "rw_inv ws r' (pc(t := Reading 1))"
      using z b c t by (intro rw_inv_move [OF inv]) (auto simp: r')
    then show ?thesis using False by simp
  qed
qed

lemma rw_inv_pending:
  assumes "rw_inv ws r pc"
  shows "0 \<le> rw_pending_readers r" "rw_pending_readers r < 2 ^ 15"
proof -
  note i = rw_invD [OF assms] and c = rw_inv_count [OF assms]
  consider "0 \<le> rw_holder r" | "rw_holder r < 0" "wsum wr_c pc = 0" | "rw_holder r < 0" "0 < wsum wr_c pc" using c(3) by linarith
  then have "0 \<le> rw_pending_readers r \<and> rw_pending_readers r < 2 ^ 15"
  proof cases
    case 1
    then show ?thesis using i(10) by simp
  next
    case 2
    have "wsum rd_s pc \<le> wsum rd_n pc" unfolding wsum_n_split using i(11) [OF 2(2)] by (simp add: wsum_nonneg)
    then show ?thesis using i(11) [OF 2(2)] i(6) by (simp add: wsum_nonneg)
  next
    case 3
    then show ?thesis using i(12) wsum_nonneg [of rd_a pc] by auto
  qed
  then show "0 \<le> rw_pending_readers r" "rw_pending_readers r < 2 ^ 15" by auto
qed

lemma rw_read_lock_slow_inv:
  assumes inv: "rw_inv ws r pc" and t: "pc t = RdSlow b" and f: "rw_lock_read_lock_slow t r = (res, r')"
  shows "res \<noteq> RPanic \<and> (\<exists>ws'. rw_inv ws' r' (pc(t := if res = RGot then Reading 1 else RdBlocked b)))"
proof -
  note i = rw_invD [OF inv] and c = rw_inv_count [OF inv]
  have h: "rw_holder r \<noteq> int t" using rw_inv_not_holder [OF inv, of t] t by simp
  have s1: "1 \<le> wsum rd_s pc" using wsum_ges(3) [OF i(1), of t] t by simp
  show ?thesis
  proof (cases "0 < rw_pending_readers r")
    case True
    then have "rw_holder r < 0" using i(10) by force
    have e: "res = RGot" "r' = r\<lparr>rw_pending_readers := rw_pending_readers r - 1,
        rw_active_readers := (if BASE \<le> rw_count r then rw_active_readers r + 1 else rw_active_readers r)\<rparr>"
    proof -
      have p: "int16 (rw_pending_readers r - 1) = rw_pending_readers r - 1"
        using True rw_inv_pending [OF inv] by (intro int16_id) auto
      have "int16 (rw_active_readers r + 1) = rw_active_readers r + 1" if "BASE \<le> rw_count r"
        using i(12) that c(1) \<open>rw_holder r < 0\<close> True wsum_nonneg [of rd_a pc] by (intro int16_id) auto
      with p show "res = RGot" "r' = r\<lparr>rw_pending_readers := rw_pending_readers r - 1,
        rw_active_readers := (if BASE \<le> rw_count r then rw_active_readers r + 1 else rw_active_readers r)\<rparr>"
        using f h True by (auto simp: rw_lock_read_lock_slow_def)
    qed
    have "rw_inv ws r' (pc(t := Reading 1))"
    proof (rule rw_inv_move [OF inv])
      show "rw_active_readers r' = rw_active_readers r - rd_a (pc t) + rd_a (Reading 1) \<and> 0 \<le> rw_pending_readers r'
        \<and> rw_pending_readers r' \<le> wsum rd_s pc - rd_s (pc t) + rd_s (Reading 1) \<and> rw_active_readers r' + rw_pending_readers r' < 2 ^ 15 \<and> (0 < rw_active_readers r' \<or> 0 < rw_pending_readers r')"
        if "0 < wsum wr_c pc" "rw_holder r < 0"
        using i(12) [OF that] that(1) c(1) True t wsum_nonneg [of rd_a pc] by (auto simp: e)
    qed (use \<open>rw_holder r < 0\<close> i(6) t in \<open>auto simp: e\<close>)
    then show ?thesis using e by auto
  next
    case False
    have w: "0 < wsum wr_c pc" using i(11) c(3) s1 False by force
    then have p: "rw_pending_readers r = 0" using False i(10) i(12) by (meson less_le not_less)
    have e: "res = RBlock" "r' = rw_lock_wait t False r" using f h False w c(1) by (auto simp: rw_lock_read_lock_slow_def split: if_splits)
    show ?thesis using rw_inv_block_reader [OF inv t p w] e by auto
  qed
qed

lemma rw_timeout_inv:
  assumes inv: "rw_inv ws r pc"
  shows "pc t = RdBlocked True \<Longrightarrow> rw_inv ws r (pc(t := RdTimedOut False))"
    and "pc t = RdTimedOut gone \<Longrightarrow> rw_inv ws r (pc(t := if gone then Reading 1 else RdGiveUp False))"
proof -
  note i = rw_invD [OF inv]
  show "rw_inv ws r (pc(t := RdTimedOut False))" if "pc t = RdBlocked True"
    using that i(6,11,12) by (intro rw_inv_move [OF inv]) auto
  show "rw_inv ws r (pc(t := if gone then Reading 1 else RdGiveUp False))" if "pc t = RdTimedOut gone"
    using that i(6,11,12) by (intro rw_inv_move [OF inv]) auto
qed

lemma rw_give_up_inv:
  assumes inv: "rw_inv ws r pc" and t: "pc t = RdGiveUp gone"
  shows "gone \<Longrightarrow> rw_lock_read_give_up t r = Some None"
    and "\<not> gone \<Longrightarrow> \<exists>r'. rw_lock_read_give_up t r = Some (Some r') \<and> rw_inv (remove1 t ws) r' (pc(t := Out))"
proof -
  note i = rw_invD [OF inv]
  show "rw_lock_read_give_up t r = Some None" if gone
    using rw_dequeue_waiter_absent [OF i(2), of t] i(3) [of t] t that by (simp add: rw_lock_read_give_up_def)
  show "\<exists>r'. rw_lock_read_give_up t r = Some (Some r') \<and> rw_inv (remove1 t ws) r' (pc(t := Out))" if "\<not> gone"
  proof -
    have "t \<in> set ws" using i(3) [of t] t that by simp
    from rw_dequeue_waiter_list [OF i(2) this] obtain q where
      q: "rw_dequeue_waiter t (rw_waiters r) = Some (Some q)" "wq_list q (remove1 t ws)" by blast
    then show ?thesis using rw_inv_leave [OF inv _ q(2)] t that rw_inv_range [OF inv] by (simp add: rw_lock_read_give_up_def int32_id)
  qed
qed

lemma rw_read_unlock_inv:
  assumes inv: "rw_inv ws r pc" and t: "pc t = Reading (Suc n)" and f: "rw_lock_read_unlock_inline r = (slow, r')"
  shows "rw_inv ws r' (pc(t := if slow then RdUnlockSlow n else reader_state n))"
proof -
  note i = rw_invD [OF inv] and c = rw_inv_count [OF inv]
  have s: "slow \<longleftrightarrow> 0 < wsum wr_c pc" and r': "r' = r\<lparr>rw_count := rw_count r - 1\<rparr>"
    using f c(1) rw_inv_range [OF inv] by (auto simp: rw_lock_read_unlock_inline_def int32_id)
  show ?thesis
  proof (cases slow)
    case True
    then have "rw_inv ws r' (pc(t := RdUnlockSlow n))"
      using i(6,12) c s t by (intro rw_inv_move [OF inv]) (auto simp: r')
    then show ?thesis using True by simp
  next
    case False
    then have z: "wsum wr_c pc = 0" using s c by simp
    then have "rw_holder r < 0" using rw_inv_owner(4) [OF inv] i(9) by (metis less_irrefl not_less)
    then have "rw_inv ws r' (pc(t := reader_state n))"
      using z i(6) c t by (intro rw_inv_move [OF inv]) (auto simp: r')
    then show ?thesis using False by simp
  qed
qed

lemma rw_read_unlock_slow_inv:
  assumes inv: "rw_inv ws r pc" and t: "pc t = RdUnlockSlow n"
  shows "\<exists>ts r' ws'. rw_lock_read_unlock_slow t r = Some (RGot, ts, r') \<and> rw_inv ws' r' (wake ts (pc(t := reader_state n)))"
proof -
  note i = rw_invD [OF inv] and c = rw_inv_count [OF inv]
  note u = wsum_upds [OF i(1), of t "reader_state n"]
  have h: "rw_holder r \<noteq> int t" using rw_inv_not_holder [OF inv, of t] t by simp
  have a1: "int n + 1 \<le> wsum rd_a pc" using wsum_ges(2) [OF i(1), of t] t by simp
  then have hn: "rw_holder r < 0" using i(10) by force
  have u1: "1 \<le> wsum rd_u pc" using wsum_ges(4) [OF i(1), of t] t by simp
  then have w: "0 < wsum wr_c pc" using i(11) c(3) by force
  note j = i(12) [OF w hn]
  let ?r = "r\<lparr>rw_active_readers := rw_active_readers r - 1\<rparr>"
  have narrow: "int16 (rw_active_readers r - 1) = rw_active_readers r - 1" using j a1 by (intro int16_id) auto
  show ?thesis
  proof (cases "0 < rw_active_readers r - 1")
    case True
    have "rw_inv ws ?r (pc(t := reader_state n))"
      using j True t w hn i(6) by (intro rw_inv_move [OF inv]) auto
    then show ?thesis using True h narrow by (auto simp: rw_lock_read_unlock_slow_def Let_def)
  next
    case False
    then have z: "rw_active_readers r - 1 = 0" using j a1 by linarith
    have W: "wsum wr_c (pc(t := reader_state n)) = wsum wr_c pc" "wsum rd_n (pc(t := reader_state n)) = wsum rd_n pc"
       "wsum rd_s (pc(t := reader_state n)) = wsum rd_s pc" "wsum rd_a (pc(t := reader_state n)) = wsum rd_a pc - 1"
      using u t by simp_all
    have "rw_due ws ?r (pc(t := reader_state n))" unfolding rw_due_def W
      using i(1-8) j t hn w finite_out_upd [OF i(1), of t "reader_state n"] by auto
    from rw_unblock_inv [OF this] show ?thesis using h z narrow by (force simp: rw_lock_read_unlock_slow_def Let_def)
  qed
qed

lemma rw_write_lock_inv:
  assumes inv: "rw_inv ws r pc" and t: "pc t = Out" and lim: "rw_count r < 2 ^ 31 - BASE" and f: "rw_lock_write_lock t r = (res, r')"
  shows "res \<noteq> RPanic \<and> (\<exists>ws'. rw_inv ws' r' (pc(t := if res = RGot then Writing 1 0 else WrBlocked)))"
proof -
  have h: "rw_holder r \<noteq> int t" using rw_inv_not_holder [OF inv, of t] t by simp
  have narrow: "int32 (rw_count r + BASE) = rw_count r + BASE" using rw_inv_range [OF inv] lim by (intro int32_id) (auto simp: RW_LOCK_WRITER_COUNT_BASE_def)
  show ?thesis
  proof (cases "rw_count r = 0")
    case True
    then show ?thesis using f h narrow rw_inv_take [OF inv t True] by (auto simp: rw_lock_write_lock_def Let_def)
  next
    case False
    have e: "res = RBlock" "r' = rw_lock_wait t True (r\<lparr>rw_count := rw_count r + BASE,
      rw_active_readers := (if rw_count r < BASE then rw_count r - rw_pending_readers r else rw_active_readers r)\<rparr>)"
    proof -
      have "int16 (rw_count r - rw_pending_readers r) = rw_count r - rw_pending_readers r" if "rw_count r < BASE"
      proof -
        have "wsum wr_c pc = 0" using that rw_inv_count(1,3) [OF inv] by linarith
        then have "rw_count r < 2 ^ 15" using rw_invD(5,6) [OF inv] by simp
        then show ?thesis using rw_inv_pending [OF inv] rw_inv_range [OF inv] by (intro int16_id) linarith+
      qed
      then show "res = RBlock" "r' = rw_lock_wait t True (r\<lparr>rw_count := rw_count r + BASE,
        rw_active_readers := (if rw_count r < BASE then rw_count r - rw_pending_readers r else rw_active_readers r)\<rparr>)"
        using f h narrow False by (auto simp: rw_lock_write_lock_def Let_def)
    qed
    show ?thesis using rw_inv_block_writer [OF inv t False lim refl] e by auto
  qed
qed

text \<open>The holder.\<close>

lemma rw_inv_owner_range:
  assumes "rw_inv ws r pc" "owner (pc t)" "pc t = WrRdSlow w n"
  shows "0 \<le> rw_owner_count r" "rw_owner_count r < 2 ^ 31 - 1"
  using rw_invD(6) [OF assms(1)] rw_invD(7) [OF assms(1), of t] wsum_ges(1) [OF rw_invD(1) [OF assms(1)], of t] assms(3)
  by (simp_all add: RW_LOCK_WRITER_COUNT_BASE_def)

lemma rw_write_woken_inv:
  assumes inv: "rw_inv ws r pc" and t: "pc t = WrWoken"
  shows "rw_inv ws (rw_lock_write_woken t r) (pc(t := Writing 1 0))"
proof -
  have ot: "owner (pc t)" using t by simp
  have "rw_lock_write_woken t r = r\<lparr>rw_owner_count := BASE, rw_count := rw_count r + 0\<rparr>"
    using rw_inv_owner(1) [OF inv ot] by (simp add: rw_lock_write_woken_def)
  then show ?thesis using rw_inv_own [OF inv ot, of "Writing 1 0" BASE 0] t rw_invD(6) [OF inv] by simp
qed

lemma rw_write_again_inv:
  assumes inv: "rw_inv ws r pc" and t: "pc t = Writing w n" and lim: "rw_owner_count r < 2 ^ 31 - BASE" and f: "rw_lock_write_lock t r = (res, r')"
  shows "res = RGot \<and> rw_inv ws r' (pc(t := Writing (Suc w) n))"
proof -
  have ot: "owner (pc t)" using t by simp
  have oc: "rw_owner_count r = BASE * int w + int n" using rw_invD(7) [OF inv, of t] t by simp
  then have w15: "Suc w < 2 ^ 15" using lim by (simp add: RW_LOCK_WRITER_COUNT_BASE_def)
  have narrow: "int32 (rw_owner_count r + BASE) = rw_owner_count r + BASE" using lim oc by (intro int32_id) (auto simp: RW_LOCK_WRITER_COUNT_BASE_def)
  have e: "res = RGot" "r' = r\<lparr>rw_owner_count := rw_owner_count r + BASE, rw_count := rw_count r + 0\<rparr>"
    using f rw_inv_owner(1) [OF inv ot] narrow by (auto simp: rw_lock_write_lock_def)
  have "owner_ok (rw_owner_count r + BASE) (Writing (Suc w) n)"
    using oc w15 by (simp add: algebra_simps)
  then show ?thesis using rw_inv_own [OF inv ot, of "Writing (Suc w) n" _ 0] t rw_invD(6) [OF inv] e by simp
qed

lemma rw_write_read_lock_inv:
  assumes inv: "rw_inv ws r pc" and t: "pc t = Writing w n" and b: "rw_count r mod BASE < 2 ^ 15 - 1"
    and f: "rw_lock_read_lock_inline r = (slow, r')"
  shows "slow \<and> rw_inv ws r' (pc(t := WrRdSlow w n))"
proof -
  have ot: "owner (pc t)" using t by simp
  have e: "slow" "r' = r\<lparr>rw_owner_count := rw_owner_count r, rw_count := rw_count r + 1\<rparr>"
    using f rw_inv_owner(4) [OF inv ot] rw_inv_count(1) [OF inv] rw_inv_range [OF inv] by (auto simp: rw_lock_read_lock_inline_def int32_id)
  have "owner_ok (rw_owner_count r) (WrRdSlow w n)" using rw_invD(7) [OF inv, of t] t by simp
  then show ?thesis
    using rw_inv_own [OF inv ot, of "WrRdSlow w n" "rw_owner_count r" 1] t b rw_inv_count(2) [OF inv] e by simp
qed

lemma rw_write_read_lock_slow_inv:
  assumes inv: "rw_inv ws r pc" and t: "pc t = WrRdSlow w n" and f: "rw_lock_read_lock_slow t r = (res, r')"
  shows "res = RGot \<and> rw_inv ws r' (pc(t := Writing w (Suc n)))"
proof -
  have ot: "owner (pc t)" using t by simp
  have e: "res = RGot" "r' = r\<lparr>rw_owner_count := rw_owner_count r + 1, rw_count := rw_count r + 0\<rparr>"
    using f rw_inv_owner(1) [OF inv ot] rw_inv_owner_range [OF inv ot t] by (auto simp: rw_lock_read_lock_slow_def int32_id)
  then show ?thesis
    using rw_inv_own [OF inv ot, of "Writing w (Suc n)" "rw_owner_count r + 1" 0] t rw_invD(7) [OF inv, of t] rw_invD(6) [OF inv] by simp
qed

lemma rw_write_read_unlock_inv:
  assumes inv: "rw_inv ws r pc" and t: "pc t = Writing w (Suc n)" and f: "rw_lock_read_unlock_inline r = (slow, r')"
  shows "slow \<and> rw_inv ws r' (pc(t := WrRdUnlockSlow w n))"
proof -
  have ot: "owner (pc t)" using t by simp
  have nb: "int (Suc n) < BASE" using wsum_ges(1) [OF rw_invD(1) [OF inv], of t] rw_invD(6) [OF inv] t by (simp add: RW_LOCK_WRITER_COUNT_BASE_def)
  have e: "slow" "r' = r\<lparr>rw_owner_count := rw_owner_count r, rw_count := rw_count r + - 1\<rparr>"
    using f rw_inv_owner(4) [OF inv ot] rw_inv_count(1) [OF inv] rw_inv_range [OF inv] by (auto simp: rw_lock_read_unlock_inline_def int32_id)
  have "owner_ok (rw_owner_count r) (WrRdUnlockSlow w n)" using rw_invD(7) [OF inv, of t] t nb by simp
  then show ?thesis
    using rw_inv_own [OF inv ot, of "WrRdUnlockSlow w n" "rw_owner_count r" "-1"] t rw_invD(6) [OF inv] e by simp
qed

lemma rw_write_read_unlock_slow_inv:
  assumes inv: "rw_inv ws r pc" and t: "pc t = WrRdUnlockSlow w n"
  shows "\<exists>r'. rw_lock_read_unlock_slow t r = Some (RGot, [], r') \<and> rw_inv ws r' (pc(t := Writing w n))"
proof -
  have ot: "owner (pc t)" using t by simp
  have ok: "0 < w" "int n + 1 < BASE" "rw_owner_count r = BASE * int w + int n + 1" "w < 2 ^ 15" using rw_invD(7) [OF inv, of t] t by simp_all
  have "rw_owner_count r = (int n + 1) + BASE * int w" using ok by simp
  then have "rw_owner_count r mod BASE = int n + 1" using ok(2) by (simp only: mod_mult_self2) simp
  then have e: "rw_lock_read_unlock_slow t r = Some (RGot, [], r\<lparr>rw_owner_count := rw_owner_count r - 1, rw_count := rw_count r + 0\<rparr>)"
    using rw_inv_owner(1) [OF inv ot] ok by (simp add: rw_lock_read_unlock_slow_def int32_id RW_LOCK_WRITER_COUNT_BASE_def)
  then show ?thesis
    using rw_inv_own [OF inv ot, of "Writing w n" "rw_owner_count r - 1" 0] t ok rw_invD(6) [OF inv] by simp
qed

lemma rw_step_inv: "rw_step s s' \<Longrightarrow> rw_inv ws (r_lock s) (r_pc s) \<Longrightarrow> \<exists>ws'. rw_inv ws' (r_lock s') (r_pc s')"
proof (induction rule: rw_step.induct)
  case (read_lock s t slow r timed)
  then show ?case using rw_read_lock_inv [OF read_lock.prems read_lock.hyps] by (simp only: rsys.simps, blast?)
next
  case (read_lock_slow s t timed res r)
  then show ?case using rw_read_lock_slow_inv [OF read_lock_slow.prems read_lock_slow.hyps(1,2)] by (simp only: rsys.simps, blast?)
next
  case (timeout s t)
  then show ?case using rw_timeout_inv(1) [OF timeout.prems timeout.hyps] by (auto simp: fun_upd_def)
next
  case (timed_out s t gone)
  then show ?case using rw_timeout_inv(2) [OF timed_out.prems timed_out.hyps] by (auto simp: fun_upd_def split: if_splits)
next
  case (give_up s t gone r)
  then show ?case using rw_give_up_inv [OF give_up.prems give_up.hyps(1)] by (cases gone) (auto simp: fun_upd_def)
next
  case (read_unlock s t n slow r)
  then show ?case using rw_read_unlock_inv [OF read_unlock.prems read_unlock.hyps] by (simp only: rsys.simps, blast?)
next
  case (read_unlock_slow s t n ts r)
  then show ?case using rw_read_unlock_slow_inv [OF read_unlock_slow.prems read_unlock_slow.hyps(1)] by (auto simp: fun_upd_def)
next
  case (write_lock s t res r)
  then show ?case using rw_write_lock_inv [OF write_lock.prems write_lock.hyps(1,2)] by (simp only: rsys.simps, blast?)
next
  case (write_woken s t)
  then show ?case using rw_write_woken_inv [OF write_woken.prems write_woken.hyps] by (auto simp: fun_upd_def)
next
  case (write_again s t w n res r)
  then show ?case using rw_write_again_inv [OF write_again.prems write_again.hyps(1,2)] by (auto simp: fun_upd_def)
next
  case (write_read_lock s t w n slow r)
  then show ?case using rw_write_read_lock_inv [OF write_read_lock.prems write_read_lock.hyps] by (auto simp: fun_upd_def)
next
  case (write_read_lock_slow s t w n res r)
  then show ?case using rw_write_read_lock_slow_inv [OF write_read_lock_slow.prems write_read_lock_slow.hyps(1,2)] by (auto simp: fun_upd_def)
next
  case (write_read_unlock s t w n slow r)
  then show ?case using rw_write_read_unlock_inv [OF write_read_unlock.prems write_read_unlock.hyps] by (auto simp: fun_upd_def)
next
  case (write_read_unlock_slow s t w n ts r)
  then show ?case using rw_write_read_unlock_slow_inv [OF write_read_unlock_slow.prems write_read_unlock_slow.hyps(1)] by (auto simp: fun_upd_def)
next
  case (write_unlock s t w n ts r)
  then show ?case using rw_write_unlock_inv [OF write_unlock.prems write_unlock.hyps(1)] by (auto simp: fun_upd_def)
qed

lemma rw_reachable_inv: "rw_step\<^sup>*\<^sup>* rw_start s \<Longrightarrow> \<exists>ws. rw_inv ws (r_lock s) (r_pc s)"
  by (induction rule: rtranclp_induct) (use rw_inv_start rw_step_inv in blast)+

subsection \<open>Properties\<close>


lemma rw_inv_reading:
  assumes inv: "rw_inv ws r pc" and u: "owner (pc u)"
  shows "pc v \<noteq> Reading k"
proof
  assume v: "pc v = Reading k"
  then have "0 < rd_a (pc v)" using rw_invD(7) [OF inv, of v] by simp
  then show False using wsum_ges(2) [OF rw_invD(1) [OF inv], of v] rw_inv_owner(2) [OF inv u] by simp
qed

text \<open>
  C1: Within the capacity of its fields (fewer than \<open>2\<^sup>1\<^sup>5\<close> read locks, threads that hold or wait for the write lock, and nested
  write locks), in every state that any interleaving of readers, readers with a timeout, writers and nested locks of the
  writer reaches, at most one thread owns the lock for writing, no thread reads while one does, and the operations
  complete: a reader that has to take the slow path gets the lock or queues, a reader that leaves and a writer that
  releases complete, a nested lock of the writer is granted, and a reader that gives up after its timeout leaves the
  queue. The one exception is a reader whose block timed out and that has been dequeued before it takes the spinlock to
  give up: its search of the queue always ends in an access through a null pointer.
\<close>
theorem rw_lock_exclusion:
  assumes "rw_step\<^sup>*\<^sup>* rw_start s"
  shows "(\<forall>u v. owner (r_pc s u) \<and> owner (r_pc s v) \<longrightarrow> u = v)
    \<and> (\<forall>u v k. owner (r_pc s u) \<longrightarrow> r_pc s v \<noteq> Reading k)
    \<and> (\<forall>t b. r_pc s t = RdSlow b \<longrightarrow> fst (rw_lock_read_lock_slow t (r_lock s)) \<noteq> RPanic)
    \<and> (\<forall>t n. r_pc s t = RdUnlockSlow n \<longrightarrow> (\<exists>ts r. rw_lock_read_unlock_slow t (r_lock s) = Some (RGot, ts, r)))
    \<and> (\<forall>t w n. r_pc s t = Writing (Suc w) n \<longrightarrow> (\<exists>ts r. rw_lock_write_unlock t (r_lock s) = Some (RGot, ts, r)))
    \<and> (\<forall>t w n. r_pc s t = Writing w n \<longrightarrow> fst (rw_lock_write_lock t (r_lock s)) = RGot)
    \<and> (\<forall>t w n. r_pc s t = WrRdSlow w n \<longrightarrow> fst (rw_lock_read_lock_slow t (r_lock s)) = RGot)
    \<and> (\<forall>t w n. r_pc s t = WrRdUnlockSlow w n \<longrightarrow> (\<exists>r. rw_lock_read_unlock_slow t (r_lock s) = Some (RGot, [], r)))
    \<and> (\<forall>t gone. r_pc s t = RdGiveUp gone \<longrightarrow> (if gone then rw_lock_read_give_up t (r_lock s) = Some None
          else \<exists>r. rw_lock_read_give_up t (r_lock s) = Some (Some r)))"
proof -
  obtain ws where inv: "rw_inv ws (r_lock s) (r_pc s)" using rw_reachable_inv [OF assms] by blast
  have one: "u = v" if "owner (r_pc s u)" "owner (r_pc s v)" for u v
    using rw_inv_owner(1) [OF inv that(1)] rw_inv_owner(1) [OF inv that(2)] by simp
  have slow: "fst (rw_lock_read_lock_slow t (r_lock s)) \<noteq> RPanic" if "r_pc s t = RdSlow b" for t b
    using rw_read_lock_slow_inv [OF inv that] by (metis prod.collapse)
  have again: "fst (rw_lock_write_lock t (r_lock s)) = RGot" if "r_pc s t = Writing w n" for t w n
    using rw_inv_owner(1) [OF inv, of t] that by (simp add: rw_lock_write_lock_def)
  have nested: "fst (rw_lock_read_lock_slow t (r_lock s)) = RGot" if "r_pc s t = WrRdSlow w n" for t w n
    using rw_write_read_lock_slow_inv [OF inv that] by (metis prod.collapse)
  have leave: "\<exists>ts r. rw_lock_read_unlock_slow t (r_lock s) = Some (RGot, ts, r)" if "r_pc s t = RdUnlockSlow n" for t n
    using rw_read_unlock_slow_inv [OF inv that] by blast
  have rel: "\<exists>ts r. rw_lock_write_unlock t (r_lock s) = Some (RGot, ts, r)" if "r_pc s t = Writing (Suc w) n" for t w n
    using rw_write_unlock_inv [OF inv that] by blast
  have drop: "\<exists>r. rw_lock_read_unlock_slow t (r_lock s) = Some (RGot, [], r)" if "r_pc s t = WrRdUnlockSlow w n" for t w n
    using rw_write_read_unlock_slow_inv [OF inv that] by blast
  have up: "if gone then rw_lock_read_give_up t (r_lock s) = Some None else \<exists>r. rw_lock_read_give_up t (r_lock s) = Some (Some r)"
    if "r_pc s t = RdGiveUp gone" for t gone using rw_give_up_inv [OF inv that] by (cases gone) auto
  from one rw_inv_reading [OF inv] slow leave rel again nested drop up show ?thesis
    by (intro conjI allI impI) (blast | simp only:)+
qed

text \<open>A run: thread 1 write locks, thread 2 waits for a read lock with a timeout.\<close>

lemma rw_run_blocked:
  "rw_step\<^sup>*\<^sup>* rw_start \<lparr>r_lock = rw_lock_wait 2 False (rw_lock_init\<lparr>rw_holder := 1, rw_owner_count := BASE, rw_count := BASE + 1\<rparr>),
     r_pc = (\<lambda>_. Out)(1 := Writing 1 0, 2 := RdBlocked True)\<rparr>"
proof -
  let ?r = "rw_lock_init\<lparr>rw_holder := 1, rw_count := BASE, rw_owner_count := BASE\<rparr>"
  let ?s = "\<lambda>r p. \<lparr>r_lock = r, r_pc = (\<lambda>_. Out)(1 := Writing 1 0, 2 := p)\<rparr>"
  have e: "(\<lambda>_. Out)(1 := Writing 1 0, 2 := Out) = (\<lambda>_ :: thread_id. Out)(1 := Writing 1 0)" by (rule ext) simp
  have 1: "rw_step rw_start (?s ?r Out)"
    using rw_step.write_lock [of rw_start 1 RGot ?r] unfolding e by (simp add: rw_start_def rw_lock_write_lock_def rw_lock_init_def RW_LOCK_WRITER_COUNT_BASE_def int32_def)
  have 2: "rw_step (?s ?r Out) (?s (?r\<lparr>rw_count := BASE + 1\<rparr>) (RdSlow True))"
    using rw_step.read_lock [of "?s ?r Out" 2 True "?r\<lparr>rw_count := BASE + 1\<rparr>" True]
    by (simp add: rw_lock_read_lock_inline_def rw_lock_init_def RW_LOCK_WRITER_COUNT_BASE_def int32_def)
  have 3: "rw_step (?s (?r\<lparr>rw_count := BASE + 1\<rparr>) (RdSlow True)) (?s (rw_lock_wait 2 False (?r\<lparr>rw_count := BASE + 1\<rparr>)) (RdBlocked True))"
    using rw_step.read_lock_slow [of "?s (?r\<lparr>rw_count := BASE + 1\<rparr>) (RdSlow True)" 2 True RBlock "rw_lock_wait 2 False (?r\<lparr>rw_count := BASE + 1\<rparr>)"]
    by (simp add: rw_lock_read_lock_slow_def rw_lock_init_def)
  from 1 2 3 have "rw_step\<^sup>*\<^sup>* rw_start (?s (rw_lock_wait 2 False (?r\<lparr>rw_count := BASE + 1\<rparr>)) (RdBlocked True))"
    by (meson rtranclp.rtrancl_into_rtrancl rtranclp.rtrancl_refl)
  then show ?thesis by simp
qed

lemma rw_run_pcs: "\<exists>s. rw_step\<^sup>*\<^sup>* rw_start s \<and> r_pc s 1 = Writing 1 0 \<and> r_pc s 2 = RdBlocked True"
  by (rule exI, rule conjI, rule rw_run_blocked) simp

theorem rw_lock_exclusion_witness:
  "\<exists>s. rw_step\<^sup>*\<^sup>* rw_start s \<and> owner (r_pc s 1) \<and> r_pc s 2 = RdBlocked True \<and> (\<forall>v. owner (r_pc s v) \<longrightarrow> 1 = v)"
proof -
  obtain s where s: "rw_step\<^sup>*\<^sup>* rw_start s" "r_pc s 1 = Writing 1 0" "r_pc s 2 = RdBlocked True" using rw_run_pcs by blast
  then have w: "owner (r_pc s 1)" by simp
  then have "\<forall>v. owner (r_pc s v) \<longrightarrow> 1 = v" using conjunct1 [OF rw_lock_exclusion [OF s(1)]] by blast
  with s(1,3) w show ?thesis by blast
qed



text \<open>
  C39: A read lock with a timeout can crash: a reader whose block timed out, and that still found \<open>waiter.thread\<close> set,
  reaches its search of the queue only after the writer has dequeued it, and the search runs off the end of the list.
\<close>
theorem rw_lock_timeout_crash:
  "\<exists>s. rw_step\<^sup>*\<^sup>* rw_start s \<and> r_pc s 2 = RdGiveUp True \<and> rw_lock_read_give_up 2 (r_lock s) = Some None"
proof -
  let ?r = "rw_lock_wait 2 False (rw_lock_init\<lparr>rw_holder := 1, rw_owner_count := BASE, rw_count := BASE + 1\<rparr>)"
  let ?s = "\<lambda>p. \<lparr>r_lock = ?r, r_pc = (\<lambda>_. Out)(1 := Writing 1 0, 2 := p)\<rparr>"
  have "rw_step (?s (RdBlocked True)) (?s (RdTimedOut False))" using rw_step.timeout [of "?s (RdBlocked True)" 2] by simp
  moreover have "rw_step (?s (RdTimedOut False)) (?s (RdGiveUp False))" using rw_step.timed_out [of "?s (RdTimedOut False)" 2 False] by simp
  ultimately have s: "rw_step\<^sup>*\<^sup>* rw_start (?s (RdGiveUp False))"
    using rw_run_blocked by (meson rtranclp.rtrancl_into_rtrancl)
  then obtain ws where inv: "rw_inv ws ?r (r_pc (?s (RdGiveUp False)))" using rw_reachable_inv by fastforce
  obtain r where u: "rw_lock_write_unlock 1 ?r = Some (RGot, [2], r)"
    by (simp add: rw_lock_write_unlock_def rw_lock_unblock_def wake_readers.simps rw_lock_init_def rw_lock_wait_def wq_enqueue_def
      wq_dequeue_def wq_init_def RW_LOCK_WRITER_COUNT_BASE_def int32_def int16_def Let_def)
  have "rw_step (?s (RdGiveUp False)) \<lparr>r_lock = r, r_pc = wake [2] ((r_pc (?s (RdGiveUp False)))(1 := Out))\<rparr>"
    using rw_step.write_unlock [of "?s (RdGiveUp False)" 1 0 0 "[2]" r] u by simp
  with s have reach: "rw_step\<^sup>*\<^sup>* rw_start \<lparr>r_lock = r, r_pc = wake [2] ((r_pc (?s (RdGiveUp False)))(1 := Out))\<rparr>"
    by (rule rtranclp.rtrancl_into_rtrancl)
  then obtain ws' where "rw_inv ws' r (wake [2] ((r_pc (?s (RdGiveUp False)))(1 := Out)))" using rw_reachable_inv by fastforce
  from rw_give_up_inv(1) [OF this, of 2 True] reach show ?thesis by fastforce
qed

end
