(* ===== verification/Kernel_Strtol.thy ===== *)
theory Kernel_Strtol
  imports Prelude
begin

text \<open>
  The integer parsers of the kernel C library: \<^verbatim>\<open>strtol.c\<close>, \<^verbatim>\<open>strtoll.c\<close>, \<^verbatim>\<open>strtoul.c\<close> and
  \<^verbatim>\<open>strtoull.c\<close> under \<^verbatim>\<open>src/system/kernel/lib\<close>. The four bodies share the scan of white
  space, sign and base prefix and the accumulation loop with its cutoff test; they differ in
  the limit and in the way the sign is applied. \<open>long\<close> and \<open>long long\<close> have 64 bits on the
  LP64 target; a signed result is the two's complement reading (\<open>sint\<close>) of the returned word.
  The main results: each parser returns the mathematical value of the longest digit prefix,
  clamped to its range, with the end position and the error code that belong to it; printing
  a number and parsing it again gives the number back.
\<close>

subsection \<open>The shared scan\<close>

definition skip_space :: "string \<Rightarrow> string" where
  "skip_space s = dropWhile c_isspace s"

definition scan_sign :: "string \<Rightarrow> bool \<times> string" where
  "scan_sign s =
     (if peek s 0 = CHR ''-'' then (True, tl s)
      else if peek s 0 = CHR ''+'' then (False, tl s)
      else (False, s))"

text \<open>
  In the source \<open>c\<close> holds the current character and \<open>s\<close> points behind it; here both are one
  suffix whose character \<open>0\<close> is \<open>c\<close>, so \<open>*s\<close> is character 1 and \<open>s[1]\<close> is character 2.
\<close>

definition scan_prefix :: "int \<Rightarrow> string \<Rightarrow> int \<times> string" where
  "scan_prefix base0 s0 =
     (let (base1, s1) =
        (if (base0 = 0 \<or> base0 = 16) \<and> peek s0 0 = CHR ''0''
            \<and> (peek s0 1 = CHR ''x'' \<or> peek s0 1 = CHR ''X'') \<and> c_isxdigit (peek s0 2)
         then (16, drop 2 s0) else (base0, s0));
      (base2, s2) =
        (if (base1 = 0 \<or> base1 = 2) \<and> peek s1 0 = CHR ''0''
            \<and> (peek s1 1 = CHR ''b'' \<or> peek s1 1 = CHR ''B'')
            \<and> (peek s1 2 = CHR ''0'' \<or> peek s1 2 = CHR ''1'')
         then (2, drop 2 s1) else (base1, s1))
      in (if base2 = 0 then (if peek s2 0 = CHR ''0'' then 8 else 10) else base2, s2))"

definition strto_scan :: "string \<Rightarrow> int \<Rightarrow> bool \<times> int \<times> string" where
  "strto_scan nptr base =
     (let (neg, s) = scan_sign (skip_space nptr); (base, s) = scan_prefix base s
      in (neg, base, s))"

subsection \<open>The accumulation loop\<close>

definition digit_of :: "char \<Rightarrow> nat option" where
  "digit_of c =
     (if 48 \<le> code c \<and> code c \<le> 57 then Some (code c - 48)
      else if 65 \<le> code c \<and> code c \<le> 90 then Some (code c - 55)
      else if 97 \<le> code c \<and> code c \<le> 122 then Some (code c - 87)
      else None)"

text \<open>\<open>any\<close> is 0 before the first digit, 1 after it and negative once the value overflowed.\<close>

fun acc_loop :: "int \<Rightarrow> uint64 \<Rightarrow> int \<Rightarrow> string \<Rightarrow> int \<Rightarrow> uint64 \<Rightarrow> string \<times> int \<times> uint64" where
  "acc_loop base cutoff cutlim [] any acc = ([], any, acc)"
| "acc_loop base cutoff cutlim (c # s) any acc =
     (case digit_of c of
        None \<Rightarrow> (c # s, any, acc)
      | Some d \<Rightarrow>
          if base \<le> int d then (c # s, any, acc)
          else if any < 0 \<or> cutoff < acc \<or> (acc = cutoff \<and> cutlim < int d)
          then acc_loop base cutoff cutlim s (-1) acc
          else acc_loop base cutoff cutlim s 1 (acc * of_int base + of_nat d))"

subsection \<open>The four parsers\<close>

record strto_result =
  ret :: uint64
  endp :: "nat option"
  errno :: "status option"

text \<open>
  \<open>want_end\<close> says whether the caller passed a non-NULL \<open>endptr\<close>; the position written through
  it is an index into \<open>nptr\<close>. \<open>errno\<close> is \<open>None\<close> where the function leaves \<open>errno\<close> alone.
\<close>

definition LONG_MAX :: uint64 where "LONG_MAX = 0x7FFFFFFFFFFFFFFF"
definition LONG_MIN :: uint64 where "LONG_MIN = 0x8000000000000000"
definition ULONG_MAX :: uint64 where "ULONG_MAX = 0xFFFFFFFFFFFFFFFF"

definition long_cutoff :: "bool \<Rightarrow> uint64" where
  "long_cutoff neg = (if neg then - (LONG_MIN + LONG_MAX) + LONG_MAX else LONG_MAX)"

definition end_position :: "string \<Rightarrow> bool \<Rightarrow> int \<Rightarrow> string \<Rightarrow> nat option" where
  "end_position nptr want_end any s =
     (if want_end then Some (if any \<noteq> 0 then length nptr - length s else 0) else None)"

definition strtol :: "string \<Rightarrow> bool \<Rightarrow> int \<Rightarrow> strto_result" where
  "strtol nptr want_end base0 =
     (let (neg, base, s) = strto_scan nptr base0 in
      if base < 2 \<or> 36 < base
      then \<lparr>ret = 0, endp = end_position nptr want_end 0 s, errno = Some EINVAL\<rparr>
      else
        let cutoff = long_cutoff neg;
            cutlim = uint (cutoff mod of_int base);
            cutoff = cutoff div of_int base;
            (s, any, acc) = acc_loop base cutoff cutlim s 0 0;
            e = end_position nptr want_end any s
        in if any < 0
           then \<lparr>ret = (if neg then LONG_MIN else LONG_MAX), endp = e, errno = Some ERANGE\<rparr>
           else if any = 0 then \<lparr>ret = acc, endp = e, errno = Some EINVAL\<rparr>
           else \<lparr>ret = (if neg then - acc else acc), endp = e, errno = None\<rparr>)"

definition strtoll :: "string \<Rightarrow> bool \<Rightarrow> int \<Rightarrow> strto_result" where
  "strtoll nptr want_end base0 =
     (let (neg, base, s) = strto_scan nptr base0 in
      if base < 2 \<or> 36 < base
      then \<lparr>ret = 0, endp = end_position nptr want_end 0 s, errno = Some EINVAL\<rparr>
      else
        let cutoff = long_cutoff neg;
            cutlim = uint (cutoff mod of_int base);
            cutoff = cutoff div of_int base;
            (s, any, acc) = acc_loop base cutoff cutlim s 0 0;
            e = end_position nptr want_end any s
        in if any < 0
           then \<lparr>ret = (if neg then LONG_MIN else LONG_MAX), endp = e, errno = Some ERANGE\<rparr>
           else if any = 0 then \<lparr>ret = acc, endp = e, errno = Some EINVAL\<rparr>
           else \<lparr>ret = (if neg then - acc else acc), endp = e, errno = None\<rparr>)"

definition strtoul :: "string \<Rightarrow> bool \<Rightarrow> int \<Rightarrow> strto_result" where
  "strtoul nptr want_end base0 =
     (let (neg, base, s) = strto_scan nptr base0 in
      if base < 2 \<or> 36 < base
      then \<lparr>ret = 0, endp = end_position nptr want_end 0 s, errno = Some EINVAL\<rparr>
      else
        let cutoff = ULONG_MAX div of_int base;
            cutlim = uint (ULONG_MAX mod of_int base);
            (s, any, acc) = acc_loop base cutoff cutlim s 0 0;
            e = end_position nptr want_end any s
        in if any < 0 then \<lparr>ret = ULONG_MAX, endp = e, errno = Some ERANGE\<rparr>
           else if any = 0 then \<lparr>ret = acc, endp = e, errno = Some EINVAL\<rparr>
           else \<lparr>ret = (if neg then - acc else acc), endp = e, errno = None\<rparr>)"

definition strtoull :: "string \<Rightarrow> bool \<Rightarrow> int \<Rightarrow> strto_result" where
  "strtoull nptr want_end base0 =
     (let (neg, base, s) = strto_scan nptr base0 in
      if base < 2 \<or> 36 < base
      then \<lparr>ret = 0, endp = end_position nptr want_end 0 s, errno = Some EINVAL\<rparr>
      else
        let cutoff = ULONG_MAX div of_int base;
            cutlim = uint (ULONG_MAX mod of_int base);
            (s, any, acc) = acc_loop base cutoff cutlim s 0 0;
            e = end_position nptr want_end any s
        in if any < 0 then \<lparr>ret = ULONG_MAX, endp = e, errno = Some ERANGE\<rparr>
           else if any = 0 then \<lparr>ret = acc, endp = e, errno = Some EINVAL\<rparr>
           else \<lparr>ret = (if neg then - acc else acc), endp = e, errno = None\<rparr>)"

subsection \<open>The mathematical reading of a digit string\<close>

fun radix_digits :: "int \<Rightarrow> string \<Rightarrow> nat list" where
  "radix_digits base [] = []"
| "radix_digits base (c # s) =
     (case digit_of c of
        None \<Rightarrow> []
      | Some d \<Rightarrow> if int d < base then d # radix_digits base s else [])"

text \<open>
  The contract between a parser and the loop: the cutoff pair must be the quotient and the
  remainder of the limit by the base. Under it the loop computes the value of the digit prefix
  exactly, or reports that it exceeds the limit, without ever overflowing the accumulator.
\<close>

locale digit_accumulator =
  fixes lim :: uint64 and cutoff :: "int \<Rightarrow> uint64" and cutlim :: "int \<Rightarrow> int"
  assumes cutoff_eq: "cutoff b = lim div of_int b"
    and cutlim_eq: "cutlim b = uint (lim mod of_int b)"
begin

lemma cut_test:
  assumes "2 \<le> b" "b \<le> 36" "int d < b"
  shows "(cutoff b < acc \<or> (acc = cutoff b \<and> cutlim b < int d))
     \<longleftrightarrow> unat lim < unat acc * nat b + d"
proof -
  have b: "unat (of_int b :: uint64) = nat b" using assms by (intro unat_of_int_small) auto
  have "cutoff b < acc \<longleftrightarrow> unat lim div nat b < unat acc"
    by (simp add: cutoff_eq word_less_nat_alt unat_div b)
  moreover have "acc = cutoff b \<longleftrightarrow> unat acc = unat lim div nat b"
    by (simp add: cutoff_eq word_unat_eq_iff unat_div b)
  moreover have "cutlim b < int d \<longleftrightarrow> unat lim mod nat b < d"
    by (simp add: cutlim_eq uint_nat unat_mod b del: of_nat_unat)
  ultimately show ?thesis
    using div_mod_limit [of "nat b" d "unat lim" "unat acc"] assms by simp
qed

lemma acc_step:
  assumes "2 \<le> b" "b \<le> 36" "unat acc * nat b + d \<le> unat lim"
  shows "unat (acc * of_int b + of_nat d :: uint64) = unat acc * nat b + d"
proof -
  have b: "unat (of_int b :: uint64) = nat b" using assms by (intro unat_of_int_small) auto
  have m: "unat lim < 2 ^ 64" using unsigned_less [of lim] by simp
  with assms have "d < 2 ^ 64" by linarith
  with m assms show ?thesis
    by (simp add: unat_word_ariths b unat_of_nat take_bit_nat_eq_self)
qed

lemma acc_loop_saturated:
  "2 \<le> b \<Longrightarrow> any < 0 \<Longrightarrow> acc_loop b c l s any acc
     = (drop (length (radix_digits b s)) s, (if radix_digits b s = [] then any else -1), acc)"
  by (induction b c l s any acc rule: acc_loop.induct) (auto split: option.splits)

lemma acc_loop_value:
  assumes "2 \<le> b" "b \<le> 36" "any = 0 \<or> any = 1" "unat acc \<le> unat lim"
  shows "fst (acc_loop b (cutoff b) (cutlim b) s any acc) = drop (length (radix_digits b s)) s
    \<and> fst (snd (acc_loop b (cutoff b) (cutlim b) s any acc))
      = (if unat lim < horner (nat b) (unat acc) (radix_digits b s) then -1
         else if radix_digits b s = [] then any else 1)
    \<and> (horner (nat b) (unat acc) (radix_digits b s) \<le> unat lim \<longrightarrow>
       unat (snd (snd (acc_loop b (cutoff b) (cutlim b) s any acc)))
       = horner (nat b) (unat acc) (radix_digits b s))"
  using assms(3,4)
proof (induction s arbitrary: any acc)
  case (Cons c s)
  show ?case
  proof (cases "\<exists>d. digit_of c = Some d \<and> int d < b")
    case True
    then obtain d where d: "digit_of c = Some d" "int d < b" by blast
    note test = cut_test [OF assms(1,2) d(2), of acc]
    show ?thesis
    proof (cases "unat lim < unat acc * nat b + d")
      case True
      have "unat acc * nat b + d \<le> horner (nat b) (unat acc * nat b + d) (radix_digits b s)"
        using assms(1) by (intro horner_mono) simp
      with True d test assms(1) show ?thesis
        by (simp add: acc_loop_saturated)
    next
      case False
      then have step: "unat (acc * of_int b + of_nat d :: uint64) = unat acc * nat b + d"
        using acc_step [OF assms(1,2)] by simp
      have "acc_loop b (cutoff b) (cutlim b) (c # s) any acc
          = acc_loop b (cutoff b) (cutlim b) s 1 (acc * of_int b + of_nat d)"
        using Cons.prems(1) False d test by auto
      with Cons.IH [of 1 "acc * of_int b + of_nat d"] False d step show ?thesis by simp
    qed
  next
    case False
    with Cons.prems show ?thesis by (auto split: option.splits)
  qed
qed (use assms in auto)

lemma acc_loop_outcome:
  assumes "2 \<le> b" "b \<le> 36" "acc_loop b (cutoff b) (cutlim b) s 0 0 = (s', any, acc)"
  shows "s' = drop (length (radix_digits b s)) s"
    and "any < 0 \<longleftrightarrow> unat lim < horner (nat b) 0 (radix_digits b s)"
    and "any = 0 \<longleftrightarrow> radix_digits b s = []"
    and "horner (nat b) 0 (radix_digits b s) \<le> unat lim
      \<Longrightarrow> acc = of_nat (horner (nat b) 0 (radix_digits b s))"
  using acc_loop_value [OF assms(1,2), of 0 0 s] unfolding assms(3)
  by (auto dest: word_of_unat_eq split: if_splits)

end


lemma unat_long_cutoff: "unat (long_cutoff neg) = (if neg then 2 ^ 63 else 2 ^ 63 - 1)"
  by (simp add: long_cutoff_def LONG_MIN_def LONG_MAX_def)

interpretation long: digit_accumulator "long_cutoff neg"
  "\<lambda>b. long_cutoff neg div of_int b" "\<lambda>b. uint (long_cutoff neg mod of_int b)" for neg
  by unfold_locales simp_all

interpretation ulong: digit_accumulator ULONG_MAX
  "\<lambda>b. ULONG_MAX div of_int b" "\<lambda>b. uint (ULONG_MAX mod of_int b)"
  by unfold_locales simp_all

definition clamp_long :: "int \<Rightarrow> int" where
  "clamp_long v = max (- (2 ^ 63)) (min (2 ^ 63 - 1) v)"

definition signed_magnitude :: "bool \<Rightarrow> nat \<Rightarrow> int" where
  "signed_magnitude neg m = (if neg then - int m else int m)"

definition strtol_spec :: "string \<Rightarrow> bool \<Rightarrow> int \<Rightarrow> strto_result" where
  "strtol_spec nptr want_end base0 =
     (let (neg, base, s) = strto_scan nptr base0; ds = radix_digits base s;
          v = signed_magnitude neg (horner (nat base) 0 ds)
      in if base < 2 \<or> 36 < base \<or> ds = []
         then \<lparr>ret = 0, endp = (if want_end then Some 0 else None), errno = Some EINVAL\<rparr>
         else \<lparr>ret = of_int (clamp_long v),
               endp = (if want_end then Some (length nptr - length s + length ds) else None),
               errno = (if clamp_long v = v then None else Some ERANGE)\<rparr>)"

lemma radix_digits_length: "length (radix_digits b s) \<le> length s"
  by (induction s) (auto split: option.splits)

lemma strto_scan_length: "strto_scan nptr b0 = (neg, b, s) \<Longrightarrow> length s \<le> length nptr"
proof -
  assume a: "strto_scan nptr b0 = (neg, b, s)"
  have "length (snd (scan_sign t)) \<le> length t" for t
    by (simp add: scan_sign_def)
  moreover have "length (snd (scan_prefix b0 t)) \<le> length t" for t
    by (simp add: scan_prefix_def)
  moreover have "length (skip_space nptr) \<le> length nptr"
    by (simp add: skip_space_def length_dropWhile_le)
  ultimately show ?thesis
    using a unfolding strto_scan_def by (auto simp: Let_def split: prod.splits) (metis le_trans snd_conv)
qed



lemma strtol_eq_spec: "strtol nptr want_end base0 = strtol_spec nptr want_end base0"
proof -
  obtain neg base s where sc: "strto_scan nptr base0 = (neg, base, s)" by (metis prod_cases3)
  define ds m where "ds = radix_digits base s" and "m = horner (nat base) 0 ds"
  have ls: "length nptr - (length s - length ds) = length nptr - length s + length ds"
    using strto_scan_length [OF sc] radix_digits_length [of base s] by (simp add: ds_def)
  show ?thesis
  proof (cases "base < 2 \<or> 36 < base")
    case True
    then show ?thesis by (auto simp: strtol_def strtol_spec_def sc end_position_def)
  next
    case False
    then have b: "2 \<le> base" "base \<le> 36" by auto
    obtain s' any acc where r: "acc_loop base (long_cutoff neg div of_int base)
        (uint (long_cutoff neg mod of_int base)) s 0 0 = (s', any, acc)"
      by (metis prod_cases3)
    note o = long.acc_loop_outcome [OF b r, folded ds_def, folded m_def, unfolded unat_long_cutoff]
    have m: "ds = [] \<Longrightarrow> m = 0"
      "\<not> 9223372036854775808 < m \<Longrightarrow> 9223372036854775807 < m \<Longrightarrow> m = 9223372036854775808"
      by (simp_all add: m_def)
    show ?thesis
      using b o ls m unfolding strtol_def strtol_spec_def sc
      by (auto simp: end_position_def r signed_magnitude_def clamp_long_def LONG_MAX_def
          LONG_MIN_def simp flip: ds_def m_def)
  qed
qed

lemma strtoll_strtol: "strtoll = strtol"
  by (simp add: fun_eq_iff strtoll_def strtol_def)

lemma strtoull_strtoul: "strtoull = strtoul"
  by (simp add: fun_eq_iff strtoull_def strtoul_def)

definition strtoul_spec :: "string \<Rightarrow> bool \<Rightarrow> int \<Rightarrow> strto_result" where
  "strtoul_spec nptr want_end base0 =
     (let (neg, base, s) = strto_scan nptr base0; ds = radix_digits base s;
          m = horner (nat base) 0 ds
      in if base < 2 \<or> 36 < base \<or> ds = []
         then \<lparr>ret = 0, endp = (if want_end then Some 0 else None), errno = Some EINVAL\<rparr>
         else \<lparr>ret = (if m < 2 ^ 64 then of_int (signed_magnitude neg m) else ULONG_MAX),
               endp = (if want_end then Some (length nptr - length s + length ds) else None),
               errno = (if m < 2 ^ 64 then None else Some ERANGE)\<rparr>)"

lemma strtoul_eq_spec: "strtoul nptr want_end base0 = strtoul_spec nptr want_end base0"
proof -
  obtain neg base s where sc: "strto_scan nptr base0 = (neg, base, s)" by (metis prod_cases3)
  define ds m where "ds = radix_digits base s" and "m = horner (nat base) 0 ds"
  have ls: "length nptr - (length s - length ds) = length nptr - length s + length ds"
    using strto_scan_length [OF sc] radix_digits_length [of base s] by (simp add: ds_def)
  show ?thesis
  proof (cases "base < 2 \<or> 36 < base")
    case True
    then show ?thesis by (auto simp: strtoul_def strtoul_spec_def sc end_position_def)
  next
    case False
    then have b: "2 \<le> base" "base \<le> 36" by auto
    obtain s' any acc where r: "acc_loop base (ULONG_MAX div of_int base)
        (uint (ULONG_MAX mod of_int base)) s 0 0 = (s', any, acc)"
      by (metis prod_cases3)
    have u: "unat ULONG_MAX = 2 ^ 64 - 1" by (simp add: ULONG_MAX_def)
    note o = ulong.acc_loop_outcome [OF b r, folded ds_def, folded m_def, unfolded u]
    have m: "ds = [] \<Longrightarrow> m = 0" by (simp add: m_def)
    show ?thesis
      using b o ls m unfolding strtoul_def strtoul_spec_def sc
      by (auto simp: end_position_def r signed_magnitude_def simp flip: ds_def m_def)
  qed
qed

subsection \<open>Printing\<close>

definition print_int :: "int \<Rightarrow> int \<Rightarrow> string" where
  "print_int b i = (if i < 0 then CHR ''-'' # print_radix (nat b) (nat (- i))
     else print_radix (nat b) (nat i))"

lemma digit_of_digit_char: "d < 36 \<Longrightarrow> digit_of (digit_char d) = Some d"
  by (simp add: digit_of_def digit_char_def)

lemma radix_digits_print:
  "b \<le> 36 \<Longrightarrow> \<forall>d \<in> set ds. int d < b \<Longrightarrow> radix_digits b (map digit_char ds) = ds"
  by (induction ds) (auto simp: digit_of_digit_char)

lemma radix_of_less_int: "2 \<le> b \<Longrightarrow> \<forall>d \<in> set (radix_of (nat b) n). int d < b"
  using radix_of_less [of "nat b"] by fastforce

lemma skip_space_digit: "d < 36 \<Longrightarrow> skip_space (digit_char d # s) = digit_char d # s"
  by (simp add: skip_space_def c_defs code_digit_char)

lemma scan_sign_digit: "d < 36 \<Longrightarrow> scan_sign (digit_char d # s) = (False, digit_char d # s)"
  by (simp add: scan_sign_def code_eq_iff code_digit_char)

lemma scan_prefix_digits:
  assumes "2 \<le> b" "b \<le> 36" "\<forall>d \<in> set ds. int d < b" "ds \<noteq> []"
  shows "scan_prefix b (map digit_char ds) = (b, map digit_char ds)"
proof -
  have one: "int (ds ! 1) < b" if "1 < length ds"
    using assms(3) that by simp
  have nx: "\<not> (b = 16 \<and> (peek (map digit_char ds) 1 = CHR ''x'' \<or> peek (map digit_char ds) 1 = CHR ''X''))"
    using one by (auto simp: peek_def code_eq_iff code_digit_char split: if_splits)
  have nb: "\<not> (b = 2 \<and> (peek (map digit_char ds) 1 = CHR ''b'' \<or> peek (map digit_char ds) 1 = CHR ''B''))"
    using one by (auto simp: peek_def code_eq_iff code_digit_char split: if_splits)
  show ?thesis using assms(1) nx nb by (auto simp: scan_prefix_def)
qed

lemma strto_scan_print:
  assumes "2 \<le> b" "b \<le> 36"
  shows "strto_scan (print_int b i) b = (i < 0, b, print_radix (nat b) (nat \<bar>i\<bar>))"
proof -
  obtain d ds where r: "radix_of (nat b) (nat \<bar>i\<bar>) = d # ds"
    by (meson radix_of_nonempty neq_Nil_conv)
  have less: "\<forall>d \<in> set (d # ds). int d < b"
    using radix_of_less_int [OF assms(1), of "nat \<bar>i\<bar>"] by (simp add: r)
  then have d: "d < 36" using assms by auto
  have p: "scan_prefix b (digit_char d # map digit_char ds) = (b, digit_char d # map digit_char ds)"
    using scan_prefix_digits [OF assms less] by simp
  have minus: "skip_space (CHR ''-'' # t) = CHR ''-'' # t" "scan_sign (CHR ''-'' # t) = (True, t)" for t
    by (simp_all add: skip_space_def c_defs scan_sign_def)
  show ?thesis
    using r d p by (auto simp: strto_scan_def print_int_def print_radix_def minus
        skip_space_digit scan_sign_digit)
qed

subsection \<open>Properties\<close>

text \<open>
  C25: \<open>strtol\<close> and \<open>strtoll\<close> return the mathematical value of the longest digit prefix in the
  detected base, clamped to the range of a 64-bit signed integer; the end position is the one
  behind that prefix (or the start, when there is no digit), and \<open>errno\<close> is set to
  \<open>ERANGE\<close> exactly when the value was clamped and to \<open>EINVAL\<close> exactly when nothing was converted. The scan of blanks,
  sign and prefix of the base, and what counts as a digit, are those of the code.
\<close>

theorem strtol_correct:
  "strtol nptr want_end base = strtol_spec nptr want_end base
   \<and> strtoll nptr want_end base = strtol_spec nptr want_end base"
  by (simp add: strtoll_strtol strtol_eq_spec)

text \<open>
  \<open>strtoul\<close> and \<open>strtoull\<close> return the value of the longest digit prefix, negated modulo
  \<open>2 ^ 64\<close> after a minus sign, or \<open>ULONG_MAX\<close> with \<open>ERANGE\<close> exactly when the magnitude does not
  fit in 64 bits.
\<close>

theorem strtoul_correct:
  "strtoul nptr want_end base = strtoul_spec nptr want_end base
   \<and> strtoull nptr want_end base = strtoul_spec nptr want_end base"
  by (simp add: strtoull_strtoul strtoul_eq_spec)

text \<open>
  parsing a printed number gives the number back: for every base from 2 to 36 and every
  64-bit signed integer, \<open>strtol\<close> consumes the whole printed text, returns the integer and
  reports no error.
\<close>

theorem strtol_print_roundtrip:
  assumes "2 \<le> b" "b \<le> 36" "- (2 ^ 63) \<le> i" "i < 2 ^ 63"
  shows "strtol (print_int b i) True b
    = \<lparr>ret = of_int i, endp = Some (length (print_int b i)), errno = None\<rparr>"
proof -
  have ds: "radix_digits b (print_radix (nat b) (nat \<bar>i\<bar>)) = radix_of (nat b) (nat \<bar>i\<bar>)"
    unfolding print_radix_def using assms(2) radix_of_less_int [OF assms(1)]
    by (rule radix_digits_print)
  have v: "signed_magnitude (i < 0) (horner (nat b) 0 (radix_of (nat b) (nat \<bar>i\<bar>))) = i"
    using assms(1) by (simp add: horner_radix_of signed_magnitude_def)
  have l: "length (print_int b i) - length (print_radix (nat b) (nat \<bar>i\<bar>))
      + length (radix_of (nat b) (nat \<bar>i\<bar>)) = length (print_int b i)"
    by (simp add: print_int_def print_radix_def)
  show ?thesis
    using assms v l by (simp add: strtol_eq_spec strtol_spec_def strto_scan_print ds clamp_long_def)
qed

theorem strtol_print_roundtrip_witness:
  "strtol ''-9223372036854775808'' True 10
    = \<lparr>ret = 0x8000000000000000, endp = Some 20, errno = None\<rparr>"
proof -
  have "print_int 10 (- (2 ^ 63)) = ''-9223372036854775808''"
    by (simp add: print_int_def print_radix_def radix_of.simps digit_char_def char_of_def bit_0)
  with strtol_print_roundtrip [of 10 "- (2 ^ 63)"] show ?thesis by simp
qed

end
