(* ===== verification/Kernel_Bigint.thy ===== *)
theory Kernel_Bigint
  imports Prelude
begin

text \<open>
  The multiple-precision integers behind the kernel's \<open>strtod\<close>
  (\<^verbatim>\<open>src/system/kernel/lib/strtod.c\<close>, with \<open>Pack_32\<close> and little-endian IEEE doubles as on the
  target). A \<open>Bigint\<close> is a record with the fields of the C structure; \<open>b_x\<close> lists the words of
  the array that have been written, so a write behind the allocation shows as a list longer than
  \<open>b_maxwds\<close>, and the invariant \<open>bigint_inv\<close> excludes it. The code never tests the result of
  \<open>malloc\<close>; allocation is modelled as succeeding. The results: every operation computes the
  integer it is named for (product, sum, shift, difference, comparison, power of five), on the
  32-bit words and 16-bit halves the code works with, and keeps the invariant.
\<close>

subsection \<open>The structure\<close>

record Bigint =
  b_k :: nat
  b_maxwds :: nat
  b_sign :: nat
  b_wds :: nat
  b_x :: "uint32 list"

definition bval :: "Bigint \<Rightarrow> nat" where
  "bval b = limbs_val (take (b_wds b) (b_x b))"

definition bigint_inv :: "Bigint \<Rightarrow> bool" where
  "bigint_inv b \<longleftrightarrow> b_maxwds b = 2 ^ b_k b \<and> 1 \<le> b_wds b \<and> b_wds b \<le> length (b_x b)
     \<and> length (b_x b) \<le> b_maxwds b \<and> (1 < b_wds b \<longrightarrow> b_x b ! (b_wds b - 1) \<noteq> 0)"

definition Balloc :: "nat \<Rightarrow> Bigint" where
  "Balloc k = \<lparr>b_k = k, b_maxwds = 2 ^ k, b_sign = 0, b_wds = 0, b_x = []\<rparr>"

text \<open>Store into the array at position \<open>i\<close>, the next free one at most.\<close>

definition put :: "uint32 list \<Rightarrow> nat \<Rightarrow> uint32 \<Rightarrow> uint32 list" where
  "put xs i v = (if i < length xs then xs[i := v] else xs @ [v])"

text \<open>\<open>Storeinc(a, b, c)\<close>: two 16-bit stores, the high half from \<open>b\<close> and the low half from \<open>c\<close>.\<close>

definition storeinc :: "uint32 \<Rightarrow> uint32 \<Rightarrow> uint32" where
  "storeinc b c = push_bit 16 (b AND 0xffff) OR (c AND 0xffff)"

subsection \<open>Multiplication by a small integer\<close>

fun multadd_loop :: "uint32 \<Rightarrow> uint32 list \<Rightarrow> uint32 \<Rightarrow> uint32 list \<times> uint32" where
  "multadd_loop m [] a = ([], a)"
| "multadd_loop m (xi # xs) a =
     (let y = (xi AND 0xffff) * m + a;
          z = drop_bit 16 xi * m + drop_bit 16 y;
          (ws, a') = multadd_loop m xs (drop_bit 16 z)
      in ((push_bit 16 z + (y AND 0xffff)) # ws, a'))"

definition multadd :: "Bigint \<Rightarrow> int \<Rightarrow> int \<Rightarrow> Bigint" where
  "multadd b m a =
     (let n = max 1 (b_wds b);
          (ws, a') = multadd_loop (of_int m) (take n (b_x b)) (of_int a);
          b = b\<lparr>b_x := ws @ drop n (b_x b)\<rparr>;
          wds = b_wds b
      in if a' = 0 then b
         else
           let b = (if b_maxwds b \<le> wds
                    then (Balloc (b_k b + 1))\<lparr>b_sign := b_sign b, b_wds := wds, b_x := take wds (b_x b)\<rparr>
                    else b)
           in b\<lparr>b_x := put (b_x b) wds a', b_wds := wds + 1\<rparr>)"

definition i2b :: "int \<Rightarrow> Bigint" where
  "i2b i = (Balloc 1)\<lparr>b_x := [of_int i], b_wds := 1\<rparr>"

subsection \<open>Multiplication\<close>

fun mult_lo :: "uint32 \<Rightarrow> uint32 list \<Rightarrow> uint32 list \<Rightarrow> uint32 \<Rightarrow> uint32 list" where
  "mult_lo y [] (c # cs) carry = carry # cs"
| "mult_lo y (x # xs) (c # cs) carry =
     (let z = (x AND 0xffff) * y + (c AND 0xffff) + carry;
          z2 = drop_bit 16 x * y + drop_bit 16 c + drop_bit 16 z
      in storeinc z2 z # mult_lo y xs cs (drop_bit 16 z2))"

fun mult_hi :: "uint32 \<Rightarrow> uint32 list \<Rightarrow> uint32 list \<Rightarrow> uint32 \<Rightarrow> uint32 \<Rightarrow> uint32 list" where
  "mult_hi y [] (c # cs) carry z2 = z2 # cs"
| "mult_hi y (x # xs) (c # c' # cs) carry z2 =
     (let z = (x AND 0xffff) * y + drop_bit 16 c + carry;
          z2' = drop_bit 16 x * y + (c' AND 0xffff) + drop_bit 16 z
      in storeinc z z2 # mult_hi y xs (c' # cs) (drop_bit 16 z2') z2')"

fun mult_loop :: "uint32 list \<Rightarrow> uint32 list \<Rightarrow> uint32 list \<Rightarrow> uint32 list" where
  "mult_loop xa [] cs = cs"
| "mult_loop xa (b # bs) cs =
     (let cs1 = (if b AND 0xffff \<noteq> 0 then mult_lo (b AND 0xffff) xa cs 0 else cs);
          cs2 = (if drop_bit 16 b \<noteq> 0 then mult_hi (drop_bit 16 b) xa cs1 0 (hd cs1) else cs1)
      in hd cs2 # mult_loop xa bs (tl cs2))"

text \<open>\<open>for (...; wc > 0 && !*--xc; --wc)\<close>: drop the leading zero words.\<close>

fun trim_wds :: "uint32 list \<Rightarrow> nat \<Rightarrow> nat" where
  "trim_wds xs 0 = 0"
| "trim_wds xs (Suc n) = (if xs ! n = 0 then trim_wds xs n else Suc n)"

definition mult :: "Bigint \<Rightarrow> Bigint \<Rightarrow> Bigint" where
  "mult a0 b0 =
     (let (a, b) = (if b_wds a0 < b_wds b0 then (b0, a0) else (a0, b0));
          wa = b_wds a; wb = b_wds b; wc = wa + wb;
          k = (if b_maxwds a < wc then b_k a + 1 else b_k a);
          xs = mult_loop (take wa (b_x a)) (take wb (b_x b)) (replicate wc 0)
      in (Balloc k)\<lparr>b_x := xs, b_wds := trim_wds xs wc\<rparr>)"

subsection \<open>Multiplication by a power of five\<close>

text \<open>
  The static chain \<open>p5s\<close> of cached powers is a list: element \<open>i\<close> is the \<open>i\<close>-th node, and
  \<open>p5->next\<close> exists when the next index is inside the list.
\<close>

fun pow5_loop :: "Bigint list \<Rightarrow> nat \<Rightarrow> Bigint \<Rightarrow> nat \<Rightarrow> Bigint \<times> Bigint list" where
  "pow5_loop ps i b k =
     (let b = (if odd k then mult b (ps ! i) else b) in
      if k div 2 = 0 then (b, ps)
      else
        let ps = (if i + 1 < length ps then ps else ps @ [mult (ps ! i) (ps ! i)])
        in pow5_loop ps (i + 1) b (k div 2))"

declare pow5_loop.simps [simp del]

definition pow5mult :: "Bigint list \<Rightarrow> Bigint \<Rightarrow> nat \<Rightarrow> Bigint \<times> Bigint list" where
  "pow5mult p5s b k =
     (let i = k mod 4;
          b = (if i \<noteq> 0 then multadd b ([5, 25, 125] ! (i - 1)) 0 else b);
          k = k div 4
      in if k = 0 then (b, p5s)
         else pow5_loop (if p5s = [] then [i2b 625] else p5s) 0 b k)"

subsection \<open>Shift, comparison and difference\<close>

function grow_k :: "nat \<Rightarrow> nat \<Rightarrow> nat \<Rightarrow> nat" where
  "grow_k n1 i k1 = (if 0 < i \<and> i < n1 then grow_k n1 (2 * i) (k1 + 1) else k1)"
  by pat_completeness auto
termination by (relation "measure (\<lambda>(n1, i, k1). n1 - i)") auto

declare grow_k.simps [simp del]

fun lshift_loop :: "nat \<Rightarrow> uint32 \<Rightarrow> uint32 list \<Rightarrow> uint32 list" where
  "lshift_loop k z [] = [z]"
| "lshift_loop k z (x # xs) = (push_bit k x OR z) # lshift_loop k (drop_bit (32 - k) x) xs"

definition lshift :: "Bigint \<Rightarrow> nat \<Rightarrow> Bigint" where
  "lshift b k0 =
     (let n = k0 div 32;
          n1 = n + b_wds b + 1;
          k1 = grow_k n1 (b_maxwds b) (b_k b);
          xw = take (b_wds b) (b_x b);
          k = k0 mod 32
      in if k \<noteq> 0
         then
           let xs = lshift_loop k 0 xw;
               n1 = (if last xs \<noteq> 0 then n1 + 1 else n1)
           in (Balloc k1)\<lparr>b_x := replicate n 0 @ xs, b_wds := n1 - 1\<rparr>
         else (Balloc k1)\<lparr>b_x := replicate n 0 @ xw, b_wds := n1 - 1\<rparr>)"

fun cmp_loop :: "uint32 list \<Rightarrow> uint32 list \<Rightarrow> int" where
  "cmp_loop (x # xs) (y # ys) =
     (if x \<noteq> y then (if x < y then -1 else 1) else cmp_loop xs ys)"
| "cmp_loop _ _ = 0"

text \<open>The words are compared from the most significant one down.\<close>

definition cmp :: "Bigint \<Rightarrow> Bigint \<Rightarrow> int" where
  "cmp a b =
     (let i = int (b_wds a) - int (b_wds b) in
      if i \<noteq> 0 then i
      else cmp_loop (rev (take (b_wds b) (b_x a))) (rev (take (b_wds b) (b_x b))))"

fun diff_loop :: "uint32 \<Rightarrow> uint32 list \<Rightarrow> uint32 list \<Rightarrow> uint32 list" where
  "diff_loop borrow (xa # xas) (xb # xbs) =
     (let y = (xa AND 0xffff) - (xb AND 0xffff) + borrow;
          z = drop_bit 16 xa - drop_bit 16 xb + signed_drop_bit 16 y
      in storeinc z y # diff_loop (signed_drop_bit 16 z) xas xbs)"
| "diff_loop borrow (xa # xas) [] =
     (let y = (xa AND 0xffff) + borrow;
          z = drop_bit 16 xa + signed_drop_bit 16 y
      in storeinc z y # diff_loop (signed_drop_bit 16 z) xas [])"
| "diff_loop borrow [] _ = []"

definition diff :: "Bigint \<Rightarrow> Bigint \<Rightarrow> Bigint" where
  "diff a0 b0 =
     (let i = cmp a0 b0 in
      if i = 0 then (Balloc 0)\<lparr>b_wds := 1, b_x := [0]\<rparr>
      else
        let (a, b, i) = (if i < 0 then (b0, a0, 1) else (a0, b0, 0));
            xs = diff_loop 0 (take (b_wds a) (b_x a)) (take (b_wds b) (b_x b))
        in (Balloc (b_k a))\<lparr>b_sign := i, b_x := xs, b_wds := trim_wds xs (b_wds a)\<rparr>)"

subsection \<open>Bit scans\<close>

definition hi0bits :: "uint32 \<Rightarrow> nat" where
  "hi0bits x =
     (let (k, x) = (if x AND 0xffff0000 = 0 then (16, push_bit 16 x) else (0, x));
          (k, x) = (if x AND 0xff000000 = 0 then (k + 8, push_bit 8 x) else (k, x));
          (k, x) = (if x AND 0xf0000000 = 0 then (k + 4, push_bit 4 x) else (k, x));
          (k, x) = (if x AND 0xc0000000 = 0 then (k + 2, push_bit 2 x) else (k, x))
      in if x AND 0x80000000 = 0
         then (if x AND 0x40000000 = 0 then 32 else k + 1)
         else k)"

text \<open>The result is the count and the new value of \<open>*y\<close>.\<close>

definition lo0bits :: "uint32 \<Rightarrow> nat \<times> uint32" where
  "lo0bits x0 =
     (if x0 AND 7 \<noteq> 0
      then (if x0 AND 1 \<noteq> 0 then (0, x0)
            else if x0 AND 2 \<noteq> 0 then (1, drop_bit 1 x0)
            else (2, drop_bit 2 x0))
      else
        let (k, x) = (if x0 AND 0xffff = 0 then (16, drop_bit 16 x0) else (0, x0));
            (k, x) = (if x AND 0xff = 0 then (k + 8, drop_bit 8 x) else (k, x));
            (k, x) = (if x AND 0xf = 0 then (k + 4, drop_bit 4 x) else (k, x));
            (k, x) = (if x AND 0x3 = 0 then (k + 2, drop_bit 2 x) else (k, x))
        in if x AND 1 = 0
           then (let x = drop_bit 1 x in if x AND 1 = 0 then (32, x0) else (k + 1, x))
           else (k, x))"


subsection \<open>Words and halves\<close>

lemma unat_storeinc: "unat (storeinc b c) = (unat b mod 2 ^ 16) * 2 ^ 16 + unat c mod 2 ^ 16"
proof -
  have d: "push_bit 16 (take_bit 16 b) AND take_bit 16 c = 0"
    by (rule bit_eqI) (auto simp: bit_simps)
  show ?thesis unfolding storeinc_def and_ffff
    by (simp add: unat_or_disjoint [OF d] unat_take_bit unat_push_bit)
qed

lemma half_product:
  fixes p q c d :: nat
  assumes "p < 2 ^ 16" "q < 2 ^ 16" "c < 2 ^ 16" "d < 2 ^ 16"
  shows "p * q + c + d < 2 ^ 32"
proof -
  have "p * q \<le> (2 ^ 16 - 1) * (2 ^ 16 - 1)" using assms by (intro mult_le_mono) auto
  with assms show ?thesis by simp
qed

lemma unat_half_product:
  fixes p q c d :: uint32
  assumes "unat p < 2 ^ 16" "unat q < 2 ^ 16" "unat c < 2 ^ 16" "unat d < 2 ^ 16"
  shows "unat (p * q + c + d) = unat p * unat q + unat c + unat d"
proof -
  note b = half_product [OF assms]
  have 1: "unat (p * q) = unat p * unat q" using b by (intro unat_mult_small) simp
  have 2: "unat (p * q + c) = unat p * unat q + unat c"
    using b by (simp add: unat_add_small 1)
  show ?thesis using b by (simp add: unat_add_small 2)
qed

lemma unat_half_product2:
  fixes p q c :: uint32
  assumes "unat p < 2 ^ 16" "unat q < 2 ^ 16" "unat c < 2 ^ 16"
  shows "unat (p * q + c) = unat p * unat q + unat c"
  using unat_half_product [OF assms, of 0] by simp

lemma half_less:
  fixes x :: uint32
  shows "unat (x AND 0xffff) < 2 ^ 16" "unat (drop_bit 16 x) < 2 ^ 16"
  using unsigned_less [of x, where ?'a = nat]
  by (simp_all add: unat_and_ffff unat_drop_bit less_mult_imp_div_less)

lemma half_split: "unat (x :: uint32) = unat (x AND 0xffff) + 2 ^ 16 * unat (drop_bit 16 x)"
  by (simp add: unat_and_ffff unat_drop_bit)

lemma mod_div_join: "2 ^ 16 * (n mod 2 ^ 16) + 2 ^ 32 * (n div 2 ^ 16) = 2 ^ 16 * (n :: nat)"
proof -
  have "B * (n mod B) + B * B * (n div B) = B * n" for B :: nat
    by (metis distrib_left mult.assoc mod_mult_div_eq)
  from this [of "2 ^ 16"] show ?thesis by (simp only: flip: power_add) simp
qed

text \<open>One limb of a carry chain: the local equation and the one for the rest add up.\<close>

lemma limb_step:
  fixes w r c p q a v n m a' :: nat
  assumes "w + r * c = p + a" and "v + n * a' = q + c"
  shows "(w + r * v) + (r * n) * a' = (p + r * q) + a"
proof -
  have "(w + r * v) + (r * n) * a' = w + r * (v + n * a')" by (simp add: algebra_simps)
  also have "\<dots> = w + r * (q + c)" by (simp only: assms(2))
  also have "\<dots> = (w + r * c) + r * q" by (simp add: algebra_simps)
  also have "\<dots> = (p + r * q) + a" by (simp add: assms(1))
  finally show ?thesis .
qed

lemma join_halves:
  fixes z y :: uint32
  shows "unat (push_bit 16 z + (y AND 0xffff)) + 2 ^ 32 * unat (drop_bit 16 z)
    = 2 ^ 16 * unat z + unat y mod 2 ^ 16"
proof -
  have p: "unat (push_bit 16 z) = 2 ^ 16 * (unat z mod 2 ^ 16)"
    by (simp add: unat_push_bit mult_mod_right mult.commute)
  have "unat (push_bit 16 z + (y AND 0xffff)) = 2 ^ 16 * (unat z mod 2 ^ 16) + unat y mod 2 ^ 16"
    using half_less(1) [of y] by (subst unat_add_small) (simp_all add: p unat_and_ffff)
  then show ?thesis using mod_div_join [of "unat z"] unfolding unat_drop_bit by simp
qed

lemma storeinc_join:
  "unat (storeinc z y) + 2 ^ 32 * unat (drop_bit 16 z) = 2 ^ 16 * unat z + unat y mod 2 ^ 16"
  using mod_div_join [of "unat z"] unfolding unat_storeinc unat_drop_bit by (simp add: mult.commute)

lemma multadd_loop_val:
  assumes "unat m < 2 ^ 16" "unat a < 2 ^ 16"
  shows "limbs_val (fst (multadd_loop m xs a)) + 2 ^ (32 * length xs) * unat (snd (multadd_loop m xs a))
      = limbs_val xs * unat m + unat a
    \<and> length (fst (multadd_loop m xs a)) = length xs \<and> unat (snd (multadd_loop m xs a)) < 2 ^ 16"
  using assms(2)
proof (induction xs arbitrary: a)
  case (Cons x xs)
  define y where "y = (x AND 0xffff) * m + a"
  define z where "z = drop_bit 16 x * m + drop_bit 16 y"
  have y: "unat y = unat (x AND 0xffff) * unat m + unat a"
    unfolding y_def using half_less(1) assms(1) Cons.prems by (rule unat_half_product2)
  have z: "unat z = unat (drop_bit 16 x) * unat m + unat (drop_bit 16 y)"
    unfolding z_def using half_less(2) assms(1) half_less(2) by (rule unat_half_product2)
  obtain ws a' where r: "multadd_loop m xs (drop_bit 16 z) = (ws, a')" by fastforce
  note IH = Cons.IH [OF half_less(2) [of z], unfolded r, simplified]
  have "unat (push_bit 16 z + (y AND 0xffff)) + 2 ^ 32 * unat (drop_bit 16 z)
      = unat x * unat m + unat a"
    unfolding join_halves z half_split [of x] using y
    by (simp add: unat_drop_bit algebra_simps)
  moreover have "multadd_loop m (x # xs) a = ((push_bit 16 z + (y AND 0xffff)) # ws, a')"
    by (simp add: Let_def r flip: y_def z_def)
  moreover have "2 ^ (32 * length (x # xs)) = (2 ^ 32 * 2 ^ (32 * length xs) :: nat)"
    by (simp add: power_add)
  ultimately show ?case
    using IH limb_step [of "unat (push_bit 16 z + (y AND 0xffff))" "2 ^ 32" "unat (drop_bit 16 z)"
        "unat x * unat m" "unat a" "limbs_val ws" "2 ^ (32 * length xs)" "unat a'" "limbs_val xs * unat m"]
    by (simp add: distrib_right mult.assoc)
qed simp

lemma mult_lo_step:
  assumes "unat y < 2 ^ 16" "unat carry < 2 ^ 16"
    and "z = (x AND 0xffff) * y + (c AND 0xffff) + carry"
    and "z2 = drop_bit 16 x * y + drop_bit 16 c + drop_bit 16 z"
  shows "unat (storeinc z2 z) + 2 ^ 32 * unat (drop_bit 16 z2)
    = unat c + unat y * unat x + unat carry"
proof -
  have z: "unat z = unat (x AND 0xffff) * unat y + unat (c AND 0xffff) + unat carry"
    unfolding assms(3) using half_less(1) assms(1) half_less(1) assms(2) by (rule unat_half_product)
  have z2: "unat z2 = unat (drop_bit 16 x) * unat y + unat (drop_bit 16 c) + unat (drop_bit 16 z)"
    unfolding assms(4) using half_less(2) assms(1) half_less(2) half_less(2) by (rule unat_half_product)
  have "2 ^ 16 * unat (drop_bit 16 z) + unat z mod 2 ^ 16 = unat z"
    by (simp add: unat_drop_bit)
  then show ?thesis
    unfolding storeinc_join z2 half_split [of x] half_split [of c] using z
    by (simp add: algebra_simps)
qed

lemma mult_lo_val:
  assumes "unat y < 2 ^ 16" "unat carry < 2 ^ 16" "length xs < length cs" "cs ! length xs = 0"
  shows "limbs_val (mult_lo y xs cs carry) = limbs_val cs + unat y * limbs_val xs + unat carry
    \<and> length (mult_lo y xs cs carry) = length cs
    \<and> unat (mult_lo y xs cs carry ! length xs) < 2 ^ 16
    \<and> drop (Suc (length xs)) (mult_lo y xs cs carry) = drop (Suc (length xs)) cs"
  using assms
proof (induction y xs cs carry rule: mult_lo.induct)
  case (2 y x xs c cs carry)
  define z where "z = (x AND 0xffff) * y + (c AND 0xffff) + carry"
  define z2 where "z2 = drop_bit 16 x * y + drop_bit 16 c + drop_bit 16 z"
  note step = mult_lo_step [OF 2(2,3) z_def z2_def]
  have eq: "mult_lo y (x # xs) (c # cs) carry = storeinc z2 z # mult_lo y xs cs (drop_bit 16 z2)"
    by (simp add: Let_def flip: z_def z2_def)
  note IH = 2(1) [OF z_def z2_def 2(2) half_less(2)]
  show ?case using IH step 2(4,5) unfolding eq by (simp add: algebra_simps)
qed (auto)

lemma hi_step_nat:
  fixes w z z2' xl xh y ch carry cl' ch' dz d2 m2 mz2 h :: nat
  assumes w: "w + h * h * dz = h * z + mz2" and z: "z = xl * y + ch + carry"
    and z2': "z2' = xh * y + cl' + dz" and m: "m2 + h * d2 = z2'"
  shows "w + h * h * (m2 + h * (ch' + d2))
    = (mz2 + h * (ch + carry)) + h * (y * (xl + h * xh)) + h * h * (cl' + h * ch')"
proof -
  have "w + h * h * (m2 + h * (ch' + d2)) = w + h * h * (m2 + h * d2) + h * h * (h * ch')"
    by (simp add: algebra_simps)
  also have "\<dots> = w + h * h * (xh * y + cl' + dz) + h * h * (h * ch')"
    by (simp only: m z2')
  also have "\<dots> = (w + h * h * dz) + h * h * (xh * y + cl') + h * h * (h * ch')"
    by (simp add: algebra_simps)
  also have "\<dots> = (h * (xl * y + ch + carry) + mz2) + h * h * (xh * y + cl') + h * h * (h * ch')"
    by (simp only: w z)
  also have "\<dots> = (mz2 + h * (ch + carry)) + h * (y * (xl + h * xh)) + h * h * (cl' + h * ch')"
    by (simp add: algebra_simps)
  finally show ?thesis .
qed

lemma mult_hi_step:
  assumes "unat y < 2 ^ 16" "unat carry < 2 ^ 16"
    and "z = (x AND 0xffff) * y + drop_bit 16 c + carry"
    and "z2' = drop_bit 16 x * y + (c' AND 0xffff) + drop_bit 16 z"
  shows "unat (storeinc z z2) + 2 ^ 32 * (unat z2' mod 2 ^ 16 + 2 ^ 16 * (unat (drop_bit 16 c') + unat (drop_bit 16 z2')))
    = (unat z2 mod 2 ^ 16 + 2 ^ 16 * (unat (drop_bit 16 c) + unat carry)) + 2 ^ 16 * (unat y * unat x) + 2 ^ 32 * unat c'"
proof -
  have z: "unat z = unat (x AND 0xffff) * unat y + unat (drop_bit 16 c) + unat carry"
    unfolding assms(3) using half_less(1) assms(1) half_less(2) assms(2) by (rule unat_half_product)
  have z2': "unat z2' = unat (drop_bit 16 x) * unat y + unat (c' AND 0xffff) + unat (drop_bit 16 z)"
    unfolding assms(4) using half_less(2) assms(1) half_less(1) half_less(2) by (rule unat_half_product)
  have m: "unat z2' mod 2 ^ 16 + 2 ^ 16 * unat (drop_bit 16 z2') = unat z2'"
    by (simp add: unat_drop_bit)
  have w: "unat (storeinc z z2) + 2 ^ 16 * 2 ^ 16 * unat (drop_bit 16 z) = 2 ^ 16 * unat z + unat z2 mod 2 ^ 16"
    using storeinc_join [of z z2] by simp
  show ?thesis
    using hi_step_nat [OF w z z2' m, of "unat (drop_bit 16 c')"] half_split [of x] half_split [of c']
    by simp
qed

lemma mult_hi_val:
  assumes "unat y < 2 ^ 16" "unat carry < 2 ^ 16" "length xs < length cs"
    and "unat (cs ! length xs) < 2 ^ 16"
    and "xs = [] \<longrightarrow> carry = drop_bit 16 z2"
  shows "limbs_val (mult_hi y xs cs carry z2)
      = (unat z2 mod 2 ^ 16 + 2 ^ 16 * (unat (drop_bit 16 (hd cs)) + unat carry))
        + 2 ^ 32 * limbs_val (tl cs) + 2 ^ 16 * (unat y * limbs_val xs)
    \<and> length (mult_hi y xs cs carry z2) = length cs
    \<and> drop (Suc (length xs)) (mult_hi y xs cs carry z2) = drop (Suc (length xs)) cs"
  using assms
proof (induction y xs cs carry z2 rule: mult_hi.induct)
  case (1 y c cs carry z2)
  then show ?case by (simp add: unat_drop_bit)
next
  case (2 y x xs c c' cs carry z2)
  define z where "z = (x AND 0xffff) * y + drop_bit 16 c + carry"
  define z2' where "z2' = drop_bit 16 x * y + (c' AND 0xffff) + drop_bit 16 z"
  note step = mult_hi_step [OF 2(2,3) z_def z2'_def, of z2]
  have eq: "mult_hi y (x # xs) (c # c' # cs) carry z2
      = storeinc z z2 # mult_hi y xs (c' # cs) (drop_bit 16 z2') z2'"
    by (simp add: Let_def flip: z_def z2'_def)
  note IH = 2(1) [OF z_def z2'_def 2(2) half_less(2)]
  show ?case using IH step 2(4,5) unfolding eq by (simp add: distrib_left)
qed auto

lemma mult_loop_val:
  assumes "xa \<noteq> []" "length cs = length xa + length bs" "drop (length xa) cs = replicate (length bs) 0"
  shows "limbs_val (mult_loop xa bs cs) = limbs_val cs + limbs_val xa * limbs_val bs
    \<and> length (mult_loop xa bs cs) = length cs"
  using assms(2-)
proof (induction bs arbitrary: cs)
  case (Cons b bs)
  let ?n = "length xa"
  define cs1 where "cs1 = (if b AND 0xffff \<noteq> 0 then mult_lo (b AND 0xffff) xa cs 0 else cs)"
  define cs2 where "cs2 = (if drop_bit 16 b \<noteq> 0 then mult_hi (drop_bit 16 b) xa cs1 0 (hd cs1) else cs1)"
  have n: "?n < length cs" using Cons.prems by simp
  have z: "cs ! ?n = 0"
    using Cons.prems(2) n by (metis Cons_nth_drop_Suc length_Cons list.inject replicate_Suc)
  have tail: "drop (Suc ?n) cs = replicate (length bs) 0"
    using Cons.prems(2) by (metis drop_Suc length_Cons list.sel(3) replicate_Suc tl_drop)
  have 1: "limbs_val cs1 = limbs_val cs + unat (b AND 0xffff) * limbs_val xa \<and> length cs1 = length cs
      \<and> unat (cs1 ! ?n) < 2 ^ 16 \<and> drop (Suc ?n) cs1 = drop (Suc ?n) cs"
    using mult_lo_val [OF half_less(1) [of b], of 0 xa cs] n z unfolding cs1_def by auto
  then have ne: "cs1 \<noteq> []" using n by auto
  then have h: "limbs_val cs1 = (unat (hd cs1) mod 2 ^ 16 + 2 ^ 16 * unat (drop_bit 16 (hd cs1)))
      + 2 ^ 32 * limbs_val (tl cs1)"
    by (cases cs1) (simp_all add: unat_drop_bit)
  have 2: "limbs_val cs2 = limbs_val cs1 + 2 ^ 16 * (unat (drop_bit 16 b) * limbs_val xa)
      \<and> length cs2 = length cs \<and> drop (Suc ?n) cs2 = drop (Suc ?n) cs"
    using mult_hi_val [OF half_less(2) [of b], of 0 xa cs1 "hd cs1"] n 1 h assms(1)
    unfolding cs2_def by auto
  then obtain d ds where c2: "cs2 = d # ds" using n by (cases cs2) auto
  have "drop ?n ds = replicate (length bs) 0" "length ds = ?n + length bs"
    using 2 tail Cons.prems(1) by (simp_all add: c2)
  note IH = Cons.IH [OF this(2,1)]
  have eq: "mult_loop xa (b # bs) cs = d # mult_loop xa bs ds"
    by (simp add: Let_def flip: cs1_def cs2_def) (simp add: c2)
  have "limbs_val xa * unat b = unat (b AND 0xffff) * limbs_val xa + 2 ^ 16 * (unat (drop_bit 16 b) * limbs_val xa)"
    unfolding half_split [of b] by (simp add: distrib_left)
  with IH 1 2 show ?case unfolding eq by (simp add: c2 distrib_left)
qed simp

subsection \<open>Products\<close>

lemma take_last_limb:
  "0 < n \<Longrightarrow> n \<le> length xs \<Longrightarrow> take n xs = take (n - 1) xs @ [xs ! (n - 1)]"
  by (metis Suc_diff_1 Suc_le_eq take_Suc_conv_app_nth)

lemma top_limb_iff:
  assumes "0 < n" "n \<le> length xs"
  shows "xs ! (n - 1) \<noteq> 0 \<longleftrightarrow> 2 ^ (32 * (n - 1)) \<le> limbs_val (take n xs)"
proof -
  have l: "length (take (n - 1) xs) = n - 1" using assms by simp
  have v: "limbs_val (take n xs) = limbs_val (take (n - 1) xs) + 2 ^ (32 * (n - 1)) * unat (xs ! (n - 1))"
    using l by (simp add: take_last_limb [OF assms] limbs_val_append)
  have s: "limbs_val (take (n - 1) xs) < 2 ^ (32 * (n - 1))"
    using limbs_val_less [of "take (n - 1) xs"] l by simp
  show ?thesis
  proof (cases "xs ! (n - 1) = 0")
    case False
    then have "1 \<le> unat (xs ! (n - 1))" by (simp add: Suc_le_eq unat_gt_0)
    then have "2 ^ (32 * (n - 1)) * 1 \<le> 2 ^ (32 * (n - 1)) * unat (xs ! (n - 1))" by (rule mult_le_mono2)
    then have "2 ^ (32 * (n - 1)) \<le> limbs_val (take n xs)" unfolding v by linarith
    with False show ?thesis by blast
  qed (use v s in simp)
qed

lemma bigint_inv_iff:
  "bigint_inv b \<longleftrightarrow> b_maxwds b = 2 ^ b_k b \<and> 1 \<le> b_wds b \<and> b_wds b \<le> length (b_x b)
     \<and> length (b_x b) \<le> b_maxwds b \<and> (1 < b_wds b \<longrightarrow> 2 ^ (32 * (b_wds b - 1)) \<le> bval b)"
  using top_limb_iff [of "b_wds b" "b_x b"] unfolding bigint_inv_def bval_def by auto

lemma trim_wds_le: "trim_wds xs n \<le> n"
  by (induction n) auto

lemma trim_wds_val: "n \<le> length xs \<Longrightarrow> limbs_val (take (trim_wds xs n) xs) = limbs_val (take n xs)"
proof (induction n)
  case (Suc n)
  then show ?case
    by (auto simp: take_Suc_conv_app_nth limbs_val_append)
qed simp

lemma trim_wds_top: "0 < trim_wds xs n \<Longrightarrow> xs ! (trim_wds xs n - 1) \<noteq> 0"
  by (induction n) (auto split: if_splits)

lemma trim_wds_pos: "n \<le> length xs \<Longrightarrow> limbs_val (take n xs) \<noteq> 0 \<Longrightarrow> 0 < trim_wds xs n"
  using trim_wds_val [of n xs] by (metis gr0I limbs_val.simps(1) take0)

lemma bval_less: "bigint_inv b \<Longrightarrow> bval b < 2 ^ (32 * b_wds b)"
  using limbs_val_less [of "take (b_wds b) (b_x b)"] by (simp add: bval_def bigint_inv_def)

lemma mult_commute_choice:
  assumes "bigint_inv a" "bigint_inv b" "b_wds b \<le> b_wds a" "bval a \<noteq> 0" "bval b \<noteq> 0"
    and c: "c = (let wc = b_wds a + b_wds b;
          k = (if b_maxwds a < wc then b_k a + 1 else b_k a);
          xs = mult_loop (take (b_wds a) (b_x a)) (take (b_wds b) (b_x b)) (replicate wc 0)
      in (Balloc k)\<lparr>b_x := xs, b_wds := trim_wds xs wc\<rparr>)"
  shows "bval c = bval a * bval b \<and> bigint_inv c"
proof -
  let ?xa = "take (b_wds a) (b_x a)" and ?xb = "take (b_wds b) (b_x b)"
  let ?wc = "b_wds a + b_wds b"
  define xs where "xs = mult_loop ?xa ?xb (replicate ?wc 0)"
  have la: "length ?xa = b_wds a" "length ?xb = b_wds b" "?xa \<noteq> []"
    using assms(1,2) by (auto simp: bigint_inv_def)
  have "limbs_val xs = limbs_val ?xa * limbs_val ?xb \<and> length xs = ?wc"
    unfolding xs_def using mult_loop_val [of ?xa "replicate ?wc 0" ?xb, OF la(3)]
    unfolding la by simp
  then have xs: "limbs_val xs = bval a * bval b" "length xs = ?wc"
    by (simp_all only: bval_def)
  then have pos: "0 < trim_wds xs ?wc"
    using assms(4,5) by (intro trim_wds_pos) simp_all
  have v: "limbs_val (take (trim_wds xs ?wc) xs) = bval a * bval b"
    using trim_wds_val [of ?wc xs] xs by simp
  have "b_wds a \<le> 2 ^ b_k a" using assms(1) by (simp add: bigint_inv_def)
  then have cap: "?wc \<le> 2 ^ (if b_maxwds a < ?wc then b_k a + 1 else b_k a)"
    using assms(1,3) by (auto simp: bigint_inv_def)
  define k where "k = (if b_maxwds a < ?wc then b_k a + 1 else b_k a)"
  have "c = (Balloc k)\<lparr>b_x := xs, b_wds := trim_wds xs ?wc\<rparr>"
    by (simp only: c Let_def flip: xs_def k_def)
  then have c': "b_k c = k" "b_maxwds c = 2 ^ k" "b_wds c = trim_wds xs ?wc" "b_x c = xs"
    by (simp_all add: Balloc_def)
  have "bval c = bval a * bval b" using v by (simp only: bval_def [of c] c')
  moreover have "bigint_inv c"
    using pos cap xs(2) trim_wds_le [of xs ?wc] trim_wds_top [OF pos]
    unfolding bigint_inv_def c' k_def by simp
  ultimately show ?thesis ..
qed

lemma mult_correct:
  assumes "bigint_inv a" "bigint_inv b" "bval a \<noteq> 0" "bval b \<noteq> 0"
  shows "bval (mult a b) = bval a * bval b" "bigint_inv (mult a b)"
proof -
  have "bval (mult a b) = bval a * bval b \<and> bigint_inv (mult a b)"
  proof (cases "b_wds a < b_wds b")
    case True
    with mult_commute_choice [OF assms(2,1) _ assms(4,3), of "mult a b"] show ?thesis
      by (simp add: mult_def Let_def mult.commute add.commute)
  next
    case False
    with mult_commute_choice [OF assms(1,2) _ assms(3,4), of "mult a b"] show ?thesis
      by (simp add: mult_def Let_def)
  qed
  then show "bval (mult a b) = bval a * bval b" "bigint_inv (mult a b)" by simp_all
qed

lemma unat_of_int_u32: "0 \<le> i \<Longrightarrow> i < 2 ^ 32 \<Longrightarrow> unat (of_int i :: uint32) = nat i"
  by (simp add: unat_eq_nat_uint uint_word_of_int_eq take_bit_int_eq_self)

lemma multadd_correct:
  assumes inv: "bigint_inv b" and m: "0 < m" "m < 2 ^ 16" and a: "0 \<le> a" "a < 2 ^ 16"
  shows "bval (multadd b m a) = bval b * nat m + nat a" "bigint_inv (multadd b m a)"
proof -
  let ?n = "b_wds b" and ?m = "of_int m :: uint32" and ?a = "of_int a :: uint32"
  have um: "unat ?m = nat m" "unat ?a = nat a"
    using m a by (simp_all add: unat_of_int_u32)
  have n: "1 \<le> ?n" "max 1 ?n = ?n" "?n \<le> length (b_x b)" using inv by (simp_all add: bigint_inv_def)
  obtain ws c where r: "multadd_loop ?m (take ?n (b_x b)) ?a = (ws, c)" by fastforce
  have L: "limbs_val ws + 2 ^ (32 * ?n) * unat c = bval b * nat m + nat a" "length ws = ?n"
    using multadd_loop_val [of ?m ?a "take ?n (b_x b)"] m a n by (simp_all add: r um bval_def)
  define r' where "r' = multadd b m a"
  have "bval b * 1 \<le> bval b * nat m" using m by (intro mult_le_mono2) simp
  then have mono: "bval b \<le> bval b * nat m + nat a" by linarith
  have "bval r' = bval b * nat m + nat a \<and> bigint_inv r'"
  proof (cases "c = 0")
    case True
    then have "r' = b\<lparr>b_x := ws @ drop ?n (b_x b)\<rparr>"
      using n by (simp add: r'_def multadd_def r)
    then show ?thesis
      using L True inv n mono unfolding bigint_inv_iff by (auto simp: bval_def)
  next
    case False
    then have "1 \<le> unat c" by (simp add: Suc_le_eq unat_gt_0)
    then have "2 ^ (32 * ?n) * 1 \<le> 2 ^ (32 * ?n) * unat c" by (rule mult_le_mono2)
    then have top: "2 ^ (32 * ?n) \<le> bval b * nat m + nat a" using L by linarith
    show ?thesis
      using L False inv n top unfolding bigint_inv_iff r'_def multadd_def
      by (auto simp: r bval_def put_def Balloc_def list_update_append limbs_val_append Let_def
          take_Suc_conv_app_nth nth_append)
  qed
  then show "bval (multadd b m a) = bval b * nat m + nat a" "bigint_inv (multadd b m a)"
    by (simp_all add: r'_def)
qed

subsection \<open>Comparison and difference\<close>

lemma cmp_loop_rev:
  "length xs = length ys \<Longrightarrow> cmp_loop (rev xs) (rev ys)
    = (if limbs_val xs < limbs_val ys then -1 else if limbs_val ys < limbs_val xs then 1 else 0)"
proof (induction xs arbitrary: ys rule: rev_induct)
  case (snoc x xs)
  then obtain y zs where ys: "ys = zs @ [y]" and l: "length xs = length zs"
    by (cases ys rule: rev_cases) auto
  let ?P = "2 ^ (32 * length zs) :: nat"
  have lt: "limbs_val us + ?P * unat u < limbs_val vs + ?P * unat v"
    if "u < v" "length us = length zs" for us vs u v
  proof -
    have "Suc (unat u) \<le> unat v" using that by (simp add: word_less_nat_alt)
    then have "?P * Suc (unat u) \<le> ?P * unat v" by (rule mult_le_mono2)
    with limbs_val_less [of us] that(2) show ?thesis by simp
  qed
  show ?case
  proof (cases x y rule: linorder_cases)
    case less
    with lt [OF less, of xs zs] l show ?thesis by (auto simp: ys limbs_val_append)
  next
    case equal
    with snoc.IH [OF l] l show ?thesis by (simp add: ys limbs_val_append)
  next
    case greater
    with lt [OF greater, of zs xs] l show ?thesis by (auto simp: ys limbs_val_append)
  qed
qed simp

lemma fewer_words_less:
  assumes "bigint_inv a" "bigint_inv b" "b_wds a < b_wds b"
  shows "bval a < bval b"
proof -
  have "bval a < 2 ^ (32 * b_wds a)" using assms(1) by (rule bval_less)
  also have "\<dots> \<le> 2 ^ (32 * (b_wds b - 1))" using assms(3) by (intro power_increasing) auto
  also have "\<dots> \<le> bval b" using assms by (simp add: bigint_inv_iff)
  finally show ?thesis .
qed

lemma sgn_cmp:
  assumes "bigint_inv a" "bigint_inv b"
  shows "sgn (cmp a b) = sgn (int (bval a) - int (bval b))"
proof (cases "b_wds a" "b_wds b" rule: linorder_cases)
  case less
  with fewer_words_less [OF assms] show ?thesis by (simp add: cmp_def Let_def sgn_if)
next
  case equal
  with assms show ?thesis
    by (simp add: cmp_def Let_def cmp_loop_rev bigint_inv_def bval_def sgn_if)
next
  case greater
  with fewer_words_less [OF assms(2,1)] show ?thesis by (simp add: cmp_def Let_def sgn_if)
qed

lemma div_mod_sign:
  fixes v B :: int
  assumes "- B \<le> v" "v < B"
  shows "v div B = (if v < 0 then - 1 else 0)" "v mod B = v + B * of_bool (v < 0)"
proof -
  have d: "v div B = (if v < 0 then - 1 else 0)"
  proof (cases "v < 0")
    case True
    then have "(v + B) div B = 0" using assms by (intro div_pos_pos_trivial) auto
    moreover have "B \<noteq> 0" using True assms by auto
    ultimately show ?thesis using True div_add_self2 [of B v] by simp
  qed (use assms in \<open>simp add: div_pos_pos_trivial\<close>)
  show "v div B = (if v < 0 then - 1 else 0)" by (fact d)
  show "v mod B = v + B * of_bool (v < 0)" using mult_div_mod_eq [of B v] unfolding d by (auto split: if_splits)
qed

lemma signed_shift_small:
  fixes v :: int
  assumes "- (2 ^ 16) \<le> v" "v < 2 ^ 16"
  shows "signed_drop_bit 16 (word_of_int v :: uint32) = (if v < 0 then - 1 else 0)"
    and "int (unat (word_of_int v :: uint32) mod 2 ^ 16) = v + 2 ^ 16 * of_bool (v < 0)"
proof -
  have s: "sint (word_of_int v :: uint32) = v"
    using assms by (subst sint_sbintrunc') (simp add: signed_take_bit_int_eq_self)
  have "sint (signed_drop_bit 16 (word_of_int v :: uint32)) = sint (if v < 0 then - 1 else 0 :: uint32)"
    unfolding sint_signed_drop_bit_eq s drop_bit_eq_div div_mod_sign(1) [OF assms]
    by simp
  then show "signed_drop_bit 16 (word_of_int v :: uint32) = (if v < 0 then - 1 else 0)"
    by (rule signed_word_eqI)
  have "int (unat (word_of_int v :: uint32) mod 2 ^ 16) = v mod 2 ^ 16"
    by (simp add: zmod_int uint_word_of_int_eq take_bit_eq_mod mod_mod_cancel)
  then show "int (unat (word_of_int v :: uint32) mod 2 ^ 16) = v + 2 ^ 16 * of_bool (v < 0)"
    by (simp only: div_mod_sign(2) [OF assms])
qed

lemma int_half: "n < 2 ^ 16 \<Longrightarrow> int n < 2 ^ 16"
  by simp

lemma half_sub:
  fixes p q b :: uint32
  assumes "unat p < 2 ^ 16" "unat q < 2 ^ 16" "b = (if bo then - 1 else 0)"
    and v: "v = int (unat p) - int (unat q) - of_bool bo"
  shows "signed_drop_bit 16 (p - q + b) = (if v < 0 then - 1 else 0)"
    "int (unat (p - q + b) mod 2 ^ 16) = v + 2 ^ 16 * of_bool (v < 0)"
proof -
  have y: "p - q + b = word_of_int v" using assms(3) by (simp add: v)
  have r: "- (2 ^ 16) \<le> v" "v < 2 ^ 16"
    using int_half [OF assms(1)] int_half [OF assms(2)] unfolding v
    by (simp_all only: of_bool_def split: if_split) linarith+
  show "signed_drop_bit 16 (p - q + b) = (if v < 0 then - 1 else 0)"
    "int (unat (p - q + b) mod 2 ^ 16) = v + 2 ^ 16 * of_bool (v < 0)"
    unfolding y by (fact signed_shift_small [OF r])+
qed

lemma diff_word:
  fixes xa xb y z :: uint32
  assumes "borrow = (if bo then - 1 else 0)"
    and "y = (xa AND 0xffff) - (xb AND 0xffff) + borrow"
    and "z = drop_bit 16 xa - drop_bit 16 xb + signed_drop_bit 16 y"
  shows "\<exists>bo'. signed_drop_bit 16 z = (if bo' then - 1 else 0) \<and>
    int (unat (storeinc z y)) = int (unat xa) - int (unat xb) - of_bool bo + 2 ^ 32 * of_bool bo'"
proof -
  define v where "v = int (unat (xa AND 0xffff)) - int (unat (xb AND 0xffff)) - of_bool bo"
  define u where "u = int (unat (drop_bit 16 xa)) - int (unat (drop_bit 16 xb)) - of_bool (v < 0)"
  note V = half_sub [OF half_less(1) half_less(1) assms(1) v_def, folded assms(2)]
  note U = half_sub [OF half_less(2) half_less(2) V(1) u_def, folded assms(3)]
  have join: "h * (u + h * b) + (v + h * of_bool (v < 0))
      = (l + h * (u + of_bool (v < 0))) - (l' + h * 0) - d + h * h * b"
    if "v = l - l' - d" for h l l' d b :: int
    unfolding that by (simp add: algebra_simps)
  have "int (unat (storeinc z y)) = 2 ^ 16 * (u + 2 ^ 16 * of_bool (u < 0)) + (v + 2 ^ 16 * of_bool (v < 0))"
    unfolding unat_storeinc of_nat_add of_nat_mult U(2) V(2) by simp
  also have "\<dots> = int (unat xa) - int (unat xb) - of_bool bo + 2 ^ 32 * of_bool (u < 0)"
    unfolding half_split [of xa] half_split [of xb] using u_def v_def by simp
  finally show ?thesis using U(1) by blast
qed

lemma diff_loop_pad: "diff_loop b (xa # xas) [] = diff_loop b (xa # xas) [0]"
  by (simp add: Let_def)

lemma diff_loop_val:
  assumes "borrow = (if bo then - 1 else 0)" "length xbs \<le> length xas"
  shows "(\<exists>bo'. int (limbs_val (diff_loop borrow xas xbs))
      = int (limbs_val xas) - int (limbs_val xbs) - of_bool bo + 2 ^ (32 * length xas) * of_bool bo')
    \<and> length (diff_loop borrow xas xbs) = length xas"
  using assms
proof (induction xas arbitrary: borrow xbs bo)
  case (Cons xa xas)
  define xb ys where "xb = (if xbs = [] then 0 else hd xbs)" and "ys = tl xbs"
  have xbs: "limbs_val xbs = limbs_val (xb # ys)" "length ys \<le> length xas"
    "diff_loop borrow (xa # xas) xbs = diff_loop borrow (xa # xas) (xb # ys)"
    using Cons.prems(2) by (cases xbs; simp add: xb_def ys_def diff_loop_pad del: diff_loop.simps)+
  define y where "y = (xa AND 0xffff) - (xb AND 0xffff) + borrow"
  define z where "z = drop_bit 16 xa - drop_bit 16 xb + signed_drop_bit 16 y"
  have eq: "diff_loop borrow (xa # xas) (xb # ys) = storeinc z y # diff_loop (signed_drop_bit 16 z) xas ys"
    by (simp add: Let_def flip: y_def z_def)
  obtain b1 where b1: "signed_drop_bit 16 z = (if b1 then - 1 else 0)"
    "int (unat (storeinc z y)) = int (unat xa) - int (unat xb) - of_bool bo + 2 ^ 32 * of_bool b1"
    using diff_word [OF Cons.prems(1) y_def z_def] by blast
  from Cons.IH [OF b1(1) xbs(2)] obtain b2 where
    IH: "int (limbs_val (diff_loop (signed_drop_bit 16 z) xas ys))
      = int (limbs_val xas) - int (limbs_val ys) - of_bool b1 + 2 ^ (32 * length xas) * of_bool b2"
    and l: "length (diff_loop (signed_drop_bit 16 z) xas ys) = length xas" by blast
  have "int (limbs_val (storeinc z y # diff_loop (signed_drop_bit 16 z) xas ys))
      = int (limbs_val (xa # xas)) - int (limbs_val (xb # ys)) - of_bool bo
        + 2 ^ (32 * length (xa # xas)) * of_bool b2"
    using b1(2) IH by (simp add: power_add algebra_simps)
  with l show ?case unfolding xbs(1,3) eq by auto
qed auto

lemma diff_loop_exact:
  assumes "length xbs \<le> length xas" "limbs_val xbs \<le> limbs_val xas"
  shows "limbs_val (diff_loop 0 xas xbs) = limbs_val xas - limbs_val xbs"
proof -
  let ?r = "limbs_val (diff_loop 0 xas xbs)"
  obtain bo' where b: "int ?r = int (limbs_val xas) - int (limbs_val xbs) + 2 ^ (32 * length xas) * of_bool bo'"
    and l: "length (diff_loop 0 xas xbs) = length xas"
    using diff_loop_val [of 0 False xbs xas] assms by auto
  have "int ?r < 2 ^ (32 * length xas)" using limbs_val_less [of "diff_loop 0 xas xbs"] l
    by (metis of_nat_less_iff of_nat_numeral of_nat_power)
  with b assms(2) have "bo' = False" by (cases bo') auto
  with b assms(2) show ?thesis by simp
qed

lemma diff_ordered:
  assumes "bigint_inv a" "bigint_inv b" "bval b < bval a"
    and xs: "xs = diff_loop 0 (take (b_wds a) (b_x a)) (take (b_wds b) (b_x b))"
    and c: "c = (Balloc (b_k a))\<lparr>b_sign := i, b_x := xs, b_wds := trim_wds xs (b_wds a)\<rparr>"
  shows "bval c = bval a - bval b \<and> bigint_inv c"
proof -
  have w: "b_wds b \<le> b_wds a" using fewer_words_less [OF assms(1,2)] assms(3) by force
  have la: "length (take (b_wds a) (b_x a)) = b_wds a" "length (take (b_wds b) (b_x b)) = b_wds b"
    using assms(1,2) by (auto simp: bigint_inv_def)
  have lx: "length xs = b_wds a"
    unfolding xs using diff_loop_val [of 0 False "take (b_wds b) (b_x b)" "take (b_wds a) (b_x a)"] w
    unfolding la by simp
  have vx: "limbs_val xs = bval a - bval b"
    unfolding xs bval_def using w assms(3) by (intro diff_loop_exact) (simp_all only: la bval_def less_imp_le)
  have pos: "0 < trim_wds xs (b_wds a)" using lx vx assms(3) by (intro trim_wds_pos) auto
  have c': "b_k c = b_k a" "b_maxwds c = 2 ^ b_k a" "b_wds c = trim_wds xs (b_wds a)" "b_x c = xs"
    by (simp_all add: c Balloc_def)
  have "bval c = bval a - bval b"
    using trim_wds_val [of "b_wds a" xs] lx vx by (simp add: bval_def [of c] c')
  moreover have "bigint_inv c"
    using pos assms(1) lx trim_wds_le [of xs "b_wds a"] trim_wds_top [OF pos]
    unfolding bigint_inv_def c' by auto
  ultimately show ?thesis ..
qed

lemma diff_correct:
  assumes "bigint_inv a" "bigint_inv b"
  shows "int (bval (diff a b)) = \<bar>int (bval a) - int (bval b)\<bar>"
    "b_sign (diff a b) = of_bool (bval a < bval b)" "bigint_inv (diff a b)"
proof -
  have s: "sgn (cmp a b) = sgn (int (bval a) - int (bval b))" using assms by (rule sgn_cmp)
  have "int (bval (diff a b)) = \<bar>int (bval a) - int (bval b)\<bar>
    \<and> b_sign (diff a b) = of_bool (bval a < bval b) \<and> bigint_inv (diff a b)"
  proof (cases "bval a" "bval b" rule: linorder_cases)
    case less
    then have "cmp a b < 0" using s by (simp add: sgn_if split: if_splits)
    with diff_ordered [OF assms(2,1) less refl refl, of 1] less show ?thesis
      by (simp add: diff_def Let_def Balloc_def)
  next
    case equal
    then have "cmp a b = 0" using s by (simp add: sgn_if split: if_splits)
    with equal show ?thesis by (simp add: diff_def bval_def bigint_inv_def Balloc_def)
  next
    case greater
    then have "0 < cmp a b" using s by (simp add: sgn_if split: if_splits)
    with diff_ordered [OF assms greater refl refl, of 0] greater show ?thesis
      by (simp add: diff_def Let_def Balloc_def)
  qed
  then show "int (bval (diff a b)) = \<bar>int (bval a) - int (bval b)\<bar>"
    "b_sign (diff a b) = of_bool (bval a < bval b)" "bigint_inv (diff a b)" by blast+
qed

subsection \<open>Shifts and powers of five\<close>

lemma grow_k_spec: "0 < i \<Longrightarrow> i = 2 ^ k \<Longrightarrow> k \<le> grow_k n i k \<and> n \<le> 2 ^ grow_k n i k"
proof (induction n i k rule: grow_k.induct)
  case (1 n i k)
  show ?case
  proof (cases "i < n")
    case True
    have "k + 1 \<le> grow_k n (2 * i) (k + 1) \<and> n \<le> 2 ^ grow_k n (2 * i) (k + 1)"
      using 1 True by simp
    with True 1(2) show ?thesis by (simp add: grow_k.simps [of n i k])
  next
    case False
    then have "grow_k n i k = k" by (simp add: grow_k.simps [of n i k])
    with False 1(3) show ?thesis by simp
  qed
qed

lemma shift_split: "(x * K) mod (K * M) + K * M * (x div M) = K * (x :: nat)"
proof -
  have "(x * K) mod (K * M) = K * (x mod M)" by (simp only: mult_mod_right mult.commute [of x K])
  then have "(x * K) mod (K * M) + K * M * (x div M) = K * (x mod M + M * (x div M))"
    by (simp only: distrib_left mult.assoc)
  then show ?thesis by simp
qed

lemma shift_word:
  assumes "0 < k" "k < 32" "unat z < 2 ^ k"
  shows "unat (push_bit k x OR z) + 2 ^ 32 * unat (drop_bit (32 - k) x) = 2 ^ k * unat (x :: uint32) + unat z"
    and "unat (drop_bit (32 - k) x) < 2 ^ k"
proof -
  have e: "(2::nat) ^ 32 = 2 ^ k * 2 ^ (32 - k)" using assms by (simp flip: power_add)
  have "take_bit k z = z" using assms(3) by (simp add: word_unat_eq_iff unat_take_bit)
  then have bz: "\<not> bit z n" if "k \<le> n" for n using that
    by (metis bit_take_bit_iff not_less)
  have d: "push_bit k x AND z = 0"
    by (rule bit_eqI) (use bz in \<open>auto simp: bit_and_iff bit_push_bit_iff\<close>)
  have "unat (push_bit k x) + 2 ^ 32 * unat (drop_bit (32 - k) x) = 2 ^ k * unat x"
    using shift_split [of "unat x" "2 ^ k" "2 ^ (32 - k)"]
    unfolding unat_push_bit unat_drop_bit e [symmetric] by simp
  with d show "unat (push_bit k x OR z) + 2 ^ 32 * unat (drop_bit (32 - k) x) = 2 ^ k * unat x + unat z"
    by (simp only: unat_or_disjoint)
  have "unat x < 2 ^ 32" using unsigned_less [of x, where ?'a = nat] by simp
  then show "unat (drop_bit (32 - k) x) < 2 ^ k"
    unfolding unat_drop_bit e by (rule less_mult_imp_div_less)
qed

lemma lshift_loop_val:
  assumes "0 < k" "k < 32"
  shows "unat z < 2 ^ k \<Longrightarrow> limbs_val (lshift_loop k z xs) = 2 ^ k * limbs_val xs + unat z
    \<and> length (lshift_loop k z xs) = Suc (length xs)"
proof (induction xs arbitrary: z)
  case (Cons x xs)
  from shift_word [OF assms Cons.prems, of x] Cons.IH [of "drop_bit (32 - k) x"]
  show ?case by (simp add: algebra_simps)
qed simp

lemma lshift_correct:
  assumes "bigint_inv b" "bval b \<noteq> 0"
  shows "bval (lshift b k) = bval b * 2 ^ k \<and> bigint_inv (lshift b k)"
proof -
  define n xw k1 where "n = k div 32" and "xw = take (b_wds b) (b_x b)"
    and "k1 = grow_k (n + b_wds b + 1) (b_maxwds b) (b_k b)"
  have k1: "n + b_wds b + 1 \<le> 2 ^ k1"
    using grow_k_spec [of "b_maxwds b" "b_k b" "n + b_wds b + 1"] assms(1) by (simp add: k1_def bigint_inv_def)
  have lw: "length xw = b_wds b" "xw \<noteq> []" "limbs_val xw = bval b" "1 \<le> b_wds b"
    using assms(1) by (auto simp: xw_def bigint_inv_def bval_def)
  have kk: "(2::nat) ^ k = 2 ^ (32 * n) * 2 ^ (k mod 32)" by (simp add: n_def flip: power_add)
  have e: "2 ^ (32 * (b_wds b - 1)) \<le> bval b"
    using assms by (cases "b_wds b = 1") (auto simp: bigint_inv_iff)
  show ?thesis
  proof (cases "k mod 32 = 0")
    case True
    then have "lshift b k = (Balloc k1)\<lparr>b_x := replicate n 0 @ xw, b_wds := n + b_wds b\<rparr>"
      by (simp add: lshift_def Let_def n_def xw_def k1_def)
    moreover have "xw ! (b_wds b - 1) \<noteq> 0" using top_limb_iff [of "b_wds b" xw] lw e by simp
    ultimately show ?thesis
      using lw k1 True kk by (auto simp: bval_def bigint_inv_def Balloc_def limbs_val_append nth_append)
  next
    case False
    define xs where "xs = lshift_loop (k mod 32) 0 xw"
    have xs: "limbs_val xs = 2 ^ (k mod 32) * bval b" "length xs = Suc (b_wds b)"
      using lshift_loop_val [of "k mod 32" 0 xw] False lw by (simp_all add: xs_def)
    then have ne: "xs \<noteq> []" by auto
    then have lst: "last xs = xs ! b_wds b" using xs by (simp add: last_conv_nth)
    have c: "lshift b k = (Balloc k1)\<lparr>b_x := replicate n 0 @ xs,
        b_wds := n + b_wds b + of_bool (last xs \<noteq> 0)\<rparr>"
      using False by (simp add: lshift_def Let_def n_def xw_def k1_def xs_def)
    show ?thesis
    proof (cases "last xs = 0")
      case True
      have "limbs_val (take (b_wds b) xs) = limbs_val xs"
        using True ne xs(2) lst by (metis append_butlast_last_id butlast_conv_take diff_Suc_1 limbs_val_append
            limbs_val.simps add_0_right mult_0_right unsigned_0)
      moreover have "2 ^ (32 * (b_wds b - 1)) \<le> limbs_val xs"
        using e mult_le_mono1 [OF one_le_power [of 2 "k mod 32"], of "bval b"] unfolding xs by linarith
      ultimately have "xs ! (b_wds b - 1) \<noteq> 0"
        using top_limb_iff [of "b_wds b" xs] lw xs by simp
      with True c lw k1 kk xs \<open>limbs_val (take (b_wds b) xs) = limbs_val xs\<close> show ?thesis
        by (auto simp: bval_def bigint_inv_def Balloc_def limbs_val_append nth_append)
    next
      case False
      with c lw k1 kk xs lst show ?thesis
        by (auto simp: bval_def bigint_inv_def Balloc_def limbs_val_append nth_append)
    qed
  qed
qed

definition p5_inv :: "Bigint list \<Rightarrow> bool" where
  "p5_inv ps \<longleftrightarrow> (\<forall>j<length ps. bigint_inv (ps ! j) \<and> bval (ps ! j) = 5 ^ (4 * 2 ^ j))"

lemma pow5_loop_correct:
  assumes "p5_inv ps" "i < length ps" "bigint_inv b" "bval b \<noteq> 0"
  shows "bval (fst (pow5_loop ps i b k)) = bval b * 5 ^ (4 * 2 ^ i * k)
    \<and> bigint_inv (fst (pow5_loop ps i b k)) \<and> p5_inv (snd (pow5_loop ps i b k))"
  using assms
proof (induction ps i b k rule: pow5_loop.induct)
  case (1 ps i b k)
  define b' where "b' = (if odd k then mult b (ps ! i) else b)"
  define ps' where "ps' = (if i + 1 < length ps then ps else ps @ [mult (ps ! i) (ps ! i)])"
  have pi: "bigint_inv (ps ! i)" "bval (ps ! i) = 5 ^ (4 * 2 ^ i)" "bval (ps ! i) \<noteq> 0"
    using "1.prems" by (auto simp: p5_inv_def)
  have b': "bigint_inv b'" "bval b' = bval b * 5 ^ (4 * 2 ^ i * (k mod 2))" "bval b' \<noteq> 0"
    using mult_correct [OF "1.prems"(3) pi(1) "1.prems"(4) pi(3)] "1.prems" pi
    by (auto simp: b'_def odd_iff_mod_2_eq_one even_iff_mod_2_eq_zero)
  show ?case
  proof (cases "k div 2 = 0")
    case True
    then have "k mod 2 = k" by auto
    with True b' "1.prems" show ?thesis by (simp add: pow5_loop.simps [of ps i b k] Let_def flip: b'_def)
  next
    case False
    have sq: "(5::nat) ^ (4 * 2 ^ i) * 5 ^ (4 * 2 ^ i) = 5 ^ (4 * 2 ^ Suc i)"
      by (simp flip: power_add)
    have ps': "p5_inv ps'" "i + 1 < length ps'"
      using "1.prems"(1,2) mult_correct [OF pi(1) pi(1) pi(3) pi(3)] pi sq
      by (cases "length ps = Suc i"; auto simp: ps'_def p5_inv_def nth_append less_Suc_eq)+
    have e: "4 * 2 ^ i * (k mod 2) + 4 * 2 ^ (i + 1) * (k div 2) = 4 * 2 ^ i * k"
    proof -
      have "c * (k mod 2) + c * 2 * (k div 2) = c * k" for c :: nat
        by (simp only: mult.assoc mod_mult_div_eq flip: distrib_left)
      from this [of "4 * 2 ^ i"] show ?thesis by (simp only: power_add power_one_right mult.assoc)
    qed
    have "pow5_loop ps i b k = pow5_loop ps' (i + 1) b' (k div 2)"
      using False by (simp add: pow5_loop.simps [of ps i b k] Let_def ps'_def flip: b'_def)
    moreover have "bval b' * 5 ^ (4 * 2 ^ (i + 1) * (k div 2)) = bval b * 5 ^ (4 * 2 ^ i * k)"
      unfolding b'(2) mult.assoc [of "bval b"] power_add [symmetric] e ..
    ultimately show ?thesis using "1.IH" [OF b'_def False ps'_def ps' b'(1,3)] by simp
  qed
qed

lemma i2b_correct: "0 \<le> i \<Longrightarrow> i < 2 ^ 31 \<Longrightarrow> bval (i2b i) = nat i \<and> bigint_inv (i2b i)"
  by (simp add: i2b_def bval_def bigint_inv_def Balloc_def unat_of_int_u32)

lemma pow5mult_correct:
  assumes "p5_inv ps" "bigint_inv b" "bval b \<noteq> 0"
  shows "bval (fst (pow5mult ps b k)) = bval b * 5 ^ k
    \<and> bigint_inv (fst (pow5mult ps b k)) \<and> p5_inv (snd (pow5mult ps b k))"
proof -
  define b' where "b' = (if k mod 4 \<noteq> 0 then multadd b ([5, 25, 125] ! (k mod 4 - 1)) 0 else b)"
  define ps' where "ps' = (if ps = [] then [i2b 625] else ps)"
  have "k mod 4 = 0 \<or> k mod 4 = 1 \<or> k mod 4 = 2 \<or> k mod 4 = 3" by auto
  then have b': "bval b' = bval b * 5 ^ (k mod 4) \<and> bigint_inv b' \<and> bval b' \<noteq> 0"
    using assms(2,3) by (auto simp: b'_def multadd_correct)
  have ps': "p5_inv ps'" "0 < length ps'"
    using assms(1) i2b_correct [of 625] by (auto simp: ps'_def p5_inv_def)
  have e: "(5::nat) ^ (k mod 4) * 5 ^ (4 * (k div 4)) = 5 ^ k" by (simp flip: power_add)
  have "pow5mult ps b k = (if k div 4 = 0 then (b', ps) else pow5_loop ps' 0 b' (k div 4))"
    by (simp only: pow5mult_def Let_def flip: b'_def ps'_def)
  with pow5_loop_correct [OF ps', of b' "k div 4"] b' e assms(1) show ?thesis
    by (auto simp: mult.assoc)
qed

subsection \<open>Bit scans as zero counts\<close>

lemma and_high_mask_0: "x AND NOT (mask n) = 0 \<longleftrightarrow> unat (x :: 'a::len word) < 2 ^ n" if "n < LENGTH('a)"
proof -
  have "x AND NOT (mask n) = 0 \<longleftrightarrow> take_bit n x = x"
  proof
    assume "x AND NOT (mask n) = 0"
    then have "\<not> bit (x AND NOT (mask n)) i" for i by simp
    then show "take_bit n x = x" by (intro bit_word_eqI) (auto simp: bit_simps)
  next
    assume "take_bit n x = x"
    then have "bit x i = (i < n \<and> bit x i)" for i by (metis bit_take_bit_iff)
    then show "x AND NOT (mask n) = 0" by (intro bit_word_eqI) (auto simp: bit_simps)
  qed
  also have "\<dots> \<longleftrightarrow> unat x < 2 ^ n"
    by (metis mod_less mod_less_divisor unat_take_bit word_unat_eq_iff zero_less_numeral zero_less_power)
  finally show ?thesis .
qed

lemma hi_masks:
  "(0xffff0000 :: uint32) = NOT (mask 16)" "(0xff000000 :: uint32) = NOT (mask 24)"
  "(0xf0000000 :: uint32) = NOT (mask 28)" "(0xc0000000 :: uint32) = NOT (mask 30)"
  "(0x80000000 :: uint32) = NOT (mask 31)"
  by (simp_all add: mask_eq_exp_minus_1)

lemma hi_mask_tests:
  fixes x :: uint32
  shows "x AND 0xffff0000 = 0 \<longleftrightarrow> unat x < 2 ^ 16" "x AND 0xff000000 = 0 \<longleftrightarrow> unat x < 2 ^ 24"
    "x AND 0xf0000000 = 0 \<longleftrightarrow> unat x < 2 ^ 28" "x AND 0xc0000000 = 0 \<longleftrightarrow> unat x < 2 ^ 30"
    "x AND 0x80000000 = 0 \<longleftrightarrow> unat x < 2 ^ 31"
  unfolding hi_masks by (rule and_high_mask_0; simp)+

lemma lo_mask_tests:
  fixes x :: uint32
  shows "x AND 0xffff = 0 \<longleftrightarrow> unat x mod 2 ^ 16 = 0" "x AND 0xff = 0 \<longleftrightarrow> unat x mod 2 ^ 8 = 0"
    "x AND 0xf = 0 \<longleftrightarrow> unat x mod 2 ^ 4 = 0" "x AND 3 = 0 \<longleftrightarrow> unat x mod 2 ^ 2 = 0"
    "x AND 1 = 0 \<longleftrightarrow> unat x mod 2 ^ 1 = 0" "x AND 7 = 0 \<longleftrightarrow> unat x mod 2 ^ 3 = 0"
proof -
  have t: "x AND mask n = 0 \<longleftrightarrow> unat x mod 2 ^ n = 0" for n
    by (metis take_bit_eq_mask unat_take_bit unat_eq_zero)
  show "x AND 0xffff = 0 \<longleftrightarrow> unat x mod 2 ^ 16 = 0" "x AND 0xff = 0 \<longleftrightarrow> unat x mod 2 ^ 8 = 0"
    "x AND 0xf = 0 \<longleftrightarrow> unat x mod 2 ^ 4 = 0" "x AND 3 = 0 \<longleftrightarrow> unat x mod 2 ^ 2 = 0"
    "x AND 1 = 0 \<longleftrightarrow> unat x mod 2 ^ 1 = 0" "x AND 7 = 0 \<longleftrightarrow> unat x mod 2 ^ 3 = 0"
    using t [of 16] t [of 8] t [of 4] t [of 2] t [of 1] t [of 3]
    by (simp_all add: mask_eq_exp_minus_1)
qed

text \<open>One step of the scan for leading zeros: shift when the top \<open>32 - n\<close> bits are clear.\<close>

definition hi_scan :: "nat \<Rightarrow> nat \<times> uint32 \<Rightarrow> nat \<times> uint32" where
  "hi_scan s p = (if unat (snd p) < 2 ^ (32 - s) then (fst p + s, push_bit s (snd p)) else p)"

lemma hi_scan_inv:
  assumes "unat (snd p) = unat x * 2 ^ fst p" "s \<le> 32"
  shows "unat (snd (hi_scan s p)) = unat x * 2 ^ fst (hi_scan s p)"
proof (cases "unat (snd p) < 2 ^ (32 - s)")
  case True
  then have "unat (snd p) * 2 ^ s < 2 ^ (32 - s) * 2 ^ s" by simp
  also have "\<dots> = 2 ^ 32" using assms(2) by (simp flip: power_add)
  finally show ?thesis using True assms(1)
    by (simp add: hi_scan_def unat_push_bit power_add)
qed (simp add: hi_scan_def assms)

lemma hi_scan_ge:
  assumes "2 ^ (32 - 2 * s) \<le> unat (snd p)" "2 * s \<le> 32"
  shows "2 ^ (32 - s) \<le> unat (snd (hi_scan s p))"
proof (cases "unat (snd p) < 2 ^ (32 - s)")
  case True
  have e: "(2::nat) ^ (32 - 2 * s) * 2 ^ s = 2 ^ (32 - s)" "(2::nat) ^ (32 - s) * 2 ^ s = 2 ^ 32"
    using assms(2) by (simp_all flip: power_add)
  have "unat (snd p) * 2 ^ s < 2 ^ (32 - s) * 2 ^ s" using True by simp
  then have "unat (push_bit s (snd p)) = unat (snd p) * 2 ^ s"
    by (simp only: e) (simp add: unat_push_bit)
  moreover have "2 ^ (32 - 2 * s) * 2 ^ s \<le> unat (snd p) * 2 ^ s" using assms(1) by (rule mult_le_mono1)
  ultimately show ?thesis using True by (simp add: hi_scan_def e)
qed (simp add: hi_scan_def)

lemma hi0bits_scan:
  "hi0bits x = (let (k, y) = hi_scan 2 (hi_scan 4 (hi_scan 8 (hi_scan 16 (0, x)))) in
     if unat y < 2 ^ 31 then (if y AND 0x40000000 = 0 then 32 else k + 1) else k)"
  unfolding hi0bits_def hi_mask_tests hi_scan_def by (simp add: Let_def)

lemma bit_test: "x AND 2 ^ n = 0 \<longleftrightarrow> even (unat (x :: 'a::len word) div 2 ^ n)"
proof -
  have "bit x n \<longleftrightarrow> bit (unat x) n" by (simp add: bit_unsigned_iff)
  also have "\<dots> \<longleftrightarrow> odd (unat x div 2 ^ n)" by (rule bit_iff_odd)
  finally show ?thesis by (simp only: and_exp_eq_0_iff_not_bit not_not)
qed

lemma bit30_test: "unat (y :: uint32) < 2 ^ 31 \<Longrightarrow> y AND 0x40000000 = 0 \<longleftrightarrow> unat y < 2 ^ 30"
proof -
  assume y: "unat y < 2 ^ 31"
  have "y AND 2 ^ 30 = 0 \<longleftrightarrow> even (unat y div 2 ^ 30)" by (fact bit_test)
  also have "\<dots> \<longleftrightarrow> unat y div 2 ^ 30 = 0"
  proof -
    have "unat y div 2 ^ 30 < 2" using y by (simp add: less_mult_imp_div_less)
    then show ?thesis by (cases "unat y div 2 ^ 30"; auto)
  qed
  also have "\<dots> \<longleftrightarrow> unat y < 2 ^ 30" by (simp add: div_eq_0_iff)
  finally show ?thesis by simp
qed

lemma hi0bits_leading:
  assumes "x \<noteq> 0"
  shows "2 ^ 31 \<le> unat x * 2 ^ hi0bits x \<and> unat x * 2 ^ hi0bits x < 2 ^ 32"
proof -
  define q where "q = hi_scan 16 (0, x)"
  define r where "r = hi_scan 2 (hi_scan 4 (hi_scan 8 q))"
  have eq: "unat (snd r) = unat x * 2 ^ fst r"
    unfolding r_def q_def by (intro hi_scan_inv) simp_all
  have "1 \<le> unat x" using assms by (simp add: Suc_le_eq unat_gt_0)
  then have "2 ^ 16 \<le> unat (snd q)" using hi_scan_ge [of 16 "(0, x)"] by (simp add: q_def)
  then have "2 ^ 24 \<le> unat (snd (hi_scan 8 q))" using hi_scan_ge [of 8 q] by simp
  then have "2 ^ 28 \<le> unat (snd (hi_scan 4 (hi_scan 8 q)))"
    using hi_scan_ge [of 4 "hi_scan 8 q"] by simp
  then have ge: "2 ^ 30 \<le> unat (snd r)" using hi_scan_ge [of 2 "hi_scan 4 (hi_scan 8 q)"] by (simp add: r_def)
  have lt: "unat (snd r) < 2 ^ 32" using unsigned_less [of "snd r"] by simp
  have h: "hi0bits x = (if unat (snd r) < 2 ^ 31 then fst r + 1 else fst r)"
    using ge bit30_test [of "snd r"] unfolding hi0bits_scan
    by (simp add: split_beta Let_def flip: q_def r_def)
  show ?thesis
  proof (cases "unat (snd r) < 2 ^ 31")
    case True
    then have "unat x * 2 ^ hi0bits x = 2 * unat (snd r)" by (simp add: h eq)
    with True ge show ?thesis by simp
  next
    case False
    then have "unat x * 2 ^ hi0bits x = unat (snd r)" by (simp add: h eq)
    with False lt show ?thesis by simp
  qed
qed

definition lo_scan :: "nat \<Rightarrow> nat \<times> uint32 \<Rightarrow> nat \<times> uint32" where
  "lo_scan s p = (if unat (snd p) mod 2 ^ s = 0 then (fst p + s, drop_bit s (snd p)) else p)"

lemma lo_scan_inv:
  assumes "unat x = unat (snd p) * 2 ^ fst p"
  shows "unat x = unat (snd (lo_scan s p)) * 2 ^ fst (lo_scan s p)"
proof (cases "unat (snd p) mod 2 ^ s = 0")
  case True
  then have "unat (snd p) = unat (snd p) div 2 ^ s * 2 ^ s" by (simp add: mod_eq_0_iff_dvd)
  with assms True show ?thesis by (simp add: lo_scan_def unat_drop_bit power_add mult.assoc mult.left_commute)
qed (simp add: lo_scan_def assms)

lemma lo_scan_mod:
  assumes "unat (snd p) mod 2 ^ (2 * s) \<noteq> 0"
  shows "unat (snd (lo_scan s p)) mod 2 ^ s \<noteq> 0"
proof (cases "unat (snd p) mod 2 ^ s = 0")
  case True
  have "(2::nat) ^ (2 * s) = 2 ^ s * 2 ^ s" by (simp flip: power_add add: mult_2)
  then have "unat (snd p) mod 2 ^ (2 * s) = 2 ^ s * (unat (snd p) div 2 ^ s mod 2 ^ s)"
    using True by (simp only: mod_mult2_eq add_0_right)
  with assms True show ?thesis by (simp add: lo_scan_def unat_drop_bit)
qed (simp add: lo_scan_def)

lemma lo_scan_steps:
  "(if x AND 0xffff = 0 then (16, drop_bit 16 x) else (0, x)) = lo_scan 16 (0, x)"
  "(if x AND 0xff = 0 then (k + 8, drop_bit 8 x) else (k, x)) = lo_scan 8 (k, x)"
  "(if x AND 0xf = 0 then (k + 4, drop_bit 4 x) else (k, x)) = lo_scan 4 (k, x)"
  "(if x AND 3 = 0 then (k + 2, drop_bit 2 x) else (k, x)) = lo_scan 2 (k, x)"
  by (simp_all only: lo_scan_def lo_mask_tests fst_conv snd_conv add_0_left)

lemma lo0bits_scan:
  assumes "x AND 7 = 0" and "r = lo_scan 2 (lo_scan 4 (lo_scan 8 (lo_scan 16 (0, x))))"
  shows "lo0bits x = (if snd r AND 1 = 0
     then (if drop_bit 1 (snd r) AND 1 = 0 then (32, x) else (fst r + 1, drop_bit 1 (snd r)))
     else r)"
proof -
  have "\<not> (x AND 7 \<noteq> 0)" using assms(1) by simp
  then show ?thesis
    unfolding lo0bits_def lo_scan_steps assms(2) Let_def case_prod_unfold prod.collapse
    by (simp only: if_False)
qed

lemma odd_test: "x AND 1 = 0 \<longleftrightarrow> even (unat (x :: uint32))"
  by (simp only: lo_mask_tests power_one_right even_iff_mod_2_eq_zero)

lemma lo0bits_trailing:
  assumes "x \<noteq> 0"
  shows "unat x = unat (snd (lo0bits x)) * 2 ^ fst (lo0bits x) \<and> odd (unat (snd (lo0bits x)))"
proof (cases "x AND 7 = 0")
  case True
  define q where "q = lo_scan 16 (0, x)"
  define r where "r = lo_scan 2 (lo_scan 4 (lo_scan 8 q))"
  have eq: "unat x = unat (snd r) * 2 ^ fst r"
    unfolding r_def q_def by (intro lo_scan_inv) simp_all
  have "unat x mod 2 ^ (2 * 16) \<noteq> 0"
    using assms unsigned_less [of x, where ?'a = nat] by (simp add: unat_eq_zero)
  then have "unat (snd q) mod 2 ^ (2 * 8) \<noteq> 0"
    using lo_scan_mod [of "(0, x)" 16] by (simp add: q_def)
  then have "unat (snd (lo_scan 8 q)) mod 2 ^ (2 * 4) \<noteq> 0" using lo_scan_mod [of q 8] by simp
  then have "unat (snd (lo_scan 4 (lo_scan 8 q))) mod 2 ^ (2 * 2) \<noteq> 0"
    using lo_scan_mod [of "lo_scan 8 q" 4] by simp
  then have m: "unat (snd r) mod 2 ^ (2 * 1) \<noteq> 0"
    using lo_scan_mod [of "lo_scan 4 (lo_scan 8 q)" 2] by (simp add: r_def)
  have c: "lo_scan 1 r = (if snd r AND 1 = 0 then (fst r + 1, drop_bit 1 (snd r)) else r)"
    by (simp only: lo_scan_def lo_mask_tests)
  note o = lo_scan_mod [OF m, unfolded c] lo_scan_inv [OF eq, of 1, unfolded c]
  have l: "lo0bits x = lo_scan 1 r"
  proof (cases "snd r AND 1 = 0")
    case T: True
    have "drop_bit 1 (snd r) AND 1 \<noteq> 0"
      using o(1) T unfolding odd_test by (simp only: power_one_right refl if_True snd_conv even_iff_mod_2_eq_zero not_False_eq_True)
    with T show ?thesis unfolding c lo0bits_scan [OF True r_def [unfolded q_def]] by (simp only: if_True if_False)
  next
    case F: False
    then show ?thesis unfolding c lo0bits_scan [OF True r_def [unfolded q_def]] by (simp only: if_False)
  qed
  show ?thesis
    using o unfolding l c by (simp only: power_one_right even_iff_mod_2_eq_zero not_False_eq_True)
next
  case False
  then have m8: "unat x mod 8 \<noteq> 0" unfolding lo_mask_tests by simp
  have t2: "x AND 2 = 0 \<longleftrightarrow> even (unat x div 2)" using bit_test [of x 1] by simp
  have "unat x = 2 * (unat x div 2)" if "even (unat x)" using that by simp
  moreover have "unat x = 4 * (unat x div 4)" "odd (unat x div 4)" if "even (unat x)" "even (unat x div 2)"
    using that m8 by presburger+
  ultimately show ?thesis
    using False unfolding lo0bits_def odd_test t2 by (auto simp: unat_drop_bit)
qed

subsection \<open>The interface \<open>strtod\<close> relies on\<close>

locale bignum =
  fixes val :: "'b \<Rightarrow> nat" and inv :: "'b \<Rightarrow> bool" and cache_inv :: "'c \<Rightarrow> bool"
    and mul :: "'b \<Rightarrow> 'b \<Rightarrow> 'b" and p5 :: "'c \<Rightarrow> 'b \<Rightarrow> nat \<Rightarrow> 'b \<times> 'c"
    and shl :: "'b \<Rightarrow> nat \<Rightarrow> 'b" and sub :: "'b \<Rightarrow> 'b \<Rightarrow> 'b" and unsign :: "'b \<Rightarrow> 'b"
    and compare :: "'b \<Rightarrow> 'b \<Rightarrow> int"
  assumes mul_law: "inv a \<Longrightarrow> inv b \<Longrightarrow> val a \<noteq> 0 \<Longrightarrow> val b \<noteq> 0
      \<Longrightarrow> val (mul a b) = val a * val b \<and> inv (mul a b)"
    and p5_law: "cache_inv c \<Longrightarrow> inv b \<Longrightarrow> val b \<noteq> 0 \<Longrightarrow> val (fst (p5 c b k)) = val b * 5 ^ k
      \<and> inv (fst (p5 c b k)) \<and> cache_inv (snd (p5 c b k))"
    and shl_law: "inv b \<Longrightarrow> val b \<noteq> 0 \<Longrightarrow> val (shl b k) = val b * 2 ^ k \<and> inv (shl b k)"
    and sub_law: "inv a \<Longrightarrow> inv b \<Longrightarrow> int (val (sub a b)) = \<bar>int (val a) - int (val b)\<bar> \<and> inv (sub a b)"
    and unsign_law: "inv a \<Longrightarrow> val (unsign a) = val a \<and> inv (unsign a)"
    and compare_law: "inv a \<Longrightarrow> inv b \<Longrightarrow> sgn (compare a b) = sgn (int (val a) - int (val b))"
begin

lemma shl_if:
  assumes "inv b" "val b \<noteq> 0"
  shows "val (if 0 < k then shl b k else b) = val b * 2 ^ k \<and> inv (if 0 < k then shl b k else b)"
  using shl_law [OF assms] assms by (cases k) auto

lemma p5_if:
  assumes "cache_inv c" "inv b" "val b \<noteq> 0" and r: "r = (if 0 < k then p5 c b k else (b, c))"
  shows "val (fst r) = val b * 5 ^ k \<and> inv (fst r) \<and> cache_inv (snd r)"
  using p5_law [OF assms(1-3), of k] assms by (cases k) auto

lemma compare_delta:
  assumes "inv a" "inv b" "inv s"
  shows "sgn (compare (unsign (sub a b)) s) = sgn (\<bar>int (val a) - int (val b)\<bar> - int (val s))"
  using compare_law [OF _ assms(3)] unsign_law sub_law [OF assms(1,2)] by metis

end

lemma unsign_simps [simp]:
  "bval (d\<lparr>b_sign := s\<rparr>) = bval d" "bigint_inv (d\<lparr>b_sign := s\<rparr>) = bigint_inv d"
  by (simp_all add: bval_def bigint_inv_def)

interpretation bi: bignum bval bigint_inv p5_inv mult pow5mult lshift diff "\<lambda>d. d\<lparr>b_sign := 0\<rparr>" cmp
proof
  fix a b :: Bigint
  assume "bigint_inv a" "bigint_inv b" "bval a \<noteq> 0" "bval b \<noteq> 0"
  then show "bval (mult a b) = bval a * bval b \<and> bigint_inv (mult a b)" by (simp add: mult_correct)
qed (simp_all add: pow5mult_correct lshift_correct diff_correct sgn_cmp)

subsection \<open>Properties\<close>

text \<open>
  C27: \<open>mult\<close> computes the product: on well-formed non-zero operands the result denotes the
  product of their values and is well-formed again, so the result fits the words allocated for it.
\<close>

theorem mult_product:
  assumes "bigint_inv a" "bigint_inv b" "bval a \<noteq> 0" "bval b \<noteq> 0"
  shows "bval (mult a b) = bval a * bval b \<and> bigint_inv (mult a b)"
  using assms by (rule bi.mul_law)

theorem mult_product_witness: "bval (mult (i2b 70000) (i2b 65537)) = 70000 * 65537"
proof -
  have "bigint_inv (i2b 70000) \<and> bval (i2b 70000) = 70000" "bigint_inv (i2b 65537) \<and> bval (i2b 65537) = 65537"
    using i2b_correct [of 70000] i2b_correct [of 65537] by simp_all
  with mult_product [of "i2b 70000" "i2b 65537"] show ?thesis by simp
qed

text \<open>
  C28: \<open>pow5mult\<close> multiplies by the power of five, for every exponent, and keeps the shared chain
  \<open>p5s\<close> of cached squarings correct: its \<open>j\<close>-th node is \<open>5\<close> to the power \<open>4 * 2 ^ j\<close>.
\<close>

theorem pow5mult_power:
  assumes "p5_inv p5s" "bigint_inv b" "bval b \<noteq> 0"
  shows "bval (fst (pow5mult p5s b k)) = bval b * 5 ^ k \<and> bigint_inv (fst (pow5mult p5s b k))
    \<and> p5_inv (snd (pow5mult p5s b k))"
  using assms by (rule bi.p5_law)

theorem pow5mult_power_witness:
  "bval (fst (pow5mult [] (i2b 3) 100)) = 3 * 5 ^ 100 \<and> p5_inv (snd (pow5mult [] (i2b 3) 100))"
proof -
  have "bigint_inv (i2b 3)" "bval (i2b 3) = 3" using i2b_correct [of 3] by simp_all
  moreover have "p5_inv []" by (simp add: p5_inv_def)
  ultimately show ?thesis using pow5mult_power [of "[]" "i2b 3" 100] by simp
qed

text \<open>
  \<open>cmp\<close> orders well-formed numbers by value, and \<open>diff\<close> returns the absolute
  difference, well-formed, with the sign bit set exactly when the first operand is the smaller.
\<close>

theorem diff_cmp_exact:
  assumes "bigint_inv a" "bigint_inv b"
  shows "sgn (cmp a b) = sgn (int (bval a) - int (bval b))
    \<and> int (bval (diff a b)) = \<bar>int (bval a) - int (bval b)\<bar>
    \<and> b_sign (diff a b) = of_bool (bval a < bval b) \<and> bigint_inv (diff a b)"
  using bi.compare_law [OF assms] diff_correct [OF assms] by blast

theorem diff_cmp_exact_witness:
  "int (bval (diff (i2b 5) (i2b 12))) = 7 \<and> b_sign (diff (i2b 5) (i2b 12)) = 1"
proof -
  have "bigint_inv (i2b 5) \<and> bval (i2b 5) = 5" "bigint_inv (i2b 12) \<and> bval (i2b 12) = 12"
    using i2b_correct [of 5] i2b_correct [of 12] by simp_all
  with diff_cmp_exact [of "i2b 5" "i2b 12"] show ?thesis by simp
qed

text \<open>
  \<open>lshift\<close> multiplies by a power of two: the loop that doubles the capacity reserves
  enough words, and the result is normalised.
\<close>

theorem lshift_power:
  assumes "bigint_inv b" "bval b \<noteq> 0"
  shows "bval (lshift b k) = bval b * 2 ^ k \<and> bigint_inv (lshift b k)"
  using assms by (rule bi.shl_law)

theorem lshift_power_witness: "bval (lshift (i2b 5) 77) = 5 * 2 ^ 77 \<and> bigint_inv (lshift (i2b 5) 77)"
proof -
  have "bigint_inv (i2b 5) \<and> bval (i2b 5) = 5" using i2b_correct [of 5] by simp
  with lshift_power [of "i2b 5" 77] show ?thesis by simp
qed

text \<open>
  \<open>hi0bits\<close> counts the leading zero bits of a non-zero word and \<open>lo0bits\<close> its trailing
  ones, leaving the odd part: the two binary searches agree with the arithmetic definition.
\<close>

lemma zero_bit_scans:
  assumes "x \<noteq> 0"
  shows "2 ^ 31 \<le> unat x * 2 ^ hi0bits x \<and> unat x * 2 ^ hi0bits x < 2 ^ 32
    \<and> unat x = unat (snd (lo0bits x)) * 2 ^ fst (lo0bits x) \<and> odd (unat (snd (lo0bits x)))"
  using hi0bits_leading [OF assms] lo0bits_trailing [OF assms] by blast

lemma zero_bit_scans_example: "odd (unat (snd (lo0bits 0x50000)))"
  using zero_bit_scans [of "0x50000"] by simp

end
