(* ===== verification/Kernel_Strtod.thy ===== *)
theory Kernel_Strtod
  imports Complex_Main Kernel_Bigint
begin

text \<open>
  The parts of the kernel's \<open>strtod\<close> (\<^verbatim>\<open>src/system/kernel/lib/strtod.c\<close>) that surround the
  \<open>Bigint\<close> operations: \<open>s2b\<close> reads the scanned decimal mantissa, \<open>d2b\<close> takes a double (given
  as its two 32-bit words) apart into an odd integer and a power of two, and \<open>strtod_compare\<close> is the
  body of the refinement loop up to the comparison that decides whether the current
  approximation is within half a unit in the last place. The result: the comparison is exact.
\<close>

subsection \<open>Model\<close>

function s2b_k :: "int \<Rightarrow> int \<Rightarrow> nat \<Rightarrow> nat" where
  "s2b_k x y k = (if 0 < y \<and> y < x then s2b_k x (2 * y) (k + 1) else k)"
  by pat_completeness auto
termination by (relation "measure (\<lambda>(x, y, k). nat (x - y))") auto

declare s2b_k.simps [simp del]

fun s2b_loop :: "Bigint \<Rightarrow> string \<Rightarrow> nat \<Rightarrow> Bigint \<times> string" where
  "s2b_loop b s 0 = (b, s)"
| "s2b_loop b s (Suc n) = s2b_loop (multadd b 10 (int (code (peek s 0)) - 48)) (drop 1 s) n"

definition s2b :: "string \<Rightarrow> nat \<Rightarrow> nat \<Rightarrow> uint32 \<Rightarrow> Bigint" where
  "s2b s nd0 nd y9 =
     (let b = (Balloc (s2b_k (int ((nd + 8) div 9)) 1 0))\<lparr>b_x := [y9], b_wds := 1\<rparr>;
          (b, s) = (if 9 < nd0
                    then (let (b, s) = s2b_loop b (drop 9 s) (nd0 - 9) in (b, drop 1 s))
                    else (b, drop 10 s))
      in fst (s2b_loop b s (nd - max 9 nd0)))"

definition d2b_words :: "uint32 \<Rightarrow> uint32 \<Rightarrow> uint32 list \<times> nat \<times> nat" where
  "d2b_words z d1 =
     (if d1 \<noteq> 0
      then (let (k, y) = lo0bits d1;
                (x0, z) = (if k \<noteq> 0 then (y OR push_bit (32 - k) z, drop_bit k z) else (y, z))
            in ([x0, z], if z \<noteq> 0 then 2 else 1, k))
      else (let (k, z) = lo0bits z in ([z], 1, k + 32)))"

definition d2b :: "uint32 \<Rightarrow> uint32 \<Rightarrow> Bigint \<times> int \<times> int" where
  "d2b d0 d1 =
     (let z = d0 AND 0xfffff;
          d0 = d0 AND 0x7fffffff;
          de = drop_bit 20 d0;
          z = (if de \<noteq> 0 then z OR 0x100000 else z);
          (x, i, k) = d2b_words z d1;
          b = (Balloc 1)\<lparr>b_x := x, b_wds := i\<rparr>
      in if de \<noteq> 0 then (b, uint de - 1023 - 52 + int k, 53 - int k)
         else (b, uint de - 1023 - 52 + 1 + int k, 32 * int i - int (hi0bits (x ! (i - 1)))))"

text \<open>The body of the refinement loop up to the comparison.\<close>

definition scale_exps :: "int \<Rightarrow> int \<Rightarrow> int \<Rightarrow> int \<times> int \<times> int \<times> int \<times> int" where
  "scale_exps e bbe bbbits =
     (let (bb2, bb5, bd2, bd5) = (if 0 \<le> e then (0, 0, e, e) else (- e, - e, 0, 0));
          (bb2, bd2) = (if 0 \<le> bbe then (bb2 + bbe, bd2) else (bb2, bd2 - bbe));
          bs2 = bb2;
          i = bbe + bbbits - 1;
          j = (if i < - 1022 then bbe + (53 + 1022) else 53 + 1 - bbbits);
          bb2 = bb2 + j;
          bd2 = bd2 + j;
          i = (if bb2 < bd2 then bb2 else bd2);
          i = (if bs2 < i then bs2 else i)
      in if 0 < i then (bb2 - i, bb5, bd2 - i, bd5, bs2 - i) else (bb2, bb5, bd2, bd5, bs2))"

definition strtod_compare ::
  "Bigint list \<Rightarrow> Bigint \<Rightarrow> int \<Rightarrow> uint32 \<Rightarrow> uint32 \<Rightarrow> (Bigint \<times> nat \<times> int) \<times> Bigint list" where
  "strtod_compare p5s bd0 e w0 w1 =
     (let bd = (Balloc (b_k bd0))\<lparr>b_sign := b_sign bd0, b_wds := b_wds bd0, b_x := take (b_wds bd0) (b_x bd0)\<rparr>;
          (bb, bbe, bbbits) = d2b w0 w1;
          bs = i2b 1;
          (bb2, bb5, bd2, bd5, bs2) = scale_exps e bbe bbbits;
          (bs, p5s) = (if 0 < nat bb5 then pow5mult p5s bs (nat bb5) else (bs, p5s));
          bb = (if 0 < nat bb5 then mult bs bb else bb);
          bb = (if 0 < nat bb2 then lshift bb (nat bb2) else bb);
          (bd, p5s) = (if 0 < nat bd5 then pow5mult p5s bd (nat bd5) else (bd, p5s));
          bd = (if 0 < nat bd2 then lshift bd (nat bd2) else bd);
          bs = (if 0 < nat bs2 then lshift bs (nat bs2) else bs);
          delta = diff bb bd;
          dsign = b_sign delta;
          delta = delta\<lparr>b_sign := 0\<rparr>
      in ((delta, dsign, cmp delta bs), p5s))"

subsection \<open>What the words of a double denote\<close>

text \<open>The digits as they stand in the text: the decimal point follows the first \<open>nd0\<close> of them.\<close>

definition mantissa_text :: "char \<Rightarrow> nat \<Rightarrow> nat list \<Rightarrow> string" where
  "mantissa_text point nd0 ds = map digit_char (take nd0 ds) @ point # map digit_char (drop nd0 ds)"

definition dbl_exp :: "uint32 \<Rightarrow> nat" where "dbl_exp d0 = unat d0 mod 2 ^ 31 div 2 ^ 20"

definition dbl_mant :: "uint32 \<Rightarrow> uint32 \<Rightarrow> nat" where
  "dbl_mant d0 d1 = (unat d0 mod 2 ^ 20 + (if dbl_exp d0 \<noteq> 0 then 2 ^ 20 else 0)) * 2 ^ 32 + unat d1"

definition dbl_value :: "uint32 \<Rightarrow> uint32 \<Rightarrow> real" where
  "dbl_value d0 d1 = of_nat (dbl_mant d0 d1) * 2 powi (int (max 1 (dbl_exp d0)) - 1075)"

definition half_ulp :: "uint32 \<Rightarrow> real" where
  "half_ulp d0 = 2 powi (int (max 1 (dbl_exp d0)) - 1076)"

subsection \<open>Reading the mantissa\<close>

lemma s2b_loop_val:
  assumes "bigint_inv b" "\<forall>d\<in>set ds. d < 10" "n = length ds"
  shows "bval (fst (s2b_loop b (map digit_char ds @ r) n)) = horner 10 (bval b) ds
    \<and> bigint_inv (fst (s2b_loop b (map digit_char ds @ r) n))
    \<and> snd (s2b_loop b (map digit_char ds @ r) n) = r"
  using assms
proof (induction ds arbitrary: b n)
  case (Cons d ds)
  have "bval (multadd b 10 (int d)) = bval b * 10 + d" "bigint_inv (multadd b 10 (int d))"
    using multadd_correct [of b 10 "int d"] Cons.prems by auto
  with Cons.IH [of "multadd b 10 (int d)"] Cons.prems show ?case
    by (simp add: code_digit_char)
qed simp

lemma s2b_correct:
  assumes "\<forall>d\<in>set ds. d < 10" "nd0 \<le> length ds"
    and "unat y9 = horner 10 0 (take 9 ds)"
  shows "bval (s2b (mantissa_text point nd0 ds @ r) nd0 (length ds) y9) = horner 10 0 ds
    \<and> bigint_inv (s2b (mantissa_text point nd0 ds @ r) nd0 (length ds) y9)"
proof -
  define b where "b = (Balloc (s2b_k (int ((length ds + 8) div 9)) 1 0))\<lparr>b_x := [y9], b_wds := 1\<rparr>"
  have b: "bigint_inv b" "bval b = horner 10 0 (take 9 ds)"
    using assms(3) by (simp_all add: b_def bigint_inv_def bval_def Balloc_def)
  show ?thesis
  proof (cases "9 < nd0")
    case True
    define t where "t = point # map digit_char (drop nd0 ds) @ r"
    define u where "u = drop 9 (take nd0 ds)"
    have split: "take nd0 ds = take 9 ds @ u" 
      using True by (metis append_take_drop_id min.absorb1 less_imp_le take_take u_def)
    have l: "length u = nd0 - 9" using assms(2) by (simp add: u_def)
    have d9: "drop 9 (mantissa_text point nd0 ds @ r) = map digit_char u @ t"
      using True assms(2) by (simp add: mantissa_text_def t_def u_def drop_map)
    obtain b1 where b1: "s2b_loop b (map digit_char u @ t) (nd0 - 9) = (b1, t)"
      "bigint_inv b1" "bval b1 = horner 10 (bval b) u"
      using s2b_loop_val [OF b(1), of u "nd0 - 9" t] assms(1) l
      by (cases "s2b_loop b (map digit_char u @ t) (nd0 - 9)") (auto simp: u_def dest!: in_set_dropD in_set_takeD)
    have "s2b (mantissa_text point nd0 ds @ r) nd0 (length ds) y9
      = fst (s2b_loop b1 (map digit_char (drop nd0 ds) @ r) (length ds - nd0))"
      unfolding s2b_def b_def [symmetric] Let_def d9 using True
      by (simp add: b1(1) max_def) (simp add: t_def)
    moreover have "horner 10 (bval b1) (drop nd0 ds) = horner 10 0 ds"
      by (metis append_take_drop_id b(2) b1(3) horner_append split)
    ultimately show ?thesis
      using s2b_loop_val [OF b1(2), of "drop nd0 ds" "length ds - nd0" r] assms(1)
      by (auto dest!: in_set_dropD)
  next
    case False
    have "drop 10 (mantissa_text point nd0 ds @ r) = map digit_char (drop 9 ds) @ r" if "9 < length ds"
    proof -
      have "10 - nd0 = Suc (9 - nd0)" using False by simp
      then show ?thesis using False that assms(2) by (simp add: mantissa_text_def drop_map)
    qed
    moreover have "s2b (mantissa_text point nd0 ds @ r) nd0 (length ds) y9
      = fst (s2b_loop b (drop 10 (mantissa_text point nd0 ds @ r)) (length ds - 9))"
      unfolding s2b_def b_def [symmetric] Let_def using False by (simp add: max_def)
    moreover have "horner 10 (bval b) (drop 9 ds) = horner 10 0 ds"
      by (metis append_take_drop_id b(2) horner_append)
    ultimately show ?thesis
      using s2b_loop_val [OF b(1), of "drop 9 ds" "length ds - 9" r] assms(1) b
      by (cases "9 < length ds") (auto dest!: in_set_dropD)
  qed
qed


lemma and_mask_val:
  fixes d :: uint32
  shows "unat (d AND 0xfffff) = unat d mod 2 ^ 20" "unat (d AND 0x7fffffff) = unat d mod 2 ^ 31"
proof -
  have "(0xfffff :: uint32) = mask 20" "(0x7fffffff :: uint32) = mask 31"
    by (simp_all add: mask_eq_exp_minus_1)
  then show "unat (d AND 0xfffff) = unat d mod 2 ^ 20" "unat (d AND 0x7fffffff) = unat d mod 2 ^ 31"
    by (simp_all only: unat_take_bit flip: take_bit_eq_mask)
qed

lemma d2b_top:
  fixes d0 :: uint32
  defines "z \<equiv> (if drop_bit 20 (d0 AND 0x7fffffff) \<noteq> 0 then (d0 AND 0xfffff) OR 0x100000 else d0 AND 0xfffff)"
  shows "unat z = unat d0 mod 2 ^ 20 + (if dbl_exp d0 \<noteq> 0 then 2 ^ 20 else 0)"
    "unat (drop_bit 20 (d0 AND 0x7fffffff)) = dbl_exp d0" "unat z < 2 ^ 21"
proof -
  show e: "unat (drop_bit 20 (d0 AND 0x7fffffff)) = dbl_exp d0"
    by (simp only: unat_drop_bit and_mask_val dbl_exp_def)
  have "bit (0xfffff :: uint32) n \<longleftrightarrow> n < 20" for n
  proof -
    have "(0xfffff :: uint32) = mask 20" by (simp add: mask_eq_exp_minus_1)
    then show ?thesis by (simp only: bit_mask_iff) auto
  qed
  then have d: "(d0 AND 0xfffff) AND 2 ^ 20 = 0"
    by (simp only: and_exp_eq_0_iff_not_bit bit_and_iff) simp
  have "unat ((d0 AND 0xfffff) OR 2 ^ 20) = unat d0 mod 2 ^ 20 + 2 ^ 20"
    unfolding unat_or_disjoint [OF d] and_mask_val by simp
  then show z: "unat z = unat d0 mod 2 ^ 20 + (if dbl_exp d0 \<noteq> 0 then 2 ^ 20 else 0)"
    using e unfolding z_def by (auto simp: and_mask_val simp flip: unat_eq_zero)
  have "m < 2 ^ 20 \<Longrightarrow> m + (if c then 2 ^ 20 else 0) < 2 ^ 21" for m :: nat and c by simp
  then show "unat z < 2 ^ 21" unfolding z by simp
qed

lemma top_bits:
  assumes "bigint_inv b" "bval b \<noteq> 0" "h = hi0bits (b_x b ! (b_wds b - 1))"
  shows "h < 32" "2 ^ (32 * b_wds b - h - 1) \<le> bval b" "bval b < 2 ^ (32 * b_wds b - h)"
proof -
  define t n where "t = b_x b ! (b_wds b - 1)" and "n = b_wds b - 1"
  have w: "b_wds b = Suc n" "b_wds b \<le> length (b_x b)" using assms(1) by (auto simp: bigint_inv_def n_def)
  define lo where "lo = limbs_val (take n (b_x b))"
  have v: "bval b = lo + 2 ^ (32 * n) * unat t"
    using w(2) unfolding bval_def w(1) lo_def t_def by (simp add: take_Suc_conv_app_nth limbs_val_append)
  have lo: "lo < 2 ^ (32 * n)" using limbs_val_less [of "take n (b_x b)"] w by (simp add: lo_def)
  have "t \<noteq> 0"
  proof
    assume "t = 0"
    then have "n = 0" using assms(1) by (auto simp: bigint_inv_def t_def n_def)
    with v lo assms(2) \<open>t = 0\<close> show False by simp
  qed
  from hi0bits_leading [OF this] have T: "2 ^ 31 \<le> unat t * 2 ^ h" "unat t * 2 ^ h < 2 ^ 32"
    using assms(3) by (simp_all add: t_def)
  have t1: "1 \<le> unat t" using \<open>t \<noteq> 0\<close> by (simp add: Suc_le_eq unat_gt_0)
  then have "1 * 2 ^ h \<le> unat t * 2 ^ h" by (rule mult_le_mono1)
  with T(2) have "(2::nat) ^ h < 2 ^ 32" by linarith
  then show h: "h < 32" by (simp only: power_strict_increasing_iff)
  have e: "(2::nat) ^ 31 = 2 ^ (31 - h) * 2 ^ h" "(2::nat) ^ 32 = 2 ^ (32 - h) * 2 ^ h"
    using h by (simp_all flip: power_add)
  have b1: "2 ^ (31 - h) \<le> unat t" using T(1) unfolding e by simp
  have b2: "unat t < 2 ^ (32 - h)" using T(2) unfolding e by simp
  have s: "32 * b_wds b - h - 1 = 32 * n + (31 - h)" "32 * b_wds b - h = 32 * n + (32 - h)"
    using w h by auto
  have "2 ^ (32 * n) * 2 ^ (31 - h) \<le> 2 ^ (32 * n) * unat t" using b1 by (rule mult_le_mono2)
  then show "2 ^ (32 * b_wds b - h - 1) \<le> bval b" unfolding s(1) v power_add by linarith
  have "2 ^ (32 * n) * Suc (unat t) \<le> 2 ^ (32 * n) * 2 ^ (32 - h)" using b2 by (intro mult_le_mono2) simp
  then show "bval b < 2 ^ (32 * b_wds b - h)" using lo unfolding s(2) v power_add by simp
qed

lemma d2b_words_correct:
  assumes "d2b_words z d1 = (x, i, k)" "z \<noteq> 0 \<or> d1 \<noteq> 0"
    and b: "b = (Balloc 1)\<lparr>b_x := x, b_wds := i\<rparr>"
  shows "bigint_inv b \<and> odd (bval b) \<and> bval b * 2 ^ k = unat z * 2 ^ 32 + unat d1"
proof (cases "d1 = 0")
  case True
  with assms(1) have x: "x = [snd (lo0bits z)]" "i = 1" "k = fst (lo0bits z) + 32"
    by (auto simp: d2b_words_def split: prod.splits)
  from lo0bits_trailing [of z] assms(2) True show ?thesis
    by (simp add: x b bigint_inv_def Balloc_def bval_def power_add)
next
  case False
  obtain k' y where l: "lo0bits d1 = (k', y)" by fastforce
  have ly: "unat d1 = unat y * 2 ^ k'" "odd (unat y)" using lo0bits_trailing [OF False] by (simp_all add: l)
  have u: "unat d1 < 2 ^ 32" using unsigned_less [of d1, where ?'a = nat] by simp
  have "1 * 2 ^ k' \<le> unat y * 2 ^ k'" using ly(2) by (intro mult_le_mono1) (cases "unat y"; auto)
  with u have "(2::nat) ^ k' < 2 ^ 32" unfolding ly(1) [symmetric] by linarith
  then have k32: "k' < 32" by (simp only: power_strict_increasing_iff)
  define z' where "z' = drop_bit k' z"
  define x0 where "x0 = (if k' \<noteq> 0 then y OR push_bit (32 - k') z else y)"
  have x: "x = [x0, z']" "i = (if z' \<noteq> 0 then 2 else 1)" "k = k'"
    using assms(1) False by (auto simp: d2b_words_def l z'_def x0_def split: if_splits)
  have v: "unat x0 + 2 ^ 32 * unat z' = 2 ^ (32 - k') * unat z + unat y"
  proof (cases "k' = 0")
    case F: False
    have "(2::nat) ^ 32 = 2 ^ (32 - k') * 2 ^ k'" using k32 by (simp flip: power_add)
    then have "unat y * 2 ^ k' < 2 ^ (32 - k') * 2 ^ k'"
      using ly(1) unsigned_less [of d1, where ?'a = nat] by simp
    then have "unat y < 2 ^ (32 - k')" by simp
    from shift_word(1) [OF _ _ this, of z] F k32 show ?thesis
      by (simp add: x0_def z'_def or.commute)
  qed (simp add: x0_def z'_def)
  have bv: "bval b = unat x0 + 2 ^ 32 * unat z'"
    by (auto simp: b x bval_def Balloc_def numeral_2_eq_2)
  have "bval b * 2 ^ k' = (2 ^ (32 - k') * 2 ^ k') * unat z + unat y * 2 ^ k'"
    unfolding bv v by (simp add: algebra_simps)
  moreover have "(2::nat) ^ (32 - k') * 2 ^ k' = 2 ^ 32" using k32 by (simp flip: power_add)
  ultimately have "bval b * 2 ^ k = unat z * 2 ^ 32 + unat d1" by (simp add: x ly(1) mult.commute)
  moreover have "odd (bval b)" unfolding bv v using ly(2) k32 by simp
  moreover have "bigint_inv b" by (auto simp: b x bigint_inv_def Balloc_def)
  ultimately show ?thesis by blast
qed

lemma d2b_correct:
  assumes "dbl_mant d0 d1 \<noteq> 0"
  obtains b e bits k where "d2b d0 d1 = (b, e, bits)" "bigint_inv b" "odd (bval b)"
    "bval b * 2 ^ k = dbl_mant d0 d1"
    "e = int k + (if dbl_exp d0 = 0 then - 1074 else int (dbl_exp d0) - 1075)"
    "1 \<le> bits" "2 ^ (nat bits - 1) \<le> bval b" "bval b < 2 ^ nat bits"
    "dbl_exp d0 \<noteq> 0 \<longrightarrow> bits = 53 - int k"
proof -
  define de where "de = drop_bit 20 (d0 AND 0x7fffffff)"
  define z where "z = (if de \<noteq> 0 then (d0 AND 0xfffff) OR 0x100000 else d0 AND 0xfffff)"
  note top = d2b_top [of d0, folded de_def, folded z_def]
  obtain x i k where w: "d2b_words z d1 = (x, i, k)" by (metis prod_cases3)
  define b where "b = (Balloc 1)\<lparr>b_x := x, b_wds := i\<rparr>"
  have m: "dbl_mant d0 d1 = unat z * 2 ^ 32 + unat d1" unfolding dbl_mant_def top(1) ..
  then have nz: "z \<noteq> 0 \<or> d1 \<noteq> 0" using assms by auto
  have b: "bigint_inv b" "odd (bval b)" "bval b * 2 ^ k = dbl_mant d0 d1"
    using d2b_words_correct [OF w nz b_def] by (simp_all add: m)
  have bx: "b_x b = x" "b_wds b = i" by (simp_all add: b_def)
  have ude: "uint de = int (dbl_exp d0)" "de \<noteq> 0 \<longleftrightarrow> dbl_exp d0 \<noteq> 0"
    using top(2) by (metis uint_nat) (use top(2) in \<open>auto simp flip: unat_eq_zero\<close>)
  have D: "d2b d0 d1 = (if de \<noteq> 0 then (b, uint de - 1023 - 52 + int k, 53 - int k)
         else (b, uint de - 1023 - 52 + 1 + int k, 32 * int i - int (hi0bits (x ! (i - 1)))))"
    unfolding d2b_def Let_def de_def [symmetric] z_def [symmetric] w by (simp add: b_def)
  show ?thesis
  proof (cases "de = 0")
    case False
    have lo: "2 ^ 52 \<le> dbl_mant d0 d1" "dbl_mant d0 d1 < 2 ^ 53"
      using False ude(2) top(3) top(1) unsigned_less [of d1, where ?'a = nat] unfolding m by simp_all
    have "1 * 2 ^ k \<le> bval b * 2 ^ k" using b(2) by (intro mult_le_mono1) (cases "bval b"; auto)
    then have "(2::nat) ^ k < 2 ^ 53" using lo b(3) by linarith
    then have k: "k < 53" by (simp only: power_strict_increasing_iff)
    have e: "(2::nat) ^ 52 = 2 ^ (52 - k) * 2 ^ k" "(2::nat) ^ 53 = 2 ^ (53 - k) * 2 ^ k"
      using k by (simp_all flip: power_add)
    have "2 ^ (52 - k) \<le> bval b" "bval b < 2 ^ (53 - k)" using lo unfolding b(3) [symmetric] e by simp_all
    moreover have "nat (53 - int k) = 53 - k" using k by simp
    ultimately show ?thesis
      using that [of b "uint de - 1023 - 52 + int k" "53 - int k" k] False b k ude by (simp add: D)
  next
    case True
    note h = top_bits [OF b(1) _ refl, unfolded bx]
    have i: "1 \<le> i" using b(1) by (simp add: bigint_inv_def bx)
    have bv: "bval b \<noteq> 0" using b(2) by (metis even_zero)
    have "nat (32 * int i - int (hi0bits (x ! (i - 1)))) = 32 * i - hi0bits (x ! (i - 1))"
      using h(1) [OF bv] i by linarith
    then show ?thesis
      using that [of b "- 1074 + int k" "32 * int i - int (hi0bits (x ! (i - 1)))" k] True b ude h [OF bv] i
      by (simp add: D)
  qed
qed

lemma d2b_facts:
  assumes "dbl_mant d0 d1 \<noteq> 0" "d2b d0 d1 = (b, e, bits)"
  shows "\<exists>k. bigint_inv b \<and> odd (bval b) \<and> bval b * 2 ^ k = dbl_mant d0 d1
    \<and> e = int k + (if dbl_exp d0 = 0 then - 1074 else int (dbl_exp d0) - 1075)
    \<and> 1 \<le> bits \<and> 2 ^ (nat bits - 1) \<le> bval b \<and> bval b < 2 ^ nat bits
    \<and> (dbl_exp d0 \<noteq> 0 \<longrightarrow> bits = 53 - int k)"
  by (rule d2b_correct [OF assms(1)]) (simp only: assms(2) prod.inject, blast)

subsection \<open>The comparison\<close>

lemma scale_exps_spec:
  assumes "scale_exps e bbe bbbits = (bb2, bb5, bd2, bd5, bs2)"
    and "j = (if bbe + bbbits - 1 < - 1022 then bbe + 1075 else 54 - bbbits)" "0 \<le> j"
  shows "0 \<le> bb2" "0 \<le> bd2" "0 \<le> bs2" "0 \<le> bb5" "0 \<le> bd5" "bd5 = e + bb5"
    "bd2 = bb2 + e - bbe" "bs2 = bb2 - j"
  using assms by (auto simp: scale_exps_def Let_def split: if_splits)


lemma powi_nat: "0 \<le> n \<Longrightarrow> (x::real) ^ nat n = x powi n"
  by (simp add: power_int_def)

lemma sgn_real_of_int: "real_of_int (sgn x) = sgn (real_of_int x)"
  by (simp add: sgn_if)

lemma scaled_sgn:
  fixes F :: real
  assumes "real A = a * F" "real B = b * F" "real S = s * F" "0 < F"
  shows "sgn (real_of_int (\<bar>int A - int B\<bar> - int S)) = sgn (\<bar>a - b\<bar> - s)"
proof -
  have "real_of_int (\<bar>int A - int B\<bar> - int S) = (\<bar>a - b\<bar> - s) * F"
    using assms by (simp add: abs_mult left_diff_distrib flip: left_diff_distrib)
  then show ?thesis using assms(4) by (simp add: sgn_mult)
qed

lemma dbl_mant_denormal: "dbl_exp w0 = 0 \<Longrightarrow> dbl_mant w0 w1 < 2 ^ 52"
proof -
  assume "dbl_exp w0 = 0"
  then have m: "dbl_mant w0 w1 = (unat w0 mod 2 ^ 20) * 2 ^ 32 + unat w1" by (simp add: dbl_mant_def)
  have "Suc (unat w0 mod 2 ^ 20) * 2 ^ 32 \<le> 2 ^ 20 * 2 ^ 32" by (intro mult_le_mono1) (simp add: Suc_le_eq)
  moreover have "unat w1 < 2 ^ 32" using unsigned_less [of w1, where ?'a = nat] by simp
  ultimately show ?thesis unfolding m by simp
qed

lemma d2b_scaled:
  assumes "dbl_mant w0 w1 \<noteq> 0" "d2b w0 w1 = (bb, bbe, bbbits)"
    and j: "j = (if bbe + bbbits - 1 < - 1022 then bbe + 1075 else 54 - bbbits)"
  shows "bigint_inv bb" "bval bb \<noteq> 0" "real (bval bb) * 2 powi bbe = dbl_value w0 w1"
    "0 \<le> j" "2 powi (bbe - j) = half_ulp w0"
proof -
  obtain k where b: "bigint_inv bb" "odd (bval bb)" "bval bb * 2 ^ k = dbl_mant w0 w1"
    "bbe = int k + (if dbl_exp w0 = 0 then - 1074 else int (dbl_exp w0) - 1075)"
    "1 \<le> bbbits" "2 ^ (nat bbbits - 1) \<le> bval bb" "bval bb < 2 ^ nat bbbits"
    "dbl_exp w0 \<noteq> 0 \<longrightarrow> bbbits = 53 - int k"
    using d2b_facts [OF assms(1,2)] by blast
  show "bigint_inv bb" by fact
  show "bval bb \<noteq> 0" using b(2) by (metis even_zero)
  have "real (bval bb) * 2 powi bbe = real (bval bb * 2 ^ k) * 2 powi (bbe - int k)"
    by (simp add: power_int_diff)
  then show "real (bval bb) * 2 powi bbe = dbl_value w0 w1"
    unfolding b(3) dbl_value_def using b(4) by (auto simp: max_def)
  have k0: "0 \<le> int k" by simp
  have "0 \<le> j \<and> bbe - j = int (max 1 (dbl_exp w0)) - 1076"
  proof (cases "dbl_exp w0 = 0")
    case False
    with b(4,8) show ?thesis unfolding j by auto
  next
    case True
    have "dbl_mant w0 w1 < 2 ^ 52"
      using True dbl_mant_denormal by blast
    then have "2 ^ (nat bbbits - 1) * 2 ^ k < (2::nat) ^ 52"
      using mult_le_mono1 [OF b(6), of "2 ^ k"] unfolding b(3) by linarith
    then have "(2::nat) ^ (nat bbbits - 1 + k) < 2 ^ 52" by (simp only: power_add)
    then have "nat bbbits - 1 + k < 52" by (simp only: power_strict_increasing_iff)
    then have "bbe + bbbits - 1 < - 1022" using True b(4,5) by simp
    with True b(4) show ?thesis unfolding j by simp
  qed
  then show "0 \<le> j" "2 powi (bbe - j) = half_ulp w0" by (simp_all add: half_ulp_def)
qed

lemma strtod_compare_aux:
  assumes "p5_inv p5s" "bigint_inv bd0" "bval bd0 \<noteq> 0" "dbl_mant w0 w1 \<noteq> 0"
    and r: "strtod_compare p5s bd0 e w0 w1 = ((delta, dsign, i), p5s')"
  shows "of_int (sgn i) = sgn (\<bar>dbl_value w0 w1 - real (bval bd0) * 10 powi e\<bar> - half_ulp w0)"
    "dsign = of_bool (dbl_value w0 w1 < real (bval bd0) * 10 powi e)" "p5_inv p5s'"
proof -
  obtain bb bbe bbbits where d: "d2b w0 w1 = (bb, bbe, bbbits)" by (metis prod_cases3)
  define j where "j = (if bbe + bbbits - 1 < - 1022 then bbe + 1075 else 54 - bbbits)"
  note D = d2b_scaled [OF assms(4) d j_def]
  obtain bb2 bb5 bd2 bd5 bs2 where s: "scale_exps e bbe bbbits = (bb2, bb5, bd2, bd5, bs2)"
    by (metis prod_cases5)
  note S = scale_exps_spec [OF s j_def D(4)]
  define bd where "bd = (Balloc (b_k bd0))\<lparr>b_sign := b_sign bd0, b_wds := b_wds bd0, b_x := take (b_wds bd0) (b_x bd0)\<rparr>"
  have bd: "bigint_inv bd" "bval bd = bval bd0"
    using assms(2) by (auto simp: bd_def bigint_inv_def bval_def Balloc_def)
  have one: "bigint_inv (i2b 1)" "bval (i2b 1) = 1" using i2b_correct [of 1] by simp_all
  define P1 where "P1 = (if 0 < nat bb5 then pow5mult p5s (i2b 1) (nat bb5) else (i2b 1, p5s))"
  have P1: "bval (fst P1) = 5 ^ nat bb5" "bigint_inv (fst P1)" "p5_inv (snd P1)"
    using bi.p5_if [OF assms(1) one(1) _ P1_def] one by simp_all
  define B1 where "B1 = (if 0 < nat bb5 then mult (fst P1) bb else bb)"
  have B1: "bval B1 = 5 ^ nat bb5 * bval bb" "bigint_inv B1" "bval B1 \<noteq> 0"
    using bi.mul_law [OF P1(2) D(1) _ D(2)] P1 D by (auto simp: B1_def)
  define B2 where "B2 = (if 0 < nat bb2 then lshift B1 (nat bb2) else B1)"
  have B2: "bval B2 = 5 ^ nat bb5 * bval bb * 2 ^ nat bb2" "bigint_inv B2"
    using bi.shl_if [OF B1(2,3), of "nat bb2"] by (simp_all add: B2_def B1)
  define P2 where "P2 = (if 0 < nat bd5 then pow5mult (snd P1) bd (nat bd5) else (bd, snd P1))"
  have P2: "bval (fst P2) = bval bd0 * 5 ^ nat bd5" "bigint_inv (fst P2)" "p5_inv (snd P2)"
    using bi.p5_if [OF P1(3) bd(1) _ P2_def] bd assms(3) by simp_all
  define D2 where "D2 = (if 0 < nat bd2 then lshift (fst P2) (nat bd2) else fst P2)"
  have D2: "bval D2 = bval bd0 * 5 ^ nat bd5 * 2 ^ nat bd2" "bigint_inv D2"
    using bi.shl_if [OF P2(2), of "nat bd2"] assms(3) P2(1) by (simp_all add: D2_def)
  define S2 where "S2 = (if 0 < nat bs2 then lshift (fst P1) (nat bs2) else fst P1)"
  have S2: "bval S2 = 5 ^ nat bb5 * 2 ^ nat bs2" "bigint_inv S2"
    using bi.shl_if [OF P1(2), of "nat bs2"] P1(1) by (simp_all add: S2_def)
  have res: "strtod_compare p5s bd0 e w0 w1
      = (((diff B2 D2)\<lparr>b_sign := 0\<rparr>, b_sign (diff B2 D2), cmp ((diff B2 D2)\<lparr>b_sign := 0\<rparr>) S2), snd P2)"
    unfolding strtod_compare_def d s Let_def bd_def [symmetric]
    by (simp only: d s case_prod_unfold prod.case fst_conv snd_conv flip: P1_def B1_def B2_def P2_def D2_def S2_def)
  have rr: "i = cmp ((diff B2 D2)\<lparr>b_sign := 0\<rparr>) S2" "dsign = b_sign (diff B2 D2)" "p5s' = snd P2"
    using r unfolding res by blast+
  define F :: real where "F = 2 powi (bb2 - bbe) * 5 powi bb5"
  have F: "0 < F" by (simp add: F_def)
  have RA: "real (bval B2) = dbl_value w0 w1 * F"
    using S unfolding B2(1) F_def D(3) [symmetric] by (simp add: powi_nat power_int_diff)
  have RB: "real (bval D2) = real (bval bd0) * 10 powi e * F"
  proof -
    have "(10::real) powi e = 2 powi e * 5 powi e" by (simp flip: power_int_mult_distrib)
    then show ?thesis
      using S unfolding D2(1) F_def by (simp add: powi_nat power_int_diff power_int_add)
  qed
  have RS: "real (bval S2) = half_ulp w0 * F"
    using S unfolding S2(1) F_def D(5) [symmetric] by (simp add: powi_nat power_int_diff)
  show "p5_inv p5s'" using rr(3) P2(3) by simp
  have "sgn i = sgn (\<bar>int (bval B2) - int (bval D2)\<bar> - int (bval S2))"
    unfolding rr(1) using B2(2) D2(2) S2(2) by (rule bi.compare_delta)
  then have "of_int (sgn i) = sgn (real_of_int (\<bar>int (bval B2) - int (bval D2)\<bar> - int (bval S2)))"
    by (simp only: sgn_real_of_int)
  with scaled_sgn [OF RA RB RS F]
  show "of_int (sgn i) = sgn (\<bar>dbl_value w0 w1 - real (bval bd0) * 10 powi e\<bar> - half_ulp w0)" by simp
  have "bval B2 < bval D2 \<longleftrightarrow> dbl_value w0 w1 * F < real (bval bd0) * 10 powi e * F"
    by (simp only: flip: RA RB of_nat_less_iff)
  then show "dsign = of_bool (dbl_value w0 w1 < real (bval bd0) * 10 powi e)"
    using rr(2) diff_correct(2) [OF B2(2) D2(2)] F by simp
qed

subsection \<open>Properties\<close>

text \<open>
  C26: The refinement step of \<open>strtod\<close> decides exactly. With the mantissa digits in \<open>bd0\<close>, the
  decimal exponent \<open>e\<close> and any finite non-zero approximation given by its words, the sign of the
  integer comparison is the sign of the distance between the approximation and
  the true value minus half a unit in the last place, and \<open>dsign\<close> tells the side.
\<close>

theorem strtod_compare_half_ulp:
  assumes "p5_inv p5s" "bigint_inv bd0" "bval bd0 \<noteq> 0" "dbl_mant w0 w1 \<noteq> 0"
    and "strtod_compare p5s bd0 e w0 w1 = ((delta, dsign, i), p5s')"
  shows "of_int (sgn i) = sgn (\<bar>dbl_value w0 w1 - real (bval bd0) * 10 powi e\<bar> - half_ulp w0)
    \<and> dsign = of_bool (dbl_value w0 w1 < real (bval bd0) * 10 powi e) \<and> p5_inv p5s'"
  using strtod_compare_aux [OF assms] by blast

theorem strtod_compare_half_ulp_witness:
  "\<exists>delta dsign i p5s'. strtod_compare [] (i2b 3) (- 1) 0x3fd33333 0x33333333 = ((delta, dsign, i), p5s')
    \<and> of_int (sgn i) = sgn (\<bar>dbl_value 0x3fd33333 0x33333333 - 3 * 10 powi (- 1)\<bar> - half_ulp 0x3fd33333)"
proof -
  obtain delta dsign i p5s' where r:
    "strtod_compare [] (i2b 3) (- 1) 0x3fd33333 0x33333333 = ((delta, dsign, i), p5s')"
    by (metis prod.exhaust)
  have "bigint_inv (i2b 3)" "bval (i2b 3) = 3" using i2b_correct [of 3] by simp_all
  moreover have "p5_inv []" by (simp add: p5_inv_def)
  moreover have "dbl_mant 0x3fd33333 0x33333333 \<noteq> 0" by (simp add: dbl_mant_def)
  ultimately show ?thesis using strtod_compare_half_ulp [OF _ _ _ _ r] r by auto
qed

text \<open>
  \<open>s2b\<close> reads the decimal mantissa: from the text of the digits with the decimal point after
  the first \<open>nd0\<close> and the value of the first nine digits it builds the integer all digits spell.
\<close>

lemma s2b_mantissa:
  assumes "\<forall>d\<in>set ds. d < 10" "nd0 \<le> length ds" "unat y9 = horner 10 0 (take 9 ds)"
  shows "bval (s2b (mantissa_text point nd0 ds @ r) nd0 (length ds) y9) = horner 10 0 ds
    \<and> bigint_inv (s2b (mantissa_text point nd0 ds @ r) nd0 (length ds) y9)"
  using assms by (rule s2b_correct)

lemma s2b_mantissa_example:
  "bval (s2b (mantissa_text (CHR ''.'') 1 [1,2,3,4,5,6,7,8,9,0,1]) 1 (length [1,2,3,4,5,6,7,8,9,0,1::nat]) 123456789) = 12345678901"
  using s2b_mantissa [of "[1,2,3,4,5,6,7,8,9,0,1]" 1 123456789 "CHR ''.''" "[]"] by simp

text \<open>
  \<open>d2b\<close> takes a double apart without loss: an odd integer, the exponent of two that scales it
  to the value of the double, and the number of its bits, for normal and for denormal numbers.
\<close>

theorem d2b_exact:
  assumes "dbl_mant d0 d1 \<noteq> 0" "d2b d0 d1 = (b, e, bits)"
  shows "real (bval b) * 2 powi e = dbl_value d0 d1 \<and> odd (bval b) \<and> bigint_inv b
    \<and> 1 \<le> bits \<and> 2 ^ (nat bits - 1) \<le> bval b \<and> bval b < 2 ^ nat bits"
  using d2b_scaled(3) [OF assms refl] d2b_facts [OF assms] by blast

theorem d2b_exact_witness:
  "\<exists>b e bits. d2b 0x40080000 0 = (b, e, bits) \<and> real (bval b) * 2 powi e = dbl_value 0x40080000 0 \<and> odd (bval b)"
proof -
  obtain b e bits where r: "d2b 0x40080000 0 = (b, e, bits)" by (metis prod_cases3)
  have "dbl_mant 0x40080000 0 \<noteq> 0" by (simp add: dbl_mant_def)
  from d2b_exact [OF this r] r show ?thesis by blast
qed

end
