(* ===== verification/Kernel_Inet.thy ===== *)
theory Kernel_Inet
  imports Prelude
begin

text \<open>
  Textual internet addresses in the kernel: \<^verbatim>\<open>src/system/kernel/util/inet_addr.c\<close>
  (\<open>inet_addr\<close>, \<open>inet_aton\<close>) and \<^verbatim>\<open>src/system/kernel/util/inet_ntop.c\<close> (\<open>inet_ntop\<close>). Addresses
  are byte lists in network order. The parser is modelled with its 64-bit accumulator and
  8-bit parts; the formatter with the position in its fixed buffer, the scan for the run
  of zero words and every return of \<open>NULL\<close> with its error number. The results: which dotted
  decimal texts the parser accepts and what it yields, that formatting an IPv4 address and
  parsing it is the identity, that the scan finds the leftmost longest run of zero words, and
  that the formatter writes the compressed text and never more than its buffer holds.
\<close>

subsection \<open>Parsing: \<open>inet_aton\<close>\<close>

text \<open>
  A pointer \<open>cp\<close> is the suffix it points at and \<open>c\<close> is its first character. The inner loop gives
  the accumulated \<open>val\<close>, the flag \<open>digit\<close> and the new position; \<open>None\<close> is \<open>return 0\<close>.
\<close>

fun aton_digits :: "nat \<Rightarrow> uint64 \<Rightarrow> bool \<Rightarrow> string \<Rightarrow> (uint64 \<times> bool \<times> string) option" where
  "aton_digits base v digit [] = Some (v, digit, [])"
| "aton_digits base v digit (c # cp) =
     (if c_isascii c \<and> c_isdigit c
      then (if base = 8 \<and> (c = CHR ''8'' \<or> c = CHR ''9'') then None
            else aton_digits base (v * of_nat base + of_nat (code c - 48)) True cp)
      else if base = 16 \<and> c_isascii c \<and> c_isxdigit c
      then aton_digits base
             (push_bit 4 v OR of_nat (code c + 10 - (if c_islower c then 97 else 65))) True cp
      else Some (v, digit, c # cp))"

definition aton_base :: "string \<Rightarrow> nat \<times> bool \<times> string" where
  "aton_base cp =
     (if peek cp 0 = CHR ''0''
      then (let cp = tl cp in
            if peek cp 0 = CHR ''x'' \<or> peek cp 0 = CHR ''X'' then (16, False, tl cp)
            else (8, True, cp))
      else (10, False, cp))"

lemma aton_digits_length:
  "aton_digits base v digit s = Some (v', digit', s') \<Longrightarrow> length s' \<le> length s"
  by (induction base v digit s rule: aton_digits.induct) (force split: if_splits)+

lemma aton_base_length: "aton_base cp = (base, digit, s) \<Longrightarrow> length s \<le> length cp"
  by (auto simp: aton_base_def Let_def split: if_splits)

function aton_parts :: "uint8 list \<Rightarrow> string \<Rightarrow> (uint8 list \<times> uint64 \<times> bool \<times> string) option" where
  "aton_parts parts cp =
     (if \<not> c_isdigit (peek cp 0) then None
      else
        let (base, digit, s) = aton_base cp in
        case aton_digits base 0 digit s of
          None \<Rightarrow> None
        | Some (v, digit, s) \<Rightarrow>
            (if peek s 0 = CHR ''.''
             then (if 3 \<le> length parts \<or> 0xff < v then None
                   else aton_parts (parts @ [ucast v]) (tl s))
             else Some (parts, v, digit, s)))"
  by pat_completeness auto
termination
proof (relation "measure (\<lambda>(parts, cp). length cp)", goal_cases)
  case (2 parts cp x base y digit s x2 v z digit' s')
  then have "length s' \<le> length cp"
    by (metis aton_base_length aton_digits_length le_trans prod.inject)
  moreover have "s' \<noteq> []" using 2 by (cases s') (auto simp: NUL_eq_iff)
  ultimately show ?case by (cases s') auto
qed simp

declare aton_parts.simps [simp del]

text \<open>
  \<open>htonl\<close> and the store into \<open>s_addr\<close>: the four bytes of the low 32 bits in network order.
\<close>

definition net_bytes :: "uint32 \<Rightarrow> uint8 list" where
  "net_bytes w = [ucast (drop_bit 24 w), ucast (drop_bit 16 w), ucast (drop_bit 8 w), ucast w]"

definition aton_build :: "uint8 list \<Rightarrow> uint64 \<Rightarrow> uint8 list option" where
  "aton_build parts v =
     (let n = length parts + 1 in
      if n = 1 then Some (net_bytes (ucast v))
      else if n = 2 then
        (if 0xffffff < v then None
         else Some (net_bytes (ucast (v OR push_bit 24 (ucast (parts ! 0))))))
      else if n = 3 then
        (if 0xffff < v then None
         else Some (net_bytes (ucast (v OR (push_bit 24 (ucast (parts ! 0))
                 OR push_bit 16 (ucast (parts ! 1)))))))
      else
        (if 0xff < v then None
         else Some (net_bytes (ucast (v OR (push_bit 24 (ucast (parts ! 0))
                 OR push_bit 16 (ucast (parts ! 1)) OR push_bit 8 (ucast (parts ! 2))))))))"

definition inet_aton :: "string \<Rightarrow> uint8 list option" where
  "inet_aton cp =
     (case aton_parts [] cp of
        None \<Rightarrow> None
      | Some (parts, v, digit, s) \<Rightarrow>
          if peek s 0 \<noteq> NUL \<and> (\<not> c_isascii (peek s 0) \<or> \<not> c_isspace (peek s 0)) then None
          else if \<not> digit then None
          else aton_build parts v)"

definition INADDR_NONE :: "uint8 list" where "INADDR_NONE = [0xff, 0xff, 0xff, 0xff]"

definition inet_addr :: "string \<Rightarrow> uint8 list" where
  "inet_addr cp = (case inet_aton cp of Some a \<Rightarrow> a | None \<Rightarrow> INADDR_NONE)"


subsection \<open>Formatting: \<open>inet_ntop\<close>\<close>

text \<open>The result is the error number or the text left in \<open>dst\<close>.\<close>

definition ntop4_text :: "uint8 list \<Rightarrow> string" where
  "ntop4_text src = print_radix 10 (unat (src ! 0)) @ ''.'' @ print_radix 10 (unat (src ! 1)) @ ''.''
     @ print_radix 10 (unat (src ! 2)) @ ''.'' @ print_radix 10 (unat (src ! 3))"

definition inet_ntop4 :: "uint8 list \<Rightarrow> nat \<Rightarrow> status + string" where
  "inet_ntop4 src sz = (let tmp = ntop4_text src in if sz \<le> length tmp then Inl ENOSPC else Inr tmp)"

definition ntop6_words :: "uint8 list \<Rightarrow> uint32 list" where
  "ntop6_words src = map (\<lambda>i. push_bit 8 (ucast (src ! (2 * i))) OR ucast (src ! (2 * i + 1))) [0..<8]"

text \<open>The runs \<open>best\<close> and \<open>cur\<close> are pairs of base and length; base \<open>-1\<close> means none.\<close>

definition better_run :: "int \<times> int \<Rightarrow> int \<times> int \<Rightarrow> int \<times> int" where
  "better_run best cur = (if fst cur \<noteq> - 1 \<and> (fst best = - 1 \<or> snd best < snd cur) then cur else best)"

fun ntop6_scan :: "int \<Rightarrow> uint32 list \<Rightarrow> int \<times> int \<Rightarrow> int \<times> int \<Rightarrow> int \<times> int" where
  "ntop6_scan i [] best cur = better_run best cur"
| "ntop6_scan i (w # ws) best cur =
     (if w = 0
      then ntop6_scan (i + 1) ws best (if fst cur = - 1 then (i, 1) else (fst cur, snd cur + 1))
      else ntop6_scan (i + 1) ws (better_run best cur) (- 1, snd cur))"

definition ntop6_best :: "uint32 list \<Rightarrow> int \<times> int" where
  "ntop6_best ws =
     (let best = ntop6_scan 0 ws (- 1, 0) (- 1, 0)
      in if fst best \<noteq> - 1 \<and> snd best < 2 then (- 1, snd best) else best)"

text \<open>
  The formatting loop for the words from position \<open>i\<close> on; \<open>pos\<close> is \<open>tp - tmp\<close>. \<open>Inl\<close> is the early
  return when the embedded IPv4 address does not fit in the rest of \<open>tmp\<close>.
\<close>

definition tmp6_size :: nat where
  "tmp6_size = length ''ffff:ffff:ffff:ffff:ffff:ffff:255.255.255.255'' + 1"

definition encapsulates_v4 :: "uint32 list \<Rightarrow> int \<times> int \<Rightarrow> nat \<Rightarrow> bool" where
  "encapsulates_v4 words best i \<longleftrightarrow> i = 6 \<and> fst best = 0 \<and> (snd best = 6
     \<or> (snd best = 7 \<and> words ! 7 \<noteq> 0x0001) \<or> (snd best = 5 \<and> words ! 5 = 0xffff))"

definition in_best :: "int \<times> int \<Rightarrow> nat \<Rightarrow> bool" where
  "in_best best i \<longleftrightarrow> fst best \<noteq> - 1 \<and> fst best \<le> int i \<and> int i < fst best + snd best"

function ntop6_format :: "uint8 list \<Rightarrow> uint32 list \<Rightarrow> int \<times> int \<Rightarrow> nat \<Rightarrow> nat \<Rightarrow> status + string" where
  "ntop6_format src words best i pos =
     (if 8 \<le> i then Inr []
      else if in_best best i
      then (let sep = (if int i = fst best then '':'' else [])
            in map_sum id (\<lambda>r. sep @ r) (ntop6_format src words best (i + 1) (pos + length sep)))
      else
        let sep = (if i \<noteq> 0 then '':'' else []); pos = pos + length sep in
        if encapsulates_v4 words best i
        then map_sum id (\<lambda>r. sep @ r) (inet_ntop4 (drop 12 src) (tmp6_size - pos))
        else
          let h = print_radix 16 (unat (words ! i))
          in map_sum id (\<lambda>r. sep @ h @ r) (ntop6_format src words best (i + 1) (pos + length h)))"
  by pat_completeness auto
termination by (relation "measure (\<lambda>(src, words, best, i, pos). 8 - i)") auto

declare ntop6_format.simps [simp del]

definition inet_ntop6 :: "uint8 list \<Rightarrow> nat \<Rightarrow> status + string" where
  "inet_ntop6 src sz =
     (let words = ntop6_words src; best = ntop6_best words in
      case ntop6_format src words best 0 0 of
        Inl e \<Rightarrow> Inl e
      | Inr t \<Rightarrow>
          (let t = (if fst best \<noteq> - 1 \<and> fst best + snd best = 8 then t @ '':'' else t)
           in if sz < length t + 1 then Inl ENOSPC else Inr t))"

datatype address_family = AF_INET | AF_INET6 | AF_OTHER int

fun inet_ntop :: "address_family \<Rightarrow> uint8 list \<Rightarrow> nat \<Rightarrow> status + string" where
  "inet_ntop AF_INET src sz = inet_ntop4 src sz"
| "inet_ntop AF_INET6 src sz = inet_ntop6 src sz"
| "inet_ntop (AF_OTHER af) src sz = Inl EAFNOSUPPORT"

subsection \<open>Properties of the parser\<close>

lemma of_nat_horner: "(of_nat (horner b a ds) :: uint64) = foldl (\<lambda>v d. v * of_nat b + of_nat d) (of_nat a) ds"
  by (induction ds arbitrary: a) simp_all

lemma aton_digits_decimal:
  assumes "\<forall>d\<in>set ds. d < 10" "\<not> c_isdigit (peek s 0)"
  shows "aton_digits 10 v digit (map digit_char ds @ s)
    = Some (foldl (\<lambda>v d. v * of_nat 10 + of_nat d) v ds, digit \<or> ds \<noteq> [], s)"
  using assms(1)
proof (induction ds arbitrary: v digit)
  case Nil
  then show ?case using assms(2) by (cases s) auto
next
  case (Cons d ds)
  have c: "code (digit_char d) = 48 + d" using Cons.prems by (simp add: code_digit_char)
  with Cons show ?case by (simp add: c_isascii_def c_isdigit_def)
qed

lemma aton_decimal:
  assumes "\<not> c_isdigit (peek s 0)" "peek s 0 \<noteq> CHR ''x''" "peek s 0 \<noteq> CHR ''X''"
  shows "\<exists>base digit r. aton_base (print_radix 10 n @ s) = (base, digit, r)
    \<and> aton_digits base 0 digit r = Some (of_nat n, True, s)"
proof -
  obtain d ds where r: "radix_of 10 n = d # ds" by (meson radix_of_nonempty neq_Nil_conv)
  have less: "\<forall>d\<in>set (d # ds). d < 10" using radix_of_less [of 10 _ n] by (simp add: r)
  have h: "(of_nat n :: uint64) = foldl (\<lambda>v d. v * of_nat 10 + of_nat d) 0 (d # ds)"
    using horner_radix_of [of 10 n] of_nat_horner [of 10 0 "d # ds"] by (simp add: r)
  have c: "code (digit_char d) = 48 + d" using less by (simp add: code_digit_char)
  show ?thesis
  proof (cases "d = 0")
    case True
    then have "n = 0" using hd_radix_of_0 [of 10 n] r by simp
    then have "ds = []" using r by simp
    then show ?thesis
      using assms True \<open>n = 0\<close> aton_digits_decimal [of "[]" s 0 True]
      by (cases s) (auto simp: print_radix_def r aton_base_def digit_char_def char_of_def bit_0)
  next
    case False
    then have "digit_char d \<noteq> CHR ''0''" using c by auto
    then have "aton_base (print_radix 10 n @ s) = (10, False, map digit_char (d # ds) @ s)"
      by (simp add: print_radix_def r aton_base_def)
    moreover have "aton_digits 10 0 False (map digit_char (d # ds) @ s) = Some (of_nat n, True, s)"
      unfolding aton_digits_decimal [OF less assms(1), of 0 False] h by simp
    ultimately show ?thesis by blast
  qed
qed

lemma ucast_of_nat8: "(ucast (of_nat n :: uint64) :: uint8) = of_nat n"
  by (simp add: unsigned_of_nat word_of_nat_eq_iff)

lemma aton_parts_step:
  assumes "\<not> c_isdigit (peek s 0)" "peek s 0 \<noteq> CHR ''x''" "peek s 0 \<noteq> CHR ''X''"
  shows "aton_parts parts (print_radix 10 n @ s) =
     (if peek s 0 = CHR ''.''
      then (if 3 \<le> length parts \<or> 0xff < (of_nat n :: uint64) then None
            else aton_parts (parts @ [of_nat n]) (tl s))
      else Some (parts, of_nat n, True, s))"
proof -
  obtain d ds where r: "radix_of 10 n = d # ds" by (meson radix_of_nonempty neq_Nil_conv)
  then have "d < 10" using radix_of_less [of 10 d n] by simp
  then have "c_isdigit (peek (print_radix 10 n @ s) 0)"
    by (simp add: print_radix_def r c_isdigit_def code_digit_char)
  moreover obtain base digit q where "aton_base (print_radix 10 n @ s) = (base, digit, q)"
    "aton_digits base 0 digit q = Some (of_nat n, True, s)"
    using aton_decimal [OF assms] by blast
  ultimately show ?thesis
    by (subst aton_parts.simps) (simp add: ucast_of_nat8)
qed

fun dotted :: "nat list \<Rightarrow> string" where
  "dotted [] = []"
| "dotted [n] = print_radix 10 n"
| "dotted (n # ns) = print_radix 10 n @ CHR ''.'' # dotted ns"

definition aton_trailer :: "string \<Rightarrow> bool" where
  "aton_trailer s \<longleftrightarrow> s = [] \<or> c_isspace (hd s)"

lemma aton_trailer_stop:
  "aton_trailer s \<Longrightarrow> \<not> c_isdigit (peek s 0) \<and> peek s 0 \<noteq> CHR ''x'' \<and> peek s 0 \<noteq> CHR ''X''
     \<and> peek s 0 \<noteq> CHR ''.''"
  by (cases s) (auto simp: aton_trailer_def c_isspace_def c_isdigit_def NUL_eq_iff)

lemma unat_of_nat64: "n < 2 ^ 64 \<Longrightarrow> unat (of_nat n :: uint64) = n"
  by (simp add: unsigned_of_nat take_bit_nat_eq_self)

lemma of_nat_gt_ff: "n < 2 ^ 64 \<Longrightarrow> (0xff < (of_nat n :: uint64)) \<longleftrightarrow> 0xff < n"
  by (simp add: word_less_nat_alt unat_of_nat64)

lemma aton_parts_dotted:
  assumes "ns \<noteq> []" "\<forall>n\<in>set ns. n < 2 ^ 64" "aton_trailer s" "length parts \<le> 3"
  shows "aton_parts parts (dotted ns @ s) =
    (if length parts + length ns \<le> 4 \<and> (\<forall>n\<in>set (butlast ns). n \<le> 0xff)
     then Some (parts @ map of_nat (butlast ns), of_nat (last ns), True, s) else None)"
  using assms
proof (induction ns arbitrary: parts rule: dotted.induct)
  case (2 n)
  with aton_trailer_stop [OF assms(3)] show ?case by (simp add: aton_parts_step)
next
  case (3 n m ns)
  have "aton_parts parts (dotted (n # m # ns) @ s)
      = (if 3 \<le> length parts \<or> 0xff < n then None
         else aton_parts (parts @ [of_nat n]) (dotted (m # ns) @ s))"
    using 3 by (simp add: aton_parts_step c_isdigit_def of_nat_gt_ff)
  then show ?case using 3 by auto
qed simp

definition quad_value :: "nat list \<Rightarrow> nat" where
  "quad_value ns = last ns + horner 256 0 (butlast ns) * 256 ^ (5 - length ns)"

lemma or_push:
  fixes x y :: uint64
  assumes "x = of_nat m" "y = of_nat n" "m < 2 ^ k" "k < 64"
  shows "x OR push_bit k y = of_nat (m + n * 2 ^ k)"
proof -
  have "m < 2 ^ 64" using assms(3,4) by (meson less_trans one_less_numeral_iff power_strict_increasing semiring_norm(76))
  then have "unat x < 2 ^ k" using assms(1,3) by (simp add: unat_of_nat64)
  then have t: "take_bit k x = x" by (simp add: word_unat_eq_iff unat_take_bit)
  have "x AND push_bit k y = 0"
    by (subst t [symmetric], rule bit_eqI) (auto simp: bit_simps)
  then have "x OR push_bit k y = x + push_bit k y" by (simp add: disjunctive_add_eq_or)
  then show ?thesis using assms(1,2) by (simp add: push_bit_eq_mult)
qed

lemma ucast_byte: "n \<le> 0xff \<Longrightarrow> (ucast (of_nat n :: uint8) :: uint64) = of_nat n"
  by (simp add: unsigned_of_nat take_bit_nat_eq_self)

lemma ucast_of_nat32: "(ucast (of_nat n :: uint64) :: uint32) = of_nat n"
  by (simp add: unsigned_of_nat word_of_nat_eq_iff)

lemma aton_join:
  assumes "a \<le> 0xff" "b \<le> 0xff" "c \<le> 0xff"
  shows "v < 2 ^ 24 \<Longrightarrow> (of_nat v :: uint64) OR push_bit 24 (of_nat a) = of_nat (v + a * 2 ^ 24)"
    and "v < 2 ^ 16 \<Longrightarrow> (of_nat v :: uint64) OR (push_bit 24 (of_nat a) OR push_bit 16 (of_nat b))
      = of_nat (v + (b + a * 2 ^ 8) * 2 ^ 16)"
    and "v < 2 ^ 8 \<Longrightarrow> (of_nat v :: uint64) OR (push_bit 24 (of_nat a) OR push_bit 16 (of_nat b) OR push_bit 8 (of_nat c))
      = of_nat (v + (c + (b + a * 2 ^ 8) * 2 ^ 8) * 2 ^ 8)"
proof -
  show "v < 2 ^ 24 \<Longrightarrow> (of_nat v :: uint64) OR push_bit 24 (of_nat a) = of_nat (v + a * 2 ^ 24)"
    by (rule or_push [OF refl refl]) simp_all
  have ba: "(of_nat b :: uint64) OR push_bit 8 (of_nat a) = of_nat (b + a * 2 ^ 8)"
    using assms(2) by (intro or_push [OF refl refl]) simp_all
  have "push_bit 24 (of_nat a) OR push_bit 16 (of_nat b :: uint64) = push_bit 16 (of_nat b OR push_bit 8 (of_nat a))"
    by (simp add: push_bit_or or.commute)
  then show "(of_nat v :: uint64) OR (push_bit 24 (of_nat a) OR push_bit 16 (of_nat b))
      = of_nat (v + (b + a * 2 ^ 8) * 2 ^ 16)" if "v < 2 ^ 16"
    unfolding ba using that by (simp only: or_push [OF refl refl])
  have cba: "(of_nat c :: uint64) OR push_bit 8 (of_nat (b + a * 2 ^ 8)) = of_nat (c + (b + a * 2 ^ 8) * 2 ^ 8)"
    using assms(3) by (intro or_push [OF refl refl]) simp_all
  have "push_bit 24 (of_nat a) OR push_bit 16 (of_nat b) OR push_bit 8 (of_nat c :: uint64)
      = push_bit 8 (of_nat c OR push_bit 8 (of_nat b OR push_bit 8 (of_nat a)))"
    by (simp add: push_bit_or or.commute or.left_commute)
  then show "(of_nat v :: uint64) OR (push_bit 24 (of_nat a) OR push_bit 16 (of_nat b) OR push_bit 8 (of_nat c))
      = of_nat (v + (c + (b + a * 2 ^ 8) * 2 ^ 8) * 2 ^ 8)" if "v < 2 ^ 8"
    unfolding ba cba using that by (simp only: or_push [OF refl refl])
qed

lemma of_nat_less_limit:
  "n < 2 ^ 64 \<Longrightarrow> m < 2 ^ 64 \<Longrightarrow> ((of_nat m :: uint64) < of_nat n) \<longleftrightarrow> m < n"
  by (simp add: word_less_nat_alt unat_of_nat64)

lemma inet_aton_dotted:
  assumes "ns \<noteq> []" "\<forall>n\<in>set ns. n < 2 ^ 64" "aton_trailer s"
  shows "inet_aton (dotted ns @ s) =
    (if length ns \<le> 4 \<and> (\<forall>n\<in>set (butlast ns). n \<le> 0xff)
        \<and> (length ns \<noteq> 1 \<longrightarrow> last ns < 256 ^ (5 - length ns))
     then Some (net_bytes (of_nat (quad_value ns))) else None)"
proof (cases "length ns \<le> 4 \<and> (\<forall>n\<in>set (butlast ns). n \<le> 0xff)")
  case False
  then show ?thesis using aton_parts_dotted [OF assms, of "[]"] by (auto simp: inet_aton_def)
next
  case True
  have "peek s 0 = NUL \<or> c_isascii (peek s 0) \<and> c_isspace (peek s 0)"
    using assms(3) by (cases s) (auto simp: aton_trailer_def c_isspace_def c_isascii_def)
  then have p: "inet_aton (dotted ns @ s) = aton_build (map of_nat (butlast ns)) (of_nat (last ns))"
    using aton_parts_dotted [OF assms, of "[]"] True by (auto simp: inet_aton_def)
  have l: "last ns < 2 ^ 64" using assms(1,2) by simp
  consider n where "ns = [n]" | a n where "ns = [a, n]" | a b n where "ns = [a, b, n]"
    | a b c n where "ns = [a, b, c, n]"
    using True assms(1) by (cases ns; cases "tl ns"; cases "tl (tl ns)"; cases "tl (tl (tl ns))") auto
  then show ?thesis
  proof cases
    case 1
    with p show ?thesis by (simp add: aton_build_def quad_value_def ucast_of_nat32)
  next
    case (2 a n)
    have q: "quad_value ns = n + a * 2 ^ 24" by (simp add: 2 quad_value_def)
    have c: "0xffffff < (of_nat n :: uint64) \<longleftrightarrow> 0xffffff < n"
      using of_nat_less_limit [of n "0xffffff"] l 2 by simp
    have a: "a \<le> 0xff" using True 2 by simp
    show ?thesis
      using aton_join(1) [OF a a a, of n] a unfolding p q
      by (simp add: 2 aton_build_def Let_def c ucast_byte [OF a] flip: ucast_of_nat32)
  next
    case (3 a b n)
    have q: "quad_value ns = n + (b + a * 2 ^ 8) * 2 ^ 16" by (simp add: 3 quad_value_def)
    have c: "0xffff < (of_nat n :: uint64) \<longleftrightarrow> 0xffff < n"
      using of_nat_less_limit [of n "0xffff"] l 3 by simp
    have a: "a \<le> 0xff" "b \<le> 0xff" using True 3 by simp_all
    show ?thesis
      using aton_join(2) [OF a a(1), of n] a unfolding p q
      by (simp add: 3 aton_build_def Let_def c ucast_byte flip: ucast_of_nat32)
  next
    case (4 a b c n)
    have q: "quad_value ns = n + (c + (b + a * 2 ^ 8) * 2 ^ 8) * 2 ^ 8"
      by (simp add: 4 quad_value_def algebra_simps)
    have v: "0xff < (of_nat n :: uint64) \<longleftrightarrow> 0xff < n" using of_nat_gt_ff [of n] l 4 by simp
    have a: "a \<le> 0xff" "b \<le> 0xff" "c \<le> 0xff" using True 4 by simp_all
    show ?thesis
      using aton_join(3) [OF a, of n] a unfolding p q
      by (simp add: 4 aton_build_def Let_def v ucast_byte flip: ucast_of_nat32)
  qed
qed

lemma net_bytes_quad:
  assumes "a \<le> 0xff" "b \<le> 0xff" "c \<le> 0xff" "d \<le> 0xff"
  shows "net_bytes (of_nat (quad_value [a, b, c, d])) = map of_nat [a, b, c, d]"
proof -
  define q where "q = quad_value [a, b, c, d]"
  have q: "q = d + 2 ^ 8 * (c + 2 ^ 8 * (b + 2 ^ 8 * a))" by (simp add: q_def quad_value_def)
  have "q < 2 ^ 32" unfolding q using assms by simp
  then have u: "unat (of_nat q :: uint32) = q" by (simp add: unsigned_of_nat take_bit_nat_eq_self)
  have s: "(ucast (drop_bit k (of_nat q :: uint32)) :: uint8) = of_nat (q div 2 ^ k)" for k
    using \<open>q < 2 ^ 32\<close> by (intro word_unat_eq_iff [THEN iffD2])
      (simp add: unat_drop_bit unsigned_ucast_eq unsigned_of_nat take_bit_eq_mod)
  have dv: "(x + 2 ^ 8 * y) div 2 ^ 8 = y" if "x \<le> 0xff" for x y :: nat using that by simp
  have d1: "q div 2 ^ 8 = c + 2 ^ 8 * (b + 2 ^ 8 * a)" unfolding q using dv [OF assms(4)] .
  have d2: "q div 2 ^ 16 = b + 2 ^ 8 * a"
    using dv [OF assms(3), of "b + 2 ^ 8 * a"] unfolding d1 [symmetric] by (simp add: div_mult2_eq [symmetric])
  have d3: "q div 2 ^ 24 = a"
    using dv [OF assms(2), of a] unfolding d2 [symmetric] by (simp add: div_mult2_eq [symmetric])
  have m: "(of_nat (x + 2 ^ 8 * y) :: uint8) = of_nat x" for x y
    by (subst word_of_nat_eq_iff) (simp add: take_bit_eq_mod)
  have s0: "(ucast (of_nat q :: uint32) :: uint8) = of_nat d"
    using s [of 0] m [of d "c + 2 ^ 8 * (b + 2 ^ 8 * a)"] unfolding q [symmetric] by simp
  show ?thesis
    unfolding q_def [symmetric] net_bytes_def s d1 d2 d3 m s0 by simp
qed

lemma ntop4_dotted: "length a = 4 \<Longrightarrow> ntop4_text a = dotted (map unat a)"
  by (auto simp: ntop4_text_def numeral_nat length_Suc_conv)

lemma radix_length_bound: "n < b ^ k \<Longrightarrow> 0 < k \<Longrightarrow> 2 \<le> b \<Longrightarrow> length (radix_of b n) \<le> k"
proof (induction b n arbitrary: k rule: radix_of.induct)
  case (1 b n)
  show ?case
  proof (cases "n < b")
    case False
    have "k \<noteq> 1" using False 1(2) by auto
    then obtain j where k: "k = Suc j" "0 < j" using 1(3) by (cases k) auto
    have "n div b < b ^ j" using 1(2,4) k by (simp add: less_mult_imp_div_less mult.commute)
    with 1(1) [of j] 1(4) False k show ?thesis by (simp add: radix_of.simps [of b n])
  qed (use 1(3) in \<open>simp add: radix_of.simps [of b n]\<close>)
qed

lemma print_byte_length: "length (print_radix 10 (unat (x :: uint8))) \<le> 3"
  unfolding print_radix_def length_map using unsigned_less [of x, where ?'a = nat]
  by (intro radix_length_bound) simp_all

lemma ntop4_text_length: "length (ntop4_text a) \<le> 15"
  using print_byte_length [of "a ! 0"] print_byte_length [of "a ! 1"]
    print_byte_length [of "a ! 2"] print_byte_length [of "a ! 3"]
  by (simp add: ntop4_text_def)

lemma inet_aton_ntop4:
  assumes "length a = 4"
  shows "inet_aton (ntop4_text a) = Some a"
proof -
  have b: "\<forall>n\<in>set (map unat a). n \<le> 0xff"
    using unsigned_less [where ?'a = nat and ?'b = 8] by (force simp: less_Suc_eq_le [symmetric])
  obtain w x y z where a: "a = [w, x, y, z]" using assms by (auto simp: numeral_nat length_Suc_conv)
  have "inet_aton (dotted (map unat a) @ []) = Some (net_bytes (of_nat (quad_value (map unat a))))"
    using b by (subst inet_aton_dotted) (auto simp: a aton_trailer_def)
  also have "\<dots> = Some a"
    using b net_bytes_quad [of "unat w" "unat x" "unat y" "unat z"] by (simp add: a)
  finally show ?thesis using ntop4_dotted [OF assms] by simp
qed

subsection \<open>The longest run of zero words\<close>

definition zero_run :: "uint32 list \<Rightarrow> nat \<Rightarrow> nat \<Rightarrow> bool" where
  "zero_run ws b l \<longleftrightarrow> b + l \<le> length ws \<and> (\<forall>i<l. ws ! (b + i) = 0)"

definition runs_to :: "uint32 list \<Rightarrow> nat \<Rightarrow> nat \<Rightarrow> nat \<Rightarrow> bool" where
  "runs_to ws e b l \<longleftrightarrow> 0 < l \<and> zero_run ws b l \<and> b + l \<le> e"

text \<open>Leftmost longest run among those that end at position \<open>e\<close> or before.\<close>

definition longest_run :: "(nat \<Rightarrow> nat \<Rightarrow> bool) \<Rightarrow> int \<times> int \<Rightarrow> bool" where
  "longest_run R best \<longleftrightarrow>
     (if fst best = - 1 then \<forall>b l. \<not> R b l
      else 0 \<le> fst best \<and> R (nat (fst best)) (nat (snd best))
        \<and> (\<forall>b l. R b l \<longrightarrow> int l \<le> snd best \<and> (int b < fst best \<longrightarrow> int l < snd best)))"

definition scan_inv :: "uint32 list \<Rightarrow> int \<times> int \<Rightarrow> int \<times> int \<Rightarrow> bool" where
  "scan_inv p best cur \<longleftrightarrow>
     (if fst cur = - 1 then longest_run (runs_to p (length p)) best \<and> (p = [] \<or> last p \<noteq> 0)
      else \<exists>c m. cur = (int c, int m) \<and> 0 < m \<and> c + m = length p \<and> zero_run p c m
        \<and> (c = 0 \<or> p ! (c - 1) \<noteq> 0) \<and> longest_run (runs_to p c) best)"

lemma zero_run_append:
  "b + l \<le> length p \<Longrightarrow> zero_run (p @ q) b l = zero_run p b l"
  by (auto simp: zero_run_def nth_append)

lemma zero_runD: "zero_run ws b l \<Longrightarrow> b \<le> i \<Longrightarrow> i < b + l \<Longrightarrow> ws ! i = 0"
  by (metis add_less_cancel_left le_Suc_ex zero_run_def)

lemma runs_to_append: "e \<le> length p \<Longrightarrow> runs_to (p @ q) e = runs_to p e"
  by (auto simp: runs_to_def zero_run_append fun_eq_iff)

lemma run_inside:
  assumes "zero_run p b l" "c = 0 \<or> p ! (c - 1) \<noteq> 0" "c < b + l"
  shows "c \<le> b"
proof (rule ccontr)
  assume "\<not> c \<le> b"
  with zero_runD [OF assms(1), of "c - 1"] assms(2,3) show False by auto
qed

lemma runs_split:
  assumes "c + m = length p" "zero_run p c m" "c = 0 \<or> p ! (c - 1) \<noteq> 0" "runs_to p (length p) b l"
  shows "runs_to p c b l \<or> (c \<le> b \<and> l \<le> m)"
proof (cases "b + l \<le> c")
  case False
  then have "c \<le> b" using run_inside [of p b l c] assms by (simp add: runs_to_def)
  with assms(1,4) show ?thesis by (auto simp: runs_to_def)
qed (use assms in \<open>auto simp: runs_to_def\<close>)

lemma runs_to_mono: "e \<le> e' \<Longrightarrow> runs_to p e b l \<Longrightarrow> runs_to p e' b l"
  by (auto simp: runs_to_def)

lemma merge_runs:
  assumes "scan_inv p best cur"
  shows "longest_run (runs_to p (length p)) (better_run best cur)"
proof (cases "fst cur = - 1")
  case False
  then obtain c m where c: "cur = (int c, int m)" "0 < m" "c + m = length p" "zero_run p c m"
    "c = 0 \<or> p ! (c - 1) \<noteq> 0" "longest_run (runs_to p c) best"
    using assms by (auto simp: scan_inv_def)
  note split = runs_split [OF c(3,4,5)]
  have cl: "c \<le> length p" using c(3) by simp
  show ?thesis
  proof (cases "fst best = - 1 \<or> snd best < int m")
    case True
    then have b: "better_run best cur = cur" using False by (simp add: better_run_def c(1))
    have "int l \<le> int m \<and> (int b < int c \<longrightarrow> int l < int m)" if "runs_to p (length p) b l" for b l
      using split [OF that] True c(6) unfolding longest_run_def by (auto split: if_splits) force+
    then show ?thesis using c unfolding b longest_run_def by (auto simp: runs_to_def)
  next
    case F: False
    then have b: "better_run best cur = best" by (auto simp: better_run_def c(1))
    have r: "0 \<le> fst best" "runs_to p c (nat (fst best)) (nat (snd best))"
      "\<And>b l. runs_to p c b l \<Longrightarrow> int l \<le> snd best \<and> (int b < fst best \<longrightarrow> int l < snd best)"
      using F c(6) by (simp_all add: longest_run_def)
    have "int l \<le> snd best \<and> (int b < fst best \<longrightarrow> int l < snd best)" if "runs_to p (length p) b l" for b l
      using split [OF that]
    proof
      assume "c \<le> b \<and> l \<le> m"
      with F r(2) show ?thesis by (auto simp: runs_to_def)
    qed (rule r(3))
    with r F runs_to_mono [OF cl r(2)] show ?thesis unfolding b longest_run_def by simp
  qed
qed (use assms in \<open>simp add: scan_inv_def better_run_def\<close>)

lemma scan_inv_zero:
  assumes "scan_inv p best cur" "i = int (length p)"
  shows "scan_inv (p @ [0]) best (if fst cur = - 1 then (i, 1) else (fst cur, snd cur + 1))"
proof (cases "fst cur = - 1")
  case True
  with assms have "longest_run (runs_to p (length p)) best" "p = [] \<or> p ! (length p - 1) \<noteq> 0"
    by (auto simp: scan_inv_def last_conv_nth)
  with True assms(2) show ?thesis
    using runs_to_append [of 0 "[]" "[0]"]
    by (cases "p = []") (auto simp: scan_inv_def runs_to_append zero_run_def nth_append
        intro!: exI [of _ "length p"] exI [of _ "1::nat"])
next
  case False
  then obtain c m where c: "cur = (int c, int m)" "0 < m" "c + m = length p" "zero_run p c m"
    "c = 0 \<or> p ! (c - 1) \<noteq> 0" "longest_run (runs_to p c) best"
    using assms by (auto simp: scan_inv_def)
  then show ?thesis
    by (auto simp: scan_inv_def runs_to_append zero_run_def nth_append
        intro!: exI [of _ c] exI [of _ "m + 1"])
qed

lemma runs_to_nonzero:
  assumes "w \<noteq> 0" shows "runs_to (p @ [w]) (length (p @ [w])) = runs_to p (length p)"
proof (intro ext iffI)
  fix b l
  assume z: "runs_to (p @ [w]) (length (p @ [w])) b l"
  have "b + l \<noteq> Suc (length p)"
  proof
    assume e: "b + l = Suc (length p)"
    with zero_runD [of "p @ [w]" b l "length p"] z assms show False by (simp add: runs_to_def)
  qed
  with z show "runs_to p (length p) b l" by (auto simp: runs_to_def zero_run_def nth_append)
qed (auto simp: runs_to_def zero_run_def nth_append)

lemma scan_inv_nonzero:
  assumes "scan_inv p best cur" "w \<noteq> 0"
  shows "scan_inv (p @ [w]) (better_run best cur) (- 1, x)"
  using merge_runs [OF assms(1)] runs_to_nonzero [OF assms(2), of p] assms(2) by (simp add: scan_inv_def)

lemma ntop6_scan_longest:
  "scan_inv p best cur \<Longrightarrow> i = int (length p)
    \<Longrightarrow> longest_run (runs_to (p @ ws) (length (p @ ws))) (ntop6_scan i ws best cur)"
proof (induction ws arbitrary: p best cur i)
  case Nil
  then show ?case by (simp add: merge_runs)
next
  case (Cons w ws)
  have i: "i + 1 = int (length (p @ [w]))" using Cons.prems(2) by simp
  show ?case
  proof (cases "w = 0")
    case True
    with Cons.IH [OF scan_inv_zero [OF Cons.prems], of "i + 1"] i show ?thesis
      by (simp add: add.commute split: if_split_asm)
  next
    case False
    with Cons.IH [OF scan_inv_nonzero [OF Cons.prems(1) False] i] show ?thesis by simp
  qed
qed

lemma ntop6_best_longest:
  assumes "ntop6_best ws = (base, len)"
  shows "if base = - 1 then \<not> (\<exists>b. zero_run ws b 2)
    else 0 \<le> base \<and> 2 \<le> len \<and> zero_run ws (nat base) (nat len)
      \<and> (\<forall>b l. zero_run ws b l \<longrightarrow> int l \<le> len \<and> (int b < base \<longrightarrow> int l < len))"
proof -
  define r where "r = ntop6_scan 0 ws (- 1, 0) (- 1, 0)"
  have L: "longest_run (runs_to ws (length ws)) r"
  proof -
    have "scan_inv [] (- 1, 0) (- 1, 0)"
      by (auto simp: scan_inv_def longest_run_def runs_to_def zero_run_def)
    from ntop6_scan_longest [OF this, of 0 ws] show ?thesis by (simp add: r_def)
  qed
  have R: "runs_to ws (length ws) b l \<longleftrightarrow> 0 < l \<and> zero_run ws b l" for b l
    by (auto simp: runs_to_def zero_run_def)
  have res: "(base, len) = (if fst r \<noteq> - 1 \<and> snd r < 2 then (- 1, snd r) else r)"
    using assms unfolding ntop6_best_def Let_def r_def by (rule sym)
  show ?thesis
  proof (cases "fst r = - 1")
    case True
    then have "\<not> zero_run ws b 2" for b using L R [of b 2] by (simp add: longest_run_def)
    with True res show ?thesis by auto
  next
    case False
    then have r: "0 \<le> fst r" "0 < nat (snd r)" "zero_run ws (nat (fst r)) (nat (snd r))"
      "\<And>b l. 0 < l \<Longrightarrow> zero_run ws b l \<Longrightarrow> int l \<le> snd r \<and> (int b < fst r \<longrightarrow> int l < snd r)"
      using L unfolding longest_run_def R by auto
    then have "int l \<le> snd r \<and> (int b < fst r \<longrightarrow> int l < snd r)" if "zero_run ws b l" for b l
      using that by (cases "l = 0") auto
    with False r(1,3) res show ?thesis
    proof (cases "snd r < 2")
      case True
      have "\<not> zero_run ws b 2" for b using r(4) [of 2 b] True by auto
      with True False res show ?thesis by auto
    qed auto
  qed
qed


subsection \<open>The text of an IPv6 address\<close>

definition hex_seg :: "uint32 list \<Rightarrow> nat \<Rightarrow> nat \<Rightarrow> string" where
  "hex_seg words i j = concat (map (\<lambda>k. (if k \<noteq> 0 then '':'' else []) @ print_radix 16 (unat (words ! k))) [i..<j])"

lemma format_end: "8 \<le> i \<Longrightarrow> ntop6_format src words best i pos = Inr []"
  by (simp add: ntop6_format.simps)

lemma map_sum_append_Nil [simp]: "map_sum id ((@) []) x = x"
  by (cases x) auto

lemma map_sum_append_append:
  "map_sum id ((@) a) (map_sum id ((@) b) x) = map_sum id ((@) (a @ b)) x"
  by (cases x) auto

lemma format_hex:
  assumes "i \<le> j" "j \<le> 8" "\<forall>k. i \<le> k \<and> k < j \<longrightarrow> \<not> in_best best k \<and> \<not> encapsulates_v4 words best k"
  shows "ntop6_format src words best i pos
    = map_sum id ((@) (hex_seg words i j)) (ntop6_format src words best j (pos + length (hex_seg words i j)))"
  using assms
proof (induction "j - i" arbitrary: i pos)
  case 0
  then show ?case by (simp add: hex_seg_def sum.map_ident)
next
  case (Suc n)
  let ?h = "print_radix 16 (unat (words ! i))" and ?s = "if i \<noteq> 0 then '':'' else []"
  have n: "\<not> in_best best i" "\<not> encapsulates_v4 words best i" "\<not> 8 \<le> i" using Suc.prems Suc.hyps(2) by auto
  have "[i..<j] = i # [Suc i..<j]" using Suc.hyps(2) by (simp add: upt_conv_Cons)
  then have seg: "hex_seg words i j = ?s @ ?h @ hex_seg words (Suc i) j" by (simp add: hex_seg_def)
  have f: "(\<lambda>r. ?s @ ?h @ r) = (@) (?s @ ?h)" by (rule ext) simp
  have "ntop6_format src words best i pos
      = map_sum id (\<lambda>r. ?s @ ?h @ r) (ntop6_format src words best (i + 1) (pos + length ?s + length ?h))"
    using n by (subst ntop6_format.simps) (simp only: Let_def if_False)
  also have "\<dots> = map_sum id ((@) (?s @ ?h)) (ntop6_format src words best (Suc i) (pos + length ?s + length ?h))"
    unfolding f Suc_eq_plus1 ..
  also have "ntop6_format src words best (Suc i) (pos + length ?s + length ?h)
      = map_sum id ((@) (hex_seg words (Suc i) j)) (ntop6_format src words best j (pos + length ?s + length ?h + length (hex_seg words (Suc i) j)))"
    using Suc by (intro Suc.hyps(1)) auto
  finally show ?case unfolding map_sum_append_append seg by (simp add: add.assoc)
qed

lemma format_run:
  assumes "best = (int c, int l)" "c < i" "i \<le> c + l" "c + l \<le> 8"
  shows "ntop6_format src words best i pos = ntop6_format src words best (c + l) pos"
  using assms
proof (induction "c + l - i" arbitrary: i)
  case (Suc n)
  then have "in_best best i" "\<not> 8 \<le> i" "int i \<noteq> fst best" by (auto simp: in_best_def)
  then have "ntop6_format src words best i pos = ntop6_format src words best (i + 1) pos"
    by (subst ntop6_format.simps) simp
  then show ?case using Suc by simp
qed simp

lemma format_best:
  assumes "best = (int c, int l)" "0 < l" "c + l \<le> 8"
  shows "ntop6_format src words best c pos
    = map_sum id ((@) '':'') (ntop6_format src words best (c + l) (Suc pos))"
proof -
  have "in_best best c" "\<not> 8 \<le> c" using assms by (auto simp: in_best_def)
  then have "ntop6_format src words best c pos
      = map_sum id ((@) '':'') (ntop6_format src words best (c + 1) (Suc pos))"
    using assms(1) by (subst ntop6_format.simps) (simp add: Let_def)
  with format_run [OF assms(1), of "c + 1" src words "Suc pos"] assms show ?thesis by simp
qed

definition seg_words :: "uint32 list \<Rightarrow> string" where
  "seg_words ws = concat (map (\<lambda>w. CHR '':'' # print_radix 16 (unat w)) ws)"

lemma hex_seg_tail: "0 < i \<Longrightarrow> length words = 8 \<Longrightarrow> hex_seg words i 8 = seg_words (drop i words)"
proof -
  assume i: "0 < i" "length words = 8"
  have "drop i words = map ((!) words) [i..<8]"
    using i(2) by (intro nth_equalityI) auto
  moreover have "map (\<lambda>k. (if k \<noteq> 0 then '':'' else []) @ print_radix 16 (unat (words ! k))) [i..<8]
      = map (\<lambda>k. CHR '':'' # print_radix 16 (unat (words ! k))) [i..<8]"
    using i(1) by (intro map_cong) auto
  ultimately show ?thesis by (simp only: hex_seg_def seg_words_def map_map comp_def)
qed

lemma hex_seg_head: "j \<le> 8 \<Longrightarrow> length words = 8 \<Longrightarrow> hex_seg words 0 j = tl (seg_words (take j words))"
proof (cases j)
  case (Suc k)
  assume j: "j \<le> 8" "length words = 8"
  have "0 < j" using Suc by simp
  then have w: "take j words = words ! 0 # map ((!) words) [1..<j]"
    using j by (intro nth_equalityI) (auto simp: nth_Cons split: nat.split)
  have u: "[0..<j] = 0 # [1..<j]" using Suc by (simp add: upt_conv_Cons)
  have m: "map (\<lambda>k. (if k \<noteq> 0 then '':'' else []) @ print_radix 16 (unat (words ! k))) [1..<j]
      = map (\<lambda>k. CHR '':'' # print_radix 16 (unat (words ! k))) [1..<j]"
    by (intro map_cong) auto
  show ?thesis unfolding hex_seg_def seg_words_def u w list.map concat.simps m by (simp add: comp_def)
qed (simp add: hex_seg_def seg_words_def)

text \<open>The reference text: the words in hexadecimal, the run \<open>(b, l)\<close> as a double colon.\<close>

definition ipv6_text :: "uint8 list \<Rightarrow> (nat \<times> nat) option \<Rightarrow> string" where
  "ipv6_text src run =
     (let ws = ntop6_words src in
      case run of
        None \<Rightarrow> tl (seg_words ws)
      | Some (b, l) \<Rightarrow>
          if b = 0 \<and> l = 6 then ''::'' @ ntop4_text (drop 12 src)
          else if b = 0 \<and> l = 5 \<and> ws ! 5 = 0xffff then ''::ffff:'' @ ntop4_text (drop 12 src)
          else tl (seg_words (take b ws)) @ ''::'' @ tl (seg_words (drop (b + l) ws)))"

definition run_of :: "int \<times> int \<Rightarrow> (nat \<times> nat) option" where
  "run_of best = (if fst best = - 1 then None else Some (nat (fst best), nat (snd best)))"

lemma length_ntop6_words [simp]: "length (ntop6_words src) = 8"
  by (simp add: ntop6_words_def)

lemma ntop6_words_small: "w \<in> set (ntop6_words src) \<Longrightarrow> unat w < 2 ^ 16"
proof -
  have "unat (push_bit 8 (ucast x) OR ucast y :: uint32) < 2 ^ 16" for x y :: uint8
  proof -
    have "take_bit 16 (push_bit 8 (ucast x) OR ucast y :: uint32) = push_bit 8 (ucast x) OR ucast y"
      by (rule bit_word_eqI) (auto simp: bit_simps dest: bit_imp_le_length)
    then show ?thesis by (metis mod_less_divisor unat_take_bit zero_less_numeral zero_less_power)
  qed
  then show "w \<in> set (ntop6_words src) \<Longrightarrow> unat w < 2 ^ 16" by (auto simp: ntop6_words_def)
qed

lemma hex_word_length: "w \<in> set (ntop6_words src) \<Longrightarrow> length (print_radix 16 (unat w)) \<le> 4"
  unfolding print_radix_def length_map using ntop6_words_small [of w src]
  by (intro radix_length_bound) simp_all

lemma seg_words_length: "set ws \<subseteq> set (ntop6_words src) \<Longrightarrow> length (seg_words ws) \<le> 5 * length ws"
proof (induction ws)
  case (Cons w ws)
  then show ?case using hex_word_length [of w src] by (simp add: seg_words_def)
qed (simp add: seg_words_def)

lemma ipv6_text_length:
  assumes "run = None \<or> (\<exists>b l. run = Some (b, l) \<and> 2 \<le> l \<and> b + l \<le> 8)"
  shows "length (ipv6_text src run) \<le> 39"
proof (cases run)
  case None
  then show ?thesis using seg_words_length [of "ntop6_words src" src] by (simp add: ipv6_text_def)
next
  case (Some r)
  then obtain b l where r: "r = (b, l)" "2 \<le> l" "b + l \<le> 8" using assms by auto
  have "length (seg_words (take b (ntop6_words src))) \<le> 5 * b"
    using seg_words_length [of "take b (ntop6_words src)" src] r set_take_subset [of b "ntop6_words src"] by simp
  moreover have "length (seg_words (drop (b + l) (ntop6_words src))) \<le> 5 * (8 - (b + l))"
    using seg_words_length [of "drop (b + l) (ntop6_words src)" src] set_drop_subset [of "b + l" "ntop6_words src"] by simp
  ultimately have "length (seg_words (take b (ntop6_words src))) - Suc 0
      + (length (seg_words (drop (b + l) (ntop6_words src))) - Suc 0) \<le> 37"
    using r by linarith
  then show ?thesis
    using ntop4_text_length [of "drop 12 src"] r by (simp add: ipv6_text_def Let_def Some)
qed

definition ntop6_text :: "uint8 list \<Rightarrow> int \<times> int \<Rightarrow> string \<Rightarrow> string" where
  "ntop6_text src best t = (if fst best \<noteq> - 1 \<and> fst best + snd best = 8 then t @ '':'' else t)"

lemma format_none:
  assumes "fst best = - 1"
  shows "ntop6_format src (ntop6_words src) best 0 0 = Inr (tl (seg_words (ntop6_words src)))"
proof -
  have "\<not> in_best best k \<and> \<not> encapsulates_v4 (ntop6_words src) best k" for k
    using assms by (simp add: in_best_def encapsulates_v4_def)
  then show ?thesis
    using format_hex [of 0 8 best "ntop6_words src" src 0] by (simp add: format_end hex_seg_head)
qed

lemma format_plain:
  assumes "best = (int b, int l)" "2 \<le> l" "b + l \<le> 8"
    and "\<forall>k. \<not> in_best best k \<longrightarrow> \<not> encapsulates_v4 (ntop6_words src) best k"
  shows "ntop6_format src (ntop6_words src) best 0 0
    = Inr (tl (seg_words (take b (ntop6_words src))) @ '':'' @ seg_words (drop (b + l) (ntop6_words src)))"
proof -
  let ?w = "ntop6_words src"
  have o: "\<not> in_best best k" if "k < b \<or> b + l \<le> k" for k using that assms(1) by (auto simp: in_best_def)
  have 1: "ntop6_format src ?w best 0 0
      = map_sum id ((@) (hex_seg ?w 0 b)) (ntop6_format src ?w best b (0 + length (hex_seg ?w 0 b)))"
    using o assms(3,4) by (intro format_hex) auto
  have 2: "ntop6_format src ?w best b p = map_sum id ((@) '':'') (ntop6_format src ?w best (b + l) (Suc p))" for p
    using assms by (intro format_best) auto
  have 3: "ntop6_format src ?w best (b + l) p
      = map_sum id ((@) (hex_seg ?w (b + l) 8)) (ntop6_format src ?w best 8 (p + length (hex_seg ?w (b + l) 8)))" for p
    using o assms(3,4) by (intro format_hex) auto
  show ?thesis using assms(2,3) unfolding 1 2 3 by (simp add: format_end hex_seg_head hex_seg_tail)
qed

lemma format_v4:
  assumes "best = (0, int l)" "l = 6 \<or> l = 5 \<and> ntop6_words src ! 5 = 0xffff"
  shows "ntop6_format src (ntop6_words src) best 0 0
    = Inr ('':'' @ (if l = 5 then '':ffff'' else []) @ '':'' @ ntop4_text (drop 12 src))"
proof -
  let ?w = "ntop6_words src"
  have b: "best = (int 0, int l)" using assms(1) by simp
  have 1: "ntop6_format src ?w best 0 0 = map_sum id ((@) '':'') (ntop6_format src ?w best (0 + l) (Suc 0))"
    using assms(2) by (intro format_best [OF b]) auto
  have 6: "ntop6_format src ?w best 6 p = Inr ('':'' @ ntop4_text (drop 12 src))" if "p < 10" for p
  proof -
    have "encapsulates_v4 ?w best 6" "\<not> in_best best 6"
      using assms by (auto simp: encapsulates_v4_def in_best_def)
    moreover have "inet_ntop4 (drop 12 src) (tmp6_size - (p + 1)) = Inr (ntop4_text (drop 12 src))"
      using that ntop4_text_length [of "drop 12 src"] by (simp add: inet_ntop4_def tmp6_size_def Let_def)
    ultimately show ?thesis by (subst ntop6_format.simps) (simp add: Let_def)
  qed
  show ?thesis
  proof (cases "l = 5")
    case True
    have "ntop6_format src ?w best 5 (Suc 0)
        = map_sum id ((@) (hex_seg ?w 5 6)) (ntop6_format src ?w best 6 (Suc 0 + length (hex_seg ?w 5 6)))"
      using True assms(1) by (intro format_hex) (auto simp: in_best_def encapsulates_v4_def)
    moreover have "hex_seg ?w 5 6 = '':ffff''"
      using assms(2) True by (simp add: hex_seg_def print_radix_def radix_of.simps digit_char_def char_of_def bit_0 upt_conv_Cons)
    ultimately show ?thesis unfolding 1 using True by (simp add: 6)
  next
    case False
    then show ?thesis unfolding 1 using assms(2) by (simp add: 6)
  qed
qed

lemma ntop6_best_cases:
  obtains "fst (ntop6_best (ntop6_words src)) = - 1"
  | b l where "ntop6_best (ntop6_words src) = (int b, int l)" "2 \<le> l" "b + l \<le> 8"
    "zero_run (ntop6_words src) b l"
proof -
  obtain base len where b: "ntop6_best (ntop6_words src) = (base, len)" by fastforce
  show ?thesis
  proof (cases "base = - 1")
    case False
    with ntop6_best_longest [OF b] have "0 \<le> base" "2 \<le> len" "zero_run (ntop6_words src) (nat base) (nat len)"
      by auto
    with b that(2) [of "nat base" "nat len"] show ?thesis by (simp add: zero_run_def)
  qed (use b that in simp)
qed

lemma inet_ntop6_text:
  "inet_ntop6 src sz = (let t = ipv6_text src (run_of (ntop6_best (ntop6_words src)))
     in if sz < length t + 1 then Inl ENOSPC else Inr t)"
proof (rule ntop6_best_cases [of src])
  assume n: "fst (ntop6_best (ntop6_words src)) = - 1"
  then show ?thesis by (simp add: inet_ntop6_def Let_def format_none ipv6_text_def run_of_def)
next
  fix b l
  let ?w = "ntop6_words src"
  assume b: "ntop6_best ?w = (int b, int l)" "2 \<le> l" "b + l \<le> 8" "zero_run ?w b l"
  show ?thesis
  proof (cases "b = 0 \<and> (l = 6 \<or> l = 5 \<and> ?w ! 5 = 0xffff)")
    case True
    with format_v4 [of "ntop6_best ?w" l src] b show ?thesis
      by (auto simp: inet_ntop6_def Let_def ipv6_text_def run_of_def)
  next
    case False
    then have "\<forall>k. \<not> in_best (ntop6_best ?w) k \<longrightarrow> \<not> encapsulates_v4 ?w (ntop6_best ?w) k"
      using b by (auto simp: in_best_def encapsulates_v4_def)
    note f = format_plain [OF b(1-3) this]
    have "seg_words (drop (b + l) ?w) @ (if b + l = 8 then '':'' else []) = CHR '':'' # tl (seg_words (drop (b + l) ?w))"
    proof (cases "b + l = 8")
      case F: False
      then obtain x xs where "drop (b + l) ?w = x # xs" using b(3) by (cases "drop (b + l) ?w") auto
      then show ?thesis using F by (simp add: seg_words_def)
    qed (simp add: seg_words_def)
    moreover have "ipv6_text src (run_of (ntop6_best ?w))
        = tl (seg_words (take b ?w)) @ ''::'' @ tl (seg_words (drop (b + l) ?w))"
      using False b by (auto simp: ipv6_text_def Let_def run_of_def)
    moreover have "fst (ntop6_best ?w) \<noteq> - 1 \<and> fst (ntop6_best ?w) + snd (ntop6_best ?w) = 8 \<longleftrightarrow> b + l = 8"
      using b by auto
    ultimately show ?thesis unfolding inet_ntop6_def Let_def f sum.case
      by (cases "b + l = 8") auto
  qed
qed

subsection \<open>Properties\<close>

text \<open>
  C34: What \<open>inet_aton\<close> makes of decimal numbers below \<open>2 ^ 64\<close> (larger ones wrap around in its accumulator) joined by dots,
  possibly with text after a blank: at most
  four parts, all but the last at most 255, the last within the bits that remain. The
  single-number form has no upper bound: its value is taken modulo \<open>2 ^ 32\<close>.
\<close>

theorem inet_aton_accepts:
  assumes "ns \<noteq> []" "\<forall>n\<in>set ns. n < 2 ^ 64" "aton_trailer s"
  shows "inet_aton (dotted ns @ s) =
    (if length ns \<le> 4 \<and> (\<forall>n\<in>set (butlast ns). n \<le> 0xff)
        \<and> (length ns \<noteq> 1 \<longrightarrow> last ns < 256 ^ (5 - length ns))
     then Some (net_bytes (of_nat (quad_value ns))) else None)"
  using assms by (rule inet_aton_dotted)

theorem inet_aton_accepts_witness:
  "inet_aton (dotted [10, 1, 65535] @ '' #'') = Some (net_bytes (of_nat (65535 + (1 + 10 * 256) * 65536)))
    \<and> inet_aton (dotted [10, 256, 1] @ []) = None"
  using inet_aton_accepts [of "[10, 1, 65535]" "'' #''"] inet_aton_accepts [of "[10, 256, 1]" "[]"]
  by (simp add: aton_trailer_def c_isspace_def quad_value_def)

text \<open>
  Formatting an IPv4 address and parsing the text gives the address back, whenever the buffer
  has the 16 bytes the longest text needs; a buffer too short for the text is refused with \<open>ENOSPC\<close>.
\<close>

theorem inet_ntop4_roundtrip:
  assumes "length a = 4"
  shows "(16 \<le> sz \<longrightarrow> (\<exists>t. inet_ntop AF_INET a sz = Inr t \<and> inet_aton t = Some a \<and> inet_addr t = a))
    \<and> (inet_ntop AF_INET a sz = Inl ENOSPC \<longleftrightarrow> sz \<le> length (ntop4_text a))"
  using ntop4_text_length [of a] inet_aton_ntop4 [OF assms]
  by (auto simp: inet_ntop4_def Let_def inet_addr_def)

theorem inet_ntop4_roundtrip_witness:
  "\<exists>t. inet_ntop AF_INET [192, 168, 0, 1] 16 = Inr t \<and> inet_aton t = Some [192, 168, 0, 1]"
  using inet_ntop4_roundtrip [of "[192, 168, 0, 1]" 16] by auto

text \<open>The run that the text abbreviates: the first among the longest runs of at least two zero words, and none when no two
  adjacent words are zero.\<close>

definition longest_zero_run :: "uint32 list \<Rightarrow> (nat \<times> nat) option \<Rightarrow> bool" where
  "longest_zero_run ws run \<longleftrightarrow>
     (case run of
        None \<Rightarrow> \<not> (\<exists>b. zero_run ws b 2)
      | Some (b, l) \<Rightarrow> 2 \<le> l \<and> zero_run ws b l \<and> (\<forall>b' l'. zero_run ws b' l' \<longrightarrow> l' \<le> l \<and> (b' < b \<longrightarrow> l' < l)))"

lemma zero_run_sub: "zero_run ws b l \<Longrightarrow> m \<le> l \<Longrightarrow> zero_run ws b m"
  by (auto simp: zero_run_def)

lemma longest_zero_run_unique:
  assumes "longest_zero_run ws r" "longest_zero_run ws r'"
  shows "r = r'"
proof (cases r)
  case None
  then show ?thesis using assms zero_run_sub by (fastforce simp: longest_zero_run_def split: option.splits)
next
  case (Some p)
  obtain b l where p: "r = Some (b, l)" using Some by (cases p) auto
  obtain b' l' where p': "r' = Some (b', l')"
    using assms p zero_run_sub [of ws b l 2] by (cases r') (auto simp: longest_zero_run_def)
  have r: "zero_run ws b l" "\<And>c m. zero_run ws c m \<Longrightarrow> m \<le> l \<and> (c < b \<longrightarrow> m < l)" using assms(1) p by (simp_all add: longest_zero_run_def)
  have r': "zero_run ws b' l'" "\<And>c m. zero_run ws c m \<Longrightarrow> m \<le> l' \<and> (c < b' \<longrightarrow> m < l')" using assms(2) p' by (simp_all add: longest_zero_run_def)
  have "l = l'" using r(2) [OF r'(1)] r'(2) [OF r(1)] by simp
  moreover have "b = b'" using r(2) [OF r'(1)] r'(2) [OF r(1)] \<open>l = l'\<close> by (cases b b' rule: linorder_cases) simp_all
  ultimately show ?thesis by (simp add: p p')
qed

lemma ntop6_best_run: "longest_zero_run (ntop6_words src) (run_of (ntop6_best (ntop6_words src)))"
proof -
  obtain base len where b: "ntop6_best (ntop6_words src) = (base, len)" by fastforce
  note L = ntop6_best_longest [OF b]
  show ?thesis
  proof (cases "base = - 1")
    case True
    then show ?thesis using L b by (simp add: longest_zero_run_def run_of_def)
  next
    case False
    then have l: "0 \<le> base" "2 \<le> len" "zero_run (ntop6_words src) (nat base) (nat len)"
      "\<And>b l. zero_run (ntop6_words src) b l \<Longrightarrow> int l \<le> len \<and> (int b < base \<longrightarrow> int l < len)" using L by simp_all
    have "l' \<le> nat len \<and> (b' < nat base \<longrightarrow> l' < nat len)" if "zero_run (ntop6_words src) b' l'" for b' l'
      using l(4) [OF that] l(1,2) by linarith
    then show ?thesis using False l(1-3) b by (simp add: longest_zero_run_def run_of_def)
  qed
qed

lemma ntop6_words_value: "map unat (ntop6_words src) = map (\<lambda>i. 256 * unat (src ! (2 * i)) + unat (src ! (2 * i + 1))) [0..<8]"
proof -
  have "unat (push_bit 8 (ucast x) OR ucast y :: uint32) = 256 * unat x + unat y" for x y :: uint8
  proof -
    have "push_bit 8 (ucast x) AND ucast y = (0 :: uint32)" by (rule bit_word_eqI) (auto simp: bit_simps dest: bit_imp_le_length)
    then have "push_bit 8 (ucast x) OR ucast y = (push_bit 8 (ucast x) + ucast y :: uint32)" by (simp add: disjunctive_add_eq_or)
    also have "\<dots> = of_nat (256 * unat x + unat y)" by (simp add: push_bit_eq_mult)
    finally have e: "push_bit 8 (ucast x) OR ucast y = (of_nat (256 * unat x + unat y) :: uint32)" .
    have "unat x < 2 ^ LENGTH(8)" "unat y < 2 ^ LENGTH(8)" by (rule unsigned_less)+
    then have "256 * unat x + unat y < 2 ^ LENGTH(32)" by simp
    then show ?thesis unfolding e by (simp only: unat_of_nat mod_less)
  qed
  then show ?thesis by (simp add: ntop6_words_def)
qed

text \<open>
  C35: \<open>inet_ntop6\<close> writes the eight words of the address, most significant byte first, in hexadecimal, with the first
  among the longest runs of at least two zero words, if there is one, replaced by a double colon. The last 32 bits are
  written in dotted form exactly when that run is the first six words, or the first five words and the sixth is
  \<open>ffff\<close>; when it is the first seven words, they are in hexadecimal. The text has at most 39 characters, so the 46
  byte buffer never overflows and the embedded IPv4 conversion never fails; the only error is a destination too short
  for the text and its terminator.
\<close>

theorem inet_ntop6_format:
  "\<exists>run t. longest_zero_run (ntop6_words src) run
    \<and> map unat (ntop6_words src) = map (\<lambda>i. 256 * unat (src ! (2 * i)) + unat (src ! (2 * i + 1))) [0..<8]
    \<and> t = ipv6_text src run \<and> length t \<le> 39 \<and> length t < tmp6_size
    \<and> inet_ntop AF_INET6 src sz = (if sz < length t + 1 then Inl ENOSPC else Inr t)"
proof -
  have "length (ipv6_text src (run_of (ntop6_best (ntop6_words src)))) \<le> 39"
    by (rule ntop6_best_cases [of src]; rule ipv6_text_length) (auto simp: run_of_def)
  then show ?thesis using ntop6_best_run ntop6_words_value [of src]
    by (intro exI [of _ "run_of (ntop6_best (ntop6_words src))"]) (simp add: inet_ntop6_text Let_def tmp6_size_def)
qed

end
