(* ===== verification/Websearchfs_Lists.thy ===== *)
theory Websearchfs_Lists
  imports Prelude
begin

text \<open>
  The singly linked lists of the web search file system:
  \<^verbatim>\<open>src/add-ons/kernel/file_systems/websearchfs/lists.c\<close> (the link is the first field of the
  object) and \<^verbatim>\<open>lists2.c\<close> (the link is at an offset the caller gives). The model keeps the store of
  link cells explicit, because the functions work on it through pointers to pointers. The loops that
  follow links may run forever on a cyclic list; they are partial functions, and the results show
  that on every well-linked list they return. The locale \<open>linked_list\<close> holds the contract both modules
  share; it is interpreted for each of them.
\<close>

subsection \<open>Memory\<close>

text \<open>
  A pointer is an address or \<open>NULL\<close>. The link cells are a function from the address of the
  cell to the pointer stored there; \<open>*head\<close> is the field \<open>l_head\<close>. The variable \<open>prev\<close> of the loops
  points either at \<open>*head\<close> or at a link cell.
\<close>

type_synonym ptr = "nat option"

record lstate =
  l_head :: ptr
  l_cell :: "nat \<Rightarrow> ptr"

datatype cell_ref = HeadCell | LinkCell nat

fun store :: "lstate \<Rightarrow> cell_ref \<Rightarrow> ptr \<Rightarrow> lstate" where
  "store s HeadCell p = s\<lparr>l_head := p\<rparr>"
| "store s (LinkCell a) p = s\<lparr>l_cell := (l_cell s)(a := p)\<rparr>"

declare store.simps [simp del]

lemma store_simps [simp]:
  "l_head (store s HeadCell p) = p" "l_cell (store s HeadCell p) = l_cell s"
  "l_head (store s (LinkCell a) p) = l_head s" "l_cell (store s (LinkCell a) p) = (l_cell s)(a := p)"
  by (simp_all add: store.simps)

subsection \<open>\<open>lists.c\<close>: lists linked through the first field\<close>

definition slist_init :: "lstate \<Rightarrow> nat \<Rightarrow> lstate" where
  "slist_init s item = store s (LinkCell item) None"

definition slist_uninit :: "lstate \<Rightarrow> nat \<Rightarrow> lstate" where
  "slist_uninit s item = store s (LinkCell item) None"

partial_function (option) slist_find_loop :: "lstate \<Rightarrow> (nat \<Rightarrow> int) \<Rightarrow> ptr \<Rightarrow> ptr option" where
  "slist_find_loop s func p =
     (case p of None \<Rightarrow> Some None
      | Some a \<Rightarrow> if func a = 0 then Some (Some a) else slist_find_loop s func (l_cell s a))"

definition slist_find :: "lstate \<Rightarrow> (nat \<Rightarrow> int) \<Rightarrow> ptr option" where
  "slist_find s func = (if l_head s = None then Some None else slist_find_loop s func (l_head s))"

text \<open>\<open>have_head\<close> is \<open>head != NULL\<close>.\<close>

definition slist_insert_head :: "bool \<Rightarrow> lstate \<Rightarrow> ptr \<Rightarrow> status \<times> lstate" where
  "slist_insert_head have_head s item =
     (case item of
        None \<Rightarrow> (EINVAL, s)
      | Some a \<Rightarrow>
          if \<not> have_head then (EINVAL, s)
          else
            let nxt = (if l_head s \<noteq> None then l_head s else None);
                s = store s (LinkCell a) nxt
            in (B_OK, store s HeadCell (Some a)))"

partial_function (option) slist_tail_loop :: "lstate \<Rightarrow> cell_ref \<Rightarrow> nat \<Rightarrow> (lstate \<times> ptr) option" where
  "slist_tail_loop s prev cur =
     (case l_cell s cur of
        None \<Rightarrow> Some (store s prev None, Some cur)
      | Some a \<Rightarrow> slist_tail_loop s (LinkCell cur) a)"

definition slist_dequeue_tail :: "bool \<Rightarrow> lstate \<Rightarrow> (lstate \<times> ptr) option" where
  "slist_dequeue_tail have_head s =
     (if \<not> have_head then Some (s, None)
      else case l_head s of None \<Rightarrow> Some (s, None) | Some a \<Rightarrow> slist_tail_loop s HeadCell a)"

partial_function (option) slist_remove_loop :: "lstate \<Rightarrow> nat \<Rightarrow> cell_ref \<Rightarrow> ptr \<Rightarrow> (status \<times> lstate) option" where
  "slist_remove_loop s item prev cur =
     (if cur = None then Some (ENOENT, s)
      else if the cur = item
      then Some (B_OK, store (store s prev (l_cell s (the cur))) (LinkCell (the cur)) None)
      else slist_remove_loop s item (LinkCell (the cur)) (l_cell s (the cur)))"

definition slist_remove :: "bool \<Rightarrow> lstate \<Rightarrow> ptr \<Rightarrow> (status \<times> lstate) option" where
  "slist_remove have_head s item =
     (case item of
        None \<Rightarrow> Some (EINVAL, s)
      | Some a \<Rightarrow>
          if \<not> have_head \<or> l_head s = None then Some (EINVAL, s)
          else slist_remove_loop s a HeadCell (l_head s))"

definition slist_next :: "lstate \<Rightarrow> ptr \<Rightarrow> ptr" where
  "slist_next s item =
     (case item of None \<Rightarrow> None | Some a \<Rightarrow> if l_cell s a = None then None else l_cell s a)"

subsection \<open>\<open>lists2.c\<close>: lists linked through a field at a given offset\<close>

text \<open>
  Here the link of the object at \<open>a\<close> is the cell at \<open>a + nextoff\<close>. \<open>sll_find\<close> gives up after
  5000 nodes; its counter is an \<open>int\<close> that is tested before it is decremented.
\<close>

definition sll_next :: "nat \<Rightarrow> lstate \<Rightarrow> ptr \<Rightarrow> ptr" where
  "sll_next nextoff s item = (case item of None \<Rightarrow> None | Some a \<Rightarrow> l_cell s (a + nextoff))"

fun sll_find_loop :: "nat \<Rightarrow> lstate \<Rightarrow> (nat \<Rightarrow> int) \<Rightarrow> nat \<Rightarrow> ptr \<Rightarrow> ptr" where
  "sll_find_loop nextoff s func cnt None = None"
| "sll_find_loop nextoff s func cnt (Some a) =
     (if func a = 0 then Some a
      else
        let p = sll_next nextoff s (Some a) in
        case cnt of 0 \<Rightarrow> None | Suc cnt \<Rightarrow> sll_find_loop nextoff s func cnt p)"

definition sll_find :: "nat \<Rightarrow> lstate \<Rightarrow> (nat \<Rightarrow> int) \<Rightarrow> ptr" where
  "sll_find nextoff s func =
     (if l_head s = None then None else sll_find_loop nextoff s func 5000 (l_head s))"

definition sll_insert_head :: "nat \<Rightarrow> bool \<Rightarrow> lstate \<Rightarrow> ptr \<Rightarrow> status \<times> lstate" where
  "sll_insert_head nextoff have_head s item =
     (case item of
        None \<Rightarrow> (EINVAL, s)
      | Some a \<Rightarrow>
          if \<not> have_head then (EINVAL, s)
          else
            let nxt = (if l_head s \<noteq> None then l_head s else None);
                s = store s (LinkCell (a + nextoff)) nxt
            in (B_OK, store s HeadCell (Some a)))"

partial_function (option) sll_last_loop :: "nat \<Rightarrow> lstate \<Rightarrow> nat \<Rightarrow> nat option" where
  "sll_last_loop nextoff s p =
     (case sll_next nextoff s (Some p) of None \<Rightarrow> Some p | Some q \<Rightarrow> sll_last_loop nextoff s q)"

definition sll_insert_tail :: "nat \<Rightarrow> bool \<Rightarrow> lstate \<Rightarrow> ptr \<Rightarrow> (status \<times> lstate) option" where
  "sll_insert_tail nextoff have_head s item =
     (case item of
        None \<Rightarrow> Some (EINVAL, s)
      | Some a \<Rightarrow>
          if \<not> have_head then Some (EINVAL, s)
          else
            let s = (if l_cell s (a + nextoff) \<noteq> None then store s (LinkCell (a + nextoff)) None else s)
            in case l_head s of
                 None \<Rightarrow> Some (B_OK, store s HeadCell (Some a))
               | Some p \<Rightarrow>
                   (case sll_last_loop nextoff s p of
                      None \<Rightarrow> None
                    | Some q \<Rightarrow> Some (B_OK, store s (LinkCell (q + nextoff)) (Some a))))"

partial_function (option) sll_tail_loop :: "nat \<Rightarrow> lstate \<Rightarrow> cell_ref \<Rightarrow> nat \<Rightarrow> (lstate \<times> ptr) option" where
  "sll_tail_loop nextoff s prev cur =
     (case sll_next nextoff s (Some cur) of
        None \<Rightarrow> Some (store s prev None, Some cur)
      | Some a \<Rightarrow> sll_tail_loop nextoff s (LinkCell (cur + nextoff)) a)"

definition sll_dequeue_tail :: "nat \<Rightarrow> bool \<Rightarrow> lstate \<Rightarrow> (lstate \<times> ptr) option" where
  "sll_dequeue_tail nextoff have_head s =
     (if \<not> have_head then Some (s, None)
      else case l_head s of None \<Rightarrow> Some (s, None) | Some a \<Rightarrow> sll_tail_loop nextoff s HeadCell a)"

partial_function (option) sll_remove_loop ::
  "nat \<Rightarrow> lstate \<Rightarrow> nat \<Rightarrow> cell_ref \<Rightarrow> ptr \<Rightarrow> (status \<times> lstate) option" where
  "sll_remove_loop nextoff s item prev cur =
     (if cur = None then Some (ENOENT, s)
      else if the cur = item
      then Some (B_OK, store (store s prev (sll_next nextoff s cur)) (LinkCell (item + nextoff)) None)
      else sll_remove_loop nextoff s item (LinkCell (the cur + nextoff)) (sll_next nextoff s cur))"

definition sll_remove :: "nat \<Rightarrow> bool \<Rightarrow> lstate \<Rightarrow> ptr \<Rightarrow> (status \<times> lstate) option" where
  "sll_remove nextoff have_head s item =
     (case item of
        None \<Rightarrow> Some (EINVAL, s)
      | Some a \<Rightarrow>
          if \<not> have_head \<or> l_head s = None then Some (EINVAL, s)
          else sll_remove_loop nextoff s a HeadCell (l_head s))"

subsection \<open>What a state represents\<close>

fun chain :: "(nat \<Rightarrow> ptr) \<Rightarrow> ptr \<Rightarrow> nat list \<Rightarrow> bool" where
  "chain nx p [] \<longleftrightarrow> p = None"
| "chain nx p (x # xs) \<longleftrightarrow> p = Some x \<and> chain nx (nx x) xs"

definition represents :: "nat \<Rightarrow> lstate \<Rightarrow> nat list \<Rightarrow> bool" where
  "represents off s xs \<longleftrightarrow> chain (\<lambda>a. l_cell s (a + off)) (l_head s) xs"

lemma chain_unique: "chain nx p xs \<Longrightarrow> chain nx p ys \<Longrightarrow> xs = ys"
proof (induction xs arbitrary: p ys)
  case (Cons x xs)
  then show ?case by (cases ys) auto
next
  case Nil
  then show ?case by (cases ys) auto
qed

lemma chain_suffix: "chain nx p (xs @ x # ys) \<Longrightarrow> chain nx (Some x) (x # ys)"
  by (induction xs arbitrary: p) auto

lemma chain_distinct: "chain nx p xs \<Longrightarrow> distinct xs"
proof (rule ccontr)
  assume c: "chain nx p xs" and "\<not> distinct xs"
  then obtain us x vs ws where "xs = us @ [x] @ vs @ [x] @ ws" by (blast dest: not_distinct_decomp)
  then have "chain nx (Some x) (x # vs @ [x] @ ws)" "chain nx (Some x) (x # ws)"
    using c chain_suffix [of nx p us x "vs @ [x] @ ws"] chain_suffix [of nx p "us @ [x] @ vs" x ws] by simp_all
  then have "x # vs @ [x] @ ws = x # ws" by (rule chain_unique)
  then show False by simp
qed

lemma chain_frame: "\<forall>x\<in>set xs. nx' x = nx x \<Longrightarrow> chain nx' p xs = chain nx p xs"
  by (induction xs arbitrary: p) auto

lemma chain_cut:
  "chain nx p (us @ a # vs) \<Longrightarrow> us \<noteq> [] \<Longrightarrow> chain (nx(last us := q)) q ws
    \<Longrightarrow> last us \<notin> set ws \<Longrightarrow> chain (nx(last us := q)) p (us @ ws)"
proof (induction us arbitrary: p)
  case (Cons u us)
  have d: "distinct (u # us)" using chain_distinct [OF Cons.prems(1)] by simp
  show ?case
  proof (cases "us = []")
    case True
    with Cons.prems show ?thesis by simp
  next
    case False
    with d have "u \<noteq> last us" by auto
    with Cons False show ?thesis by auto
  qed
qed simp

lemma chain_snoc:
  "chain nx p xs \<Longrightarrow> xs \<noteq> [] \<Longrightarrow> nx a = None \<Longrightarrow> a \<notin> set xs
    \<Longrightarrow> chain (nx(last xs := Some a)) p (xs @ [a])"
proof (induction xs arbitrary: p)
  case (Cons x xs)
  have d: "distinct (x # xs)" using chain_distinct [OF Cons.prems(1)] .
  show ?case
  proof (cases "xs = []")
    case False
    with d have "x \<noteq> last xs" by auto
    with Cons False show ?thesis by auto
  qed (use Cons in auto)
qed simp

lemma cell_upd: "(\<lambda>x. ((l_cell s)(a + off := q)) (x + off)) = (\<lambda>x. l_cell s (x + off))(a := q)"
  by (auto simp: fun_eq_iff)

lemma represents_store_head: "represents off (store s HeadCell p) xs \<longleftrightarrow> chain (\<lambda>a. l_cell s (a + off)) p xs"
  by (simp add: represents_def)

lemma represents_store_link:
  "represents off (store s (LinkCell (a + off)) q) xs \<longleftrightarrow> chain ((\<lambda>x. l_cell s (x + off))(a := q)) (l_head s) xs"
  unfolding represents_def cell_upd [symmetric] by simp

definition cell_after :: "nat \<Rightarrow> cell_ref \<Rightarrow> nat list \<Rightarrow> cell_ref" where
  "cell_after off prev us = (if us = [] then prev else LinkCell (last us + off))"

text \<open>Taking \<open>n\<close> items with a dequeue operation.\<close>

fun drain :: "(lstate \<Rightarrow> (lstate \<times> ptr) option) \<Rightarrow> nat \<Rightarrow> lstate \<Rightarrow> nat list" where
  "drain deq 0 s = []"
| "drain deq (Suc n) s = (case deq s of Some (s', Some a) \<Rightarrow> a # drain deq n s' | _ \<Rightarrow> [])"

subsection \<open>The contract of both list modules\<close>

text \<open>
  Both modules have the same operations on different link cells. The locale states the equations
  their operations share; the contract is proved from them once.
\<close>

locale linked_list =
  fixes off :: nat
    and insert_head :: "bool \<Rightarrow> lstate \<Rightarrow> ptr \<Rightarrow> status \<times> lstate"
    and dequeue_tail :: "bool \<Rightarrow> lstate \<Rightarrow> (lstate \<times> ptr) option"
    and remove :: "bool \<Rightarrow> lstate \<Rightarrow> ptr \<Rightarrow> (status \<times> lstate) option"
    and tail_loop :: "lstate \<Rightarrow> cell_ref \<Rightarrow> nat \<Rightarrow> (lstate \<times> ptr) option"
    and remove_loop :: "lstate \<Rightarrow> nat \<Rightarrow> cell_ref \<Rightarrow> ptr \<Rightarrow> (status \<times> lstate) option"
  assumes insert_eq: "insert_head True s (Some a)
      = (B_OK, store (store s (LinkCell (a + off)) (l_head s)) HeadCell (Some a))"
    and dequeue_eq: "dequeue_tail True s
      = (case l_head s of None \<Rightarrow> Some (s, None) | Some a \<Rightarrow> tail_loop s HeadCell a)"
    and remove_eq: "remove True s (Some a)
      = (if l_head s = None then Some (EINVAL, s) else remove_loop s a HeadCell (l_head s))"
    and tail_eq: "tail_loop s prev c
      = (case l_cell s (c + off) of None \<Rightarrow> Some (store s prev None, Some c)
         | Some a \<Rightarrow> tail_loop s (LinkCell (c + off)) a)"
    and remove_loop_eq: "remove_loop s item prev p
      = (case p of None \<Rightarrow> Some (ENOENT, s)
         | Some a \<Rightarrow>
             if a = item then Some (B_OK, store (store s prev (l_cell s (a + off))) (LinkCell (a + off)) None)
             else remove_loop s item (LinkCell (a + off)) (l_cell s (a + off)))"
begin

lemma insert_head_represents:
  assumes "represents off s xs" "a \<notin> set xs"
  shows "fst (insert_head True s (Some a)) = B_OK \<and> represents off (snd (insert_head True s (Some a))) (a # xs)"
proof -
  have "chain ((\<lambda>x. l_cell s (x + off))(a := l_head s)) (l_head s) xs"
    using assms by (subst chain_frame) (auto simp: represents_def)
  then have "chain (\<lambda>x. ((l_cell s)(a + off := l_head s)) (x + off)) (Some a) (a # xs)"
    unfolding cell_upd by simp
  then show ?thesis by (simp add: insert_eq represents_store_head)
qed

lemma tail_loop_walk:
  "chain (\<lambda>a. l_cell s (a + off)) (Some c) (us @ [x])
    \<Longrightarrow> tail_loop s prev c = Some (store s (cell_after off prev us) None, Some x)"
proof (induction us arbitrary: prev c)
  case Nil
  then show ?case by (subst tail_eq) (simp add: cell_after_def)
next
  case (Cons u us)
  then obtain d where d: "l_cell s (c + off) = Some d" by (cases us) auto
  have u: "u = c" "chain (\<lambda>a. l_cell s (a + off)) (Some d) (us @ [x])"
    using Cons.prems d by simp_all
  have "tail_loop s prev c = tail_loop s (LinkCell (c + off)) d" by (subst tail_eq) (simp add: d)
  also have "\<dots> = Some (store s (cell_after off (LinkCell (c + off)) us) None, Some x)"
    using u(2) by (rule Cons.IH)
  finally show ?case using u(1) by (simp add: cell_after_def)
qed

lemma dequeue_tail_represents:
  assumes "represents off s (us @ [x])"
  shows "\<exists>s'. dequeue_tail True s = Some (s', Some x) \<and> represents off s' us"
proof -
  have c: "chain (\<lambda>a. l_cell s (a + off)) (l_head s) (us @ [x])" using assms by (simp add: represents_def)
  then obtain h where h: "l_head s = Some h" by (cases us) auto
  have "dequeue_tail True s = Some (store s (cell_after off HeadCell us) None, Some x)"
    using tail_loop_walk [of s h us x HeadCell] c by (simp add: dequeue_eq h)
  moreover have "represents off (store s (cell_after off HeadCell us) None) us"
  proof (cases "us = []")
    case False
    then show ?thesis
      using chain_cut [OF c, of None "[]"] by (simp add: cell_after_def represents_store_link)
  qed (simp add: cell_after_def represents_def)
  ultimately show ?thesis by blast
qed

lemma dequeue_tail_empty: "represents off s [] \<Longrightarrow> dequeue_tail True s = Some (s, None)"
  by (simp add: dequeue_eq represents_def)

lemma remove_loop_absent:
  "chain (\<lambda>a. l_cell s (a + off)) p xs \<Longrightarrow> item \<notin> set xs \<Longrightarrow> remove_loop s item prev p = Some (ENOENT, s)"
proof (induction xs arbitrary: p prev)
  case Nil
  then show ?case by (subst remove_loop_eq) simp
next
  case (Cons x xs)
  then show ?case by (subst remove_loop_eq) simp
qed

lemma remove_loop_present:
  "chain (\<lambda>a. l_cell s (a + off)) p (us @ item # vs) \<Longrightarrow> item \<notin> set us
    \<Longrightarrow> remove_loop s item prev p = Some (B_OK, store (store s (cell_after off prev us) (l_cell s (item + off)))
          (LinkCell (item + off)) None)"
proof (induction us arbitrary: p prev)
  case Nil
  then show ?case by (subst remove_loop_eq) (simp add: cell_after_def)
next
  case (Cons u us)
  then show ?case by (subst remove_loop_eq) (simp add: cell_after_def)
qed

lemma remove_represents:
  assumes "represents off s (us @ a # vs)"
  shows "\<exists>s'. remove True s (Some a) = Some (B_OK, s') \<and> represents off s' (us @ vs) \<and> l_cell s' (a + off) = None"
proof -
  let ?nx = "\<lambda>x. l_cell s (x + off)"
  have c: "chain ?nx (l_head s) (us @ a # vs)" using assms by (simp add: represents_def)
  have d: "distinct (us @ a # vs)" using c by (rule chain_distinct)
  have v: "chain ?nx (?nx a) vs" using chain_suffix [OF c] by simp
  define s1 where "s1 = store s (cell_after off HeadCell us) (?nx a)"
  have "remove True s (Some a) = Some (B_OK, store s1 (LinkCell (a + off)) None)"
    using remove_loop_present [OF c, of HeadCell] d c unfolding s1_def remove_eq by (cases us) auto
  moreover have "represents off s1 (us @ vs)"
  proof (cases "us = []")
    case True
    then show ?thesis using v by (simp add: s1_def cell_after_def represents_def)
  next
    case False
    then have "last us \<notin> set vs" using d by (metis disjoint_iff distinct_append last_in_set list.set_intros(2))
    moreover from this have "chain (?nx(last us := ?nx a)) (?nx a) vs" using v by (subst chain_frame) auto
    ultimately show ?thesis using chain_cut [OF c False] False
      by (simp add: s1_def cell_after_def represents_store_link)
  qed
  then have "represents off (store s1 (LinkCell (a + off)) None) (us @ vs)"
    unfolding represents_store_link using d by (subst chain_frame) (auto simp: represents_def)
  ultimately show ?thesis by auto
qed

lemma remove_absent:
  assumes "represents off s xs" "a \<notin> set xs"
  shows "remove True s (Some a) = Some (if xs = [] then EINVAL else ENOENT, s)"
  using assms remove_loop_absent [of s "l_head s" xs a HeadCell]
  by (cases xs) (auto simp: remove_eq represents_def)

text \<open>Inserting at the head and taking from the tail is first in, first out.\<close>

lemma insert_all_represents:
  assumes "represents off s xs" "distinct (rev ys @ xs)"
  shows "represents off (fold (\<lambda>a s. snd (insert_head True s (Some a))) ys s) (rev ys @ xs)"
  using assms
proof (induction ys arbitrary: s xs)
  case (Cons y ys)
  then have "represents off (snd (insert_head True s (Some y))) (y # xs)"
    using insert_head_represents by simp
  from Cons.IH [OF this] Cons.prems(2) show ?case by simp
qed simp

lemma drain_represents:
  "represents off s xs \<Longrightarrow> drain (dequeue_tail True) (length xs) s = rev xs"
proof (induction xs arbitrary: s rule: rev_induct)
  case (snoc x xs)
  then obtain s' where "dequeue_tail True s = Some (s', Some x)" "represents off s' xs"
    using dequeue_tail_represents by blast
  with snoc.IH show ?case by simp
qed simp

lemma fifo:
  assumes "represents off s []" "distinct ys"
  shows "drain (dequeue_tail True) (length ys) (fold (\<lambda>a s. snd (insert_head True s (Some a))) ys s) = ys"
  using drain_represents [OF insert_all_represents [OF assms(1), of ys]] assms(2) by simp

end

interpretation sl: linked_list 0 slist_insert_head slist_dequeue_tail slist_remove slist_tail_loop slist_remove_loop
proof
  show "slist_tail_loop s prev c = (case l_cell s (c + 0) of None \<Rightarrow> Some (store s prev None, Some c)
      | Some a \<Rightarrow> slist_tail_loop s (LinkCell (c + 0)) a)" for s prev c
    by (subst slist_tail_loop.simps) (simp split: option.split)
  show "slist_remove_loop s item prev p = (case p of None \<Rightarrow> Some (ENOENT, s)
      | Some a \<Rightarrow> if a = item then Some (B_OK, store (store s prev (l_cell s (a + 0))) (LinkCell (a + 0)) None)
        else slist_remove_loop s item (LinkCell (a + 0)) (l_cell s (a + 0)))" for s item prev p
    by (subst slist_remove_loop.simps) (simp split: option.split)
qed (simp_all add: slist_insert_head_def slist_dequeue_tail_def slist_remove_def)

interpretation sll: linked_list nextoff "sll_insert_head nextoff" "sll_dequeue_tail nextoff"
  "sll_remove nextoff" "sll_tail_loop nextoff" "sll_remove_loop nextoff" for nextoff
proof
  show "sll_tail_loop nextoff s prev c = (case l_cell s (c + nextoff) of None \<Rightarrow> Some (store s prev None, Some c)
      | Some a \<Rightarrow> sll_tail_loop nextoff s (LinkCell (c + nextoff)) a)" for s prev c
    by (subst sll_tail_loop.simps) (simp add: sll_next_def)
  show "sll_remove_loop nextoff s item prev p = (case p of None \<Rightarrow> Some (ENOENT, s)
      | Some a \<Rightarrow> if a = item
          then Some (B_OK, store (store s prev (l_cell s (a + nextoff))) (LinkCell (a + nextoff)) None)
          else sll_remove_loop nextoff s item (LinkCell (a + nextoff)) (l_cell s (a + nextoff)))" for s item prev p
    by (subst sll_remove_loop.simps) (simp add: sll_next_def split: option.split)
qed (simp_all add: sll_insert_head_def sll_dequeue_tail_def sll_remove_def)

lemma slist_find_chain:
  "chain (l_cell s) p xs \<Longrightarrow> slist_find_loop s func p = Some (find (\<lambda>a. func a = 0) xs)"
  by (induction xs arbitrary: p) (simp_all add: slist_find_loop.simps)

lemma sll_find_chain:
  "chain (\<lambda>a. l_cell s (a + off)) p xs
    \<Longrightarrow> sll_find_loop off s func n p = find (\<lambda>a. func a = 0) (take (Suc n) xs)"
proof (induction xs arbitrary: p n)
  case (Cons x xs)
  then show ?case by (cases n; cases xs) (auto simp: sll_next_def)
qed simp

lemma sll_last_chain:
  "chain (\<lambda>a. l_cell s (a + off)) (Some p) xs \<Longrightarrow> sll_last_loop off s p = Some (last xs)"
proof (induction xs arbitrary: p)
  case (Cons x xs)
  then show ?case by (cases xs; subst sll_last_loop.simps) (auto simp: sll_next_def)
qed simp

lemma sll_insert_tail_represents:
  assumes "represents off s xs" "a \<notin> set xs"
  shows "\<exists>s'. sll_insert_tail off True s (Some a) = Some (B_OK, s') \<and> represents off s' (xs @ [a])"
proof -
  define s1 where "s1 = (if l_cell s (a + off) \<noteq> None then store s (LinkCell (a + off)) None else s)"
  let ?nx = "\<lambda>x. l_cell s1 (x + off)"
  have n: "?nx a = None" "l_head s1 = l_head s" by (simp_all add: s1_def)
  have c: "chain ?nx (l_head s) xs"
    using assms by (subst chain_frame [of _ _ "\<lambda>x. l_cell s (x + off)"]) (auto simp: s1_def represents_def)
  have e: "sll_insert_tail off True s (Some a) = (case l_head s1 of None \<Rightarrow> Some (B_OK, store s1 HeadCell (Some a))
      | Some p \<Rightarrow> (case sll_last_loop off s1 p of None \<Rightarrow> None
         | Some q \<Rightarrow> Some (B_OK, store s1 (LinkCell (q + off)) (Some a))))"
    unfolding s1_def by (auto simp: sll_insert_tail_def Let_def)
  show ?thesis
  proof (cases xs)
    case Nil
    with c n show ?thesis by (simp add: e represents_store_head)
  next
    case (Cons x ys)
    then have h: "l_head s1 = Some x" using c n by simp
    have "sll_insert_tail off True s (Some a) = Some (B_OK, store s1 (LinkCell (last xs + off)) (Some a))"
    proof -
      have "chain ?nx (Some x) xs" using c n(2) h by metis
      then have l: "sll_last_loop off s1 x = Some (last xs)" by (rule sll_last_chain)
      show ?thesis unfolding e h option.case l ..
    qed
    moreover have "represents off (store s1 (LinkCell (last xs + off)) (Some a)) (xs @ [a])"
      unfolding represents_store_link using c n Cons assms(2) by (intro chain_snoc) simp_all
    ultimately show ?thesis by blast
  qed
qed

subsection \<open>Properties\<close>

text \<open>
  Both list modules are queues when used as the callers do: items inserted at the head of an
  empty list leave at the tail in the order they came, for a link in the first field and for
  a link at any offset. The loops that look for the tail end.
\<close>

theorem lists_fifo:
  assumes "l_head s = None" "distinct ys"
  shows "drain (slist_dequeue_tail True) (length ys) (fold (\<lambda>a s. snd (slist_insert_head True s (Some a))) ys s) = ys
    \<and> drain (sll_dequeue_tail off True) (length ys) (fold (\<lambda>a s. snd (sll_insert_head off True s (Some a))) ys s) = ys"
  using sl.fifo [OF _ assms(2)] sll.fifo [OF _ assms(2)] assms(1) by (simp add: represents_def)

theorem lists_fifo_witness:
  "drain (slist_dequeue_tail True) 3 (fold (\<lambda>a s. snd (slist_insert_head True s (Some a))) [16, 48, 32]
     \<lparr>l_head = None, l_cell = \<lambda>a. Some 7\<rparr>) = [16, 48, 32]"
  using lists_fifo [of "\<lparr>l_head = None, l_cell = \<lambda>a. Some 7\<rparr>" "[16, 48, 32]" 0] by (simp add: eval_nat_numeral)

text \<open>
  \<open>slist_remove\<close> and \<open>sll_remove\<close> unlink exactly the given item wherever it stands, keep the
  order of the others, clear its link and report \<open>B_OK\<close>; an item that is not in the
  list leaves the list as it is with \<open>ENOENT\<close>, and an empty list gives \<open>EINVAL\<close>.
\<close>

theorem lists_remove:
  assumes "represents 0 s xs" "represents off t ys"
  shows "(a \<in> set xs \<longrightarrow> (\<exists>s'. slist_remove True s (Some a) = Some (B_OK, s')
        \<and> represents 0 s' (remove1 a xs) \<and> l_cell s' a = None))
    \<and> (a \<notin> set xs \<longrightarrow> slist_remove True s (Some a) = Some (if xs = [] then EINVAL else ENOENT, s))
    \<and> (a \<in> set ys \<longrightarrow> (\<exists>t'. sll_remove off True t (Some a) = Some (B_OK, t')
        \<and> represents off t' (remove1 a ys) \<and> l_cell t' (a + off) = None))
    \<and> (a \<notin> set ys \<longrightarrow> sll_remove off True t (Some a) = Some (if ys = [] then EINVAL else ENOENT, t))"
proof -
  have r: "\<exists>us vs. zs = us @ a # vs \<and> remove1 a zs = us @ vs" if "a \<in> set zs" for zs
    using that by (metis remove1_append remove1.simps(2) split_list_first)
  show ?thesis
    using r [of xs] r [of ys] sl.remove_represents sll.remove_represents sl.remove_absent [OF assms(1)]
      sll.remove_absent [OF assms(2)] assms by (metis add.right_neutral)
qed

theorem lists_remove_witness:
  "\<exists>s'. slist_remove True \<lparr>l_head = Some 1, l_cell = [1 \<mapsto> 2, 2 \<mapsto> 3]\<rparr> (Some 2) = Some (B_OK, s') \<and> represents 0 s' [1, 3]"
proof -
  have "represents 0 \<lparr>l_head = Some 1, l_cell = [1 \<mapsto> 2, 2 \<mapsto> 3]\<rparr> [1, 2, 3]" by (simp add: represents_def)
  from lists_remove [OF this this, of 2] show ?thesis by auto
qed

text \<open>
  \<open>slist_find\<close> returns the first item the comparison accepts, or \<open>NULL\<close>, on lists of any
  length; \<open>sll_find\<close> does so among the first 5001 items only, the bound it uses against cycles.
\<close>

lemma lists_find:
  assumes "represents 0 s xs" "represents off t ys"
  shows "slist_find s func = Some (find (\<lambda>a. func a = 0) xs)
    \<and> sll_find off t func = find (\<lambda>a. func a = 0) (take 5001 ys)"
proof -
  have "take 5001 ys = take (Suc 5000) ys" by simp
  then show ?thesis
    using slist_find_chain [of s "l_head s" xs func] sll_find_chain [of t off "l_head t" ys func 5000] assms
    by (cases xs; cases ys) (auto simp: slist_find_def sll_find_def represents_def)
qed

lemma lists_find_example:
  "slist_find \<lparr>l_head = Some 1, l_cell = [1 \<mapsto> 2, 2 \<mapsto> 3]\<rparr> (\<lambda>a. if a = 3 then 0 else 1) = Some (Some 3)"
proof -
  have "represents 0 \<lparr>l_head = Some 1, l_cell = [1 \<mapsto> 2, 2 \<mapsto> 3]\<rparr> [1, 2, 3]" by (simp add: represents_def)
  from lists_find [OF this this, of "\<lambda>a. if a = 3 then 0 else 1"] show ?thesis by simp
qed

end
