(* ===== verification/Websearchfs_Store.thy ===== *)
theory Websearchfs_Store
  imports Prelude
begin

text \<open>
  Three small stores of the web search file system: the ring buffer of \<^verbatim>\<open>ringbuff.c\<close>, the pool of
  node identifiers of \<^verbatim>\<open>vnidpool.c\<close> and the text conversions of \<^verbatim>\<open>string_utils.c\<close>. The ring
  buffer implements the byte queue interface \<open>byte_fifo\<close>; the identifier pool is modelled with its macros
  as they are written, where the bit is selected by the next identifier, and with the bitmap it
  allocates: an access outside of it is a result of its own. The conversions are modelled with
  the size of the buffers they allocate. Identifiers and the 32-bit counter of the search for a free
  one are natural numbers: they do not wrap.
\<close>

subsection \<open>The ring buffer\<close>

text \<open>
  \<open>rb_data\<close> is the flexible array behind the structure. \<open>None\<close> stands for a \<open>NULL\<close> pointer \<open>rb\<close>.
  The modulo in \<open>rb_write\<close> is computed before any test.
\<close>

record ring_buffer =
  rb_size :: nat
  rb_current :: nat
  rb_avail :: nat
  rb_data :: "uint8 list"

definition rb_init :: "ring_buffer \<Rightarrow> nat \<Rightarrow> ring_buffer" where
  "rb_init rb n = rb\<lparr>rb_size := n, rb_current := 0, rb_avail := 0\<rparr>"

definition rb_clear :: "ring_buffer \<Rightarrow> ring_buffer" where
  "rb_clear rb = rb\<lparr>rb_avail := 0, rb_current := 0\<rparr>"

definition rb_can_write :: "ring_buffer option \<Rightarrow> nat" where
  "rb_can_write r = (case r of None \<Rightarrow> 0 | Some rb \<Rightarrow> rb_size rb - rb_avail rb)"

definition rb_can_read :: "ring_buffer option \<Rightarrow> nat" where
  "rb_can_read r = (case r of None \<Rightarrow> 0 | Some rb \<Rightarrow> rb_avail rb)"

definition splice :: "uint8 list \<Rightarrow> nat \<Rightarrow> uint8 list \<Rightarrow> uint8 list" where
  "splice xs i ys = take i xs @ ys @ drop (i + length ys) xs"

text \<open>\<open>memcpy(dst + i, src, n)\<close> into \<open>xs\<close>.\<close>

definition rb_write :: "ring_buffer option \<Rightarrow> uint8 list \<Rightarrow> nat \<Rightarrow> ring_buffer option \<times> nat" where
  "rb_write r bytes len0 =
     (case r of
        None \<Rightarrow> (None, 0)
      | Some rb \<Rightarrow>
          let index = (rb_current rb + rb_avail rb) mod rb_size rb;
              towrite = min len0 (rb_can_write (Some rb))
          in if towrite < 1 then (Some rb, 0)
             else
               let len = min (rb_size rb - index) towrite;
                   rb = rb\<lparr>rb_data := splice (rb_data rb) index (take len bytes),
                           rb_avail := rb_avail rb + len\<rparr>;
                   written = len
               in if len < towrite
                  then
                    let towrite = towrite - len;
                        len = min towrite (rb_can_write (Some rb));
                        rb = rb\<lparr>rb_data := splice (rb_data rb) 0 (take len (drop written bytes)),
                                rb_avail := rb_avail rb + len\<rparr>
                    in (Some rb, written + len)
                  else (Some rb, written))"

definition rb_read :: "ring_buffer option \<Rightarrow> nat \<Rightarrow> ring_buffer option \<times> uint8 list" where
  "rb_read r len0 =
     (case r of
        None \<Rightarrow> (None, [])
      | Some rb \<Rightarrow>
          let index = rb_current rb;
              toread = min len0 (rb_can_read (Some rb))
          in if toread < 1 then (Some rb, [])
             else
               let len = min (rb_size rb - index) toread;
                   got = take len (drop index (rb_data rb));
                   rb = rb\<lparr>rb_avail := rb_avail rb - len, rb_current := rb_current rb + len\<rparr>
               in if len < toread
                  then
                    let toread = toread - len;
                        len = min toread (rb_can_read (Some rb));
                        more = take len (rb_data rb);
                        rb = rb\<lparr>rb_current := len, rb_avail := rb_avail rb - len\<rparr>
                    in (Some rb, got @ more)
                  else (Some rb, got))"

definition rb_inv :: "ring_buffer \<Rightarrow> bool" where
  "rb_inv rb \<longleftrightarrow> 0 < rb_size rb \<and> rb_current rb \<le> rb_size rb \<and> rb_avail rb \<le> rb_size rb
     \<and> length (rb_data rb) = rb_size rb"

text \<open>The bytes in the buffer, oldest first.\<close>

definition rb_contents :: "ring_buffer \<Rightarrow> uint8 list" where
  "rb_contents rb = take (rb_avail rb) (drop (rb_current rb) (rb_data rb) @ rb_data rb)"

lemma length_splice [simp]: "i + length ys \<le> length xs \<Longrightarrow> length (splice xs i ys) = length xs"
  by (simp add: splice_def)

lemma rb_contents_length [simp]: "rb_inv rb \<Longrightarrow> length (rb_contents rb) = rb_avail rb"
  by (auto simp: rb_contents_def rb_inv_def)

lemma rb_contents_nth:
  assumes "rb_inv rb" "i < rb_avail rb"
  shows "rb_contents rb ! i = rb_data rb ! ((rb_current rb + i) mod rb_size rb)"
proof (cases "rb_current rb + i < rb_size rb")
  case True
  with assms show ?thesis by (auto simp: rb_contents_def rb_inv_def nth_append)
next
  case False
  then have "(rb_current rb + i) mod rb_size rb = rb_current rb + i - rb_size rb"
    using assms by (subst mod_if) (auto simp: rb_inv_def mod_if)
  with False assms show ?thesis
    by (auto simp: rb_contents_def rb_inv_def nth_append add.commute)
qed

lemma splice_nth:
  "i + length ys \<le> length xs \<Longrightarrow> j < length xs
    \<Longrightarrow> splice xs i ys ! j = (if i \<le> j \<and> j < i + length ys then ys ! (j - i) else xs ! j)"
  by (auto simp: splice_def nth_append)

lemma mod_step: "x mod n + t < n \<Longrightarrow> (x + t) mod n = x mod n + (t :: nat)"
  by (metis mod_add_left_eq mod_less)

lemma mod_neq:
  assumes "x < y" "y < x + n" shows "x mod n \<noteq> y mod (n :: nat)"
proof
  assume "x mod n = y mod n"
  then have "n dvd y - x" using assms by (metis less_imp_le mod_eq_dvd_iff_nat)
  moreover have "0 < y - x" "y - x < n" using assms by auto
  ultimately show False by (metis dvd_imp_le not_less)
qed

text \<open>One copy that does not cross the end of the array appends to the contents.\<close>

lemma append_chunk:
  assumes "rb_inv rb" and i: "i = (rb_current rb + rb_avail rb) mod rb_size rb"
    and "i + length ys \<le> rb_size rb" "rb_avail rb + length ys \<le> rb_size rb"
    and rb': "rb' = rb\<lparr>rb_data := splice (rb_data rb) i ys, rb_avail := rb_avail rb + length ys\<rparr>"
  shows "rb_inv rb' \<and> rb_contents rb' = rb_contents rb @ ys"
proof -
  let ?n = "rb_size rb"
  have inv: "rb_inv rb'" using assms by (auto simp: rb_inv_def)
  have n: "0 < ?n" "length (rb_data rb) = ?n" using assms(1) by (auto simp: rb_inv_def)
  have "rb_contents rb' = rb_contents rb @ ys"
  proof (rule nth_equalityI)
    show "length (rb_contents rb') = length (rb_contents rb @ ys)" using inv assms(1) by (simp add: rb')
    fix k assume "k < length (rb_contents rb')"
    then have k: "k < rb_avail rb + length ys" using inv by (simp add: rb')
    define j where "j = (rb_current rb + k) mod ?n"
    have j: "j < ?n" using n by (simp add: j_def)
    have c: "rb_contents rb' ! k = splice (rb_data rb) i ys ! j"
      using rb_contents_nth [OF inv, of k] k by (simp add: rb' j_def)
    show "rb_contents rb' ! k = (rb_contents rb @ ys) ! k"
    proof (cases "k < rb_avail rb")
      case True
      have o: "\<not> (i \<le> j \<and> j < i + length ys)"
      proof
        assume r: "i \<le> j \<and> j < i + length ys"
        define t where "t = j - i"
        have t: "j = i + t" "t < length ys" using r by (auto simp: t_def)
        have "(rb_current rb + rb_avail rb + t) mod ?n = j"
          using mod_step [of "rb_current rb + rb_avail rb" ?n t] t j by (simp add: i)
        moreover have "(rb_current rb + k) mod ?n \<noteq> (rb_current rb + rb_avail rb + t) mod ?n"
          using True t assms(4) by (intro mod_neq) auto
        ultimately show False by (simp add: j_def)
      qed
      have "rb_contents rb ! k = rb_data rb ! j" using rb_contents_nth [OF assms(1) True] by (simp add: j_def)
      moreover have "rb_contents rb' ! k = rb_data rb ! j"
        unfolding c using o j n assms(3) by (subst splice_nth) auto
      ultimately show ?thesis using True assms(1) by (simp add: nth_append)
    next
      case False
      define t where "t = k - rb_avail rb"
      have t: "k = rb_avail rb + t" "t < length ys" using False k by (auto simp: t_def)
      have jt: "j = i + t"
        using mod_step [of "rb_current rb + rb_avail rb" ?n t] t assms(3) by (simp add: j_def i add.assoc)
      have "splice (rb_data rb) i ys ! j = ys ! t"
        using jt t j n assms(3) by (subst splice_nth) auto
      then show ?thesis using c t assms(1) by (simp add: nth_append)
    qed
  qed
  with inv show ?thesis ..
qed

lemma rb_write_appends:
  assumes "rb_inv rb" "len \<le> length bytes"
    and n: "n = min len (rb_size rb - rb_avail rb)"
  shows "\<exists>rb'. rb_write (Some rb) bytes len = (Some rb', n) \<and> rb_inv rb'
    \<and> rb_contents rb' = rb_contents rb @ take n bytes"
proof (cases "n = 0")
  case True
  then show ?thesis using assms by (simp add: rb_write_def rb_can_write_def)
next
  case False
  define i where "i = (rb_current rb + rb_avail rb) mod rb_size rb"
  define m where "m = min (rb_size rb - i) n"
  define rb1 where "rb1 = rb\<lparr>rb_data := splice (rb_data rb) i (take m bytes), rb_avail := rb_avail rb + m\<rparr>"
  have sz: "0 < rb_size rb" "i < rb_size rb" using assms(1) by (auto simp: rb_inv_def i_def)
  have lm: "length (take m bytes) = m" "m \<le> n" using assms(2) by (auto simp: m_def n)
  have h1: "i + m \<le> rb_size rb" "rb_avail rb + m \<le> rb_size rb"
    using sz assms(1) by (auto simp: m_def n rb_inv_def min_def)
  have W: "rb_write (Some rb) bytes len = (if m < n
      then (Some (rb1\<lparr>rb_data := splice (rb_data rb1) 0 (take (min (n - m) (rb_size rb1 - rb_avail rb1)) (drop m bytes)),
                 rb_avail := rb_avail rb1 + min (n - m) (rb_size rb1 - rb_avail rb1)\<rparr>),
            m + min (n - m) (rb_size rb1 - rb_avail rb1))
      else (Some rb1, m))"
    using False unfolding rb_write_def Let_def option.case rb_can_write_def
      n [symmetric] i_def [symmetric] m_def [symmetric] rb1_def [symmetric] by simp
  have rb1: "rb_inv rb1" "rb_contents rb1 = rb_contents rb @ take m bytes"
    using append_chunk [OF assms(1) i_def, of "take m bytes" rb1] lm h1 by (simp_all add: rb1_def)
  show ?thesis
  proof (cases "m < n")
    case F: False
    then have "rb_write (Some rb) bytes len = (Some rb1, n)" using lm(2) by (simp add: W)
    with rb1 F lm show ?thesis by simp
  next
    case True
    then have m: "m = rb_size rb - i" by (auto simp: m_def)
    define rb2 where "rb2 = rb1\<lparr>rb_data := splice (rb_data rb1) 0 (take (n - m) (drop m bytes)), rb_avail := rb_avail rb1 + (n - m)\<rparr>"
    have s1: "rb_size rb1 = rb_size rb" "rb_avail rb1 = rb_avail rb + m" "rb_current rb1 = rb_current rb"
      by (simp_all add: rb1_def)
    have "(rb_current rb + rb_avail rb + m) mod rb_size rb = (i + m) mod rb_size rb"
      by (simp add: i_def mod_add_left_eq)
    then have i0: "0 = (rb_current rb1 + rb_avail rb1) mod rb_size rb1"
      using sz m by (simp add: s1 add.assoc)
    have ln: "length (take (n - m) (drop m bytes)) = n - m" using assms(2) by (simp add: n)
    have "n \<le> rb_size rb" "rb_avail rb + n \<le> rb_size rb"
      using assms(1) by (auto simp: n rb_inv_def min_def)
    then have h2: "0 + (n - m) \<le> rb_size rb1" "rb_avail rb1 + (n - m) \<le> rb_size rb1"
      using True by (auto simp: s1)
    have rb2: "rb_inv rb2" "rb_contents rb2 = rb_contents rb1 @ take (n - m) (drop m bytes)"
      using append_chunk [OF rb1(1) i0, of "take (n - m) (drop m bytes)" rb2] ln h2 by (simp_all add: rb2_def)
    have c: "min (n - m) (rb_size rb1 - rb_avail rb1) = n - m" using h2 by simp
    have "rb_write (Some rb) bytes len = (Some rb2, m + (n - m))"
      using True unfolding W c rb2_def by simp
    moreover have "take m bytes @ take (n - m) (drop m bytes) = take n bytes"
      using True by (metis le_add_diff_inverse less_imp_le take_add)
    ultimately show ?thesis using rb1 rb2 True by simp
  qed
qed

lemma rb_read_takes:
  assumes "rb_inv rb" and n: "n = min len (rb_avail rb)"
  shows "\<exists>rb'. rb_read (Some rb) len = (Some rb', take n (rb_contents rb)) \<and> rb_inv rb'
    \<and> rb_contents rb' = drop n (rb_contents rb)"
proof (cases "n = 0")
  case True
  then show ?thesis using assms by (simp add: rb_read_def rb_can_read_def)
next
  case False
  define m where "m = min (rb_size rb - rb_current rb) n"
  have inv: "0 < rb_size rb" "rb_current rb \<le> rb_size rb" "rb_avail rb \<le> rb_size rb" "length (rb_data rb) = rb_size rb"
    using assms(1) by (auto simp: rb_inv_def)
  have R: "rb_read (Some rb) len = (if m < n
      then (Some (rb\<lparr>rb_avail := rb_avail rb - m - min (n - m) (rb_avail rb - m), rb_current := min (n - m) (rb_avail rb - m)\<rparr>),
            take m (drop (rb_current rb) (rb_data rb)) @ take (min (n - m) (rb_avail rb - m)) (rb_data rb))
      else (Some (rb\<lparr>rb_avail := rb_avail rb - m, rb_current := rb_current rb + m\<rparr>),
            take m (drop (rb_current rb) (rb_data rb))))"
    using False unfolding rb_read_def Let_def option.case rb_can_read_def
      n [symmetric] m_def [symmetric] by simp
  have na: "n \<le> rb_avail rb" by (simp add: n)
  show ?thesis
  proof (cases "m < n")
    case F: False
    then have m: "m = n" "n \<le> rb_size rb - rb_current rb" by (auto simp: m_def)
    define rb1 where "rb1 = rb\<lparr>rb_avail := rb_avail rb - n, rb_current := rb_current rb + n\<rparr>"
    have "rb_read (Some rb) len = (Some rb1, take n (drop (rb_current rb) (rb_data rb)))"
      using m(1) by (simp add: R rb1_def)
    moreover have "take n (rb_contents rb) = take n (drop (rb_current rb) (rb_data rb))"
      using m inv na by (simp add: rb_contents_def)
    moreover have "rb_inv rb1" using inv m na by (auto simp: rb_inv_def rb1_def)
    moreover have "rb_contents rb1 = drop n (rb_contents rb)"
      using m inv na by (simp add: rb_contents_def rb1_def drop_take add.commute)
    ultimately show ?thesis by simp
  next
    case True
    then have m: "m = rb_size rb - rb_current rb" by (auto simp: m_def)
    define rb2 where "rb2 = rb\<lparr>rb_avail := rb_avail rb - n, rb_current := n - m\<rparr>"
    have c: "min (n - m) (rb_avail rb - m) = n - m" using na by simp
    have "rb_read (Some rb) len
        = (Some rb2, take m (drop (rb_current rb) (rb_data rb)) @ take (n - m) (rb_data rb))"
      using True by (simp add: R c rb2_def)
    moreover have "take n (rb_contents rb) = take m (drop (rb_current rb) (rb_data rb)) @ take (n - m) (rb_data rb)"
      using m inv na True by (simp add: rb_contents_def)
    moreover have "rb_inv rb2" using inv m na True by (auto simp: rb_inv_def rb2_def)
    moreover have "rb_contents rb2 = drop n (rb_contents rb)"
      using m inv na True by (auto simp: rb_contents_def rb2_def drop_take)
    ultimately show ?thesis by simp
  qed
qed

text \<open>A client: a sequence of calls, and their answers, the number of bytes accepted or the bytes delivered.\<close>

datatype io = Put "uint8 list" | Get nat
datatype answer = Accepted nat | Delivered "uint8 list"

fun io_run :: "('s \<Rightarrow> uint8 list \<Rightarrow> nat \<Rightarrow> 's \<times> nat) \<Rightarrow> ('s \<Rightarrow> nat \<Rightarrow> 's \<times> uint8 list)
    \<Rightarrow> 's \<Rightarrow> io list \<Rightarrow> 's \<times> answer list" where
  "io_run wr rd s [] = (s, [])"
| "io_run wr rd s (Put bs # ops) =
     (let (s1, n) = wr s bs (length bs); (s2, as) = io_run wr rd s1 ops in (s2, Accepted n # as))"
| "io_run wr rd s (Get n # ops) =
     (let (s1, got) = rd s n; (s2, as) = io_run wr rd s1 ops in (s2, Delivered got # as))"

text \<open>The abstract queue of at most \<open>cap\<close> bytes: it accepts what there is room for, and delivers the oldest bytes, as
  many as asked for or as there are.\<close>

fun fifo_run :: "nat \<Rightarrow> uint8 list \<Rightarrow> io list \<Rightarrow> uint8 list \<times> answer list" where
  "fifo_run cap q [] = (q, [])"
| "fifo_run cap q (Put bs # ops) =
     (let n = min (length bs) (cap - length q); (q', as) = fifo_run cap (q @ take n bs) ops in (q', Accepted n # as))"
| "fifo_run cap q (Get n # ops) =
     (let k = min n (length q); (q', as) = fifo_run cap (drop k q) ops in (q', Delivered (take k q) # as))"

locale byte_fifo =
  fixes cap :: nat and inv :: "'s \<Rightarrow> bool" and contents :: "'s \<Rightarrow> uint8 list"
    and wr :: "'s \<Rightarrow> uint8 list \<Rightarrow> nat \<Rightarrow> 's \<times> nat" and rd :: "'s \<Rightarrow> nat \<Rightarrow> 's \<times> uint8 list"
  assumes write_law: "inv s \<Longrightarrow> len \<le> length bs \<Longrightarrow> n = min len (cap - length (contents s)) \<Longrightarrow>
      \<exists>s'. wr s bs len = (s', n) \<and> inv s' \<and> contents s' = contents s @ take n bs"
    and read_law: "inv s \<Longrightarrow> n = min len (length (contents s)) \<Longrightarrow>
      \<exists>s'. rd s len = (s', take n (contents s)) \<and> inv s' \<and> contents s' = drop n (contents s)"
begin

text \<open>Every sequence of calls is answered as the queue answers it.\<close>

lemma fifo_run_refines:
  "inv s \<Longrightarrow> \<exists>s' as. io_run wr rd s ops = (s', as) \<and> inv s' \<and> fifo_run cap (contents s) ops = (contents s', as)"
proof (induction ops arbitrary: s)
  case (Cons a ops)
  show ?case
  proof (cases a)
    case (Put bs)
    define n where "n = min (length bs) (cap - length (contents s))"
    obtain s1 where s1: "wr s bs (length bs) = (s1, n)" "inv s1" "contents s1 = contents s @ take n bs"
      using write_law [OF Cons.prems _ n_def] by auto
    from Cons.IH [OF s1(2)] s1 show ?thesis by (auto simp: Put n_def [symmetric] Let_def)
  next
    case (Get len)
    define n where "n = min len (length (contents s))"
    obtain s1 where s1: "rd s len = (s1, take n (contents s))" "inv s1" "contents s1 = drop n (contents s)"
      using read_law [OF Cons.prems n_def] by auto
    from Cons.IH [OF s1(2)] s1 show ?thesis by (auto simp: Get n_def [symmetric] Let_def)
  qed
qed auto

end

lemma rb_size_kept:
  "rb_size (the (fst (rb_write (Some rb) bs len))) = rb_size rb" "rb_size (the (fst (rb_read (Some rb) len))) = rb_size rb"
  unfolding rb_write_def rb_read_def Let_def option.case by (simp_all split: if_split)

interpretation rb: byte_fifo cap "\<lambda>r. \<exists>rb. r = Some rb \<and> rb_inv rb \<and> rb_size rb = cap" "\<lambda>r. rb_contents (the r)" rb_write rb_read
  for cap
proof (unfold_locales, goal_cases)
  case (1 s len bs n)
  then obtain rb where s: "s = Some rb" "rb_inv rb" "rb_size rb = cap" by auto
  have n: "n = min len (rb_size rb - rb_avail rb)" using 1(3) s by simp
  obtain rb' where w: "rb_write (Some rb) bs len = (Some rb', n)" "rb_inv rb'" "rb_contents rb' = rb_contents rb @ take n bs"
    using rb_write_appends [OF s(2) 1(2) n] by blast
  then show ?case using s rb_size_kept(1) [of rb bs len] by (intro exI [of _ "Some rb'"]) simp
next
  case (2 s n len)
  then obtain rb where s: "s = Some rb" "rb_inv rb" "rb_size rb = cap" by auto
  have n: "n = min len (rb_avail rb)" using 2(2) s by simp
  obtain rb' where w: "rb_read (Some rb) len = (Some rb', take n (rb_contents rb))" "rb_inv rb'" "rb_contents rb' = drop n (rb_contents rb)"
    using rb_read_takes [OF s(2) n] by blast
  then show ?case using s rb_size_kept(2) [of rb len] by (intro exI [of _ "Some rb'"]) simp
qed

subsection \<open>Node identifiers\<close>

text \<open>
  \<open>vp_bitmap\<close> are the words that lie inside the allocated memory, which has \<open>vp_allocated\<close> bytes behind the structure.
  \<open>None\<close> is the access to a word that does not, and the remainder by a \<open>bmsize\<close> of 0.
\<close>

record vnidpool =
  nextvnid :: nat
  vp_bitmap :: "uint32 list"
  bmsize :: nat
  vp_allocated :: nat

definition BM_BYTE :: "vnidpool \<Rightarrow> nat \<Rightarrow> nat option" where
  "BM_BYTE p vnid =
     (if bmsize p = 0 then None
      else let i = (vnid mod bmsize p) div 4 in if i < length (vp_bitmap p) then Some i else None)"

definition BM_ISSET :: "vnidpool \<Rightarrow> nat \<Rightarrow> bool option" where
  "BM_ISSET p vnid = map_option (\<lambda>i. vp_bitmap p ! i AND push_bit (nextvnid p mod 4) 1 \<noteq> 0) (BM_BYTE p vnid)"

definition BM_SET :: "vnidpool \<Rightarrow> nat \<Rightarrow> vnidpool option" where
  "BM_SET p vnid =
     map_option (\<lambda>i. p\<lparr>vp_bitmap := (vp_bitmap p)[i := vp_bitmap p ! i OR push_bit (nextvnid p mod 4) 1]\<rparr>) (BM_BYTE p vnid)"

definition BM_UNSET :: "vnidpool \<Rightarrow> nat \<Rightarrow> vnidpool option" where
  "BM_UNSET p vnid =
     map_option (\<lambda>i. p\<lparr>vp_bitmap := (vp_bitmap p)[i := vp_bitmap p ! i AND NOT (push_bit (nextvnid p mod 4) 1)]\<rparr>) (BM_BYTE p vnid)"

text \<open>The rounding of the size is in \<open>size_t\<close>. The bytes of the bitmap are all set to 0; the bytes behind its last
  complete word, if any, are not part of \<open>vp_bitmap\<close>.\<close>

definition vnidpool_alloc :: "bool \<Rightarrow> bool \<Rightarrow> nat \<Rightarrow> status + vnidpool" where
  "vnidpool_alloc have_pool malloc_ok n =
     (if n < 2 then Inl EINVAL
      else if \<not> have_pool then Inl EINVAL
      else
        let n = (n + 4 - 1) mod 2 ^ 64 div 4;
            n = n * 4 mod 2 ^ 64
        in if \<not> malloc_ok then Inl B_NO_MEMORY
           else Inr \<lparr>nextvnid = 1, vp_bitmap = replicate (n div 4 div 4) 0, bmsize = n, vp_allocated = n div 4\<rparr>)"

function get_loop :: "vnidpool \<Rightarrow> nat \<Rightarrow> vnidpool option" where
  "get_loop p i =
     (case BM_ISSET p (nextvnid p) of
        None \<Rightarrow> None
      | Some isset \<Rightarrow>
          if isset \<and> i < bmsize p then get_loop (p\<lparr>nextvnid := nextvnid p + 1\<rparr>) (i + 1) else Some p)"
  by pat_completeness auto
termination by (relation "measure (\<lambda>(p, i). bmsize p - i)") auto

declare get_loop.simps [simp del]

definition vnidpool_get :: "bool \<Rightarrow> vnidpool option \<Rightarrow> (status \<times> nat option \<times> vnidpool option) option" where
  "vnidpool_get lock_ok pool =
     (case pool of
        None \<Rightarrow> Some (EINVAL, None, None)
      | Some p \<Rightarrow>
          if \<not> lock_ok then Some (B_ERROR, None, Some p)
          else
            Option.bind (get_loop p 0) (\<lambda>p.
            Option.bind (BM_ISSET p (nextvnid p)) (\<lambda>isset.
            if isset then Some (ENOBUFS, None, Some p)
            else
              Option.bind (BM_SET p (nextvnid p)) (\<lambda>p.
              Some (B_OK, Some (nextvnid p), Some (p\<lparr>nextvnid := nextvnid p + 1\<rparr>))))))"

definition vnidpool_put :: "bool \<Rightarrow> vnidpool option \<Rightarrow> nat \<Rightarrow> (status \<times> vnidpool option) option" where
  "vnidpool_put lock_ok pool vnid =
     (case pool of
        None \<Rightarrow> Some (EINVAL, None)
      | Some p \<Rightarrow>
          if \<not> lock_ok then Some (B_ERROR, Some p)
          else
            Option.bind (BM_ISSET p vnid) (\<lambda>isset.
            if \<not> isset then Some (EINVAL, Some p)
            else map_option (\<lambda>p. (B_OK, Some p)) (BM_UNSET p vnid)))"

text \<open>\<open>vnidpool_free\<close>: the result and the number of warnings.\<close>

definition vnidpool_free :: "bool \<Rightarrow> vnidpool option \<Rightarrow> (status \<times> nat) option" where
  "vnidpool_free lock_ok pool =
     (case pool of
        None \<Rightarrow> Some (EINVAL, 0)
      | Some p \<Rightarrow>
          if \<not> lock_ok then Some (B_ERROR, 0)
          else if length (vp_bitmap p) < bmsize p mod 4 then None
          else Some (B_OK, length (filter (\<lambda>i. vp_bitmap p ! i \<noteq> 0) [0..<bmsize p mod 4])))"

text \<open>\<open>k\<close> calls of \<open>vnidpool_get\<close> in a row, all of which have to succeed: the identifiers and the pool.\<close>

fun get_times :: "nat \<Rightarrow> vnidpool \<Rightarrow> (nat list \<times> vnidpool) option" where
  "get_times 0 p = Some ([], p)"
| "get_times (Suc k) p =
     (case vnidpool_get True (Some p) of
        Some (st, Some v, Some q) \<Rightarrow> if st = B_OK then map_option (\<lambda>(vs, r). (v # vs, r)) (get_times k q) else None
      | _ \<Rightarrow> None)"

lemma isset_bit:
  "BM_BYTE p v = Some i \<Longrightarrow> BM_ISSET p v = Some (bit (vp_bitmap p ! i) (nextvnid p mod 4))"
proof -
  have "(push_bit (nextvnid p mod 4) 1 :: uint32) = 2 ^ (nextvnid p mod 4)" by (simp add: push_bit_eq_mult)
  then show "BM_BYTE p v = Some i \<Longrightarrow> ?thesis" by (simp only: BM_ISSET_def and_exp_eq_0_iff_not_bit not_not option.map)
qed

text \<open>A pool that has handed out the identifiers below \<open>nextvnid\<close> in order, and nothing else.\<close>

definition pool_upto :: "vnidpool \<Rightarrow> bool" where
  "pool_upto p \<longleftrightarrow> 0 < nextvnid p \<and> 4 * length (vp_bitmap p) < bmsize p
     \<and> (\<forall>i<length (vp_bitmap p). \<forall>j<4. bit (vp_bitmap p ! i) j \<longleftrightarrow> 0 < 4 * i + j \<and> 4 * i + j < nextvnid p)"

lemma pool_upto_get:
  assumes inv: "pool_upto p" and v: "nextvnid p < 4 * length (vp_bitmap p)"
  shows "\<exists>q. vnidpool_get True (Some p) = Some (B_OK, Some (nextvnid p), Some q) \<and> pool_upto q
    \<and> nextvnid q = nextvnid p + 1 \<and> length (vp_bitmap q) = length (vp_bitmap p) \<and> bmsize q = bmsize p"
proof -
  define v i j where "v = nextvnid p" and "i = v div 4" and "j = v mod 4"
  have ij: "v = 4 * i + j" "j < 4" "i < length (vp_bitmap p)" using v by (auto simp: v_def i_def j_def less_mult_imp_div_less mult.commute)
  have b: "BM_BYTE p v = Some i" using inv v ij(3) by (auto simp: BM_BYTE_def pool_upto_def v_def i_def)
  have "\<not> bit (vp_bitmap p ! i) j" using inv ij by (auto simp: pool_upto_def v_def)
  then have s: "BM_ISSET p (nextvnid p) = Some False" using isset_bit [OF b] by (simp add: v_def j_def)
  then have g: "get_loop p 0 = Some p" by (subst get_loop.simps) simp
  define q where "q = p\<lparr>vp_bitmap := (vp_bitmap p)[i := vp_bitmap p ! i OR push_bit j 1], nextvnid := v + 1\<rparr>"
  have "vnidpool_get True (Some p) = Some (B_OK, Some (nextvnid p), Some q)"
    using g s b by (simp add: vnidpool_get_def BM_SET_def q_def v_def j_def)
  moreover have "pool_upto q"
  proof -
    have "bit ((vp_bitmap p)[i := vp_bitmap p ! i OR push_bit j 1] ! a) b \<longleftrightarrow> 0 < 4 * a + b \<and> 4 * a + b < v + 1"
      if "a < length (vp_bitmap p)" "b < 4" for a b
    proof -
      have "4 * a + b = v \<longleftrightarrow> a = i \<and> b = j" using ij that(2) by presburger
      moreover have "bit (vp_bitmap p ! a) b \<longleftrightarrow> 0 < 4 * a + b \<and> 4 * a + b < v" using inv that by (simp add: pool_upto_def v_def)
      moreover have "0 < v" using inv by (simp add: pool_upto_def v_def)
      ultimately show ?thesis using that(2) ij(3) by (auto simp: nth_list_update bit_simps)
    qed
    then show ?thesis using inv by (simp add: pool_upto_def q_def)
  qed
  ultimately show ?thesis by (simp add: q_def v_def)
qed

lemma pool_upto_outside:
  assumes "pool_upto p" "nextvnid p = 4 * length (vp_bitmap p) \<or> vp_bitmap p = []"
  shows "vnidpool_get True (Some p) = None"
proof -
  have "BM_BYTE p (nextvnid p) = None" using assms by (auto simp: BM_BYTE_def pool_upto_def)
  then have "get_loop p 0 = None" by (subst get_loop.simps) (simp add: BM_ISSET_def)
  then show ?thesis by (simp add: vnidpool_get_def)
qed

lemma pool_upto_gets:
  "pool_upto p \<Longrightarrow> nextvnid p + k \<le> 4 * length (vp_bitmap p) \<Longrightarrow>
   \<exists>q. get_times k p = Some ([nextvnid p..<nextvnid p + k], q) \<and> pool_upto q \<and> nextvnid q = nextvnid p + k
     \<and> length (vp_bitmap q) = length (vp_bitmap p)"
proof (induction k arbitrary: p)
  case (Suc k)
  then obtain q where q: "vnidpool_get True (Some p) = Some (B_OK, Some (nextvnid p), Some q)" "pool_upto q"
    "nextvnid q = nextvnid p + 1" "length (vp_bitmap q) = length (vp_bitmap p)" using pool_upto_get [of p] by auto
  from Suc.IH [OF q(2)] Suc.prems(2) q(3,4) obtain r where r: "get_times k q = Some ([nextvnid q..<nextvnid q + k], r)" "pool_upto r"
    "nextvnid r = nextvnid q + k" "length (vp_bitmap r) = length (vp_bitmap q)" by auto
  have "[nextvnid p..<nextvnid p + Suc k] = nextvnid p # [nextvnid q..<nextvnid q + k]" by (simp add: q(3) upt_conv_Cons)
  then show ?case using q r by (intro exI [of _ r]) simp
qed simp

lemma vnidpool_alloc_fresh:
  assumes "2 \<le> n" "n < 2 ^ 64 - 3" "vnidpool_alloc True True n = Inr p"
  shows "pool_upto p" "n \<le> bmsize p" "bmsize p < n + 4" "length (vp_bitmap p) = bmsize p div 16" "nextvnid p = 1"
    "vp_allocated p = bmsize p div 4"
proof -
  define k where "k = (n + 3) div 4"
  have k: "n \<le> 4 * k" "4 * k < n + 4" "1 \<le> k" using assms(1) by (simp_all add: k_def)
  have w: "(n + 3) mod 2 ^ 64 = n + 3" "4 * k < 2 ^ 64" using assms(2) k(2) by simp_all
  then have p: "p = \<lparr>nextvnid = 1, vp_bitmap = replicate (k div 4) 0, bmsize = 4 * k, vp_allocated = k\<rparr>"
    using assms(1,3) by (simp add: vnidpool_alloc_def Let_def k_def mult.commute add.commute)
  have "4 * k div 16 = k div 4" by simp
  with p show "length (vp_bitmap p) = bmsize p div 16" "nextvnid p = 1" "vp_allocated p = bmsize p div 4" by simp_all
  show "n \<le> bmsize p" "bmsize p < n + 4" using k by (simp_all add: p)
  have "4 * (k div 4) < 4 * k" using k(3) by simp
  then show "pool_upto p" by (auto simp: p pool_upto_def)
qed

lemma first_get_put:
  assumes "13 \<le> n" "n < 2 ^ 64 - 3" "vnidpool_alloc True True n = Inr p"
  shows "\<exists>q. vnidpool_get True (Some p) = Some (B_OK, Some 1, Some q) \<and> vnidpool_put True (Some q) 1 = Some (EINVAL, Some q)"
proof -
  have n: "2 \<le> n" using assms(1) by simp
  note a = vnidpool_alloc_fresh [OF n assms(2,3)]
  have "4 dvd bmsize p" using assms(1,3) by (auto simp: vnidpool_alloc_def Let_def intro: dvd_mod)
  then have "16 \<le> bmsize p" using a(2) assms(1) by auto
  then have len: "1 \<le> length (vp_bitmap p)" using a(4) by simp
  then obtain q where q: "vnidpool_get True (Some p) = Some (B_OK, Some 1, Some q)" "pool_upto q" "nextvnid q = 2"
    "length (vp_bitmap q) = length (vp_bitmap p)" "bmsize q = bmsize p" using pool_upto_get [OF a(1)] a(5) by auto
  have b: "BM_BYTE q 1 = Some 0" using len q(4,5) \<open>16 \<le> bmsize p\<close> by (auto simp: BM_BYTE_def)
  have "bit (vp_bitmap q ! 0) 2 \<longleftrightarrow> 0 < 4 * (0 :: nat) + 2 \<and> 4 * 0 + 2 < nextvnid q"
    using q(2,4) len by (simp only: pool_upto_def)
  then have "\<not> bit (vp_bitmap q ! 0) 2" using q(3) by simp
  then have "vnidpool_put True (Some q) 1 = Some (EINVAL, Some q)" using isset_bit [OF b] q(3) by (simp add: vnidpool_put_def)
  with q(1) show ?thesis by blast
qed

subsection \<open>Text conversion\<close>

definition allowed :: string where
  "allowed = ''abcdefghijklmnopqrstuvwxyzABCDEFGHIJKLMNOPQRSTUVWXYZ0123456789-_.!~*'' @ [CHR 0x27] @ ''()''"

definition HEX :: string where "HEX = ''0123456789ABCDEF''"

fun urlify_loop :: "string \<Rightarrow> string" where
  "urlify_loop [] = []"
| "urlify_loop (c # p) =
     (if c \<in> set allowed then c # urlify_loop p
      else if c = CHR '' '' then CHR ''+'' # urlify_loop p
      else CHR ''%'' # HEX ! (code c div 16 mod 16) # HEX ! (code c mod 16) # urlify_loop p)"

text \<open>
  \<open>None\<close> is a \<open>NULL\<close> result. Otherwise the pair of the number of bytes allocated for \<open>dst\<close> and the
  bytes stored there, including the terminator.
\<close>

definition urlify_string :: "bool \<Rightarrow> string option \<Rightarrow> (nat \<times> string) option" where
  "urlify_string malloc_ok str =
     (case str of
        None \<Rightarrow> None
      | Some s \<Rightarrow> if \<not> malloc_ok then None else Some (length s * 3, urlify_loop s @ [NUL]))"

text \<open>The table of named entities, with the UTF-8 bytes of its replacements.\<close>

definition entities_tab :: "(string \<times> string) list" where
  "entities_tab =
     [(''lt'', ''<''), (''gt'', ''>''), (''amp'', ''&''), (''nbsp'', '' ''), (''quot'', [CHR 0x22]),
      (''raquo'', [CHR 0xC2, CHR 0xBB]), (''ccedil'', [CHR 0xC3, CHR 0xA7]),
      (''agrave'', [CHR 0xC3, CHR 0xA0]), (''egrave'', [CHR 0xC3, CHR 0xA8]),
      (''eacute'', [CHR 0xC3, CHR 0xA9]), (''acirc'', [CHR 0xC3, CHR 0xA2]),
      (''ecirc'', [CHR 0xC3, CHR 0xAA]), (''icirc'', [CHR 0xC3, CHR 0xAE]),
      (''ocirc'', [CHR 0xC3, CHR 0xB4]), (''ucirc'', [CHR 0xC3, CHR 0xBB]),
      (''copy'', [CHR 0xC2, CHR 0xA9]), (''trade'', [CHR 0xE2, CHR 0x84, CHR 0xA2])]"

definition c_tolower :: "char \<Rightarrow> char" where
  "c_tolower c = (if 65 \<le> code c \<and> code c \<le> (90::nat) then char_of (code c + (32::nat)) else c)"

text \<open>\<open>strchr(hex, tolower(c)) - hex\<close> for the sixteen lower-case digits; \<open>None\<close> is \<open>NULL\<close>.\<close>

definition hex_index :: "char \<Rightarrow> nat option" where
  "hex_index c =
     (let d = code (c_tolower c) in
      if 48 \<le> d \<and> d \<le> 57 then Some (d - 48) else if 97 \<le> d \<and> d \<le> 102 then Some (d - 87) else None)"

definition dec :: "char \<Rightarrow> nat" where "dec c = code c - 48"

text \<open>The three forms of numeric references: two digits, three digits, two hexadecimal digits.\<close>

definition ref2 :: "string \<Rightarrow> bool" where
  "ref2 p \<longleftrightarrow> peek p 1 = CHR ''#'' \<and> peek p 2 \<noteq> NUL \<and> peek p 3 \<noteq> NUL \<and> peek p 4 = CHR '';''
     \<and> c_isdigit (peek p 2) \<and> c_isdigit (peek p 3)"

definition ref3 :: "string \<Rightarrow> bool" where
  "ref3 p \<longleftrightarrow> peek p 1 = CHR ''#'' \<and> peek p 2 \<noteq> NUL \<and> peek p 3 \<noteq> NUL \<and> peek p 4 \<noteq> NUL
     \<and> peek p 5 = CHR '';'' \<and> c_isdigit (peek p 2) \<and> c_isdigit (peek p 3) \<and> c_isdigit (peek p 4)"

definition refx :: "string \<Rightarrow> bool" where
  "refx p \<longleftrightarrow> peek p 1 = CHR ''#'' \<and> peek p 2 = CHR ''x'' \<and> peek p 3 \<noteq> NUL \<and> peek p 4 \<noteq> NUL
     \<and> peek p 5 = CHR '';'' \<and> hex_index (peek p 3) \<noteq> None \<and> hex_index (peek p 4) \<noteq> None"

text \<open>
  One iteration at a position whose first character is \<open>&\<close>: the bytes written and the number of
  characters consumed.
\<close>

definition entity_step :: "string \<Rightarrow> string \<times> nat" where
  "entity_step p =
     (if ref2 p then ([char_of (dec (peek p 2) * 10 + dec (peek p 3))], 5)
      else if ref3 p then ([char_of (dec (peek p 2) * 100 + dec (peek p 3) * 10 + dec (peek p 4))], 6)
      else if refx p then ([char_of (the (hex_index (peek p 3)) * 16 + the (hex_index (peek p 4)))], 6)
      else
        let buf = take 19 (drop 1 p) in
        if CHR '';'' \<notin> set buf then (take 1 p, 1)
        else
          let name = takeWhile (\<lambda>c. c \<noteq> CHR '';'') buf in
          case map_of entities_tab name of
            Some r \<Rightarrow> (r, length name + 2)
          | None \<Rightarrow> (''&'', 1))"

lemma takeWhile_shorter: "x \<in> set xs \<Longrightarrow> \<not> P x \<Longrightarrow> length (takeWhile P xs) < length xs"
  by (induction xs) auto

lemma entity_step_pos: "0 < snd (entity_step p)"
  by (auto simp: entity_step_def Let_def split: option.split)

function unentitify_loop :: "string \<Rightarrow> string" where
  "unentitify_loop p =
     (if p = [] then []
      else if hd p \<noteq> CHR ''&'' then hd p # unentitify_loop (tl p)
      else let (r, n) = entity_step p in r @ unentitify_loop (drop n p))"
  by pat_completeness auto
termination
proof (relation "measure length", goal_cases)
  case (3 p x r n)
  then show ?case using entity_step_pos [of p] by (cases "entity_step p") auto
qed auto

declare unentitify_loop.simps [simp del]

definition unentitify_string :: "bool \<Rightarrow> string option \<Rightarrow> (nat \<times> string) option" where
  "unentitify_string malloc_ok str =
     (case str of
        None \<Rightarrow> None
      | Some s \<Rightarrow> if \<not> malloc_ok then None else Some (length s + 2, unentitify_loop s @ [NUL]))"

text \<open>A reader of the escaped form.\<close>

definition hex_value :: "char \<Rightarrow> nat" where
  "hex_value c = (if code c < (58::nat) then code c - 48 else code c - 55)"

fun url_decode :: "string \<Rightarrow> string" where
  "url_decode [] = []"
| "url_decode (c # s) =
     (if c = CHR ''%''
      then (case s of a # b # r \<Rightarrow> char_of (hex_value a * 16 + hex_value b) # url_decode r | _ \<Rightarrow> [])
      else (if c = CHR ''+'' then CHR '' '' else c) # url_decode s)"

lemma hex_value_HEX: "n < 16 \<Longrightarrow> hex_value (HEX ! n) = n"
proof -
  have "\<forall>n\<in>set [0..<16]. hex_value (HEX ! n) = n" by (simp add: HEX_def hex_value_def upt_rec)
  then show "n < 16 \<Longrightarrow> hex_value (HEX ! n) = n" by simp
qed

lemma plus_percent_not_allowed: "CHR ''+'' \<notin> set allowed" "CHR ''%'' \<notin> set allowed" "CHR '' '' \<notin> set allowed"
  by (simp_all add: allowed_def)

lemma url_decode_urlify: "url_decode (urlify_loop s) = s"
proof (induction s)
  case (Cons c s)
  have "code c div (16::nat) < 16" using code_less_256 [of c] by (intro less_mult_imp_div_less) simp
  then have "code c div 16 mod 16 * 16 + code c mod 16 = (code c :: nat)" by simp
  then have "char_of (hex_value (HEX ! (code c div 16 mod 16)) * 16 + hex_value (HEX ! (code c mod 16))) = c"
    by (simp only: hex_value_HEX mod_less_divisor zero_less_numeral) simp
  with Cons show ?case using plus_percent_not_allowed by (auto simp del: char_of_eq_iff)
qed simp

definition escaped :: "char \<Rightarrow> bool" where
  "escaped c \<longleftrightarrow> c \<notin> set allowed \<and> c \<noteq> CHR '' ''"

lemma urlify_length: "length (urlify_loop s) = length s + 2 * length (filter escaped s)"
  by (induction s) (auto simp: escaped_def)

lemma entity_step_shrinks:
  assumes "p \<noteq> []" "entity_step p = (r, n)"
  shows "length r \<le> n \<and> n \<le> length p"
proof -
  define buf where "buf = take 19 (drop 1 p)"
  define nm where "nm = takeWhile (\<lambda>c. c \<noteq> CHR '';'') buf"
  have named: "length nm + 2 \<le> length p" if "CHR '';'' \<in> set buf"
  proof -
    have "length nm < length buf" unfolding nm_def using that by (rule takeWhile_shorter) simp
    then show ?thesis by (simp add: buf_def) linarith
  qed
  have tab: "length b \<le> length a + 2" if "map_of entities_tab a = Some b" for a b
  proof -
    have "\<forall>(a, b)\<in>set entities_tab. length b \<le> length a + 2" by (simp add: entities_tab_def)
    with map_of_SomeD [OF that] show ?thesis by auto
  qed
  have "i < length p" if "peek p i = CHR '';''" for i
    using that by (auto simp: peek_def NUL_eq_iff split: if_splits)
  then have refs: "ref2 p \<Longrightarrow> 4 < length p" "ref3 p \<Longrightarrow> 5 < length p" "refx p \<Longrightarrow> 5 < length p"
    by (simp_all add: ref2_def ref3_def refx_def)
  show ?thesis
    using assms named tab [of nm] refs
    unfolding entity_step_def buf_def [symmetric] Let_def nm_def [symmetric]
    by (cases p) (auto split: if_splits option.splits)
qed

lemma unentitify_length: "length (unentitify_loop p) \<le> length p"
proof (induction p rule: unentitify_loop.induct)
  case (1 p)
  show ?case
  proof (cases "p = []")
    case False
    show ?thesis
    proof (cases "hd p = CHR ''&''")
      case True
      obtain r n where e: "entity_step p = (r, n)" by fastforce
      have "length (unentitify_loop (drop n p)) \<le> length (drop n p)"
        using 1(2) [OF False _ e [symmetric] refl] True by simp
      then show ?thesis using entity_step_shrinks [OF False e] False True
        by (subst unentitify_loop.simps) (simp add: e, linarith)
    next
      case F: False
      then show ?thesis using 1(1) [OF False] False
        by (subst unentitify_loop.simps) (cases p, auto)
    qed
  qed (simp add: unentitify_loop.simps)
qed

lemma filter_escaped_all: "length (filter escaped s) = length s \<longleftrightarrow> (\<forall>c\<in>set s. escaped c)"
  by (metis filter_True length_filter_less nat_neq_iff)

subsection \<open>Properties\<close>

text \<open>
  C30: The ring buffer is a bounded byte queue: every sequence of writes and reads is answered exactly as the queue of
  the size of the buffer answers it. A write accepts its bytes as far as there is room, a read delivers the oldest
  bytes, as many as asked for or as there are, and the bytes inside are those of the queue.
\<close>

theorem ring_buffer_fifo:
  assumes "0 < n" "length (rb_data rb) = n" "io_run rb_write rb_read (Some (rb_init rb n)) ops = (r, answers)"
  shows "\<exists>rb'. r = Some rb' \<and> rb_inv rb' \<and> fifo_run n [] ops = (rb_contents rb', answers)"
proof -
  have "rb_inv (rb_init rb n)" "rb_contents (rb_init rb n) = []" "rb_size (rb_init rb n) = n"
    using assms(1,2) by (simp_all add: rb_inv_def rb_init_def rb_contents_def)
  then show ?thesis using rb.fifo_run_refines [of "Some (rb_init rb n)" n ops] assms(3) by auto
qed

theorem ring_buffer_fifo_witness:
  "\<exists>rb'. io_run rb_write rb_read
     (Some (rb_init \<lparr>rb_size = 0, rb_current = 9, rb_avail = 9, rb_data = [0, 0, 0, 0]\<rparr> 4))
     [Put [1, 2, 3], Get 2, Put [4, 5, 6, 7], Get 3]
     = (Some rb', [Accepted 3, Delivered [1, 2], Accepted 3, Delivered [3, 4, 5]]) \<and> rb_contents rb' = [6]"
proof -
  obtain r as where e: "io_run rb_write rb_read
     (Some (rb_init \<lparr>rb_size = 0, rb_current = 9, rb_avail = 9, rb_data = [0, 0, 0, 0]\<rparr> 4))
     [Put [1, 2, 3], Get 2, Put [4, 5, 6, 7], Get 3] = (r, as)" by fastforce
  from ring_buffer_fifo [OF _ _ e] e show ?thesis by auto
qed

text \<open>
  \<open>vnidpool_put\<close> does not give an identifier back: the bit it tests is selected by the next
  identifier and not by its argument, so on a fresh pool the identifier just obtained is
  refused with \<open>EINVAL\<close> and its slot stays in use.
\<close>

lemma vnidpool_put_refuses:
  assumes "13 \<le> n" "n < 2 ^ 64 - 3" "vnidpool_alloc True True n = Inr p"
  shows "\<exists>q. vnidpool_get True (Some p) = Some (B_OK, Some 1, Some q) \<and> vnidpool_put True (Some q) 1 = Some (EINVAL, Some q)"
  using assms by (rule first_get_put)

text \<open>
  C36: The bitmap of a pool holds only a quarter of its identifiers. \<open>vnidpool_alloc\<close> allocates a quarter of a byte for
  each of the \<open>bmsize\<close> identifiers, and a word of four bytes serves four of them. For every size, the calls of
  \<open>vnidpool_get\<close> on the new pool hand out the identifiers 1, 2, 3 and so on as long as their words lie inside of the
  allocated memory, and the next call accesses memory outside of it; this is so for all but at most a quarter of the
  identifiers, and for pools of fewer than 16 identifiers at the first call.
\<close>

theorem vnidpool_undersized:
  assumes "2 \<le> n" "n < 2 ^ 64 - 3" "vnidpool_alloc True True n = Inr p"
  shows "n \<le> bmsize p \<and> vp_allocated p = bmsize p div 4
    \<and> (\<exists>q. get_times (4 * (bmsize p div 16) - 1) p = Some ([1..<4 * (bmsize p div 16)], q) \<and> vnidpool_get True (Some q) = None)"
proof -
  note a = vnidpool_alloc_fresh [OF assms]
  let ?k = "4 * length (vp_bitmap p) - 1"
  have "\<exists>q. get_times ?k p = Some ([1..<4 * length (vp_bitmap p)], q) \<and> vnidpool_get True (Some q) = None"
  proof (cases "vp_bitmap p = []")
    case True
    then show ?thesis using pool_upto_outside [OF a(1)] by simp
  next
    case False
    then have e: "1 + ?k = 4 * length (vp_bitmap p)" by (cases "vp_bitmap p") simp_all
    obtain q where q: "get_times ?k p = Some ([1..<4 * length (vp_bitmap p)], q)" "pool_upto q" "nextvnid q = 4 * length (vp_bitmap q)"
      using pool_upto_gets [OF a(1), of ?k, unfolded a(5) e, OF order_refl] by metis
    with pool_upto_outside [OF q(2)] show ?thesis by blast
  qed
  then show ?thesis using a by simp
qed

theorem vnidpool_undersized_witness:
  "\<exists>p q. vnidpool_alloc True True 5000 = Inr p \<and> bmsize p = 5000 \<and> vp_allocated p = 1250
    \<and> get_times 1247 p = Some ([1..<1248], q) \<and> vnidpool_get True (Some q) = None"
proof -
  obtain p where p: "vnidpool_alloc True True 5000 = Inr p" "bmsize p = 5000" by (simp add: vnidpool_alloc_def Let_def)
  from vnidpool_undersized [OF _ _ p(1)] p show ?thesis by auto
qed

text \<open>
  C37: The URL form of a string decodes to the string. The bytes stored, with the
  terminator, fit the allocation exactly when at least one character is stored unescaped;
  for a string of only escaped characters, and for the empty string, the terminator is one
  byte behind the buffer.
\<close>

theorem urlify_roundtrip_and_bound:
  assumes "urlify_string True (Some s) = Some (n, t)"
  shows "url_decode (butlast t) = s \<and> (length t \<le> n \<longleftrightarrow> (\<exists>c\<in>set s. \<not> escaped c))
    \<and> length t \<le> n + 1"
proof -
  have t: "n = 3 * length s" "t = urlify_loop s @ [NUL]" using assms by (auto simp: urlify_string_def)
  have le: "length (filter escaped s) \<le> length s" by (rule length_filter_le)
  then have "length t \<le> n \<longleftrightarrow> length (filter escaped s) \<noteq> length s" "length t \<le> n + 1"
    unfolding t urlify_length length_append by (simp_all, linarith)
  moreover have "length (filter escaped s) = length s \<longleftrightarrow> \<not> (\<exists>c\<in>set s. \<not> escaped c)"
    using filter_escaped_all by blast
  ultimately show ?thesis by (simp add: t url_decode_urlify)
qed

theorem urlify_roundtrip_and_bound_witness:
  "\<exists>n t. urlify_string True (Some ''&&'') = Some (n, t) \<and> url_decode (butlast t) = ''&&'' \<and> n < length t"
proof -
  obtain n t where e: "urlify_string True (Some ''&&'') = Some (n, t)" by (simp add: urlify_string_def)
  from urlify_roundtrip_and_bound [OF e] e show ?thesis by (auto simp: escaped_def allowed_def)
qed

text \<open>
  Decoding entities never needs more room than its buffer has: every replacement is at most as
  long as the reference it replaces, and the cursor never moves behind the end of the input.
\<close>

lemma unentitify_fits:
  assumes "unentitify_string True (Some s) = Some (n, t)"
  shows "length t < n \<and> (CHR ''&'' \<notin> set s \<longrightarrow> butlast t = s)"
proof -
  have t: "n = length s + 2" "t = unentitify_loop s @ [NUL]" using assms by (auto simp: unentitify_string_def)
  have "CHR ''&'' \<notin> set s \<Longrightarrow> unentitify_loop s = s" for s
    by (induction s) (auto simp: unentitify_loop.simps)
  with t unentitify_length [of s] show ?thesis by simp
qed

lemma unentitify_fits_example:
  "\<exists>n t. unentitify_string True (Some ''a&lt;b'') = Some (n, t) \<and> length t < n"
proof -
  obtain n t where e: "unentitify_string True (Some ''a&lt;b'') = Some (n, t)" by (simp add: unentitify_string_def)
  from unentitify_fits [OF e] e show ?thesis by blast
qed

end
