(* ===== verification/Nfs_Xdr.thy ===== *)
theory Nfs_Xdr
  imports Prelude
begin

text \<open>
  The XDR packets of the NFS client: \<^verbatim>\<open>src/add-ons/kernel/file_systems/nfs/XDROutPacket.c\<close> builds
  requests in a buffer that grows by fixed increments, \<^verbatim>\<open>XDRInPacket.c\<close> reads replies. The model keeps the
  allocated buffer with its size and length; memory fresh from \<open>realloc\<close> has unknown contents,
  copies from and to user addresses may fail, and allocation is assumed to succeed because the
  code does not test it. The locale \<open>packet_codec\<close> states what a writer and a reader have to agree
  on; the model's operations are an instance, which gives the round trip.
\<close>

subsection \<open>Outgoing packets\<close>

record XDROutPacket =
  o_buffer :: "uint8 list"
  o_size :: nat
  o_length :: nat

definition XDROutPacketBuffer :: "XDROutPacket \<Rightarrow> uint8 list" where
  "XDROutPacketBuffer p = o_buffer p"

definition XDROutPacketLength :: "XDROutPacket \<Rightarrow> nat" where
  "XDROutPacketLength p = o_length p"

definition XDROutPacketInit :: XDROutPacket where
  "XDROutPacketInit = \<lparr>o_buffer = [], o_size = 0, o_length = 0\<rparr>"

definition XDROUTPACKET_BUFFER_INCREMENT :: nat where "XDROUTPACKET_BUFFER_INCREMENT = 512"

function grow_loop :: "nat \<Rightarrow> nat \<Rightarrow> nat" where
  "grow_loop need sz = (if sz < need then grow_loop need (sz + XDROUTPACKET_BUFFER_INCREMENT) else sz)"
  by pat_completeness auto
termination by (relation "measure (\<lambda>(need, sz). need - sz)") (auto simp: XDROUTPACKET_BUFFER_INCREMENT_def)

declare grow_loop.simps [simp del]

text \<open>
  \<open>realloc\<close> keeps the old bytes; what the new ones hold is unknown and given by \<open>mem\<close>.
\<close>

definition XDROutPacketGrow :: "(nat \<Rightarrow> uint8) \<Rightarrow> XDROutPacket \<Rightarrow> nat \<Rightarrow> XDROutPacket" where
  "XDROutPacketGrow mem p n =
     (if o_size p < o_length p + n
      then (let sz = grow_loop (o_length p + n) (o_size p)
            in p\<lparr>o_size := sz, o_buffer := o_buffer p @ map mem [o_size p..<sz]\<rparr>)
      else p)"

definition poke :: "uint8 list \<Rightarrow> nat \<Rightarrow> uint8 list \<Rightarrow> uint8 list" where
  "poke xs i ys = take i xs @ ys @ drop (i + length ys) xs"

definition be32 :: "uint32 \<Rightarrow> uint8 list" where
  "be32 w = [ucast (drop_bit 24 w), ucast (drop_bit 16 w), ucast (drop_bit 8 w), ucast w]"

definition XDROutPacketAddInt32 :: "(nat \<Rightarrow> uint8) \<Rightarrow> XDROutPacket \<Rightarrow> uint32 \<Rightarrow> XDROutPacket" where
  "XDROutPacketAddInt32 mem p v =
     (let p = XDROutPacketGrow mem p 4
      in p\<lparr>o_buffer := poke (o_buffer p) (o_length p) (be32 v), o_length := o_length p + 4\<rparr>)"

text \<open>
  \<open>(size + 3) & ~3\<close>. The source \<open>data\<close> is either a kernel address or a user address; the latter may fail.
\<close>

definition round4 :: "nat \<Rightarrow> nat" where "round4 n = (n + 3) div 4 * 4"

datatype source = KernelData "uint8 list" | UserData "uint8 list option"

fun source_bytes :: "source \<Rightarrow> uint8 list option" where
  "source_bytes (KernelData b) = Some b"
| "source_bytes (UserData r) = r"

definition XDROutPacketAddFixed :: "(nat \<Rightarrow> uint8) \<Rightarrow> XDROutPacket \<Rightarrow> source \<Rightarrow> nat \<Rightarrow> status \<times> XDROutPacket" where
  "XDROutPacketAddFixed mem p data n =
     (let roundedSize = round4 n;
          p = XDROutPacketGrow mem p roundedSize
      in case source_bytes data of
           None \<Rightarrow> (B_BAD_ADDRESS, p)
         | Some b \<Rightarrow>
             let buf = poke (o_buffer p) (o_length p) (take n b);
                 buf = poke buf (o_length p + n) (replicate (roundedSize - n) 0)
             in (B_OK, p\<lparr>o_buffer := buf, o_length := o_length p + roundedSize\<rparr>))"

definition XDROutPacketAddDynamic :: "(nat \<Rightarrow> uint8) \<Rightarrow> XDROutPacket \<Rightarrow> source \<Rightarrow> nat \<Rightarrow> status \<times> XDROutPacket" where
  "XDROutPacketAddDynamic mem p data n =
     XDROutPacketAddFixed mem (XDROutPacketAddInt32 mem p (of_nat n)) data n"

definition string_bytes :: "string \<Rightarrow> uint8 list" where
  "string_bytes s = map (\<lambda>c. of_nat (code c)) s"

definition XDROutPacketAddString :: "(nat \<Rightarrow> uint8) \<Rightarrow> XDROutPacket \<Rightarrow> string \<Rightarrow> status \<times> XDROutPacket" where
  "XDROutPacketAddString mem p s = XDROutPacketAddDynamic mem p (KernelData (string_bytes s)) (length s)"

definition XDROutPacketAppend :: "(nat \<Rightarrow> uint8) \<Rightarrow> XDROutPacket \<Rightarrow> XDROutPacket \<Rightarrow> XDROutPacket" where
  "XDROutPacketAppend mem me p =
     (let me = XDROutPacketGrow mem me (o_length p)
      in me\<lparr>o_buffer := poke (o_buffer me) (o_length me) (take (o_length p) (o_buffer p)),
            o_length := o_length me + o_length p\<rparr>)"

definition XDROutPacketClear :: "XDROutPacket \<Rightarrow> XDROutPacket" where
  "XDROutPacketClear p = p\<lparr>o_length := 0\<rparr>"

subsection \<open>Incoming packets\<close>

text \<open>
  The accessors do not compare the offset with the length of the buffer. A read that leaves the
  buffer is the value \<open>None\<close> of the model, where the C code reads foreign memory.
\<close>

record XDRInPacket =
  i_buffer :: "uint8 list"
  i_offset :: nat

definition XDRInPacketInit :: XDRInPacket where
  "XDRInPacketInit = \<lparr>i_buffer = [], i_offset = 0\<rparr>"

definition XDRInPacketSetTo :: "XDRInPacket \<Rightarrow> uint8 list \<Rightarrow> nat \<Rightarrow> XDRInPacket" where
  "XDRInPacketSetTo p buffer off = p\<lparr>i_buffer := buffer, i_offset := off\<rparr>"

definition slice :: "uint8 list \<Rightarrow> nat \<Rightarrow> nat \<Rightarrow> uint8 list option" where
  "slice b i n = (if i + n \<le> length b then Some (take n (drop i b)) else None)"

definition from_be32 :: "uint8 list \<Rightarrow> uint32" where
  "from_be32 b = push_bit 24 (ucast (b ! 0)) OR push_bit 16 (ucast (b ! 1)) OR push_bit 8 (ucast (b ! 2)) OR ucast (b ! 3)"

definition XDRInPacketGetInt32 :: "XDRInPacket \<Rightarrow> (uint32 \<times> XDRInPacket) option" where
  "XDRInPacketGetInt32 p =
     (case slice (i_buffer p) (i_offset p) 4 of
        None \<Rightarrow> None
      | Some b \<Rightarrow> Some (from_be32 b, p\<lparr>i_offset := i_offset p + 4\<rparr>))"

text \<open>\<open>copy_ok\<close> is the result of the copy to a user address; for a kernel address it is true.\<close>

definition XDRInPacketGetFixed :: "bool \<Rightarrow> XDRInPacket \<Rightarrow> nat \<Rightarrow> ((status \<times> uint8 list) \<times> XDRInPacket) option" where
  "XDRInPacketGetFixed copy_ok p len =
     (case slice (i_buffer p) (i_offset p) len of
        None \<Rightarrow> None
      | Some b \<Rightarrow>
          if copy_ok then Some ((B_OK, b), p\<lparr>i_offset := i_offset p + round4 len\<rparr>)
          else Some ((B_BAD_ADDRESS, []), p))"

text \<open>The \<open>int32\<close> is converted to \<open>size_t\<close> with sign extension.\<close>

definition XDRInPacketGetDynamic :: "bool \<Rightarrow> XDRInPacket \<Rightarrow> ((status \<times> uint8 list) \<times> XDRInPacket) option" where
  "XDRInPacketGetDynamic copy_ok p =
     (case XDRInPacketGetInt32 p of
        None \<Rightarrow> None
      | Some (w, p) \<Rightarrow> XDRInPacketGetFixed copy_ok p (unat (scast w :: uint64)))"

definition XDRInPacketGetString :: "XDRInPacket \<Rightarrow> (uint8 list \<times> XDRInPacket) option" where
  "XDRInPacketGetString p =
     (case XDRInPacketGetInt32 p of
        None \<Rightarrow> None
      | Some (w, p) \<Rightarrow>
          if sint w < 0 then None
          else (case XDRInPacketGetFixed True p (unat w) of
                  None \<Rightarrow> None
                | Some ((st, b), p) \<Rightarrow> Some (b, p)))"

subsection \<open>What a packet holds\<close>

definition out_inv :: "XDROutPacket \<Rightarrow> bool" where
  "out_inv p \<longleftrightarrow> length (o_buffer p) = o_size p \<and> o_length p \<le> o_size p \<and> 512 dvd o_size p \<and> 4 dvd o_length p"

definition out_bytes :: "XDROutPacket \<Rightarrow> uint8 list" where
  "out_bytes p = take (o_length p) (o_buffer p)"

lemma grow_loop_ge: "need \<le> grow_loop need sz \<and> sz \<le> grow_loop need sz \<and> (512 dvd sz \<longrightarrow> 512 dvd grow_loop need sz)"
proof (induction need sz rule: grow_loop.induct)
  case (1 need sz)
  show ?case
  proof (cases "sz < need")
    case True
    with 1 show ?thesis by (simp add: grow_loop.simps [of need sz] XDROUTPACKET_BUFFER_INCREMENT_def)
  qed (simp add: grow_loop.simps [of need sz])
qed

lemma grow_law:
  assumes "out_inv p"
  shows "out_inv (XDROutPacketGrow mem p n) \<and> out_bytes (XDROutPacketGrow mem p n) = out_bytes p
    \<and> o_length (XDROutPacketGrow mem p n) = o_length p \<and> o_length p + n \<le> o_size (XDROutPacketGrow mem p n)"
  using grow_loop_ge [of "o_length p + n" "o_size p"] assms
  by (auto simp: XDROutPacketGrow_def Let_def out_inv_def out_bytes_def)

lemma poke_append:
  "i + length ys \<le> length xs \<Longrightarrow> length (poke xs i ys) = length xs
    \<and> take (i + length ys) (poke xs i ys) = take i xs @ ys \<and> take i (poke xs i ys) = take i xs"
  by (auto simp: poke_def)

lemma round4_props: "n \<le> round4 n" "4 dvd round4 n" "round4 n < n + 4"
  unfolding round4_def by presburger+

lemma add_int32_law:
  assumes "out_inv p"
  shows "out_inv (XDROutPacketAddInt32 mem p v) \<and> out_bytes (XDROutPacketAddInt32 mem p v) = out_bytes p @ be32 v"
proof -
  define q where "q = XDROutPacketGrow mem p 4"
  note g = grow_law [OF assms, of mem 4, folded q_def]
  have "length (be32 v) = 4" by (simp add: be32_def)
  then show ?thesis using g poke_append [of "o_length q" "be32 v" "o_buffer q"]
    unfolding XDROutPacketAddInt32_def Let_def q_def [symmetric]
    by (auto simp: out_inv_def out_bytes_def)
qed

definition fixed_bytes :: "uint8 list \<Rightarrow> uint8 list" where
  "fixed_bytes b = b @ replicate (round4 (length b) - length b) 0"

lemma length_fixed_bytes: "length (fixed_bytes b) = round4 (length b)"
  using round4_props(1) [of "length b"] by (simp add: fixed_bytes_def)

lemma add_fixed_law:
  assumes "out_inv p" "source_bytes data = Some b" "n = length b"
  shows "\<exists>p'. XDROutPacketAddFixed mem p data n = (B_OK, p') \<and> out_inv p' \<and> out_bytes p' = out_bytes p @ fixed_bytes b"
proof -
  define q where "q = XDROutPacketGrow mem p (round4 n)"
  note g = grow_law [OF assms(1), of mem "round4 n", folded q_def]
  define r where "r = replicate (round4 n - n) (0::uint8)"
  have lr: "length r = round4 n - n" "n \<le> round4 n" using round4_props by (simp_all add: r_def)
  have q: "length (o_buffer q) = o_size q" "o_length q + round4 n \<le> o_size q" using g by (auto simp: out_inv_def)
  have 1: "length (poke (o_buffer q) (o_length q) b) = length (o_buffer q)"
    "take (o_length q + n) (poke (o_buffer q) (o_length q) b) = take (o_length q) (o_buffer q) @ b"
    using poke_append [of "o_length q" b "o_buffer q"] q lr assms(3) by auto
  define buf where "buf = poke (poke (o_buffer q) (o_length q) b) (o_length q + n) r"
  have 2: "length buf = o_size q" "take (o_length q + n + (round4 n - n)) buf = take (o_length q) (o_buffer q) @ b @ r"
    using poke_append [of "o_length q + n" r "poke (o_buffer q) (o_length q) b"] 1 q lr
    by (simp_all add: buf_def)
  have "XDROutPacketAddFixed mem p data n = (B_OK, q\<lparr>o_buffer := buf, o_length := o_length q + round4 n\<rparr>)"
    unfolding XDROutPacketAddFixed_def Let_def q_def [symmetric] r_def [symmetric] assms(2) option.case buf_def
    using assms(3) by simp
  then show ?thesis
    using 2 g q lr round4_props(2) [of n] assms(3)
    by (auto simp: out_inv_def out_bytes_def fixed_bytes_def r_def)
qed

lemma from_be32_be32: "from_be32 (be32 w) = w"
proof -
  have "from_be32 (be32 w) = push_bit 24 (ucast (ucast (drop_bit 24 w) :: uint8))
      OR push_bit 16 (ucast (ucast (drop_bit 16 w) :: uint8))
      OR push_bit 8 (ucast (ucast (drop_bit 8 w) :: uint8)) OR ucast (ucast w :: uint8)"
    by (simp only: from_be32_def be32_def nth_Cons_0 One_nat_def nth_Cons_Suc numeral_2_eq_2 numeral_3_eq_3)
  also have "\<dots> = w"
  proof (rule bit_word_eqI)
    fix n assume "n < LENGTH(32)"
    then consider "n < 8" | "8 \<le> n" "n < 16" | "16 \<le> n" "n < 24" | "24 \<le> n" "n < 32" by fastforce
    then show "bit (push_bit 24 (ucast (ucast (drop_bit 24 w) :: uint8))
      OR push_bit 16 (ucast (ucast (drop_bit 16 w) :: uint8))
      OR push_bit 8 (ucast (ucast (drop_bit 8 w) :: uint8)) OR ucast (ucast w :: uint8) :: uint32) n = bit w n"
      by cases (simp_all only: bit_or_iff bit_push_bit_iff bit_unsigned_iff bit_drop_bit_eq comp_apply, auto)
  qed
  finally show ?thesis .
qed

subsection \<open>Items\<close>

text \<open>
  What the callers put into a packet, one item per call, the bytes it occupies, and the calls that
  add it and read it. Reading an opaque block of fixed length needs that length.
\<close>

datatype xdr_item = XInt uint32 | XFixed "uint8 list" | XDynamic "uint8 list" | XString "uint8 list"

datatype xdr_kind = KInt | KFixed nat | KDynamic | KString

fun kind_of :: "xdr_item \<Rightarrow> xdr_kind" where
  "kind_of (XInt w) = KInt" | "kind_of (XFixed b) = KFixed (length b)"
| "kind_of (XDynamic b) = KDynamic" | "kind_of (XString b) = KString"

fun item_bytes :: "xdr_item \<Rightarrow> uint8 list" where
  "item_bytes (XInt w) = be32 w" | "item_bytes (XFixed b) = fixed_bytes b"
| "item_bytes (XDynamic b) = be32 (of_nat (length b)) @ fixed_bytes b"
| "item_bytes (XString b) = be32 (of_nat (length b)) @ fixed_bytes b"

fun item_ok :: "xdr_item \<Rightarrow> bool" where
  "item_ok (XInt w) = True" | "item_ok (XFixed b) = True"
| "item_ok (XDynamic b) = (length b < 2 ^ 31)" | "item_ok (XString b) = (length b < 2 ^ 31)"

fun add_item :: "(nat \<Rightarrow> uint8) \<Rightarrow> XDROutPacket \<Rightarrow> xdr_item \<Rightarrow> XDROutPacket" where
  "add_item mem p (XInt w) = XDROutPacketAddInt32 mem p w"
| "add_item mem p (XFixed b) = snd (XDROutPacketAddFixed mem p (KernelData b) (length b))"
| "add_item mem p (XDynamic b) = snd (XDROutPacketAddDynamic mem p (KernelData b) (length b))"
| "add_item mem p (XString b) = snd (XDROutPacketAddDynamic mem p (KernelData b) (length b))"

fun get_item :: "XDRInPacket \<Rightarrow> xdr_kind \<Rightarrow> (xdr_item \<times> XDRInPacket) option" where
  "get_item p KInt = map_option (\<lambda>(w, p). (XInt w, p)) (XDRInPacketGetInt32 p)"
| "get_item p (KFixed n) = map_option (\<lambda>((st, b), p). (XFixed b, p)) (XDRInPacketGetFixed True p n)"
| "get_item p KDynamic = map_option (\<lambda>((st, b), p). (XDynamic b, p)) (XDRInPacketGetDynamic True p)"
| "get_item p KString = map_option (\<lambda>(b, p). (XString b, p)) (XDRInPacketGetString p)"

fun get_items :: "('r \<Rightarrow> 'k \<Rightarrow> ('i \<times> 'r) option) \<Rightarrow> 'r \<Rightarrow> 'k list \<Rightarrow> 'i list option" where
  "get_items get p [] = Some []"
| "get_items get p (k # ks) =
     (case get p k of None \<Rightarrow> None | Some (x, p) \<Rightarrow> map_option ((#) x) (get_items get p ks))"

locale packet_codec =
  fixes inv :: "'s \<Rightarrow> bool" and bytes :: "'s \<Rightarrow> 'b list" and add :: "'s \<Rightarrow> 'i \<Rightarrow> 's"
    and get :: "'r \<Rightarrow> 'k \<Rightarrow> ('i \<times> 'r) option" and reader :: "'b list \<Rightarrow> nat \<Rightarrow> 'r"
    and enc :: "'i \<Rightarrow> 'b list" and kind :: "'i \<Rightarrow> 'k" and ok :: "'i \<Rightarrow> bool"
  assumes add_law: "inv s \<Longrightarrow> inv (add s x) \<and> bytes (add s x) = bytes s @ enc x"
    and get_law: "ok x \<Longrightarrow> get (reader (pre @ enc x @ post) (length pre)) (kind x)
      = Some (x, reader (pre @ enc x @ post) (length pre + length (enc x)))"
begin

lemma add_all: "inv s \<Longrightarrow> inv (foldl add s xs) \<and> bytes (foldl add s xs) = bytes s @ concat (map enc xs)"
proof (induction xs arbitrary: s)
  case (Cons x xs)
  with add_law [of s x] show ?case by simp
qed simp

lemma get_all:
  "\<forall>x\<in>set xs. ok x \<Longrightarrow> get_items get (reader (pre @ concat (map enc xs) @ post) (length pre)) (map kind xs) = Some xs"
proof (induction xs arbitrary: pre)
  case (Cons x xs)
  then show ?case
    using get_law [of x pre "concat (map enc xs) @ post"] Cons.IH [of "pre @ enc x"] by simp
qed simp

lemma roundtrip:
  assumes "inv s" "\<forall>x\<in>set xs. ok x"
  shows "get_items get (reader (bytes (foldl add s xs)) (length (bytes s))) (map kind xs) = Some xs"
  using add_all [OF assms(1), of xs] get_all [OF assms(2), of "bytes s" "[]"] by simp

end

lemma length_be32 [simp]: "length (be32 w) = 4"
  by (simp add: be32_def)

lemma slice_middle: "slice (pre @ b @ post) (length pre) (length b) = Some b"
  by (simp add: slice_def)

definition reader_at :: "uint8 list \<Rightarrow> nat \<Rightarrow> XDRInPacket" where
  "reader_at b off = XDRInPacketSetTo XDRInPacketInit b off"

lemma get_int32_at: "XDRInPacketGetInt32 (reader_at (pre @ be32 w @ post) (length pre))
    = Some (w, reader_at (pre @ be32 w @ post) (length pre + 4))"
proof -
  have "slice (pre @ be32 w @ post) (length pre) 4 = Some (be32 w)"
    using slice_middle [of pre "be32 w" post] by simp
  then show ?thesis
    by (simp add: XDRInPacketGetInt32_def reader_at_def XDRInPacketSetTo_def from_be32_be32)
qed

lemma get_fixed_at: "XDRInPacketGetFixed True (reader_at (pre @ fixed_bytes b @ post) (length pre)) (length b)
    = Some ((B_OK, b), reader_at (pre @ fixed_bytes b @ post) (length pre + length (fixed_bytes b)))"
  using slice_middle [of pre b "replicate (round4 (length b) - length b) 0 @ post"]
  by (simp add: XDRInPacketGetFixed_def reader_at_def XDRInPacketSetTo_def length_fixed_bytes)
    (simp add: fixed_bytes_def)

lemma size_roundtrip:
  assumes "n < 2 ^ 31"
  shows "unat (scast (of_nat n :: uint32) :: uint64) = n" "unat (of_nat n :: uint32) = n" "\<not> sint (of_nat n :: uint32) < 0"
proof -
  have s: "sint (of_nat n :: uint32) = int n"
  proof -
    have "sint (word_of_int (int n) :: uint32) = int n"
      using assms by (subst sint_sbintrunc') (simp add: signed_take_bit_int_eq_self)
    then show ?thesis by simp
  qed
  then show "\<not> sint (of_nat n :: uint32) < 0" by simp
  show "unat (of_nat n :: uint32) = n" using assms by (simp add: unsigned_of_nat take_bit_nat_eq_self)
  have "(scast (of_nat n :: uint32) :: uint64) = of_nat n"
    using s by (simp add: scast_eq)
  then show "unat (scast (of_nat n :: uint32) :: uint64) = n"
    using assms by (simp add: unsigned_of_nat take_bit_nat_eq_self)
qed

lemma get_item_at:
  assumes "item_ok x"
  shows "get_item (reader_at (pre @ item_bytes x @ post) (length pre)) (kind_of x)
    = Some (x, reader_at (pre @ item_bytes x @ post) (length pre + length (item_bytes x)))"
proof -
  have dyn: "XDRInPacketGetInt32 (reader_at (pre @ (be32 (of_nat (length b)) @ fixed_bytes b) @ post) (length pre))
      = Some (of_nat (length b), reader_at ((pre @ be32 (of_nat (length b))) @ fixed_bytes b @ post)
          (length (pre @ be32 (of_nat (length b)))))" for b
    using get_int32_at [of pre "of_nat (length b)" "fixed_bytes b @ post"] by simp
  show ?thesis
  proof (cases x)
    case (XInt w)
    then show ?thesis by (simp add: get_int32_at)
  next
    case (XFixed b)
    then show ?thesis by (simp add: get_fixed_at)
  next
    case (XDynamic b)
    then have "length b < 2 ^ 31" using assms by simp
    then show ?thesis
      using get_fixed_at [of "pre @ be32 (of_nat (length b))" b post]
      unfolding XDynamic kind_of.simps item_bytes.simps get_item.simps XDRInPacketGetDynamic_def dyn
      by (simp add: size_roundtrip add.assoc)
  next
    case (XString b)
    then have "length b < 2 ^ 31" using assms by simp
    then show ?thesis
      using get_fixed_at [of "pre @ be32 (of_nat (length b))" b post]
      unfolding XString kind_of.simps item_bytes.simps get_item.simps XDRInPacketGetString_def dyn
      by (simp add: size_roundtrip add.assoc)
  qed
qed

lemma add_item_law:
  assumes "out_inv p"
  shows "out_inv (add_item mem p x) \<and> out_bytes (add_item mem p x) = out_bytes p @ item_bytes x"
proof -
  have dyn: "out_inv (snd (XDROutPacketAddDynamic mem p (KernelData b) (length b)))
      \<and> out_bytes (snd (XDROutPacketAddDynamic mem p (KernelData b) (length b)))
        = out_bytes p @ be32 (of_nat (length b)) @ fixed_bytes b" for b
  proof -
    note i = add_int32_law [OF assms, of mem "of_nat (length b)"]
    obtain q where "XDROutPacketAddFixed mem (XDROutPacketAddInt32 mem p (of_nat (length b))) (KernelData b) (length b) = (B_OK, q)"
      "out_inv q" "out_bytes q = out_bytes (XDROutPacketAddInt32 mem p (of_nat (length b))) @ fixed_bytes b"
      using add_fixed_law [of "XDROutPacketAddInt32 mem p (of_nat (length b))" "KernelData b" b] i by auto
    with i show ?thesis by (simp add: XDROutPacketAddDynamic_def)
  qed
  show ?thesis
  proof (cases x)
    case (XFixed b)
    with add_fixed_law [OF assms, of "KernelData b" b "length b" mem] show ?thesis by auto
  qed (use add_int32_law [OF assms] dyn in simp_all)
qed

interpretation xdr: packet_codec out_inv out_bytes "add_item mem" get_item reader_at item_bytes kind_of item_ok
  for mem
  by unfold_locales (simp_all only: add_item_law get_item_at)

lemma append_law:
  assumes "out_inv p" "out_inv q"
  shows "out_inv (XDROutPacketAppend mem p q) \<and> out_bytes (XDROutPacketAppend mem p q) = out_bytes p @ out_bytes q"
proof -
  define r where "r = XDROutPacketGrow mem p (o_length q)"
  note g = grow_law [OF assms(1), of mem "o_length q", folded r_def]
  have l: "length (take (o_length q) (o_buffer q)) = o_length q" using assms(2) by (simp add: out_inv_def)
  have "o_length r + length (take (o_length q) (o_buffer q)) \<le> length (o_buffer r)"
    unfolding l using g by (simp add: out_inv_def)
  note pk = poke_append [OF this, unfolded l]
  show ?thesis using g pk assms(2)
    unfolding XDROutPacketAppend_def Let_def r_def [symmetric] by (auto simp: out_inv_def out_bytes_def)
qed

lemma init_law: "out_inv XDROutPacketInit \<and> out_bytes XDROutPacketInit = []"
  by (simp add: XDROutPacketInit_def out_inv_def out_bytes_def)

subsection \<open>Properties\<close>

text \<open>
  C31: What is put into a packet comes out of it: any sequence of integers, fixed blocks, counted
  blocks and strings added to a packet is read back by the matching sequence of accessors, whatever
  the memory behind the packet held before; counted items are limited to \<open>2 ^ 31 - 1\<close> bytes.
\<close>

theorem xdr_roundtrip:
  assumes "out_inv p" "\<forall>x\<in>set xs. item_ok x"
  shows "get_items get_item (reader_at (out_bytes (foldl (add_item mem) p xs)) (length (out_bytes p))) (map kind_of xs) = Some xs"
  using assms by (rule xdr.roundtrip)

theorem xdr_roundtrip_witness:
  "get_items get_item (reader_at (out_bytes (foldl (add_item (\<lambda>i. 0xcc)) XDROutPacketInit
     [XInt 7, XString [104, 105], XFixed [1, 2, 3, 4, 5]])) (length (out_bytes XDROutPacketInit)))
     (map kind_of [XInt 7, XString [104, 105], XFixed [1, 2, 3, 4, 5]])
    = Some [XInt 7, XString [104, 105], XFixed [1, 2, 3, 4, 5]]"
  by (rule xdr_roundtrip) (simp_all add: init_law)

text \<open>
  Packets stay well-formed: every operation keeps the length within the allocated size, the size a
  multiple of the increment and the length a multiple of four, appends exactly the encoding of its
  argument, and an unreadable user buffer is reported without changing the contents.
\<close>

theorem xdr_out_invariant:
  assumes "out_inv p" "out_inv q"
  shows "out_inv (add_item mem p x) \<and> out_bytes (add_item mem p x) = out_bytes p @ item_bytes x
    \<and> out_inv (XDROutPacketAppend mem p q) \<and> out_bytes (XDROutPacketAppend mem p q) = out_bytes p @ out_bytes q
    \<and> out_inv (XDROutPacketClear p) \<and> out_bytes (XDROutPacketClear p) = []
    \<and> (\<exists>r. XDROutPacketAddFixed mem p (UserData None) n = (B_BAD_ADDRESS, r) \<and> out_inv r \<and> out_bytes r = out_bytes p)"
  using xdr.add_law [OF assms(1), of mem x] append_law [OF assms, of mem] assms(1)
    grow_law [OF assms(1), of mem "round4 n"]
  by (auto simp: XDROutPacketClear_def out_inv_def out_bytes_def XDROutPacketAddFixed_def Let_def)

theorem xdr_out_invariant_witness:
  "out_inv (XDROutPacketAppend (\<lambda>i. 0) (add_item (\<lambda>i. 0) XDROutPacketInit (XInt 1)) XDROutPacketInit)"
proof -
  have i: "out_inv XDROutPacketInit" using init_law by blast
  from xdr_out_invariant [OF i i, of "\<lambda>i. 0" "XInt 1" 0] have "out_inv (add_item (\<lambda>i. 0) XDROutPacketInit (XInt 1))" by blast
  from xdr_out_invariant [OF this i, of "\<lambda>i. 0" "XInt 1" 0] show ?thesis by blast
qed

end
