(* ===== verification/Nfs_Rpc.thy ===== *)
theory Nfs_Rpc
  imports Prelude
begin

text \<open>
  The table of outstanding remote procedure calls of the NFS client and its pool of semaphores
  (\<^verbatim>\<open>src/add-ons/kernel/file_systems/nfs/RPCPendingCalls.c\<close>). Callers add a call and wait on its
  semaphore; the thread that receives a reply takes the matching call out. Every operation runs
  under the semaphore of its object and is one step here; \<open>acquire_sem\<close> is repeated until it is not interrupted.
  The locale \<open>sem_stack\<close> is the contract of the pool that the table relies on.
\<close>

subsection \<open>The semaphore pool\<close>

text \<open>
  \<open>sp_pool\<close> is the allocated array, of which the first \<open>sp_count\<close> entries are valid.
  Semaphores are kernel objects: an identifier created by \<open>create_sem\<close> is an argument, and
  what the extension of the array by \<open>realloc\<close> holds is the argument \<open>mem\<close>. The pool's own semaphore
  makes each operation atomic.
\<close>

record SemaphorePool =
  sp_pool :: "int list"
  sp_count :: nat
  sp_size :: nat

definition SemaphorePoolInit :: SemaphorePool where
  "SemaphorePoolInit = \<lparr>sp_pool = [], sp_count = 0, sp_size = 0\<rparr>"

text \<open>The semaphores that \<open>SemaphorePoolDestroy\<close> deletes.\<close>

definition SemaphorePoolDestroy :: "SemaphorePool \<Rightarrow> int list" where
  "SemaphorePoolDestroy pool = map (\<lambda>i. sp_pool pool ! i) [0..<sp_count pool]"

definition SemaphorePoolGet :: "int \<Rightarrow> SemaphorePool \<Rightarrow> int \<times> SemaphorePool" where
  "SemaphorePoolGet created pool =
     (if sp_count pool = 0 then (created, pool)
      else (sp_pool pool ! (sp_count pool - 1), pool\<lparr>sp_count := sp_count pool - 1\<rparr>))"

definition SemaphorePoolPut :: "(nat \<Rightarrow> int) \<Rightarrow> SemaphorePool \<Rightarrow> int \<Rightarrow> SemaphorePool" where
  "SemaphorePoolPut mem pool sem =
     (let pool = (if sp_size pool < sp_count pool + 1
                  then pool\<lparr>sp_size := sp_size pool + 8,
                            sp_pool := sp_pool pool @ map mem [sp_size pool..<sp_size pool + 8]\<rparr>
                  else pool)
      in pool\<lparr>sp_pool := (sp_pool pool)[sp_count pool := sem], sp_count := sp_count pool + 1\<rparr>)"

subsection \<open>Pending calls\<close>

text \<open>
  The chain from \<open>fFirst\<close> is the list of its calls. The address of the peer is the pair
  of \<open>sin_addr\<close> and \<open>sin_port\<close>.
\<close>

record PendingCall =
  pc_sem :: int
  pc_addr :: "uint32 \<times> uint16"
  pc_xid :: uint32
  pc_buffer :: "uint8 list option"

definition PendingCallInit :: "int \<Rightarrow> uint32 \<times> uint16 \<Rightarrow> uint32 \<Rightarrow> PendingCall" where
  "PendingCallInit sem addr xid = \<lparr>pc_sem = sem, pc_addr = addr, pc_xid = xid, pc_buffer = None\<rparr>"

record RPCPendingCalls =
  rc_first :: "PendingCall list"
  rc_pool :: SemaphorePool

definition RPCPendingCallsInit :: RPCPendingCalls where
  "RPCPendingCallsInit = \<lparr>rc_first = [], rc_pool = SemaphorePoolInit\<rparr>"

definition RPCPendingCallsAddPendingCall ::
  "int \<Rightarrow> RPCPendingCalls \<Rightarrow> uint32 \<Rightarrow> uint32 \<times> uint16 \<Rightarrow> PendingCall \<times> RPCPendingCalls" where
  "RPCPendingCallsAddPendingCall created calls xid addr =
     (let (sem, pool) = SemaphorePoolGet created (rc_pool calls);
          call = PendingCallInit sem addr xid
      in (call, \<lparr>rc_first = call # rc_first calls, rc_pool = pool\<rparr>))"

definition call_matches :: "bool \<Rightarrow> uint32 \<Rightarrow> uint32 \<times> uint16 \<Rightarrow> PendingCall \<Rightarrow> bool" where
  "call_matches no_check xid addr c \<longleftrightarrow>
     pc_xid c = xid \<and> ((fst (pc_addr c) = fst addr \<and> snd (pc_addr c) = snd addr) \<or> no_check)"

fun find_loop :: "bool \<Rightarrow> uint32 \<Rightarrow> uint32 \<times> uint16 \<Rightarrow> PendingCall list \<Rightarrow> PendingCall list
    \<Rightarrow> PendingCall option \<times> PendingCall list" where
  "find_loop no_check xid addr before [] = (None, before)"
| "find_loop no_check xid addr before (c # cs) =
     (if call_matches no_check xid addr c then (Some c, before @ cs)
      else find_loop no_check xid addr (before @ [c]) cs)"

definition RPCPendingCallsFindAndRemovePendingCall ::
  "bool \<Rightarrow> RPCPendingCalls \<Rightarrow> uint32 \<Rightarrow> uint32 \<times> uint16 \<Rightarrow> PendingCall option \<times> RPCPendingCalls" where
  "RPCPendingCallsFindAndRemovePendingCall no_check calls xid addr =
     (let (r, cs) = find_loop no_check xid addr [] (rc_first calls) in (r, calls\<lparr>rc_first := cs\<rparr>))"

fun destroy_loop :: "(nat \<Rightarrow> int) \<Rightarrow> SemaphorePool \<Rightarrow> PendingCall list \<Rightarrow> SemaphorePool" where
  "destroy_loop mem pool [] = pool"
| "destroy_loop mem pool (c # cs) = destroy_loop mem (SemaphorePoolPut mem pool (pc_sem c)) cs"

text \<open>The semaphores deleted with the table.\<close>

definition RPCPendingCallsDestroy :: "(nat \<Rightarrow> int) \<Rightarrow> RPCPendingCalls \<Rightarrow> int list" where
  "RPCPendingCallsDestroy mem calls = SemaphorePoolDestroy (destroy_loop mem (rc_pool calls) (rc_first calls))"

subsection \<open>Invariants\<close>

definition pool_ok :: "SemaphorePool \<Rightarrow> bool" where
  "pool_ok pool \<longleftrightarrow> length (sp_pool pool) = sp_size pool \<and> sp_count pool \<le> sp_size pool"

definition pool_sems :: "SemaphorePool \<Rightarrow> int list" where
  "pool_sems pool = take (sp_count pool) (sp_pool pool)"

locale sem_stack =
  fixes inv :: "'p \<Rightarrow> bool" and sems :: "'p \<Rightarrow> int list"
    and get :: "int \<Rightarrow> 'p \<Rightarrow> int \<times> 'p" and put :: "'p \<Rightarrow> int \<Rightarrow> 'p"
  assumes get_law: "inv p \<Longrightarrow> inv (snd (get c p))
      \<and> (if sems p = [] then get c p = (c, p) else sems p = sems (snd (get c p)) @ [fst (get c p)])"
    and put_law: "inv p \<Longrightarrow> inv (put p s) \<and> sems (put p s) = sems p @ [s]"
begin

lemma put_get: "inv p \<Longrightarrow> fst (get c (put p s)) = s \<and> sems (snd (get c (put p s))) = sems p"
  using put_law [of p s] get_law [of "put p s" c] by auto

lemma get_mset: "inv p \<Longrightarrow> add_mset (fst (get c p)) (mset (sems (snd (get c p))))
    = (if sems p = [] then {#c#} else mset (sems p))"
proof -
  assume "inv p"
  with get_law [of p c] have "sems p = [] \<Longrightarrow> get c p = (c, p)"
    "sems p \<noteq> [] \<Longrightarrow> sems p = sems (snd (get c p)) @ [fst (get c p)]"
    by (auto split: if_splits)
  then show ?thesis by (cases "sems p = []") (simp, metis mset_append add_mset_add_single mset_single_iff_right)
qed

end

lemma pool_put_law:
  assumes "pool_ok p"
  shows "pool_ok (SemaphorePoolPut mem p s) \<and> pool_sems (SemaphorePoolPut mem p s) = pool_sems p @ [s]"
proof -
  define q where "q = (if sp_size p < sp_count p + 1
      then p\<lparr>sp_size := sp_size p + 8, sp_pool := sp_pool p @ map mem [sp_size p..<sp_size p + 8]\<rparr> else p)"
  have q: "sp_count q = sp_count p" "sp_count q < length (sp_pool q)" "length (sp_pool q) = sp_size q"
    "take (sp_count p) (sp_pool q) = take (sp_count p) (sp_pool p)"
    using assms by (auto simp: q_def pool_ok_def)
  have "SemaphorePoolPut mem p s = q\<lparr>sp_pool := (sp_pool q)[sp_count q := s], sp_count := sp_count q + 1\<rparr>"
    by (simp only: SemaphorePoolPut_def Let_def flip: q_def)
  then show ?thesis using q by (simp add: pool_ok_def pool_sems_def take_Suc_conv_app_nth)
qed

lemma pool_get_law:
  assumes "pool_ok p"
  shows "pool_ok (snd (SemaphorePoolGet c p)) \<and> (if pool_sems p = [] then SemaphorePoolGet c p = (c, p)
    else pool_sems p = pool_sems (snd (SemaphorePoolGet c p)) @ [fst (SemaphorePoolGet c p)])"
proof (cases "sp_count p")
  case (Suc n)
  then have "take (Suc n) (sp_pool p) = take n (sp_pool p) @ [sp_pool p ! n]"
    using assms by (simp add: pool_ok_def take_Suc_conv_app_nth)
  with Suc assms show ?thesis by (auto simp: SemaphorePoolGet_def pool_ok_def pool_sems_def)
qed (use assms in \<open>simp add: SemaphorePoolGet_def pool_sems_def\<close>)

interpretation sp: sem_stack pool_ok pool_sems SemaphorePoolGet "SemaphorePoolPut mem" for mem
  by unfold_locales (rule pool_get_law pool_put_law; assumption)+

lemma find_loop_spec:
  "find_loop nc xid addr bs cs
    = (find (call_matches nc xid addr) cs,
       bs @ (case find (call_matches nc xid addr) cs of None \<Rightarrow> cs
             | Some c \<Rightarrow> takeWhile (\<lambda>c. \<not> call_matches nc xid addr c) cs
                         @ tl (dropWhile (\<lambda>c. \<not> call_matches nc xid addr c) cs)))"
  by (induction cs arbitrary: bs) (auto split: option.splits)


definition call_key :: "PendingCall \<Rightarrow> uint32 \<times> uint32 \<times> uint16" where
  "call_key c = (pc_xid c, pc_addr c)"

text \<open>What a reply is matched by: its transaction and its sender, or the transaction alone when the setting
  \<open>conf_no_check_ip_xid\<close> is on.\<close>

definition reply_key :: "bool \<Rightarrow> uint32 \<times> uint32 \<times> uint16 \<Rightarrow> uint32 \<times> (uint32 \<times> uint16) option" where
  "reply_key no_check k = (fst k, if no_check then None else Some (snd k))"

lemma call_matches_key: "call_matches nc (fst k) (snd k) c \<longleftrightarrow> reply_key nc (call_key c) = reply_key nc k"
  by (auto simp: call_matches_def call_key_def reply_key_def prod_eq_iff)

lemma unique_find:
  assumes "distinct (map (reply_key nc \<circ> call_key) cs)"
  shows "find_loop nc (fst k) (snd k) bs cs
    = (find (\<lambda>c. reply_key nc (call_key c) = reply_key nc k) cs, bs @ filter (\<lambda>c. reply_key nc (call_key c) \<noteq> reply_key nc k) cs)"
  using assms
proof (induction cs arbitrary: bs)
  case (Cons c cs)
  show ?case
  proof (cases "reply_key nc (call_key c) = reply_key nc k")
    case True
    have "reply_key nc (call_key x) \<noteq> reply_key nc k" if "x \<in> set cs" for x
      using Cons.prems that True [symmetric] by (auto simp: image_iff)
    then have "filter (\<lambda>c. reply_key nc (call_key c) \<noteq> reply_key nc k) cs = cs" by (simp add: filter_id_conv)
    with True show ?thesis by (simp add: call_matches_key)
  next
    case False
    with Cons.IH [of "bs @ [c]"] Cons.prems show ?thesis by (simp add: call_matches_key)
  qed
qed simp

lemma find_and_remove_unique:
  assumes "distinct (map (reply_key nc \<circ> call_key) (rc_first calls))"
  shows "RPCPendingCallsFindAndRemovePendingCall nc calls (fst k) (snd k)
    = (find (\<lambda>c. reply_key nc (call_key c) = reply_key nc k) (rc_first calls),
       calls\<lparr>rc_first := filter (\<lambda>c. reply_key nc (call_key c) \<noteq> reply_key nc k) (rc_first calls)\<rparr>)"
  by (simp add: RPCPendingCallsFindAndRemovePendingCall_def unique_find [OF assms])

text \<open>Replies that arrive one after the other, each with a transaction and a sender, under the setting \<open>no_check\<close>.\<close>

fun reply_all :: "bool \<Rightarrow> RPCPendingCalls \<Rightarrow> (uint32 \<times> uint32 \<times> uint16) list \<Rightarrow> PendingCall option list \<times> RPCPendingCalls" where
  "reply_all no_check calls [] = ([], calls)"
| "reply_all no_check calls (k # ks) =
     (let (r, calls) = RPCPendingCallsFindAndRemovePendingCall no_check calls (fst k) (snd k);
          (rs, calls) = reply_all no_check calls ks
      in (r # rs, calls))"

lemma find_filter: "find P (filter Q xs) = find (\<lambda>x. P x \<and> Q x) xs"
  by (induction xs) auto

lemma reply_all_unique:
  assumes "distinct (map (reply_key nc \<circ> call_key) (rc_first calls))"
  shows "reply_all nc calls ks = (map (\<lambda>i. if reply_key nc (ks ! i) \<in> reply_key nc ` set (take i ks) then None
        else find (\<lambda>c. reply_key nc (call_key c) = reply_key nc (ks ! i)) (rc_first calls)) [0..<length ks],
    calls\<lparr>rc_first := filter (\<lambda>c. reply_key nc (call_key c) \<notin> reply_key nc ` set ks) (rc_first calls)\<rparr>)"
  using assms
proof (induction ks arbitrary: calls)
  case Nil
  then show ?case by simp
next
  case (Cons k ks)
  define calls' where "calls' = calls\<lparr>rc_first := filter (\<lambda>c. reply_key nc (call_key c) \<noteq> reply_key nc k) (rc_first calls)\<rparr>"
  have "rc_first calls' = filter (\<lambda>c. reply_key nc (call_key c) \<noteq> reply_key nc k) (rc_first calls)" by (simp add: calls'_def)
  then have d: "distinct (map (reply_key nc \<circ> call_key) (rc_first calls'))"
    by (simp only: distinct_map_filter [OF Cons.prems])
  have f: "find (\<lambda>c. reply_key nc (call_key c) = j) (rc_first calls') =
      (if j = reply_key nc k then None else find (\<lambda>c. reply_key nc (call_key c) = j) (rc_first calls))" for j
  proof -
    have "(\<lambda>c. reply_key nc (call_key c) = j \<and> reply_key nc (call_key c) \<noteq> reply_key nc k) =
        (\<lambda>c. j \<noteq> reply_key nc k \<and> reply_key nc (call_key c) = j)" by auto
    then show ?thesis by (simp add: calls'_def find_filter find_None_iff)
  qed
  have m: "map (\<lambda>i. if reply_key nc (ks ! i) \<in> reply_key nc ` set (take i ks) then None
        else find (\<lambda>c. reply_key nc (call_key c) = reply_key nc (ks ! i)) (rc_first calls')) [0..<length ks] =
      map (\<lambda>i. if reply_key nc ((k # ks) ! i) \<in> reply_key nc ` set (take i (k # ks)) then None
        else find (\<lambda>c. reply_key nc (call_key c) = reply_key nc ((k # ks) ! i)) (rc_first calls)) (map Suc [0..<length ks])"
    by (auto simp: f)
  have "filter (\<lambda>c. reply_key nc (call_key c) \<notin> reply_key nc ` set ks) (rc_first calls') =
      filter (\<lambda>c. reply_key nc (call_key c) \<notin> reply_key nc ` set (k # ks)) (rc_first calls)"
    by (auto simp: calls'_def intro: filter_cong)
  moreover have "[0..<length (k # ks)] = 0 # map Suc [0..<length ks]" by (simp add: map_Suc_upt upt_conv_Cons del: upt_Suc)
  ultimately show ?case using Cons.IH [OF d] unfolding m
    by (simp add: find_and_remove_unique [OF Cons.prems] calls'_def [symmetric] del: upt_Suc) (simp add: calls'_def)
qed

definition table_sems :: "RPCPendingCalls \<Rightarrow> int multiset" where
  "table_sems calls = mset (map pc_sem (rc_first calls)) + mset (pool_sems (rc_pool calls))"

lemma destroy_loop_sems:
  "pool_ok p \<Longrightarrow> pool_ok (destroy_loop mem p cs) \<and> pool_sems (destroy_loop mem p cs) = pool_sems p @ map pc_sem cs"
proof (induction cs arbitrary: p)
  case (Cons c cs)
  then show ?case using sp.put_law [of p mem "pc_sem c"] by simp
qed simp

lemma pool_destroy_sems: "pool_ok p \<Longrightarrow> SemaphorePoolDestroy p = pool_sems p"
  unfolding SemaphorePoolDestroy_def pool_sems_def pool_ok_def
  by (intro nth_equalityI) auto

subsection \<open>Properties\<close>

text \<open>
  C32: Replies find their calls in any order. A reply is matched by its transaction and its sender, or with the
  setting \<open>conf_no_check_ip_xid\<close> by the transaction alone. When no two calls of the table agree in that, a reply takes
  out exactly the call it answers, whatever the order of the replies; unknown replies, and all repetitions of a
  reply, get \<open>NULL\<close>; and the calls that were not answered stay in the table in their order.
\<close>

theorem rpc_replies_any_order:
  assumes "distinct (map (reply_key nc \<circ> call_key) (rc_first calls))"
  shows "reply_all nc calls ks = (map (\<lambda>i. if reply_key nc (ks ! i) \<in> reply_key nc ` set (take i ks) then None
        else find (\<lambda>c. reply_key nc (call_key c) = reply_key nc (ks ! i)) (rc_first calls)) [0..<length ks],
    calls\<lparr>rc_first := filter (\<lambda>c. reply_key nc (call_key c) \<notin> reply_key nc ` set ks) (rc_first calls)\<rparr>)"
  using assms by (rule reply_all_unique)

theorem rpc_replies_any_order_witness:
  "fst (reply_all False \<lparr>rc_first = [PendingCallInit 5 (1, 2) 7, PendingCallInit 6 (1, 2) 8], rc_pool = SemaphorePoolInit\<rparr>
      [(8, 1, 2), (9, 1, 2), (8, 1, 2), (7, 1, 2)])
    = [Some (PendingCallInit 6 (1, 2) 8), None, None, Some (PendingCallInit 5 (1, 2) 7)]"
  using rpc_replies_any_order [of False "\<lparr>rc_first = [PendingCallInit 5 (1, 2) 7, PendingCallInit 6 (1, 2) 8], rc_pool = SemaphorePoolInit\<rparr>"
      "[(8, 1, 2), (9, 1, 2), (8, 1, 2), (7, 1, 2)]"]
  by (simp add: call_key_def PendingCallInit_def reply_key_def upt_conv_Cons)

text \<open>
  C33: Semaphores are neither lost nor shared when calls are added and the table is destroyed: adding a call takes its semaphore from the pool, or
  takes the created one when the pool is empty, so that the semaphores of the table and the pool
  together change by at most the created one; destroying the table deletes every one of them once.
\<close>

theorem rpc_semaphores_conserved:
  assumes "pool_ok (rc_pool calls)" "RPCPendingCallsAddPendingCall created calls xid addr = (c, calls')"
  shows "table_sems calls' = table_sems calls + (if pool_sems (rc_pool calls) = [] then {#created#} else {#})
    \<and> pool_ok (rc_pool calls') \<and> rc_first calls' = c # rc_first calls \<and> call_key c = (xid, addr)
    \<and> mset (RPCPendingCallsDestroy mem calls') = table_sems calls'"
proof -
  define g where "g = SemaphorePoolGet created (rc_pool calls)"
  have c: "c = PendingCallInit (fst g) addr xid" "calls' = \<lparr>rc_first = c # rc_first calls, rc_pool = snd g\<rparr>"
    using assms(2) by (auto simp: RPCPendingCallsAddPendingCall_def Let_def g_def split: prod.splits)
  have ok: "pool_ok (snd g)" using sp.get_law [OF assms(1), of created] by (simp add: g_def)
  have m: "add_mset (fst g) (mset (pool_sems (snd g)))
      = (if pool_sems (rc_pool calls) = [] then {#created#} else mset (pool_sems (rc_pool calls)))"
    using sp.get_mset [OF assms(1), of created] by (simp add: g_def)
  have "mset (RPCPendingCallsDestroy mem calls') = table_sems calls'"
    using destroy_loop_sems [OF ok, of mem "c # rc_first calls"]
    by (simp add: RPCPendingCallsDestroy_def pool_destroy_sems c table_sems_def)
  moreover have "table_sems calls' = mset (map pc_sem (rc_first calls)) + add_mset (fst g) (mset (pool_sems (snd g)))"
    by (simp add: table_sems_def c PendingCallInit_def)
  then have "table_sems calls' = table_sems calls + (if pool_sems (rc_pool calls) = [] then {#created#} else {#})"
    unfolding m by (simp add: table_sems_def)
  ultimately show ?thesis using ok c by (simp add: call_key_def PendingCallInit_def)
qed

theorem rpc_semaphores_conserved_witness:
  "\<exists>c calls'. RPCPendingCallsAddPendingCall 42 RPCPendingCallsInit 7 (1, 2) = (c, calls') \<and> table_sems calls' = {#42#}"
proof -
  obtain c calls' where e: "RPCPendingCallsAddPendingCall 42 RPCPendingCallsInit 7 (1, 2) = (c, calls')"
    by fastforce
  have "pool_ok (rc_pool RPCPendingCallsInit)" by (simp add: RPCPendingCallsInit_def SemaphorePoolInit_def pool_ok_def)
  from rpc_semaphores_conserved [OF this e, of "\<lambda>i. 0"] e show ?thesis
    by (auto simp: RPCPendingCallsInit_def SemaphorePoolInit_def table_sems_def [of "\<lparr>rc_first = _, rc_pool = _\<rparr>"] pool_sems_def)
qed

end
