(* ===== verification/Spec2Isabelle.thy ===== *)
theory Spec2Isabelle
  imports Vm_UserAreaReserved Vm_AddressSpaceLocking Cache_BlockWriter Kernel_Mutex Kernel_RwLock Kernel_Strtol Kernel_Strtod Kernel_Inet Libroot_Sort
    Websearchfs_Lists Websearchfs_Store Nfs_Xdr Nfs_Rpc
begin

text \<open>
  Verification of components of Kintsugi OS, an operating system that continues Haiku: a kernel in C++ and C with its
  locks, caches and address spaces, kernel add-ons (file systems, drivers, network), the C library \<open>libroot\<close>, and the
  kits, servers and applications above them. The development models the locks of the kernel and two of their clients,
  the sorting routines these clients use, the AVL tree of the kernel and the user address space built on it, the text
  conversions of the kernel, and the self-contained parts of two file systems. All paths are below \<open>src/\<close>.

  \<^bold>\<open>Parts, theories and source files\<close>

  \<^item> \<open>Prelude\<close>: integer types, status codes, lemmas on lists, digits and words that several theories use.

  \<^item> \<open>Kernel_Waiters\<close>: the queues of waiter structures of mutexes and reader/writer locks
    (\<open>src/system/kernel/locks/lock.cpp\<close>) as linked structures in a store. The locale \<open>waiter_queue\<close> is what the locks
    rely on; it is interpreted for both removal loops of the source. A queue refines a list of distinct threads.

  \<^item> \<open>Kernel_Mutex\<close>: the mutex (\<open>lock.cpp\<close> and the inline parts in \<open>headers/private/kernel/lock.h\<close>) in its release build
    and in its debug build. Each atomic operation on \<open>count\<close> and each section under the spinlock is one function;
    \<open>mutex_step\<close> interleaves them for any number of threads. Shown are mutual exclusion, that the holders
    hand the mutex on in the order of the queue and nobody overtakes it, and that a timeout that meets a release breaks the exclusion of the release build.

  \<^item> \<open>Kernel_RwLock\<close>: the reader/writer lock of the same files, release build, with nested locks of the writer and
    timeouts of readers. The counters have the widths of the source; the runs are those within their capacity, fewer than
    \<open>2\<^sup>1\<^sup>5\<close> read locks, writers and nested write locks, which the code does not check. The invariant equates the fields of
    the lock with sums over the threads. Shown are the exclusion of writers and readers, that no operation panics but the
    one in which a timed read lock gives up, when this one crashes, and that no wakeup is lost.

  \<^item> \<open>Libroot_Sort\<close>: \<open>qsort\<close>, \<open>heapsort\<close>, \<open>bsearch\<close> of \<open>src/system/libroot/posix/stdlib\<close>, which the kernel links too. The
    locale \<open>comparator\<close> is the contract of the comparison functions; the clients below interpret it with theirs.

  \<^item> \<open>Cache_BlockWriter\<close>: the writer of the block cache (\<open>BlockWriter\<close> in \<open>src/system/kernel/cache/block_cache.cpp\<close>). Shown
    are which writes are issued, what becomes of the blocks of every run the device wrote and did not write, that marks
    and counts balance, and a run in which the wrong transaction leaves the hash table.

  \<^item> \<open>Vm_AddressSpaceLocking\<close>: the lockers of address spaces (\<open>src/system/kernel/vm/VMAddressSpaceLocking.cpp\<close>). Shown are the
    global lock order, that locking is all or nothing, and that references and locks balance.

  \<^item> \<open>Kernel_AvlTree\<close>, \<open>Kernel_AvlStore\<close>, \<open>Kernel_Avl\<close>: the intrusive AVL tree (\<open>src/system/kernel/util/AVLTreeBase.cpp\<close> and its
    header): nodes with parent links and balance factors in a store, rotations through the slots that hold the nodes.
    The locale \<open>rebalance\<close> is one balancing step, interpreted for insertion and removal; \<open>avl_compare\<close> and
    \<open>avl_compare_unit\<close> are the contract of the comparators. Shown are that insertion and removal refine those of sorted
    lists within the stacks of 32 entries, that searches and walks end with the right nodes, and that \<open>CheckTree\<close>
    accepts exactly the well-formed trees.

  \<^item> \<open>Vm_Areas\<close>: the tree of all areas (\<open>VMAreas\<close> in \<open>src/system/kernel/vm/VMArea.cpp\<close>), a client of the AVL tree that
    interprets the locale of its comparators.

  \<^item> \<open>Vm_UserAddressSpace\<close>, \<open>Vm_UserAreaInsert\<close>, \<open>Vm_UserAreaResize\<close>, \<open>Vm_UserAreaReserved\<close>: the user address space
    (\<open>src/system/kernel/vm/VMUserAddressSpace.cpp\<close>, \<open>VMUserArea.cpp\<close>): definitions, insertion, removal and resizing, and
    insertion into reserved ranges. The invariant says that the areas are apart, inside the space and in the order of the tree. Shown
    are that an inserted area overlaps no other for every kind of address specification (in spaces without reserved
    ranges; for the first area of a space, when it fits at the start of the search), that an exact insertion inside a reserved range succeeds and takes exactly its bytes from the range, that a
    resize that was allowed succeeds, and which areas look-ups and the release of reserved ranges reach.

  \<^item> \<open>Kernel_Strtol\<close>, \<open>Kernel_Bigint\<close>, \<open>Kernel_Strtod\<close>: the number parsers of \<open>src/system/kernel/lib\<close>; multiple-precision
    integers as lists of 32-bit words. Integers are kept at their width; the results are compared with mathematical
    values. The theory of \<open>strtod\<close> covers its integer routines and the comparison of its refinement loop.

  \<^item> \<open>Kernel_Inet\<close>: \<open>inet_aton\<close>, \<open>inet_ntop\<close> of \<open>src/system/kernel/util\<close>, as round trips and exact text forms, with the
    longest run of zero words specified on its own.

  \<^item> \<open>Websearchfs_Lists\<close>, \<open>Websearchfs_Store\<close>: lists in a store, the ring buffer, which refines a bounded byte queue, the pool of node
    identifiers with the memory it really allocates, and the text conversions of \<open>src/add-ons/kernel/file_systems/websearchfs\<close>.

  \<^item> \<open>Nfs_Xdr\<close>, \<open>Nfs_Rpc\<close>: packets and the table of pending calls of \<open>src/add-ons/kernel/file_systems/nfs\<close>.

  \<^bold>\<open>Conventions\<close>

  Structures are records, pointers are numbers into a store or optional values, errors are values, an access through a
  null pointer or a failed assertion is \<open>None\<close>, in the theories of areas a value of the type \<open>crash\<close>. Results of code
  outside the models (allocation, devices, timeouts, the scheduler) are arguments over which the theorems quantify. Loops are recursive functions with a termination
  proof; the loops over linked structures, which end only on well-formed ones, are partial functions, and the theorems
  show that they return. No fuel is used. Where a theorem has assumptions, a witness instantiates it.

  \<^bold>\<open>What the lemmas show\<close>

  Each theory has, in this order: the definitions, an invariant with introduction and destruction rules, one lemma per
  operation, and the properties. The lock theories prove the invariant by cases over the rules of the step relation;
  \<open>Cache_BlockWriter\<close> proves the loop over the array equal to a loop over runs of blocks; the sorting theory works
  with sortedness and permutation of index ranges; the number theories relate word lists to their values. The tree
  theories relate the store to functional trees and these to the list of their nodes; the theories of address spaces
  use only the laws on that list. Theorems of these theories bound the number of nodes by 9,227,464, from which on a tree
  may have the height 33 and overflow the stacks of the source.

  \<^bold>\<open>Not modelled\<close>

  The rest of the kernel (page queues, caches, page tables and the kernel address space, scheduler, teams and
  threads, file systems layer, device manager, allocators, signals, ports and semaphores), whose state is shared with hardware, interrupts and time; boot loader, drivers and
  network stack, which drive hardware; the kits, servers and applications, mostly user interface; vendored and
  generated code; build tools. Within the modelled files: names, tracing and debugger commands; in \<open>strtod\<close> the
  floating-point operations themselves; in the block cache everything but the writer; the wired ranges of an area. The search
  for room inside reserved ranges, when no hole is left, is defined, with a run that loses the new area, but has no
  general theorem. Interleavings are those of sequentially consistent steps: the memory orders of the atomic operations are not modelled.
\<close>

end
